(* ===== verification/Prelude.thy ===== *)
theory Prelude
  imports Main "HOL-Library.Word" "HOL-Library.Monad_Syntax"
begin

text \<open>
  Shared prelude of the Kaplar verification library: the machine integer types of
  \<^verbatim>\<open>src/src/common.h\<close>, the byte memory that the C pointers range over, bounded loads and
  stores on it, and the generic word and list lemmas the components share.

  A C pointer into a buffer is modelled by the bytes from that pointer to the end of the object it
  points into (or by that object and an offset).  A load or store outside the object is undefined
  behaviour in C; here it is the value \<^theory_text>\<open>None\<close>, so a theorem that an operation
  yields \<^theory_text>\<open>Some\<close> is also a memory-safety theorem.
\<close>

unbundle bit_operations_syntax

type_synonym u8 = "8 word"
type_synonym u16 = "16 word"
type_synonym u32 = "32 word"
type_synonym u64 = "64 word"
type_synonym bytes = "u8 list"

named_theorems kpl_mem "bounded loads and stores"
named_theorems kpl_inv "invariants of the components are preserved"
named_theorems kpl_codec "lengths and round trips of the byte codecs"

subsection \<open>Bounded loads and stores\<close>

definition mem_read :: "nat \<Rightarrow> nat \<Rightarrow> bytes \<Rightarrow> bytes option" where
  "mem_read off n mem =
     (if off + n \<le> length mem then Some (take n (drop off mem)) else None)"

definition mem_write :: "nat \<Rightarrow> bytes \<Rightarrow> bytes \<Rightarrow> bytes option" where
  "mem_write off bs mem =
     (if off + length bs \<le> length mem
      then Some (take off mem @ bs @ drop (off + length bs) mem) else None)"

lemma mem_read_eq_Some [kpl_mem]:
  "mem_read off n mem = Some bs \<longleftrightarrow> off + n \<le> length mem \<and> bs = take n (drop off mem)"
  by (auto simp: mem_read_def)

lemma mem_read_eq_None [kpl_mem]: "mem_read off n mem = None \<longleftrightarrow> length mem < off + n"
  by (auto simp: mem_read_def)

lemma mem_write_eq_Some [kpl_mem]:
  "mem_write off bs mem = Some mem' \<longleftrightarrow>
     off + length bs \<le> length mem \<and> mem' = take off mem @ bs @ drop (off + length bs) mem"
  by (auto simp: mem_write_def)

lemma mem_write_eq_None [kpl_mem]:
  "mem_write off bs mem = None \<longleftrightarrow> length mem < off + length bs"
  by (auto simp: mem_write_def)

lemma mem_write_length: "mem_write off bs mem = Some mem' \<Longrightarrow> length mem' = length mem"
  by (auto simp: kpl_mem)

lemma mem_read_write_same:
  "mem_write off bs mem = Some mem' \<Longrightarrow> mem_read off (length bs) mem' = Some bs"
  by (auto simp: kpl_mem)

lemma mem_read_write_below:
  assumes "mem_write off bs mem = Some mem'" and "i + n \<le> off"
  shows "mem_read i n mem' = mem_read i n mem"
proof -
  from assms have m: "off \<le> length mem"
      "mem' = take off mem @ bs @ drop (off + length bs) mem" "length mem' = length mem"
    by (auto simp: kpl_mem)
  have "take n (drop i mem') = take n (drop i (take off mem))"
    using assms(2) m by (simp add: take_drop)
  also have "\<dots> = take n (drop i mem)"
    using assms(2) by (simp add: take_drop)
  finally show ?thesis using assms(2) m by (simp add: mem_read_def)
qed

lemma mem_read_write_above:
  assumes "mem_write off bs mem = Some mem'" and "off + length bs \<le> i"
  shows "mem_read i n mem' = mem_read i n mem"
  using assms by (auto simp: mem_read_def mem_write_eq_Some)

lemma mem_write_read_back:
  "mem_read off n mem = Some bs \<Longrightarrow> mem_write off bs mem = Some mem"
  by (auto simp: kpl_mem min_def intro: append_take_drop_id [symmetric])
     (metis add.commute append_take_drop_id drop_drop)

subsection \<open>Lists\<close>

lemma list_8_cases [case_names short long]:
  obtains "length xs < 8"
  | b0 b1 b2 b3 b4 b5 b6 b7 rest where "xs = b0 # b1 # b2 # b3 # b4 # b5 # b6 # b7 # rest"
proof (cases "length xs < 8")
  case True
  then show thesis by (rule that(1))
next
  case False
  then obtain ys rest where "xs = ys @ rest" and "length ys = 8"
    by (metis append_take_drop_id length_take linorder_not_less min.absorb2)
  then show thesis
    by (auto simp: numeral_eq_Suc length_Suc_conv intro: that(2))
qed

lemma length_4_conv:
  "length xs = 4 \<longleftrightarrow> (\<exists>a b c d. xs = [a, b, c, d])"
  by (auto simp: numeral_eq_Suc length_Suc_conv)

lemma length_2_conv: "length xs = 2 \<longleftrightarrow> (\<exists>a b. xs = [a, b])"
  by (auto simp: numeral_eq_Suc length_Suc_conv)

lemma length_8_conv:
  "length xs = 8 \<longleftrightarrow> (\<exists>a b c d e f g h. xs = [a, b, c, d, e, f, g, h])"
  by (auto simp: numeral_eq_Suc length_Suc_conv)

subsection \<open>Words\<close>

lemma xor_cancel_left [simp]: "(a :: 'a :: len word) XOR (a XOR b) = b"
  by (metis xor.assoc xor.left_neutral xor_self_eq)

lemma xor_cancel_right [simp]: "(b XOR a) XOR (a :: 'a :: len word) = b"
  by (metis xor.assoc xor.right_neutral xor_self_eq)

lemma xor_inject_right [simp]: "a XOR c = b XOR (c :: 'a :: len word) \<longleftrightarrow> a = b"
  by (metis xor_cancel_left xor.commute)

lemma xor_inject_left [simp]: "c XOR a = c XOR (b :: 'a :: len word) \<longleftrightarrow> a = b"
  by (metis xor_cancel_left)

lemma word_bit_high: "LENGTH('a) \<le> n \<Longrightarrow> \<not> bit (w :: 'a :: len word) n"
  using bit_imp_le_length [of w n] by auto

lemma sint_of_nat_small:
  assumes "n < 2 ^ (LENGTH('a) - 1)"
  shows "sint (of_nat n :: 'a :: len word) = int n"
proof -
  have "int n < 2 ^ (LENGTH('a) - 1)" using assms by simp
  moreover have "(0 :: int) \<le> 2 ^ (LENGTH('a) - 1)" by simp
  ultimately have "- (2 ^ (LENGTH('a) - 1)) \<le> int n" "int n < 2 ^ (LENGTH('a) - 1)" by linarith+
  then have "signed_take_bit (LENGTH('a) - 1) (int n) = int n"
    by (rule signed_take_bit_int_eq_self)
  then show ?thesis
    using sint_sbintrunc' [of "int n", where 'a = 'a] by simp
qed

lemma unat_and_mask: "unat (x AND mask k) = unat (x :: 'a :: len word) mod 2 ^ k"
proof -
  have "unat (take_bit k x) = take_bit k (unat x)" by (rule unsigned_take_bit_eq)
  then show ?thesis by (simp add: take_bit_eq_mask [symmetric] take_bit_eq_mod)
qed

subsection \<open>Residues\<close>

lemma mod_add_left_inject:
  assumes "i < m" "j < m" "(a + i) mod m = (a + j) mod (m :: nat)"
  shows "i = j"
proof -
  have "x = y" if "x \<le> y" "y < m" "(a + y) mod m = (a + x) mod m" for x y
  proof -
    have "m dvd (a + y) - (a + x)" by (subst mod_eq_dvd_iff_nat [symmetric]) (use that in auto)
    then have "m dvd y - x" by simp
    moreover have "y - x < m" using that by simp
    ultimately have "y - x = 0" by (metis dvd_imp_le gr0I not_le)
    then show ?thesis using that(1) by simp
  qed
  then show ?thesis using assms by (cases "i \<le> j") (metis nat_le_linear)+
qed

subsection \<open>Powers of two\<close>

lemma and_pred_eq_0: "n \<noteq> 0 \<Longrightarrow> n AND (n - 1) = 0 \<Longrightarrow> \<exists>k. n = 2 ^ k" for n :: nat
proof (induction n rule: less_induct)
  case (less n)
  have rec: "n AND (n - 1) = of_bool (odd n \<and> odd (n - 1)) + 2 * ((n div 2) AND ((n - 1) div 2))"
    by (rule and_rec)
  show ?case
  proof (cases "even n")
    case True
    then obtain m where m: "n = 2 * m" by blast
    then have "(n - 1) div 2 = m - 1" using less.prems(1) by (cases m) auto
    then have "m AND (m - 1) = 0" using rec less.prems(2) m by simp
    then obtain k where "m = 2 ^ k" using less.IH [of m] less.prems(1) m by auto
    then show ?thesis using m by (metis power_Suc)
  next
    case False
    then obtain m where m: "n = 2 * m + 1" by (auto elim: oddE)
    then have "m = 0" using rec less.prems(2) by simp
    then show ?thesis using m by (intro exI [of _ 0]) simp
  qed
qed

lemma power_of_two_u32:
  assumes "x \<noteq> 0" "x AND (x - 1) = (0 :: u32)"
  obtains k where "k < 32" "x = 2 ^ k" "unat x = 2 ^ k"
proof -
  have "unat x AND (unat x - 1) = unat (x AND (x - 1))"
    using assms(1) by (simp add: unsigned_and_eq unat_minus_one)
  then obtain k where k: "unat x = 2 ^ k"
    using and_pred_eq_0 [of "unat x"] assms by (auto simp: unat_eq_zero)
  have "unat x < 2 ^ 32" using unsigned_less [of x, where 'a = nat] by simp
  then have "k < 32" unfolding k by (rule power_less_imp_less_exp [rotated]) simp
  moreover have "x = of_nat (unat x)" by simp
  then have "x = 2 ^ k" unfolding k by simp
  ultimately show thesis using k that by blast
qed

end
