(* ===== verification/Byte_Codec.thy ===== *)
theory Byte_Codec
  imports Prelude
begin

text \<open>
  The byte encoders and decoders of \<^verbatim>\<open>src/src/endian.h\<close> and
  \<^verbatim>\<open>src/src/buffer_util.h\<close>: the byte swaps, the portable code (the \<^verbatim>\<open>#else\<close> branch of
  \<^verbatim>\<open>ARCH_UNALIGNED_ACCESS\<close>), the unaligned fast path for a host of either byte order, and the
  length-prefixed strings of the Tibia protocol.

  An encoder gives the bytes it stores at \<^verbatim>\<open>data\<close>; they reach a buffer through
  \<^theory_text>\<open>mem_write\<close>.  A decoder takes the bytes from \<^verbatim>\<open>data\<close> on and gives \<^theory_text>\<open>None\<close> where the
  C code would read past the object.  The locale \<^theory_text>\<open>word_codec\<close> is the contract every
  encoder/decoder pair fulfils and the only thing its clients rely on.
\<close>

subsection \<open>The contract of an encoder/decoder pair\<close>

locale word_codec =
  fixes enc :: "'w \<Rightarrow> bytes"
    and dec :: "bytes \<Rightarrow> 'w option"
    and width :: nat
  assumes enc_length: "length (enc v) = width"
    and dec_enc: "dec (enc v @ rest) = Some v"
    and enc_dec: "dec data = Some v \<Longrightarrow> take width data = enc v"
    and dec_total: "width \<le> length data \<Longrightarrow> dec data \<noteq> None"
begin

lemma dec_enc_exact: "dec (enc v) = Some v"
  using dec_enc [of v "[]"] by simp

lemma enc_inject: "enc v = enc w \<longleftrightarrow> v = w"
  by (metis dec_enc_exact option.inject)

lemma dec_short: "length data < width \<Longrightarrow> dec data = None"
  using enc_dec [of data] enc_length by (metis length_take min.absorb3 not_None_eq order_less_irrefl)

lemma dec_eq_Some: "dec data = Some v \<longleftrightarrow> (\<exists>rest. data = enc v @ rest)"
  by (metis append_take_drop_id dec_enc enc_dec)

lemma load_store:
  "mem_write off (enc v) mem = Some mem' \<Longrightarrow> dec (drop off mem') = Some v"
  by (auto simp: mem_write_eq_Some dec_enc)

lemma load_store_below:
  assumes "mem_write off bs mem = Some mem'" and "i + width \<le> off"
  shows "dec (drop i mem') = dec (drop i mem)"
proof -
  have read: "dec d = dec (take width d)" if "width \<le> length d" for d
    using that by (metis append.right_neutral append_take_drop_id dec_enc dec_eq_Some dec_total
        enc_dec not_Some_eq)
  from assms have "mem_read i width mem' = mem_read i width mem"
    by (rule mem_read_write_below)
  moreover from assms have "i + width \<le> length mem" "length mem' = length mem"
    by (auto simp: kpl_mem)
  ultimately show ?thesis
    using read [of "drop i mem'"] read [of "drop i mem"] by (simp add: mem_read_def)
qed

lemma enc_dec_mem: "map_option enc (dec data) = mem_read 0 width data"
  using dec_short [of data] dec_total [of data] enc_dec [of data]
  by (cases "length data < width"; cases "dec data") (auto simp: mem_read_def)

end

text \<open>Two codecs of the same width in opposite byte orders and the byte swap between them: what the
  \<^verbatim>\<open>*_cpu_to_*\<close> macros rely on.\<close>

locale swapped_codecs = le: word_codec le_enc le_dec width + be: word_codec be_enc be_dec width
  for le_enc :: "'w \<Rightarrow> bytes" and le_dec and be_enc and be_dec and width +
  fixes swap :: "'w \<Rightarrow> 'w"
  assumes le_swap: "le_enc (swap v) = be_enc v"
    and be_swap: "be_enc (swap v) = le_enc v"
begin

lemma swap_le_dec: "map_option swap (le_dec data) = be_dec data"
  by (cases "le_dec data"; cases "be_dec data")
     (use le.dec_total le.enc_dec be.enc_dec be.dec_total le.dec_short be.dec_short be_swap be.enc_inject
      in \<open>metis not_less option.simps(8,9) option.distinct(1)\<close>)+

lemma swap_be_dec: "map_option swap (be_dec data) = le_dec data"
proof -
  have "swap (swap v) = v" for v
    by (simp add: le.enc_inject [symmetric] le_swap be_swap)
  then show ?thesis
    by (simp add: swap_le_dec [symmetric] option.map_comp o_def option.map_ident)
qed

lemmas swap_laws = le_swap be_swap swap_le_dec swap_be_dec

end

subsection \<open>Byte swaps (endian.h)\<close>

definition swap_u16 :: "u16 \<Rightarrow> u16" where
  "swap_u16 x =
     drop_bit 8 (x AND 0xFF00)
     OR push_bit 8 (x AND 0x00FF)"

definition swap_u32 :: "u32 \<Rightarrow> u32" where
  "swap_u32 x =
     drop_bit 24 (x AND 0xFF000000)
     OR drop_bit 8 (x AND 0x00FF0000)
     OR push_bit 8 (x AND 0x0000FF00)
     OR push_bit 24 (x AND 0x000000FF)"

definition swap_u64 :: "u64 \<Rightarrow> u64" where
  "swap_u64 x =
     drop_bit 56 (x AND 0xFF00000000000000)
     OR drop_bit 40 (x AND 0x00FF000000000000)
     OR drop_bit 24 (x AND 0x0000FF0000000000)
     OR drop_bit 8 (x AND 0x000000FF00000000)
     OR push_bit 8 (x AND 0x00000000FF000000)
     OR push_bit 24 (x AND 0x0000000000FF0000)
     OR push_bit 40 (x AND 0x000000000000FF00)
     OR push_bit 56 (x AND 0x00000000000000FF)"

text \<open>
  The macros \<^verbatim>\<open>u16_cpu_to_be\<close> and friends depend on \<^verbatim>\<open>ARCH_BIG_ENDIAN\<close>, here the first
  argument; the conversion towards the host is the same function.
\<close>

definition u16_cpu_to_be :: "bool \<Rightarrow> u16 \<Rightarrow> u16" where
  "u16_cpu_to_be arch_big_endian x = (if arch_big_endian then x else swap_u16 x)"
definition u16_cpu_to_le :: "bool \<Rightarrow> u16 \<Rightarrow> u16" where
  "u16_cpu_to_le arch_big_endian x = (if arch_big_endian then swap_u16 x else x)"
definition u32_cpu_to_be :: "bool \<Rightarrow> u32 \<Rightarrow> u32" where
  "u32_cpu_to_be arch_big_endian x = (if arch_big_endian then x else swap_u32 x)"
definition u32_cpu_to_le :: "bool \<Rightarrow> u32 \<Rightarrow> u32" where
  "u32_cpu_to_le arch_big_endian x = (if arch_big_endian then swap_u32 x else x)"
definition u64_cpu_to_be :: "bool \<Rightarrow> u64 \<Rightarrow> u64" where
  "u64_cpu_to_be arch_big_endian x = (if arch_big_endian then x else swap_u64 x)"
definition u64_cpu_to_le :: "bool \<Rightarrow> u64 \<Rightarrow> u64" where
  "u64_cpu_to_le arch_big_endian x = (if arch_big_endian then swap_u64 x else x)"

subsection \<open>The portable encoders and decoders (buffer_util.h)\<close>

definition encode_u8 :: "u8 \<Rightarrow> bytes" where
  "encode_u8 val = [val]"

fun decode_u8 :: "bytes \<Rightarrow> u8 option" where
  "decode_u8 (d0 # _) = Some d0"
| "decode_u8 _ = None"

definition encode_u16_be :: "u16 \<Rightarrow> bytes" where
  "encode_u16_be val = [ucast (drop_bit 8 val), ucast val]"

fun decode_u16_be :: "bytes \<Rightarrow> u16 option" where
  "decode_u16_be (d0 # d1 # _) = Some (push_bit 8 (ucast d0) OR ucast d1)"
| "decode_u16_be _ = None"

definition encode_u16_le :: "u16 \<Rightarrow> bytes" where
  "encode_u16_le val = [ucast val, ucast (drop_bit 8 val)]"

fun decode_u16_le :: "bytes \<Rightarrow> u16 option" where
  "decode_u16_le (d0 # d1 # _) = Some (ucast d0 OR push_bit 8 (ucast d1))"
| "decode_u16_le _ = None"

definition encode_u32_be :: "u32 \<Rightarrow> bytes" where
  "encode_u32_be val =
     [ucast (drop_bit 24 val), ucast (drop_bit 16 val), ucast (drop_bit 8 val), ucast val]"

fun decode_u32_be :: "bytes \<Rightarrow> u32 option" where
  "decode_u32_be (d0 # d1 # d2 # d3 # _) =
     Some (push_bit 24 (ucast d0) OR push_bit 16 (ucast d1) OR push_bit 8 (ucast d2) OR ucast d3)"
| "decode_u32_be _ = None"

definition encode_u32_le :: "u32 \<Rightarrow> bytes" where
  "encode_u32_le val =
     [ucast val, ucast (drop_bit 8 val), ucast (drop_bit 16 val), ucast (drop_bit 24 val)]"

fun decode_u32_le :: "bytes \<Rightarrow> u32 option" where
  "decode_u32_le (d0 # d1 # d2 # d3 # _) =
     Some (ucast d0 OR push_bit 8 (ucast d1) OR push_bit 16 (ucast d2) OR push_bit 24 (ucast d3))"
| "decode_u32_le _ = None"

definition encode_u64_be :: "u64 \<Rightarrow> bytes" where
  "encode_u64_be val =
     [ucast (drop_bit 56 val), ucast (drop_bit 48 val), ucast (drop_bit 40 val),
      ucast (drop_bit 32 val), ucast (drop_bit 24 val), ucast (drop_bit 16 val),
      ucast (drop_bit 8 val), ucast val]"

fun decode_u64_be :: "bytes \<Rightarrow> u64 option" where
  "decode_u64_be (d0 # d1 # d2 # d3 # d4 # d5 # d6 # d7 # _) =
     Some (push_bit 56 (ucast d0) OR push_bit 48 (ucast d1) OR push_bit 40 (ucast d2)
           OR push_bit 32 (ucast d3) OR push_bit 24 (ucast d4) OR push_bit 16 (ucast d5)
           OR push_bit 8 (ucast d6) OR ucast d7)"
| "decode_u64_be _ = None"

definition encode_u64_le :: "u64 \<Rightarrow> bytes" where
  "encode_u64_le val =
     [ucast val, ucast (drop_bit 8 val), ucast (drop_bit 16 val), ucast (drop_bit 24 val),
      ucast (drop_bit 32 val), ucast (drop_bit 40 val), ucast (drop_bit 48 val),
      ucast (drop_bit 56 val)]"

fun decode_u64_le :: "bytes \<Rightarrow> u64 option" where
  "decode_u64_le (d0 # d1 # d2 # d3 # d4 # d5 # d6 # d7 # _) =
     Some (ucast d0 OR push_bit 8 (ucast d1) OR push_bit 16 (ucast d2)
           OR push_bit 24 (ucast d3) OR push_bit 32 (ucast d4) OR push_bit 40 (ucast d5)
           OR push_bit 48 (ucast d6) OR push_bit 56 (ucast d7))"
| "decode_u64_le _ = None"

subsection \<open>The unaligned fast path\<close>

text \<open>
  A store \<^verbatim>\<open>*(uint16*)(data) = x\<close> lays the word out in the host's byte order: the bytes of
  the big-endian or of the little-endian encoding, and the load is its inverse.  These three
  pairs are the C language's own operations.
\<close>

definition host_store_u16 :: "bool \<Rightarrow> u16 \<Rightarrow> bytes" where
  "host_store_u16 big x = (if big then encode_u16_be x else encode_u16_le x)"
definition host_load_u16 :: "bool \<Rightarrow> bytes \<Rightarrow> u16 option" where
  "host_load_u16 big data = (if big then decode_u16_be data else decode_u16_le data)"
definition host_store_u32 :: "bool \<Rightarrow> u32 \<Rightarrow> bytes" where
  "host_store_u32 big x = (if big then encode_u32_be x else encode_u32_le x)"
definition host_load_u32 :: "bool \<Rightarrow> bytes \<Rightarrow> u32 option" where
  "host_load_u32 big data = (if big then decode_u32_be data else decode_u32_le data)"
definition host_store_u64 :: "bool \<Rightarrow> u64 \<Rightarrow> bytes" where
  "host_store_u64 big x = (if big then encode_u64_be x else encode_u64_le x)"
definition host_load_u64 :: "bool \<Rightarrow> bytes \<Rightarrow> u64 option" where
  "host_load_u64 big data = (if big then decode_u64_be data else decode_u64_le data)"

definition fast_encode_u16_be :: "bool \<Rightarrow> u16 \<Rightarrow> bytes" where
  "fast_encode_u16_be big val = host_store_u16 big (u16_cpu_to_be big val)"
definition fast_decode_u16_be :: "bool \<Rightarrow> bytes \<Rightarrow> u16 option" where
  "fast_decode_u16_be big data = map_option (u16_cpu_to_be big) (host_load_u16 big data)"
definition fast_encode_u16_le :: "bool \<Rightarrow> u16 \<Rightarrow> bytes" where
  "fast_encode_u16_le big val = host_store_u16 big (u16_cpu_to_le big val)"
definition fast_decode_u16_le :: "bool \<Rightarrow> bytes \<Rightarrow> u16 option" where
  "fast_decode_u16_le big data = map_option (u16_cpu_to_le big) (host_load_u16 big data)"
definition fast_encode_u32_be :: "bool \<Rightarrow> u32 \<Rightarrow> bytes" where
  "fast_encode_u32_be big val = host_store_u32 big (u32_cpu_to_be big val)"
definition fast_decode_u32_be :: "bool \<Rightarrow> bytes \<Rightarrow> u32 option" where
  "fast_decode_u32_be big data = map_option (u32_cpu_to_be big) (host_load_u32 big data)"
definition fast_encode_u32_le :: "bool \<Rightarrow> u32 \<Rightarrow> bytes" where
  "fast_encode_u32_le big val = host_store_u32 big (u32_cpu_to_le big val)"
definition fast_decode_u32_le :: "bool \<Rightarrow> bytes \<Rightarrow> u32 option" where
  "fast_decode_u32_le big data = map_option (u32_cpu_to_le big) (host_load_u32 big data)"
definition fast_encode_u64_be :: "bool \<Rightarrow> u64 \<Rightarrow> bytes" where
  "fast_encode_u64_be big val = host_store_u64 big (u64_cpu_to_be big val)"
definition fast_decode_u64_be :: "bool \<Rightarrow> bytes \<Rightarrow> u64 option" where
  "fast_decode_u64_be big data = map_option (u64_cpu_to_be big) (host_load_u64 big data)"
definition fast_encode_u64_le :: "bool \<Rightarrow> u64 \<Rightarrow> bytes" where
  "fast_encode_u64_le big val = host_store_u64 big (u64_cpu_to_le big val)"
definition fast_decode_u64_le :: "bool \<Rightarrow> bytes \<Rightarrow> u64 option" where
  "fast_decode_u64_le big data = map_option (u64_cpu_to_le big) (host_load_u64 big data)"

subsection \<open>The codecs fulfil the contract\<close>

lemma byte_masks:
  "(0xFF :: 'a :: len word) = mask 8"
  by (simp add: mask_eq_exp_minus_1)

lemma byte_mask_at:
  "(0xFF00 :: 'a :: len word) = push_bit 8 (mask 8)"
  "(0xFF0000 :: 'a :: len word) = push_bit 16 (mask 8)"
  "(0xFF000000 :: 'a :: len word) = push_bit 24 (mask 8)"
  "(0xFF00000000 :: 'a :: len word) = push_bit 32 (mask 8)"
  "(0xFF0000000000 :: 'a :: len word) = push_bit 40 (mask 8)"
  "(0xFF000000000000 :: 'a :: len word) = push_bit 48 (mask 8)"
  "(0xFF00000000000000 :: 'a :: len word) = push_bit 56 (mask 8)"
  by (simp_all add: mask_eq_exp_minus_1 push_bit_eq_mult)

lemma byte_bit_high: "8 \<le> n \<Longrightarrow> \<not> bit (b :: u8) n"
  using bit_imp_le_length [of b n] by auto

lemma take_bit_join:
  "take_bit k v OR push_bit k (take_bit j (drop_bit k v)) = take_bit (k + j) (v :: 'a :: len word)"
  by (rule bit_word_eqI) (auto simp: bit_simps)

lemma byte_of: "ucast (ucast v :: u8) = take_bit 8 (v :: 'a :: len word)"
  by (rule bit_word_eqI) (auto simp: bit_simps)

lemmas take_bit_bytes =
  take_bit_join [of 8 _ 8, simplified] take_bit_join [of 16 _ 8, simplified]
  take_bit_join [of 24 _ 8, simplified] take_bit_join [of 32 _ 8, simplified]
  take_bit_join [of 40 _ 8, simplified] take_bit_join [of 48 _ 8, simplified]
  take_bit_join [of 56 _ 8, simplified]

lemma take_bit_all [simp]:
  "take_bit 16 (x :: u16) = x" "take_bit 32 (y :: u32) = y" "take_bit 64 (z :: u64) = z"
  using take_bit_length_eq [of x] take_bit_length_eq [of y] take_bit_length_eq [of z] by simp_all

lemmas bytewise = encode_u16_be_def encode_u16_le_def encode_u32_be_def encode_u32_le_def
  encode_u64_be_def encode_u64_le_def

lemmas swaps = swap_u16_def swap_u32_def swap_u64_def

lemma enc_dec_u16_le: "encode_u16_le (ucast a OR push_bit 8 (ucast b)) = [a, b]"
  by (auto simp: bytewise bit_simps byte_bit_high intro!: bit_word_eqI)
lemma enc_dec_u32_le:
  "encode_u32_le (ucast a OR push_bit 8 (ucast b) OR push_bit 16 (ucast c) OR push_bit 24 (ucast d))
     = [a, b, c, d]"
  by (auto simp: bytewise bit_simps byte_bit_high intro!: bit_word_eqI)
lemma enc_dec_u64_le:
  "encode_u64_le (ucast d0 OR push_bit 8 (ucast d1) OR push_bit 16 (ucast d2)
           OR push_bit 24 (ucast d3) OR push_bit 32 (ucast d4) OR push_bit 40 (ucast d5)
           OR push_bit 48 (ucast d6) OR push_bit 56 (ucast d7)) = [d0, d1, d2, d3, d4, d5, d6, d7]"
  by (auto simp: bytewise bit_simps byte_bit_high intro!: bit_word_eqI)

lemma dec_enc_u16_le:
  "ucast (ucast v :: u8) OR push_bit 8 (ucast (ucast (drop_bit 8 v) :: u8)) = (v :: u16)"
  by (simp add: byte_of take_bit_bytes)
lemma dec_enc_u32_le:
  "ucast (ucast v :: u8) OR push_bit 8 (ucast (ucast (drop_bit 8 v) :: u8))
   OR push_bit 16 (ucast (ucast (drop_bit 16 v) :: u8))
   OR push_bit 24 (ucast (ucast (drop_bit 24 v) :: u8)) = (v :: u32)"
  by (simp add: byte_of take_bit_bytes or.assoc [symmetric])
lemma dec_enc_u64_le:
  "ucast (ucast v :: u8) OR push_bit 8 (ucast (ucast (drop_bit 8 v) :: u8))
   OR push_bit 16 (ucast (ucast (drop_bit 16 v) :: u8))
   OR push_bit 24 (ucast (ucast (drop_bit 24 v) :: u8))
   OR push_bit 32 (ucast (ucast (drop_bit 32 v) :: u8))
   OR push_bit 40 (ucast (ucast (drop_bit 40 v) :: u8))
   OR push_bit 48 (ucast (ucast (drop_bit 48 v) :: u8))
   OR push_bit 56 (ucast (ucast (drop_bit 56 v) :: u8)) = (v :: u64)"
  by (simp add: byte_of take_bit_bytes or.assoc [symmetric])

text \<open>The big-endian codecs are the little-endian ones on the reversed bytes.\<close>

lemma encode_be_rev:
  "encode_u16_be x = rev (encode_u16_le x)"
  "encode_u32_be y = rev (encode_u32_le y)"
  "encode_u64_be z = rev (encode_u64_le z)"
  by (simp_all add: bytewise)

lemma decode_be_rev:
  "decode_u16_be [a, b] = decode_u16_le [b, a]"
  "decode_u32_be [a, b, c, d] = decode_u32_le [d, c, b, a]"
  "decode_u64_be [d0, d1, d2, d3, d4, d5, d6, d7] = decode_u64_le [d7, d6, d5, d4, d3, d2, d1, d0]"
  by (simp_all add: or.commute or.left_commute)

lemma swap_bytes:
  "encode_u16_le (swap_u16 x) = encode_u16_be x"
  "encode_u32_le (swap_u32 y) = encode_u32_be y"
  "encode_u64_le (swap_u64 z) = encode_u64_be z"
  by (auto simp: bytewise swaps byte_masks byte_mask_at bit_simps intro!: bit_word_eqI)

lemma swap_bytes_be:
  "encode_u16_be (swap_u16 x) = encode_u16_le x"
  "encode_u32_be (swap_u32 y) = encode_u32_le y"
  "encode_u64_be (swap_u64 z) = encode_u64_le z"
  by (simp_all add: encode_be_rev swap_bytes)

lemma enc_dec_u16_be: "encode_u16_be (push_bit 8 (ucast a) OR ucast b) = [a, b]"
  using enc_dec_u16_le [of b a] by (simp add: encode_be_rev or.commute)
lemma enc_dec_u32_be:
  "encode_u32_be (push_bit 24 (ucast a) OR push_bit 16 (ucast b) OR push_bit 8 (ucast c) OR ucast d)
     = [a, b, c, d]"
  using enc_dec_u32_le [of d c b a] by (simp add: encode_be_rev or.commute or.left_commute)
lemma enc_dec_u64_be:
  "encode_u64_be (push_bit 56 (ucast d0) OR push_bit 48 (ucast d1) OR push_bit 40 (ucast d2)
           OR push_bit 32 (ucast d3) OR push_bit 24 (ucast d4) OR push_bit 16 (ucast d5)
           OR push_bit 8 (ucast d6) OR ucast d7) = [d0, d1, d2, d3, d4, d5, d6, d7]"
  using enc_dec_u64_le [of d7 d6 d5 d4 d3 d2 d1 d0]
  by (simp add: encode_be_rev or.commute or.left_commute)

interpretation u16_le: word_codec encode_u16_le decode_u16_le 2
proof
  fix data :: bytes and v assume "decode_u16_le data = Some v"
  then show "take 2 data = encode_u16_le v"
    by (cases data rule: decode_u16_le.cases) (auto simp: enc_dec_u16_le)
next
  fix data :: bytes assume "2 \<le> length data"
  then show "decode_u16_le data \<noteq> None" by (cases data rule: decode_u16_le.cases) auto
qed (simp_all add: bytewise dec_enc_u16_le)

interpretation u16_be: word_codec encode_u16_be decode_u16_be 2
proof
  fix data :: bytes and v assume "decode_u16_be data = Some v"
  then show "take 2 data = encode_u16_be v"
    by (cases data rule: decode_u16_be.cases) (auto simp: enc_dec_u16_be)
next
  fix data :: bytes assume "2 \<le> length data"
  then show "decode_u16_be data \<noteq> None" by (cases data rule: decode_u16_be.cases) auto
next
  fix v rest show "decode_u16_be (encode_u16_be v @ rest) = Some v"
    using dec_enc_u16_le [of v] by (simp add: encode_u16_be_def or.commute)
qed (simp_all add: bytewise)

interpretation u32_le: word_codec encode_u32_le decode_u32_le 4
proof
  fix data :: bytes and v assume "decode_u32_le data = Some v"
  then show "take 4 data = encode_u32_le v"
    by (cases data rule: decode_u32_le.cases) (auto simp: enc_dec_u32_le)
next
  fix data :: bytes assume "4 \<le> length data"
  then show "decode_u32_le data \<noteq> None" by (cases data rule: decode_u32_le.cases) auto
qed (simp_all add: bytewise dec_enc_u32_le)

interpretation u32_be: word_codec encode_u32_be decode_u32_be 4
proof
  fix data :: bytes and v assume "decode_u32_be data = Some v"
  then show "take 4 data = encode_u32_be v"
    by (cases data rule: decode_u32_be.cases) (auto simp: enc_dec_u32_be)
next
  fix data :: bytes assume "4 \<le> length data"
  then show "decode_u32_be data \<noteq> None" by (cases data rule: decode_u32_be.cases) auto
next
  fix v rest show "decode_u32_be (encode_u32_be v @ rest) = Some v"
    using dec_enc_u32_le [of v] by (simp add: encode_u32_be_def or.commute or.left_commute)
qed (simp_all add: bytewise)

interpretation u64_le: word_codec encode_u64_le decode_u64_le 8
proof
  fix data :: bytes and v assume "decode_u64_le data = Some v"
  then show "take 8 data = encode_u64_le v"
    by (cases data rule: decode_u64_le.cases) (auto simp: enc_dec_u64_le)
next
  fix data :: bytes assume "8 \<le> length data"
  then show "decode_u64_le data \<noteq> None" by (cases data rule: decode_u64_le.cases) auto
qed (simp_all add: bytewise dec_enc_u64_le)

interpretation u64_be: word_codec encode_u64_be decode_u64_be 8
proof
  fix data :: bytes and v assume "decode_u64_be data = Some v"
  then show "take 8 data = encode_u64_be v"
    by (cases data rule: decode_u64_be.cases) (auto simp: enc_dec_u64_be)
next
  fix data :: bytes assume "8 \<le> length data"
  then show "decode_u64_be data \<noteq> None" by (cases data rule: decode_u64_be.cases) auto
next
  fix v rest show "decode_u64_be (encode_u64_be v @ rest) = Some v"
    using dec_enc_u64_le [of v] by (simp add: encode_u64_be_def or.commute or.left_commute)
qed (simp_all add: bytewise)

lemma encode_lengths [simp, kpl_codec]:
  "length (encode_u16_le a) = 2" "length (encode_u16_be a) = 2"
  "length (encode_u32_le b) = 4" "length (encode_u32_be b) = 4"
  "length (encode_u64_le c) = 8" "length (encode_u64_be c) = 8"
  by (rule u16_le.enc_length u16_be.enc_length u32_le.enc_length u32_be.enc_length
      u64_le.enc_length u64_be.enc_length)+

lemma encode_nonempty [simp]:
  "encode_u16_le a \<noteq> []" "encode_u16_be a \<noteq> []" "encode_u32_le b \<noteq> []" "encode_u32_be b \<noteq> []"
  "encode_u64_le c \<noteq> []" "encode_u64_be c \<noteq> []"
  by (simp_all add: bytewise)

lemma decode_encode [simp, kpl_codec]:
  "decode_u16_le (encode_u16_le a @ r) = Some a" "decode_u16_be (encode_u16_be a @ r) = Some a"
  "decode_u32_le (encode_u32_le b @ r) = Some b" "decode_u32_be (encode_u32_be b @ r) = Some b"
  "decode_u64_le (encode_u64_le c @ r) = Some c" "decode_u64_be (encode_u64_be c @ r) = Some c"
  by (rule u16_le.dec_enc u16_be.dec_enc u32_le.dec_enc u32_be.dec_enc
      u64_le.dec_enc u64_be.dec_enc)+

lemma decode_encode_exact [simp, kpl_codec]:
  "decode_u16_le (encode_u16_le a) = Some a" "decode_u16_be (encode_u16_be a) = Some a"
  "decode_u32_le (encode_u32_le b) = Some b" "decode_u32_be (encode_u32_be b) = Some b"
  "decode_u64_le (encode_u64_le c) = Some c" "decode_u64_be (encode_u64_be c) = Some c"
  by (rule u16_le.dec_enc_exact u16_be.dec_enc_exact u32_le.dec_enc_exact u32_be.dec_enc_exact
      u64_le.dec_enc_exact u64_be.dec_enc_exact)+

interpretation s16: swapped_codecs encode_u16_le decode_u16_le encode_u16_be decode_u16_be 2 swap_u16
  by unfold_locales (simp_all add: swap_bytes swap_bytes_be)

interpretation s32: swapped_codecs encode_u32_le decode_u32_le encode_u32_be decode_u32_be 4 swap_u32
  by unfold_locales (simp_all add: swap_bytes swap_bytes_be)

interpretation s64: swapped_codecs encode_u64_le decode_u64_le encode_u64_be decode_u64_be 8 swap_u64
  by unfold_locales (simp_all add: swap_bytes swap_bytes_be)

subsection \<open>Strings of the Tibia protocol\<close>

text \<open>
  \<^verbatim>\<open>decode_tibia_string\<close>: \<^theory_text>\<open>outstr\<close> is \<^theory_text>\<open>None\<close> for a null pointer; the result is the returned
  length (a 16-bit sum, which wraps around) with the destination after the call, and
  \<^theory_text>\<open>None\<close> for an access outside \<^theory_text>\<open>data\<close> or the destination.
\<close>

definition decode_tibia_string :: "bytes \<Rightarrow> bytes option \<Rightarrow> u16 \<Rightarrow> (u16 \<times> bytes option) option" where
  "decode_tibia_string data outstr maxlen = do {
     len \<leftarrow> decode_u16_le data;
     out' \<leftarrow>
       (case outstr of
          None \<Rightarrow> Some None
        | Some out \<Rightarrow>
            if maxlen > 0 then
              if len > 0 then do {
                let copy_len = (if len \<ge> maxlen then maxlen - 1 else len);
                src \<leftarrow> mem_read 2 (unat copy_len) data;
                out1 \<leftarrow> mem_write 0 src out;
                map_option Some (mem_write (unat copy_len) [0] out1)
              }
              else map_option Some (mem_write 0 [0] out)
            else Some (Some out));
     Some (len + 2, out')
   }"

lemma decode_tibia_encoded:
  assumes maxlen: "0 < maxlen" "unat maxlen \<le> length out"
    and len: "length s < 2 ^ 16"
  shows "decode_tibia_string (encode_u16_le (of_nat (length s)) @ s @ rest) (Some out) maxlen
         = Some (of_nat (length s) + 2,
                 Some (let c = min (length s) (unat maxlen - 1)
                       in take c s @ [0] @ drop (c + 1) out))"
proof -
  define c where "c = min (length s) (unat maxlen - 1)"
  have n: "unat (of_nat (length s) :: u16) = length s"
    using len by (simp add: unat_of_nat)
  have pos: "0 < unat maxlen" using maxlen(1) by (simp add: word_less_nat_alt)
  have copy: "unat (if (of_nat (length s) :: u16) \<ge> maxlen then maxlen - 1 else of_nat (length s)) = c"
    using n pos unat_minus_one [of maxlen] maxlen(1)
    by (auto simp: c_def word_le_nat_alt)
  show ?thesis
  proof (cases "s = []")
    case True
    then show ?thesis using maxlen pos
      by (simp add: decode_tibia_string_def mem_write_def)
  next
    case False
    then have nz: "(of_nat (length s) :: u16) > 0"
      using n by (simp add: word_less_nat_alt)
    have c: "c \<le> length s" "min (length s) (unat maxlen - Suc 0) = c" "c < length out" using maxlen(2) pos by (auto simp: c_def)
    then show ?thesis using maxlen(1) nz copy
      by (simp add: decode_tibia_string_def mem_read_def mem_write_def Let_def)
  qed
qed

subsection \<open>Properties\<close>

text \<open>On a host of either byte order, the unaligned fast path of every encoder and decoder
  computes what the portable byte-by-byte code computes: encoders store the same bytes and decoders
  read the same value, and fail on the same (too short) inputs.\<close>
theorem fast_path_equivalence:
  "fast_encode_u16_be big v = encode_u16_be v \<and> fast_decode_u16_be big data = decode_u16_be data
   \<and> fast_encode_u16_le big v = encode_u16_le v \<and> fast_decode_u16_le big data = decode_u16_le data
   \<and> fast_encode_u32_be big w = encode_u32_be w \<and> fast_decode_u32_be big data = decode_u32_be data
   \<and> fast_encode_u32_le big w = encode_u32_le w \<and> fast_decode_u32_le big data = decode_u32_le data
   \<and> fast_encode_u64_be big x = encode_u64_be x \<and> fast_decode_u64_be big data = decode_u64_be data
   \<and> fast_encode_u64_le big x = encode_u64_le x \<and> fast_decode_u64_le big data = decode_u64_le data"
  unfolding fast_encode_u16_be_def fast_decode_u16_be_def fast_encode_u16_le_def
    fast_decode_u16_le_def fast_encode_u32_be_def fast_decode_u32_be_def fast_encode_u32_le_def
    fast_decode_u32_le_def fast_encode_u64_be_def fast_decode_u64_be_def fast_encode_u64_le_def
    fast_decode_u64_le_def host_store_u16_def host_load_u16_def host_store_u32_def
    host_load_u32_def host_store_u64_def host_load_u64_def u16_cpu_to_be_def u16_cpu_to_le_def
    u32_cpu_to_be_def u32_cpu_to_le_def u64_cpu_to_be_def u64_cpu_to_le_def
  by (cases big) (simp_all add: s16.swap_laws s32.swap_laws s64.swap_laws option.map_id0 [unfolded id_def])

text \<open>Encoding then decoding gives the value back whatever bytes follow it, and decoding then
  encoding gives back the bytes that were read, for the six integer codecs.\<close>
theorem codec_roundtrip:
  "decode_u16_le (encode_u16_le a @ rest) = Some a \<and> decode_u16_be (encode_u16_be a @ rest) = Some a
   \<and> decode_u32_le (encode_u32_le b @ rest) = Some b \<and> decode_u32_be (encode_u32_be b @ rest) = Some b
   \<and> decode_u64_le (encode_u64_le c @ rest) = Some c \<and> decode_u64_be (encode_u64_be c @ rest) = Some c
   \<and> map_option encode_u16_le (decode_u16_le data) = mem_read 0 2 data
   \<and> map_option encode_u16_be (decode_u16_be data) = mem_read 0 2 data
   \<and> map_option encode_u32_le (decode_u32_le data) = mem_read 0 4 data
   \<and> map_option encode_u32_be (decode_u32_be data) = mem_read 0 4 data
   \<and> map_option encode_u64_le (decode_u64_le data) = mem_read 0 8 data
   \<and> map_option encode_u64_be (decode_u64_be data) = mem_read 0 8 data"
  by (simp add: u16_le.enc_dec_mem u16_be.enc_dec_mem u32_le.enc_dec_mem u32_be.enc_dec_mem
      u64_le.enc_dec_mem u64_be.enc_dec_mem)

text \<open>\<^verbatim>\<open>decode_tibia_string\<close> of a length-prefixed string copies at most \<^verbatim>\<open>maxlen - 1\<close> of its
  bytes, terminates them with a NUL, leaves the rest of the destination alone and returns the
  string's length plus the two bytes of the prefix (modulo 2^16).\<close>
theorem decode_tibia_string_functional:
  assumes maxlen: "0 < maxlen" "unat maxlen \<le> length out"
    and len: "length s < 2 ^ 16"
  shows "decode_tibia_string (encode_u16_le (of_nat (length s)) @ s @ rest) (Some out) maxlen
         = Some (of_nat (length s) + 2,
                 Some (let c = min (length s) (unat maxlen - 1)
                       in take c s @ [0] @ drop (c + 1) out))"
  by (rule decode_tibia_encoded [OF assms])

theorem decode_tibia_string_functional_witness:
  "decode_tibia_string (encode_u16_le 5 @ [72, 101, 108, 108, 111] @ [9, 9])
     (Some [1, 2, 3, 4, 5]) 4 = Some (7, Some [72, 101, 108, 0, 5])"
  using decode_tibia_string_functional [of 4 "[1, 2, 3, 4, 5]" "[72, 101, 108, 108, 111]" "[9, 9]"]
  by (simp add: Let_def)

end
