(* ===== verification/Checksums.thy ===== *)
theory Checksums
  imports Byte_Codec
begin

text \<open>
  The two hash functions of the server: \<^verbatim>\<open>src/src/adler32.c\<close> (the checksum of every protocol
  message) and \<^verbatim>\<open>src/src/murmur2.c\<close> (the hash of the configuration table).  A C buffer with its
  length is a byte list; the 32-bit accumulators are words, so that overflow is modelled.
\<close>

subsection \<open>Adler-32 (adler32.c)\<close>

definition BASE :: u32 where "BASE = 65521"
definition NMAX :: nat where "NMAX = 5552"

type_synonym adler = "u32 \<times> u32"

definition DO1 :: "bytes \<Rightarrow> nat \<Rightarrow> adler \<Rightarrow> adler" where
  "DO1 buf i = (\<lambda>(a, b). let a' = a + ucast (buf ! i) in (a', b + a'))"
definition DO2 :: "bytes \<Rightarrow> nat \<Rightarrow> adler \<Rightarrow> adler" where
  "DO2 buf i s = DO1 buf (i + 1) (DO1 buf i s)"
definition DO4 :: "bytes \<Rightarrow> nat \<Rightarrow> adler \<Rightarrow> adler" where
  "DO4 buf i s = DO2 buf (i + 2) (DO2 buf i s)"
definition DO8 :: "bytes \<Rightarrow> nat \<Rightarrow> adler \<Rightarrow> adler" where
  "DO8 buf i s = DO4 buf (i + 4) (DO4 buf i s)"
definition DO16 :: "bytes \<Rightarrow> adler \<Rightarrow> adler" where
  "DO16 buf s = DO8 buf 8 (DO8 buf 0 s)"

text \<open>The byte loop \<^verbatim>\<open>while(k-- != 0)\<close> and, before it, the unrolled loop \<^verbatim>\<open>while(k >= 16)\<close>.\<close>

fun adler_tail :: "bytes \<Rightarrow> adler \<Rightarrow> adler" where
  "adler_tail [] s = s"
| "adler_tail (x # buf) (a, b) = (let a' = a + ucast x in adler_tail buf (a', b + a'))"

function adler_block :: "bytes \<Rightarrow> adler \<Rightarrow> adler" where
  "adler_block buf s =
     (if length buf \<ge> 16 then adler_block (drop 16 buf) (DO16 buf s) else adler_tail buf s)"
  by pat_completeness auto
termination
  by (relation "measure (\<lambda>(buf, s). length buf)") auto

text \<open>The outer loop: a block of at most \<^verbatim>\<open>NMAX\<close> bytes, then both sums are reduced.\<close>

function adler_loop :: "bytes \<Rightarrow> adler \<Rightarrow> adler" where
  "adler_loop buf s =
     (if buf = [] then s
      else let k = (if length buf > NMAX then NMAX else length buf);
               (a, b) = adler_block (take k buf) s
           in adler_loop (drop k buf) (a mod BASE, b mod BASE))"
  by pat_completeness auto
termination
  by (relation "measure (\<lambda>(buf, s). length buf)") (auto simp: NMAX_def)

definition adler32 :: "bytes \<Rightarrow> u32" where
  "adler32 buf = (let (a, b) = adler_loop buf (1, 0) in a OR push_bit 16 b)"

declare adler_block.simps [simp del] adler_loop.simps [simp del]

text \<open>The specification (RFC 1950): two sums over the naturals, reduced once at the end.\<close>

definition byte_sum :: "bytes \<Rightarrow> nat" where
  "byte_sum buf = sum_list (map unat buf)"

fun weighted_sum :: "bytes \<Rightarrow> nat" where
  "weighted_sum [] = 0"
| "weighted_sum (x # buf) = (length buf + 1) * unat x + weighted_sum buf"

definition adler_spec :: "bytes \<Rightarrow> nat" where
  "adler_spec buf =
     (1 + byte_sum buf) mod 65521 + 65536 * ((length buf + weighted_sum buf) mod 65521)"

lemma byte_sum_simps [simp]:
  "byte_sum [] = 0" "byte_sum (x # xs) = unat x + byte_sum xs"
  "byte_sum (xs @ ys) = byte_sum xs + byte_sum ys"
  by (simp_all add: byte_sum_def)

lemma weighted_sum_append [simp]:
  "weighted_sum (xs @ ys) = weighted_sum xs + length ys * byte_sum xs + weighted_sum ys"
  by (induction xs) (auto simp: algebra_simps)

lemma byte_sum_bound: "byte_sum xs \<le> 255 * length xs"
proof (induction xs)
  case (Cons x xs)
  have "unat x < 2 ^ 8" using unsigned_less [of x] by simp
  with Cons show ?case by simp
qed simp

lemma weighted_sum_bound: "2 * weighted_sum xs \<le> 255 * (length xs * (length xs + 1))"
proof (induction xs)
  case (Cons x xs)
  have "unat x < 2 ^ 8" using unsigned_less [of x] by simp
  then have "(length xs + 1) * unat x \<le> (length xs + 1) * 255"
    by (intro mult_le_mono2) simp
  with Cons show ?case by (simp add: algebra_simps)
qed simp

lemma adler_tail_append: "adler_tail (xs @ ys) s = adler_tail ys (adler_tail xs s)"
  by (induction xs s rule: adler_tail.induct) (auto simp: Let_def)

lemma DO1_tail: "i < length buf \<Longrightarrow> DO1 buf i s = adler_tail [buf ! i] s"
  by (cases s) (simp add: DO1_def Let_def)

lemma DO16_tail:
  assumes "16 \<le> length buf" shows "DO16 buf s = adler_tail (take 16 buf) s"
proof -
  have "take 16 buf = map ((!) buf) [0..<16]"
    using assms by (simp add: list_eq_iff_nth_eq)
  also have "[0..<16] = [0,1,2,3,4,5,6,7,8,9,10,11,12,13,14,15::nat]"
    by (simp add: upt_conv_Cons)
  finally show ?thesis
    by (cases s) (simp add: DO16_def DO8_def DO4_def DO2_def DO1_def Let_def
        numeral_2_eq_2 [symmetric] numeral_3_eq_3 [symmetric])
qed

lemma adler_block_tail: "adler_block buf s = adler_tail buf s"
proof (induction buf s rule: adler_block.induct)
  case (1 buf s)
  then show ?case
    by (subst adler_block.simps)
       (simp add: DO16_tail adler_tail_append [symmetric])
qed

text \<open>The accumulators are the two sums, modulo the word size.\<close>

lemma adler_tail_sums:
  "adler_tail buf (a, b) =
    (of_nat (unat a + byte_sum buf), of_nat (unat b + length buf * unat a + weighted_sum buf))"
  by (induction buf "(a, b)" arbitrary: a b rule: adler_tail.induct)
     (auto simp: Let_def algebra_simps)

text \<open>Within a block of \<^verbatim>\<open>NMAX\<close> bytes that starts from reduced sums nothing overflows.\<close>

lemma adler_block_bounds:
  assumes "A < 65521" "B < 65521" "length buf \<le> NMAX"
  shows "A + byte_sum buf < 2 ^ 32" "B + length buf * A + weighted_sum buf < 2 ^ 32"
proof -
  have n: "length buf \<le> 5552" using assms(3) by (simp add: NMAX_def)
  show "A + byte_sum buf < 2 ^ 32"
    using byte_sum_bound [of buf] n assms(1) by simp
  have "length buf * A \<le> 5552 * 65520"
    using n assms(1) by (intro mult_le_mono) auto
  moreover have "length buf * (length buf + 1) \<le> 5552 * (5552 + 1)"
    using n by (intro mult_le_mono) auto
  then have "2 * weighted_sum buf \<le> 255 * (5552 * 5553)"
    by (intro order_trans [OF weighted_sum_bound mult_le_mono2]) simp
  ultimately show "B + length buf * A + weighted_sum buf < 2 ^ 32"
    using assms(2) by simp
qed

lemma unat_u32: "n < 2 ^ 32 \<Longrightarrow> unat (of_nat n :: u32) = n"
  by (simp add: unat_of_nat take_bit_nat_eq_self)

lemma adler_block_spec:
  assumes "unat a < 65521" "unat b < 65521" "length buf \<le> NMAX"
    and "adler_block buf (a, b) = (a', b')"
  shows "unat (a' mod BASE) = (unat a + byte_sum buf) mod 65521"
    and "unat (b' mod BASE) = (unat b + length buf * unat a + weighted_sum buf) mod 65521"
proof -
  have "a' = of_nat (unat a + byte_sum buf)"
      "b' = of_nat (unat b + length buf * unat a + weighted_sum buf)"
    using assms(4) unfolding adler_block_tail adler_tail_sums by simp_all
  then have "unat a' = unat a + byte_sum buf"
      "unat b' = unat b + length buf * unat a + weighted_sum buf"
    using adler_block_bounds [OF assms(1-3)]
    by (metis unat_u32)+
  then show "unat (a' mod BASE) = (unat a + byte_sum buf) mod 65521"
      "unat (b' mod BASE) = (unat b + length buf * unat a + weighted_sum buf) mod 65521"
    by (simp_all add: unat_mod BASE_def)
qed

lemma adler_loop_spec:
  assumes "unat a < 65521" "unat b < 65521"
  shows "adler_loop buf (a, b) =
    (of_nat ((unat a + byte_sum buf) mod 65521),
     of_nat ((unat b + length buf * unat a + weighted_sum buf) mod 65521))"
  using assms
proof (induction "length buf" arbitrary: buf a b rule: less_induct)
  case less
  show ?case
  proof (cases "buf = []")
    case True
    then show ?thesis using less.prems by (simp add: adler_loop.simps)
  next
    case False
    define k where "k = (if length buf > NMAX then NMAX else length buf)"
    define xs ys where "xs = take k buf" and "ys = drop k buf"
    have buf: "buf = xs @ ys" and len: "length xs \<le> NMAX" "length ys < length buf"
      using False by (auto simp: xs_def ys_def k_def NMAX_def)
    obtain a' b' where blk: "adler_block xs (a, b) = (a', b')" by fastforce
    note [simp] = adler_block_spec [OF less.prems len(1) blk]
    have "adler_loop buf (a, b) = adler_loop ys (a' mod BASE, b' mod BASE)"
      using False by (subst adler_loop.simps) (simp add: k_def [symmetric] Let_def xs_def [symmetric]
          ys_def [symmetric] blk)
    also have "\<dots> = (of_nat (((unat a + byte_sum xs) mod 65521 + byte_sum ys) mod 65521),
       of_nat (((unat b + length xs * unat a + weighted_sum xs) mod 65521
         + length ys * ((unat a + byte_sum xs) mod 65521) + weighted_sum ys) mod 65521))"
      using less.hyps [OF len(2), of "a' mod BASE" "b' mod BASE"] by simp
    also have "((unat a + byte_sum xs) mod 65521 + byte_sum ys) mod 65521
        = (unat a + byte_sum buf) mod 65521"
      by (simp add: buf mod_simps add.assoc)
    also have "((unat b + length xs * unat a + weighted_sum xs) mod 65521
         + length ys * ((unat a + byte_sum xs) mod 65521) + weighted_sum ys) mod 65521
       = (unat b + length xs * unat a + weighted_sum xs
         + length ys * (unat a + byte_sum xs) + weighted_sum ys) mod 65521"
      by (intro mod_add_cong mod_mult_cong refl mod_mod_trivial)
    also have "unat b + length xs * unat a + weighted_sum xs
         + length ys * (unat a + byte_sum xs) + weighted_sum ys
       = unat b + length buf * unat a + weighted_sum buf"
      by (simp add: buf algebra_simps)
    finally show ?thesis .
  qed
qed

text \<open>C26: \<^verbatim>\<open>adler32\<close> (32-bit accumulators, unrolled loops, one reduction per \<^verbatim>\<open>NMAX\<close> bytes) computes
  the Adler-32 checksum of RFC 1950 on every buffer: no accumulator ever overflows.\<close>
theorem adler32_correct: "unat (adler32 buf) = adler_spec buf"
proof -
  define A B where "A = (1 + byte_sum buf) mod 65521"
    and "B = (length buf + weighted_sum buf) mod 65521"
  have bound: "A < 2 ^ 16" "B < 2 ^ 16"
    unfolding A_def B_def by (rule less_trans [OF mod_less_divisor]; simp)+
  have "adler_loop buf (1, 0) = (of_nat A, of_nat B)"
    unfolding A_def B_def using adler_loop_spec [of 1 0 buf] by simp
  then have "adler32 buf = of_nat A OR push_bit 16 (of_nat B)"
    by (simp add: adler32_def)
  also have "\<dots> = of_nat A + push_bit 16 (of_nat B)"
  proof (rule disjunctive_add [symmetric])
    fix n
    have "bit A n \<Longrightarrow> n < 16"
      using bound(1) by (metis bit_take_bit_iff take_bit_nat_eq_self)
    then show "\<not> bit (of_nat A :: u32) n \<or> \<not> bit (push_bit 16 (of_nat B) :: u32) n"
      by (auto simp: bit_push_bit_iff bit_of_nat_iff)
  qed
  also have "\<dots> = of_nat (A + 65536 * B)"
    by (simp add: push_bit_eq_mult)
  also have "unat \<dots> = A + 65536 * B"
    by (rule unat_u32) (use bound in simp)
  finally show ?thesis
    by (simp add: adler_spec_def A_def B_def)
qed

subsection \<open>MurmurHash2 (murmur2.c)\<close>

definition MURMUR2_M :: u32 where "MURMUR2_M = 0x5bd1e995"

text \<open>The mix of one 4-byte word, the \<^verbatim>\<open>switch\<close> on the last bytes with its fall-through, and the
  final mix.  The host is little endian, so \<^verbatim>\<open>decode_u32\<close> is \<^theory_text>\<open>decode_u32_le\<close>.\<close>

definition murmur_word :: "u32 \<Rightarrow> u32" where
  "murmur_word k0 =
     (let k1 = k0 * MURMUR2_M;
          k2 = k1 XOR drop_bit 24 k1
      in k2 * MURMUR2_M)"

fun murmur_tail :: "bytes \<Rightarrow> u32 \<Rightarrow> u32" where
  "murmur_tail [d0, d1, d2] h =
     (((h XOR push_bit 16 (ucast d2)) XOR push_bit 8 (ucast d1)) XOR ucast d0) * MURMUR2_M"
| "murmur_tail [d0, d1] h = ((h XOR push_bit 8 (ucast d1)) XOR ucast d0) * MURMUR2_M"
| "murmur_tail [d0] h = (h XOR ucast d0) * MURMUR2_M"
| "murmur_tail _ h = h"

definition murmur_final :: "u32 \<Rightarrow> u32" where
  "murmur_final h0 =
     (let h1 = h0 XOR drop_bit 13 h0;
          h2 = h1 * MURMUR2_M
      in h2 XOR drop_bit 15 h2)"

fun murmur_loop :: "bytes \<Rightarrow> u32 \<Rightarrow> u32" where
  "murmur_loop (d0 # d1 # d2 # d3 # data) h =
     (let k = the (decode_u32_le [d0, d1, d2, d3])
      in murmur_loop data ((h * MURMUR2_M) XOR murmur_word k))"
| "murmur_loop data h = murmur_tail data h"

definition murmur2_32 :: "bytes \<Rightarrow> u32 \<Rightarrow> u32" where
  "murmur2_32 data seed = murmur_final (murmur_loop data (of_nat (length data) XOR seed))"

text \<open>Every step of the hash is a bijection of the 32-bit words.\<close>

lemma murmur_mult_inject: "x * MURMUR2_M = y * MURMUR2_M \<longleftrightarrow> x = y"
proof
  have "MURMUR2_M * 0xE59B19BD = 1"
    by (simp add: MURMUR2_M_def)
  then have inv: "z * MURMUR2_M * 0xE59B19BD = z" for z
    by (simp only: mult.assoc mult_1_right)
  assume "x * MURMUR2_M = y * MURMUR2_M"
  then have "x * MURMUR2_M * 0xE59B19BD = y * MURMUR2_M * 0xE59B19BD" by simp
  then show "x = y" by (simp only: inv)
qed simp

lemma xorshift_inject:
  assumes "0 < n" and "x XOR drop_bit n x = y XOR drop_bit n (y :: 'a :: len word)"
  shows "x = y"
proof (rule bit_word_eqI)
  have step: "bit x i = (bit (x XOR drop_bit n x) i \<noteq> bit x (n + i))" for x :: "'a word" and i
    by (auto simp: bit_simps)
  fix i assume "i < LENGTH('a)"
  show "bit x i = bit y i"
  proof (induction "LENGTH('a) - i" arbitrary: i rule: less_induct)
    case less
    show ?case
    proof (cases "i < LENGTH('a)")
      case True
      then have "bit x (n + i) = bit y (n + i)"
        using assms(1) by (intro less) auto
      then show ?thesis using step [of x i] step [of y i] assms(2) by metis
    next
      case False
      then show ?thesis by (simp add: word_bit_high)
    qed
  qed
qed

lemma murmur_word_inject: "murmur_word x = murmur_word y \<longleftrightarrow> x = y"
  by (auto simp: murmur_word_def Let_def murmur_mult_inject dest!: xorshift_inject [rotated])

lemma murmur_final_inject: "murmur_final x = murmur_final y \<longleftrightarrow> x = y"
  by (auto simp: murmur_final_def Let_def murmur_mult_inject dest!: xorshift_inject [rotated])

lemma murmur_tail_inject: "murmur_tail data x = murmur_tail data y \<longleftrightarrow> x = y"
  by (cases "(data, x)" rule: murmur_tail.cases)
     (auto simp: murmur_mult_inject xor.assoc [symmetric])

lemma murmur_loop_inject: "murmur_loop data x = murmur_loop data y \<longleftrightarrow> x = y"
proof (induction data x arbitrary: y rule: murmur_loop.induct)
  case (1 d0 d1 d2 d3 data h)
  then show ?case by (simp add: Let_def murmur_mult_inject)
qed (simp_all add: murmur_mult_inject)

lemma murmur_loop_append:
  "length pre mod 4 = 0 \<Longrightarrow> \<exists>h'. \<forall>post. murmur_loop (pre @ post) h = murmur_loop post h'"
proof (induction pre h rule: murmur_loop.induct)
  case (1 d0 d1 d2 d3 data h)
  then show ?case by (simp add: Let_def mod_Suc split: if_splits)
qed (auto simp: mod_Suc)

lemma murmur_loop_word_inject:
  assumes "length w = 4" "length w' = 4" "murmur_loop (w @ post) h = murmur_loop (w' @ post) h"
  shows "w = w'"
proof -
  obtain a b c d a' b' c' d' where w: "w = [a, b, c, d]" "w' = [a', b', c', d']"
    using assms(1,2) unfolding length_4_conv by blast
  then have "decode_u32_le w = decode_u32_le w'"
    using assms(3) by (simp add: Let_def murmur_loop_inject murmur_word_inject)
  then show ?thesis
    using u32_le.enc_dec [of w] u32_le.enc_dec [of w'] w by (metis assms(1,2) decode_u32_le.simps(1)
        order_refl take_all)
qed

text \<open>\<^verbatim>\<open>murmur2_32\<close> never collides on two inputs of the same length that differ only inside one
  aligned 4-byte word (the same seed, any bytes before and after it): every mixing step is a
  bijection of the 32-bit words.\<close>
theorem murmur2_no_single_word_collision:
  assumes "length pre mod 4 = 0" "length w = 4" "length w' = 4" "w \<noteq> w'"
  shows "murmur2_32 (pre @ w @ post) seed \<noteq> murmur2_32 (pre @ w' @ post) seed"
proof
  assume "murmur2_32 (pre @ w @ post) seed = murmur2_32 (pre @ w' @ post) seed"
  then have "murmur_loop (pre @ w @ post) h = murmur_loop (pre @ w' @ post) h"
    if "h = of_nat (length (pre @ w @ post)) XOR seed" for h
    using that assms(2,3) by (simp add: murmur2_32_def murmur_final_inject)
  then show False
    using murmur_loop_append [OF assms(1)] murmur_loop_word_inject [OF assms(2,3)] assms(4) by metis
qed

theorem murmur2_no_single_word_collision_witness:
  "murmur2_32 ([1, 2, 3, 4] @ [5, 6, 7, 8] @ [9]) 7 \<noteq> murmur2_32 ([1, 2, 3, 4] @ [5, 6, 7, 9] @ [9]) 7"
  by (rule murmur2_no_single_word_collision) simp_all

end
