(* ===== verification/Xtea.thy ===== *)
theory Xtea
  imports Byte_Codec
begin

text \<open>
  The message cipher \<^verbatim>\<open>src/src/crypto/xtea.c\<close>, and the two locales that carry its proofs: an
  invertible block operation (\<^theory_text>\<open>block_cipher\<close>), and a loop that applies one to every
  8-byte block of a buffer (\<^theory_text>\<open>ecb_loop\<close>).
\<close>

subsection \<open>Interfaces\<close>

locale block_cipher =
  fixes E D :: "'b \<Rightarrow> 'b"
  assumes D_E: "D (E b) = b"
    and E_D: "E (D b) = b"
begin

lemma E_inject: "E b = E c \<longleftrightarrow> b = c"
  by (metis D_E)

lemma E_bij: "bij E"
  by (rule bijI') (auto simp: E_inject intro: E_D [symmetric])

lemma iterate_inverse: "(D ^^ n) ((E ^^ n) b) = b"
  by (induction n arbitrary: b) (simp_all add: funpow_swap1 D_E)

end

locale ecb_loop = block_cipher E D
  for E D :: "u32 \<times> u32 \<Rightarrow> u32 \<times> u32" +
  fixes enc :: "u32 \<Rightarrow> bytes" and dec :: "bytes \<Rightarrow> u32 option"
    and run unrun :: "bytes \<Rightarrow> bytes option"
  assumes codec: "word_codec enc dec 4"
    and run_Nil: "run [] = Some []"
    and unrun_Nil: "unrun [] = Some []"
    and run_block: "run (enc v0 @ enc v1 @ rest) =
      map_option ((@) (enc (fst (E (v0, v1))) @ enc (snd (E (v0, v1))))) (run rest)"
    and unrun_block: "unrun (enc v0 @ enc v1 @ rest) =
      map_option ((@) (enc (fst (D (v0, v1))) @ enc (snd (D (v0, v1))))) (unrun rest)"
    and run_short: "data \<noteq> [] \<Longrightarrow> length data < 8 \<Longrightarrow> run data = None"
begin

lemma block_split:
  assumes "8 \<le> length data"
  obtains v0 v1 rest where "data = enc v0 @ enc v1 @ rest"
proof -
  obtain v0 where "dec data = Some v0"
    using word_codec.dec_total [OF codec, of data] assms by fastforce
  then obtain r where r: "data = enc v0 @ r"
    using word_codec.dec_eq_Some [OF codec] by blast
  then have "4 \<le> length r"
    using assms word_codec.enc_length [OF codec, of v0] by simp
  then obtain v1 where "dec r = Some v1"
    using word_codec.dec_total [OF codec, of r] by fastforce
  then show thesis
    using r that word_codec.dec_eq_Some [OF codec] by blast
qed

lemma run_result:
  "8 dvd length data \<Longrightarrow>
     \<exists>c. run data = Some c \<and> length c = length data \<and> unrun c = Some data"
proof (induction "length data" arbitrary: data rule: less_induct)
  case less
  show ?case
  proof (cases "data = []")
    case True
    then show ?thesis by (simp add: run_Nil unrun_Nil)
  next
    case False
    then have "8 \<le> length data" using less.prems by (auto dest: dvd_imp_le)
    then obtain v0 v1 rest where d: "data = enc v0 @ enc v1 @ rest" by (rule block_split)
    have len: "length (enc v) = 4" for v by (rule word_codec.enc_length [OF codec])
    from less.prems have "8 dvd length rest"
      unfolding d by (simp add: len)
    then obtain c where "run rest = Some c" "length c = length rest" "unrun c = Some rest"
      using less.hyps [of rest] by (auto simp: d len)
    then show ?thesis
      by (simp add: d run_block unrun_block len D_E)
  qed
qed

lemma run_partial: "\<not> 8 dvd length data \<Longrightarrow> run data = None"
proof (induction "length data" arbitrary: data rule: less_induct)
  case less
  show ?case
  proof (cases "length data < 8")
    case True
    then show ?thesis using less.prems run_short by (cases "data = []") auto
  next
    case False
    then obtain v0 v1 rest where d: "data = enc v0 @ enc v1 @ rest"
      using block_split [of data] by fastforce
    have len: "length (enc v) = 4" for v by (rule word_codec.enc_length [OF codec])
    from less.prems have "\<not> 8 dvd length rest"
      unfolding d by (simp add: len)
    then have "run rest = None" using less.hyps [of rest] by (simp add: d len)
    then show ?thesis by (simp add: d run_block)
  qed
qed

end

subsection \<open>XTEA (xtea.c)\<close>

definition xtea_delta :: u32 where "xtea_delta = 0x9E3779B9"

text \<open>One pass through each \<^verbatim>\<open>for\<close> body on \<^verbatim>\<open>v0\<close>, \<^verbatim>\<open>v1\<close> and \<^verbatim>\<open>sum\<close>; \<^verbatim>\<open>k\<close> is the array of four
  key words.\<close>

definition xtea_encode_round :: "u32 list \<Rightarrow> u32 \<times> u32 \<times> u32 \<Rightarrow> u32 \<times> u32 \<times> u32" where
  "xtea_encode_round k = (\<lambda>(v0, v1, sum).
     let v0' = v0 + (((push_bit 4 v1 XOR drop_bit 5 v1) + v1) XOR (sum + k ! unat (sum AND 3)));
         sum' = sum + xtea_delta;
         v1' = v1 + (((push_bit 4 v0' XOR drop_bit 5 v0') + v0')
                     XOR (sum' + k ! unat (drop_bit 11 sum' AND 3)))
     in (v0', v1', sum'))"

definition xtea_decode_round :: "u32 list \<Rightarrow> u32 \<times> u32 \<times> u32 \<Rightarrow> u32 \<times> u32 \<times> u32" where
  "xtea_decode_round k = (\<lambda>(v0, v1, sum).
     let v1' = v1 - (((push_bit 4 v0 XOR drop_bit 5 v0) + v0)
                     XOR (sum + k ! unat (drop_bit 11 sum AND 3)));
         sum' = sum - xtea_delta;
         v0' = v0 - (((push_bit 4 v1' XOR drop_bit 5 v1') + v1') XOR (sum' + k ! unat (sum' AND 3)))
     in (v0', v1', sum'))"

definition xtea_encode_block :: "u32 list \<Rightarrow> u32 \<times> u32 \<Rightarrow> u32 \<times> u32" where
  "xtea_encode_block k v =
     (let (v0, v1, sum) = (xtea_encode_round k ^^ 32) (fst v, snd v, 0) in (v0, v1))"

definition xtea_decode_block :: "u32 list \<Rightarrow> u32 \<times> u32 \<Rightarrow> u32 \<times> u32" where
  "xtea_decode_block k v =
     (let (v0, v1, sum) = (xtea_decode_round k ^^ 32) (fst v, snd v, 0xC6EF3720) in (v0, v1))"

text \<open>The loops over the buffer.  A length that is no multiple of 8 makes \<^verbatim>\<open>len -= 8\<close> wrap
  around, so the loop runs past the buffer: \<^theory_text>\<open>None\<close>.\<close>

function xtea_encode :: "u32 list \<Rightarrow> bytes \<Rightarrow> bytes option" where
  "xtea_encode k data =
     (if data = [] then Some []
      else do {
        v0 \<leftarrow> decode_u32_le data;
        v1 \<leftarrow> decode_u32_le (drop 4 data);
        let v = xtea_encode_block k (v0, v1);
        rest \<leftarrow> xtea_encode k (drop 8 data);
        Some (encode_u32_le (fst v) @ encode_u32_le (snd v) @ rest)
      })"
  by pat_completeness auto
termination
  by (relation "measure (\<lambda>(k, data). length data)") auto

function xtea_decode :: "u32 list \<Rightarrow> bytes \<Rightarrow> bytes option" where
  "xtea_decode k data =
     (if data = [] then Some []
      else do {
        v0 \<leftarrow> decode_u32_le data;
        v1 \<leftarrow> decode_u32_le (drop 4 data);
        let v = xtea_decode_block k (v0, v1);
        rest \<leftarrow> xtea_decode k (drop 8 data);
        Some (encode_u32_le (fst v) @ encode_u32_le (snd v) @ rest)
      })"
  by pat_completeness auto
termination
  by (relation "measure (\<lambda>(k, data). length data)") auto

declare xtea_encode.simps [simp del] xtea_decode.simps [simp del]

subsection \<open>Correctness\<close>

lemma xtea_round_inverse:
  "xtea_decode_round k (xtea_encode_round k s) = s"
  "xtea_encode_round k (xtea_decode_round k s) = s"
  by (cases s; simp add: xtea_encode_round_def xtea_decode_round_def Let_def)+

interpretation xtea_round: block_cipher "xtea_encode_round k" "xtea_decode_round k" for k
  by unfold_locales (simp_all add: xtea_round_inverse)

lemma xtea_round_sum:
  "snd (snd ((xtea_encode_round k ^^ n) s)) = snd (snd s) + of_nat n * xtea_delta"
  "snd (snd ((xtea_decode_round k ^^ n) s)) = snd (snd s) - of_nat n * xtea_delta"
  by (induction n) (auto simp: xtea_encode_round_def xtea_decode_round_def Let_def algebra_simps
      split: prod.splits)

lemma xtea_sum_end: "of_nat 32 * xtea_delta = 0xC6EF3720"
  by (simp add: xtea_delta_def)

lemma xtea_block_inverse:
  "xtea_decode_block k (xtea_encode_block k v) = v"
  "xtea_encode_block k (xtea_decode_block k v) = v"
proof -
  obtain a b s where e: "(xtea_encode_round k ^^ 32) (fst v, snd v, 0) = (a, b, s)"
    by (metis prod_cases3)
  then have "s = 0xC6EF3720"
    using xtea_round_sum(1) [of 32 k "(fst v, snd v, 0)"] xtea_sum_end by simp
  then show "xtea_decode_block k (xtea_encode_block k v) = v"
    using xtea_round.iterate_inverse [of 32 k "(fst v, snd v, 0)"]
    by (simp add: xtea_encode_block_def xtea_decode_block_def e)
  obtain a b s where d: "(xtea_decode_round k ^^ 32) (fst v, snd v, 0xC6EF3720) = (a, b, s)"
    by (metis prod_cases3)
  then have "s = 0"
    using xtea_round_sum(2) [of 32 k "(fst v, snd v, 0xC6EF3720)"] xtea_sum_end by simp
  then show "xtea_encode_block k (xtea_decode_block k v) = v"
    using block_cipher.iterate_inverse [of "xtea_decode_round k" "xtea_encode_round k" 32
        "(fst v, snd v, 0xC6EF3720)"]
    by (simp add: xtea_encode_block_def xtea_decode_block_def d block_cipher_def xtea_round_inverse)
qed

interpretation xtea_ecb: ecb_loop "xtea_encode_block k" "xtea_decode_block k"
  encode_u32_le decode_u32_le "xtea_encode k" "xtea_decode k" for k
proof
  fix data :: bytes
  assume "data \<noteq> []" "length data < 8"
  then have "decode_u32_le (drop 4 data) = None" by (intro u32_le.dec_short) simp
  then show "xtea_encode k data = None"
    using \<open>data \<noteq> []\<close> by (simp add: xtea_encode.simps [of k data] bind_eq_None_conv)
next
  show "xtea_encode k (encode_u32_le v0 @ encode_u32_le v1 @ rest) =
      map_option ((@) (encode_u32_le (fst (xtea_encode_block k (v0, v1)))
        @ encode_u32_le (snd (xtea_encode_block k (v0, v1))))) (xtea_encode k rest)" for v0 v1 rest
    by (subst xtea_encode.simps) (cases "xtea_encode k rest"; simp add: Let_def)
next
  show "xtea_decode k (encode_u32_le v0 @ encode_u32_le v1 @ rest) =
      map_option ((@) (encode_u32_le (fst (xtea_decode_block k (v0, v1)))
        @ encode_u32_le (snd (xtea_decode_block k (v0, v1))))) (xtea_decode k rest)" for v0 v1 rest
    by (subst xtea_decode.simps) (cases "xtea_decode k rest"; simp add: Let_def)
qed (simp_all add: xtea_block_inverse u32_le.word_codec_axioms xtea_encode.simps [of k "[]"] xtea_decode.simps [of k "[]"])


end
