(* ===== verification/Base64.thy ===== *)
theory Base64
  imports Prelude
begin

text \<open>
  \<^verbatim>\<open>src/src/crypto/base64.c\<close>: the base-64 variant of bcrypt hashes.  The encoder gives the bytes
  it writes at \<^verbatim>\<open>b64data\<close>, the terminating NUL included.  The decoder takes the number of bytes to
  decode and the memory at \<^verbatim>\<open>b64data\<close>; its result is the returned boolean with the bytes written so
  far, or \<^theory_text>\<open>None\<close> where it would read past that memory.
\<close>

subsection \<open>The tables and the code (base64.c)\<close>

definition base64 :: bytes where
  "base64 = map of_char
     (''./''
      @ ''ABCDEFGHIJKLMNOPQRSTUVWXYZ''
      @ ''abcdefghijklmnopqrstuvwxyz''
      @ ''0123456789'')"

definition decode64 :: bytes where
  "decode64 = [
     0xFF, 0xFF, 0xFF, 0xFF, 0xFF, 0xFF, 0xFF, 0xFF,
     0xFF, 0xFF, 0xFF, 0xFF, 0xFF, 0xFF, 0xFF, 0xFF,
     0xFF, 0xFF, 0xFF, 0xFF, 0xFF, 0xFF, 0xFF, 0xFF,
     0xFF, 0xFF, 0xFF, 0xFF, 0xFF, 0xFF, 0xFF, 0xFF,
     0xFF, 0xFF, 0xFF, 0xFF, 0xFF, 0xFF, 0xFF, 0xFF,
     0xFF, 0xFF, 0xFF, 0xFF, 0xFF, 0xFF, 0x00, 0x01,
     0x36, 0x37, 0x38, 0x39, 0x3A, 0x3B, 0x3C, 0x3D,
     0x3E, 0x3F, 0xFF, 0xFF, 0xFF, 0xFF, 0xFF, 0xFF,
     0xFF, 0x02, 0x03, 0x04, 0x05, 0x06, 0x07, 0x08,
     0x09, 0x0A, 0x0B, 0x0C, 0x0D, 0x0E, 0x0F, 0x10,
     0x11, 0x12, 0x13, 0x14, 0x15, 0x16, 0x17, 0x18,
     0x19, 0x1A, 0x1B, 0xFF, 0xFF, 0xFF, 0xFF, 0xFF,
     0xFF, 0x1C, 0x1D, 0x1E, 0x1F, 0x20, 0x21, 0x22,
     0x23, 0x24, 0x25, 0x26, 0x27, 0x28, 0x29, 0x2A,
     0x2B, 0x2C, 0x2D, 0x2E, 0x2F, 0x30, 0x31, 0x32,
     0x33, 0x34, 0x35, 0xFF, 0xFF, 0xFF, 0xFF, 0xFF,
     0xFF, 0xFF, 0xFF, 0xFF, 0xFF, 0xFF, 0xFF, 0xFF,
     0xFF, 0xFF, 0xFF, 0xFF, 0xFF, 0xFF, 0xFF, 0xFF,
     0xFF, 0xFF, 0xFF, 0xFF, 0xFF, 0xFF, 0xFF, 0xFF,
     0xFF, 0xFF, 0xFF, 0xFF, 0xFF, 0xFF, 0xFF, 0xFF,
     0xFF, 0xFF, 0xFF, 0xFF, 0xFF, 0xFF, 0xFF, 0xFF,
     0xFF, 0xFF, 0xFF, 0xFF, 0xFF, 0xFF, 0xFF, 0xFF,
     0xFF, 0xFF, 0xFF, 0xFF, 0xFF, 0xFF, 0xFF, 0xFF,
     0xFF, 0xFF, 0xFF, 0xFF, 0xFF, 0xFF, 0xFF, 0xFF,
     0xFF, 0xFF, 0xFF, 0xFF, 0xFF, 0xFF, 0xFF, 0xFF,
     0xFF, 0xFF, 0xFF, 0xFF, 0xFF, 0xFF, 0xFF, 0xFF,
     0xFF, 0xFF, 0xFF, 0xFF, 0xFF, 0xFF, 0xFF, 0xFF,
     0xFF, 0xFF, 0xFF, 0xFF, 0xFF, 0xFF, 0xFF, 0xFF,
     0xFF, 0xFF, 0xFF, 0xFF, 0xFF, 0xFF, 0xFF, 0xFF,
     0xFF, 0xFF, 0xFF, 0xFF, 0xFF, 0xFF, 0xFF, 0xFF,
     0xFF, 0xFF, 0xFF, 0xFF, 0xFF, 0xFF, 0xFF, 0xFF,
     0xFF, 0xFF, 0xFF, 0xFF, 0xFF, 0xFF, 0xFF, 0xFF]"

definition b64_char :: "u8 \<Rightarrow> u8" where
  "b64_char s = base64 ! unat s"

definition b64_value :: "u8 \<Rightarrow> u8" where
  "b64_value c = decode64 ! unat c"

fun base64_encode :: "bytes \<Rightarrow> bytes" where
  "base64_encode (p0 # p1 # p2 # p) =
     [b64_char (drop_bit 2 p0),
      b64_char (push_bit 4 (p0 AND 0x03) OR (drop_bit 4 p1 AND 0x0F)),
      b64_char (push_bit 2 (p1 AND 0x0F) OR (drop_bit 6 p2 AND 0x03)),
      b64_char (p2 AND 0x3F)] @ base64_encode p"
| "base64_encode [p0] =
     [b64_char (drop_bit 2 p0),
      b64_char (push_bit 4 (p0 AND 0x03)), 0x00]"
| "base64_encode [p0, p1] =
     [b64_char (drop_bit 2 p0),
      b64_char (push_bit 4 (p0 AND 0x03) OR (drop_bit 4 p1 AND 0x0F)),
      b64_char (push_bit 2 (p1 AND 0x0F)), 0x00]"
| "base64_encode [] = [0x00]"

function base64_decode :: "nat \<Rightarrow> bytes \<Rightarrow> (bool \<times> bytes) option" where
  "base64_decode len p =
     (if len \<ge> 3 then
        (case p of
           p0 # p1 # p2 # p3 # p' \<Rightarrow>
             let c1 = b64_value p0; c2 = b64_value p1; c3 = b64_value p2; c4 = b64_value p3
             in if c1 = 0xFF \<or> c2 = 0xFF \<or> c3 = 0xFF \<or> c4 = 0xFF then Some (False, [])
                else map_option (\<lambda>(ok, out).
                  (ok, [push_bit 2 c1 OR (drop_bit 4 c2 AND 0x03),
                        push_bit 4 (c2 AND 0x0F) OR (drop_bit 2 c3 AND 0x0F),
                        push_bit 6 (c3 AND 0x03) OR c4] @ out)) (base64_decode (len - 3) p')
         | _ \<Rightarrow> None)
      else if len = 1 then
        (case p of
           p0 # p1 # _ \<Rightarrow>
             let c1 = b64_value p0; c2 = b64_value p1
             in if c1 = 0xFF \<or> c2 = 0xFF then Some (False, [])
                else Some (True, [push_bit 2 c1 OR (drop_bit 4 c2 AND 0x03)])
         | _ \<Rightarrow> None)
      else if len = 2 then
        (case p of
           p0 # p1 # p2 # _ \<Rightarrow>
             let c1 = b64_value p0; c2 = b64_value p1; c3 = b64_value p2
             in if c1 = 0xFF \<or> c2 = 0xFF \<or> c3 = 0xFF then Some (False, [])
                else Some (True, [push_bit 2 c1 OR (drop_bit 4 c2 AND 0x03),
                                  push_bit 4 (c2 AND 0x0F) OR (drop_bit 2 c3 AND 0x0F)])
         | _ \<Rightarrow> None)
      else Some (True, []))"
  by pat_completeness auto
termination
  by (relation "measure (\<lambda>(len, p). len)") auto

declare base64_decode.simps [simp del]

subsection \<open>Correctness\<close>

lemma b64_tables: "list_all (\<lambda>i. b64_value (b64_char (of_nat i)) = of_nat i) [0..<64]"
  by code_simp

lemma b64_value_char:
  assumes "s < 64" shows "b64_value (b64_char s) = s"
proof -
  have "unat s < 64" using assms by (simp add: word_less_nat_alt)
  then show ?thesis
    using b64_tables by (auto simp: list_all_iff dest: bspec [of _ _ "unat s"])
qed

lemma small_mask: "(0x03 :: u8) = mask 2" "(0x0F :: u8) = mask 4" "(0x3F :: u8) = mask 6"
  by (simp_all add: mask_eq_exp_minus_1)

lemma sextet_bounds:
  "drop_bit 2 p0 < (64 :: u8)"
  "push_bit 4 (p0 AND 0x03) < (64 :: u8)"
  "push_bit 4 (p0 AND 0x03) OR (drop_bit 4 p1 AND 0x0F) < (64 :: u8)"
  "push_bit 2 (p1 AND 0x0F) < (64 :: u8)"
  "push_bit 2 (p1 AND 0x0F) OR (drop_bit 6 p2 AND 0x03) < (64 :: u8)"
  "p2 AND 0x3F < (64 :: u8)"
proof -
  have *: "x < (64 :: u8)" if "\<And>n. bit x n \<Longrightarrow> n < 6" for x
  proof -
    have "x = take_bit 6 x"
      by (rule bit_word_eqI) (use that in \<open>auto simp: bit_take_bit_iff\<close>)
    then have "unat x = take_bit 6 (unat x)" by (metis unsigned_take_bit_eq)
    then have "unat x < 2 ^ 6" by (metis take_bit_nat_less_exp)
    then show ?thesis by (simp add: word_less_nat_alt)
  qed
  show "drop_bit 2 p0 < (64 :: u8)" "push_bit 4 (p0 AND 0x03) < (64 :: u8)"
    "push_bit 4 (p0 AND 0x03) OR (drop_bit 4 p1 AND 0x0F) < (64 :: u8)"
    "push_bit 2 (p1 AND 0x0F) < (64 :: u8)"
    "push_bit 2 (p1 AND 0x0F) OR (drop_bit 6 p2 AND 0x03) < (64 :: u8)"
    "p2 AND 0x3F < (64 :: u8)"
    by (rule *; auto simp: small_mask bit_simps dest: bit_imp_le_length)+
qed

lemma sextet_not_invalid: "s < (64 :: u8) \<Longrightarrow> s \<noteq> 0xFF"
  by auto

lemmas b64_sextet = b64_value_char sextet_bounds sextet_not_invalid

text \<open>The decoder's bit operations undo the encoder's.\<close>

lemma u8_eqI:
  assumes "bit x 0 = bit y 0" "bit x 1 = bit y 1" "bit x 2 = bit y 2" "bit x 3 = bit y 3"
    "bit x 4 = bit y 4" "bit x 5 = bit y 5" "bit x 6 = bit y 6" "bit x 7 = bit y 7"
  shows "x = (y :: u8)"
proof (rule bit_word_eqI)
  fix n assume "n < LENGTH(8)"
  then have "n = 0 \<or> n = 1 \<or> n = 2 \<or> n = 3 \<or> n = 4 \<or> n = 5 \<or> n = 6 \<or> n = 7"
    by auto
  then show "bit x n = bit y n" using assms by metis
qed

lemma octets:
  "push_bit 2 (drop_bit 2 p0) OR (drop_bit 4 (push_bit 4 (p0 AND 0x03) OR (drop_bit 4 p1 AND 0x0F)) AND 0x03) = (p0 :: u8)"
  "push_bit 2 (drop_bit 2 p0) OR (drop_bit 4 (push_bit 4 (p0 AND 0x03)) AND 0x03) = p0"
  "push_bit 4 ((push_bit 4 (p0 AND 0x03) OR (drop_bit 4 p1 AND 0x0F)) AND 0x0F)
     OR (drop_bit 2 (push_bit 2 (p1 AND 0x0F) OR (drop_bit 6 p2 AND 0x03)) AND 0x0F) = (p1 :: u8)"
  "push_bit 4 ((push_bit 4 (p0 AND 0x03) OR (drop_bit 4 p1 AND 0x0F)) AND 0x0F)
     OR (drop_bit 2 (push_bit 2 (p1 AND 0x0F)) AND 0x0F) = p1"
  "push_bit 6 ((push_bit 2 (p1 AND 0x0F) OR (drop_bit 6 p2 AND 0x03)) AND 0x03) OR (p2 AND 0x3F) = (p2 :: u8)"
  by (rule u8_eqI; simp add: small_mask bit_simps)+

lemma base64_decode_encode:
  "base64_decode (length d) (base64_encode d @ rest) = Some (True, d)"
proof (induction d rule: base64_encode.induct)
  case (1 p0 p1 p2 p)
  then show ?case
    by (subst base64_decode.simps) (simp add: Let_def b64_sextet octets del: push_bit_and)
next
  case (2 p0)
  then show ?case
    by (subst base64_decode.simps) (simp add: Let_def b64_sextet octets del: push_bit_and)
next
  case (3 p0 p1)
  then show ?case
    by (subst base64_decode.simps) (simp add: Let_def b64_sextet octets del: push_bit_and)
next
  case 4
  then show ?case by (subst base64_decode.simps) simp
qed

subsection \<open>Properties\<close>

text \<open>C28: Decoding what \<^verbatim>\<open>base64_encode\<close> wrote, with the number of encoded bytes and whatever
  memory follows the string, succeeds and gives the original bytes.\<close>
theorem base64_roundtrip:
  "base64_decode (length d) (base64_encode d @ rest) = Some (True, d)"
  by (rule base64_decode_encode)

text \<open>\<^verbatim>\<open>base64_decode\<close> never writes more than the requested number of bytes, and exactly that
  many when it reports success; it never reads past the memory when that holds at least the
  \<open>\<lceil>4 len / 3\<rceil>\<close> characters the encoder writes for \<^verbatim>\<open>len\<close> bytes.\<close>
theorem base64_decode_bounds:
  "(case base64_decode len p of
      None \<Rightarrow> length p < (4 * len + 2) div 3
    | Some (ok, out) \<Rightarrow> length out \<le> len \<and> (ok \<longrightarrow> length out = len))"
proof (induction len arbitrary: p rule: less_induct)
  case (less len)
  have "length p < 4 \<or> (\<exists>p0 p1 p2 p3 p'. p = p0 # p1 # p2 # p3 # p')"
    by (cases p; cases "tl p"; cases "tl (tl p)"; cases "tl (tl (tl p))") auto
  then consider "length p < 4" "3 \<le> len"
    | p0 p1 p2 p3 p' where "p = p0 # p1 # p2 # p3 # p'" "3 \<le> len"
    | "len = 0 \<or> len = 1 \<or> len = 2"
    by (cases "3 \<le> len") force+
  then show ?case
  proof cases
    case 1
    then have "base64_decode len p = None"
      by (subst base64_decode.simps) (auto split: list.split)
    with 1 show ?thesis by simp
  next
    case 2
    then show ?thesis using less.IH [of "len - 3" p']
      by (subst base64_decode.simps) (auto simp: Let_def split: option.splits)
  next
    case 3
    then show ?thesis
      by (subst base64_decode.simps) (auto simp: Let_def split: list.split)
  qed
qed

theorem base64_decode_bounds_witness:
  "\<exists>out. base64_decode 3 (base64_encode [1, 2, 3] @ []) = Some (True, out) \<and> length out = 3"
proof -
  have "base64_decode 3 (base64_encode [1, 2, 3] @ []) = Some (True, [1, 2, 3])"
    using base64_decode_encode [of "[1, 2, 3]" "[]"] by (simp add: numeral_3_eq_3)
  then show ?thesis
    using base64_decode_bounds [of "base64_encode [1, 2, 3] @ []" 3] by (simp del: base64_encode.simps)
qed

end
