(* ===== verification/Blowfish.thy ===== *)
theory Blowfish
  imports Blowfish_Tables Xtea
begin

text \<open>
  The cipher \<^verbatim>\<open>src/src/crypto/blowfish.c\<close>: its block operations, the key schedule over a cyclic
  key, and the ECB and CBC loops over a buffer.  A buffer operation takes the memory from \<^verbatim>\<open>data\<close>
  on and gives that memory after the call, or \<^theory_text>\<open>None\<close> where the code would access memory past
  it (\<^verbatim>\<open>ROUND_TO_8\<close> lets the loops run up to 7 bytes beyond \<^verbatim>\<open>len\<close>).
\<close>

record blowfish_ctx =
  bf_P :: "u32 list"
  bf_S :: "u32 list"

definition blowfish_init :: blowfish_ctx where
  "blowfish_init = \<lparr>bf_P = blowfish_P, bf_S = blowfish_S\<rparr>"

subsection \<open>Block operations\<close>

definition bf_f :: "blowfish_ctx \<Rightarrow> u32 \<Rightarrow> u32" where
  "bf_f b x =
     ((bf_S b ! unat (drop_bit 24 x AND 0xFF)
       + bf_S b ! (unat (drop_bit 16 x AND 0xFF) + 256))
      XOR bf_S b ! (unat (drop_bit 8 x AND 0xFF) + 512))
     + bf_S b ! (unat (x AND 0xFF) + 768)"

definition bf_encode_step :: "blowfish_ctx \<Rightarrow> nat \<Rightarrow> u32 \<times> u32 \<Rightarrow> u32 \<times> u32" where
  "bf_encode_step b i = (\<lambda>(l, r).
     let l1 = l XOR bf_P b ! i;
         r1 = r XOR bf_f b l1;
         r2 = r1 XOR bf_P b ! (i + 1);
         l2 = l1 XOR bf_f b r2
     in (l2, r2))"

definition encode_one :: "blowfish_ctx \<Rightarrow> u32 \<times> u32 \<Rightarrow> u32 \<times> u32" where
  "encode_one b d =
     (let (l, r) = fold (bf_encode_step b) [0, 2, 4, 6, 8, 10, 12, 14] d
      in (r XOR bf_P b ! 17, l XOR bf_P b ! 16))"

definition bf_decode_step :: "blowfish_ctx \<Rightarrow> nat \<Rightarrow> u32 \<times> u32 \<Rightarrow> u32 \<times> u32" where
  "bf_decode_step b i = (\<lambda>(l, r).
     let l1 = l XOR bf_P b ! (i + 1);
         r1 = r XOR bf_f b l1;
         r2 = r1 XOR bf_P b ! i;
         l2 = l1 XOR bf_f b r2
     in (l2, r2))"

definition decode_one :: "blowfish_ctx \<Rightarrow> u32 \<times> u32 \<Rightarrow> u32 \<times> u32" where
  "decode_one b d =
     (let (l, r) = fold (bf_decode_step b) [16, 14, 12, 10, 8, 6, 4, 2] d
      in (r XOR bf_P b ! 0, l XOR bf_P b ! 1))"

text \<open>One decoding step undoes one encoding step, up to the subkeys still to be removed.\<close>

definition bf_whiten :: "blowfish_ctx \<Rightarrow> nat \<Rightarrow> u32 \<times> u32 \<Rightarrow> u32 \<times> u32" where
  "bf_whiten b i = (\<lambda>(l, r). (r XOR bf_P b ! (i + 1), l XOR bf_P b ! i))"

lemma bf_step_inverse:
  "bf_decode_step b (i + 2) (bf_whiten b (i + 2) (bf_encode_step b i s)) = bf_whiten b i s"
  by (cases s) (simp add: bf_decode_step_def bf_encode_step_def bf_whiten_def Let_def xor.assoc
      xor.left_commute xor.commute)

lemma encode_one_whiten:
  "encode_one b d = bf_whiten b 16 (fold (bf_encode_step b) [0, 2, 4, 6, 8, 10, 12, 14] d)"
  by (simp add: encode_one_def bf_whiten_def split: prod.split)

lemma decode_encode_one: "decode_one b (encode_one b d) = d"
proof -
  have inv: "bf_decode_step b 16 (bf_whiten b 16 (bf_encode_step b 14 s)) = bf_whiten b 14 s"
    "bf_decode_step b 14 (bf_whiten b 14 (bf_encode_step b 12 s)) = bf_whiten b 12 s"
    "bf_decode_step b 12 (bf_whiten b 12 (bf_encode_step b 10 s)) = bf_whiten b 10 s"
    "bf_decode_step b 10 (bf_whiten b 10 (bf_encode_step b 8 s)) = bf_whiten b 8 s"
    "bf_decode_step b 8 (bf_whiten b 8 (bf_encode_step b 6 s)) = bf_whiten b 6 s"
    "bf_decode_step b 6 (bf_whiten b 6 (bf_encode_step b 4 s)) = bf_whiten b 4 s"
    "bf_decode_step b 4 (bf_whiten b 4 (bf_encode_step b 2 s)) = bf_whiten b 2 s" for s
    using bf_step_inverse [of b 14 s] bf_step_inverse [of b 12 s] bf_step_inverse [of b 10 s]
      bf_step_inverse [of b 8 s] bf_step_inverse [of b 6 s] bf_step_inverse [of b 4 s]
      bf_step_inverse [of b 2 s] by simp_all
  moreover have "bf_decode_step b 2 (bf_whiten b 2 (bf_encode_step b 0 s)) = bf_whiten b 0 s" for s
    using bf_step_inverse [of b 0 s] by (simp add: numeral_2_eq_2)
  ultimately have "fold (bf_decode_step b) [16, 14, 12, 10, 8, 6, 4, 2] (encode_one b d) = bf_whiten b 0 d"
    unfolding encode_one_whiten by simp
  then show ?thesis
    by (cases d) (simp add: decode_one_def bf_whiten_def)
qed

lemma encode_decode_one: "encode_one b (decode_one b d) = d"
proof -
  have "inj (encode_one b)" by (metis decode_encode_one injI)
  then obtain e where "d = encode_one b e"
    using finite_UNIV_inj_surj [of "encode_one b"] by (metis finite surjD)
  then show ?thesis by (simp add: decode_encode_one)
qed

interpretation blowfish_block: block_cipher "encode_one b" "decode_one b" for b
  by unfold_locales (rule decode_encode_one encode_decode_one)+

subsection \<open>Key schedule\<close>

text \<open>The cyclic key stream: the next 32-bit word from index \<^verbatim>\<open>*current\<close> on and the new index;
  \<^theory_text>\<open>None\<close> for a read outside the key (an empty one).\<close>

definition cyclic_step :: "bytes \<Rightarrow> u32 \<times> nat \<Rightarrow> (u32 \<times> nat) option" where
  "cyclic_step data = (\<lambda>(d, j).
     if j < length data
     then Some (push_bit 8 d OR ucast (data ! j), if j + 1 \<ge> length data then 0 else j + 1)
     else None)"

definition cyclic_buffer_get_u32 :: "bytes \<Rightarrow> nat \<Rightarrow> (u32 \<times> nat) option" where
  "cyclic_buffer_get_u32 data current = do {
     s1 \<leftarrow> cyclic_step data (0, current);
     s2 \<leftarrow> cyclic_step data s1;
     s3 \<leftarrow> cyclic_step data s2;
     cyclic_step data s3
   }"

text \<open>\<^verbatim>\<open>for(i = 0; i < 18; ++i) b->P[i] ^= cyclic_buffer_get_u32(key, len, &j)\<close>\<close>

fun bf_xor_key :: "bytes \<Rightarrow> nat list \<Rightarrow> nat \<Rightarrow> blowfish_ctx \<Rightarrow> blowfish_ctx option" where
  "bf_xor_key key [] j b = Some b"
| "bf_xor_key key (i # is) j b = do {
     (d, j') \<leftarrow> cyclic_buffer_get_u32 key j;
     bf_xor_key key is j' (b\<lparr>bf_P := (bf_P b)[i := bf_P b ! i XOR d]\<rparr>)
   }"

definition bf_set_P :: "nat \<Rightarrow> u32 \<times> u32 \<Rightarrow> blowfish_ctx \<Rightarrow> blowfish_ctx" where
  "bf_set_P i d b = b\<lparr>bf_P := (bf_P b)[i := fst d, i + 1 := snd d]\<rparr>"

definition bf_set_S :: "nat \<Rightarrow> u32 \<times> u32 \<Rightarrow> blowfish_ctx \<Rightarrow> blowfish_ctx" where
  "bf_set_S i d b = b\<lparr>bf_S := (bf_S b)[i := fst d, i + 1 := snd d]\<rparr>"

definition evens_upto :: "nat \<Rightarrow> nat list" where
  "evens_upto n = map ((*) 2) [0..<n]"

text \<open>\<^verbatim>\<open>blowfish_expandkey\<close>: the tables are overwritten while they are used to encrypt.\<close>

definition bf_fill ::
  "(nat \<Rightarrow> u32 \<times> u32 \<Rightarrow> blowfish_ctx \<Rightarrow> blowfish_ctx) \<Rightarrow> nat
    \<Rightarrow> blowfish_ctx \<times> u32 \<times> u32 \<Rightarrow> blowfish_ctx \<times> u32 \<times> u32" where
  "bf_fill store i = (\<lambda>(b, d). let d' = encode_one b d in (store i d' b, d'))"

definition blowfish_expandkey :: "blowfish_ctx \<Rightarrow> bytes \<Rightarrow> blowfish_ctx option" where
  "blowfish_expandkey b key = do {
     b1 \<leftarrow> bf_xor_key key [0..<18] 0 b;
     let s2 = fold (bf_fill bf_set_P) (evens_upto 9) (b1, 0, 0);
     Some (fst (fold (bf_fill bf_set_S) (evens_upto 512) s2))
   }"

definition blowfish_setkey :: "bytes \<Rightarrow> blowfish_ctx option" where
  "blowfish_setkey key = blowfish_expandkey blowfish_init key"

text \<open>\<^verbatim>\<open>blowfish_expandkey1\<close>: each block is first combined with two words of the salt stream.\<close>

fun bf_fill_salted ::
  "(nat \<Rightarrow> u32 \<times> u32 \<Rightarrow> blowfish_ctx \<Rightarrow> blowfish_ctx) \<Rightarrow> bytes \<Rightarrow> nat list
    \<Rightarrow> nat \<Rightarrow> blowfish_ctx \<times> u32 \<times> u32 \<Rightarrow> (nat \<times> blowfish_ctx \<times> u32 \<times> u32) option" where
  "bf_fill_salted store data [] j s = Some (j, s)"
| "bf_fill_salted store data (i # is) j (b, d) = do {
     (w0, j1) \<leftarrow> cyclic_buffer_get_u32 data j;
     (w1, j2) \<leftarrow> cyclic_buffer_get_u32 data j1;
     let d' = encode_one b (fst d XOR w0, snd d XOR w1);
     bf_fill_salted store data is j2 (store i d' b, d')
   }"

definition blowfish_expandkey1 :: "blowfish_ctx \<Rightarrow> bytes \<Rightarrow> bytes \<Rightarrow> blowfish_ctx option" where
  "blowfish_expandkey1 b key data = do {
     b1 \<leftarrow> bf_xor_key key [0..<18] 0 b;
     (j, s2) \<leftarrow> bf_fill_salted bf_set_P data (evens_upto 9) 0 (b1, 0, 0);
     (j', s3) \<leftarrow> bf_fill_salted bf_set_S data (evens_upto 512) j s2;
     Some (fst s3)
   }"

subsection \<open>Buffer operations\<close>

definition ROUND_TO_8 :: "nat \<Rightarrow> nat" where
  "ROUND_TO_8 x = (x + 7) div 8 * 8"

text \<open>One pass of the ECB loops: both words are stored at \<^verbatim>\<open>data\<close>, the second over the first.\<close>

definition bf_block ::
  "(u32 \<times> u32 \<Rightarrow> u32 \<times> u32) \<Rightarrow> bytes \<Rightarrow> bytes option" where
  "bf_block op data = do {
     d0 \<leftarrow> decode_u32_be data;
     d1 \<leftarrow> decode_u32_be (drop 4 data);
     let d = op (d0, d1);
     m1 \<leftarrow> mem_write 0 (encode_u32_be (fst d)) data;
     mem_write 0 (encode_u32_be (snd d)) m1
   }"

fun bf_ecb_loop ::
  "(u32 \<times> u32 \<Rightarrow> u32 \<times> u32) \<Rightarrow> nat \<Rightarrow> bytes \<Rightarrow> bytes option" where
  "bf_ecb_loop op 0 data = Some data"
| "bf_ecb_loop op (Suc n) data = do {
     m \<leftarrow> bf_block op data;
     rest \<leftarrow> bf_ecb_loop op n (drop 8 m);
     Some (take 8 m @ rest)
   }"

definition blowfish_ecb_encode :: "blowfish_ctx \<Rightarrow> bytes \<Rightarrow> nat \<Rightarrow> bytes option" where
  "blowfish_ecb_encode b data len = bf_ecb_loop (encode_one b) (ROUND_TO_8 len div 8) data"

definition blowfish_ecb_decode :: "blowfish_ctx \<Rightarrow> bytes \<Rightarrow> nat \<Rightarrow> bytes option" where
  "blowfish_ecb_decode b data len = bf_ecb_loop (decode_one b) (ROUND_TO_8 len div 8) data"

definition blowfish_ecb_encode_n :: "blowfish_ctx \<Rightarrow> nat \<Rightarrow> bytes \<Rightarrow> nat \<Rightarrow> bytes option" where
  "blowfish_ecb_encode_n b n data len =
     bf_ecb_loop (encode_one b ^^ n) (ROUND_TO_8 len div 8) data"

text \<open>\<^verbatim>\<open>for(i = 0; i < 8; ++i) data[i] ^= iv[i]\<close>\<close>

definition xor_8 :: "bytes \<Rightarrow> bytes \<Rightarrow> bytes option" where
  "xor_8 iv data = do {
     a \<leftarrow> mem_read 0 8 data;
     v \<leftarrow> mem_read 0 8 iv;
     mem_write 0 (map2 (XOR) a v) data
   }"

fun bf_cbc_encode_loop :: "blowfish_ctx \<Rightarrow> bytes \<Rightarrow> nat \<Rightarrow> bytes \<Rightarrow> bytes option" where
  "bf_cbc_encode_loop b iv 0 data = Some data"
| "bf_cbc_encode_loop b iv (Suc n) data = do {
     x \<leftarrow> xor_8 iv data;
     m \<leftarrow> bf_block (encode_one b) x;
     rest \<leftarrow> bf_cbc_encode_loop b (take 8 m) n (drop 8 m);
     Some (take 8 m @ rest)
   }"

definition blowfish_cbc_encode ::
  "blowfish_ctx \<Rightarrow> bytes \<Rightarrow> bytes \<Rightarrow> nat \<Rightarrow> bytes option" where
  "blowfish_cbc_encode b iv data len = bf_cbc_encode_loop b iv (ROUND_TO_8 len div 8) data"

text \<open>The CBC decoder walks the blocks from the last to the first; \<^theory_text>\<open>n\<close> blocks remain, and the one at
  offset \<open>8 * (n - 1)\<close> is combined with its predecessor, the first one with \<^verbatim>\<open>iv\<close>.\<close>

fun bf_cbc_decode_loop :: "blowfish_ctx \<Rightarrow> bytes \<Rightarrow> nat \<Rightarrow> bytes \<Rightarrow> bytes option" where
  "bf_cbc_decode_loop b iv 0 data = Some data"
| "bf_cbc_decode_loop b iv (Suc n) data =
     (if 8 * n + 8 \<le> length data then do {
        m \<leftarrow> bf_block (decode_one b) (drop (8 * n) data);
        x \<leftarrow> xor_8 (if n > 0 then drop (8 * (n - 1)) data else iv) m;
        bf_cbc_decode_loop b iv n (take (8 * n) data @ x)
      }
      else None)"

definition blowfish_cbc_decode ::
  "blowfish_ctx \<Rightarrow> bytes \<Rightarrow> bytes \<Rightarrow> nat \<Rightarrow> bytes option" where
  "blowfish_cbc_decode b iv data len = bf_cbc_decode_loop b iv (ROUND_TO_8 len div 8) data"

subsection \<open>Key schedule: safety, table sizes, cyclic keys\<close>

definition bf_ok :: "blowfish_ctx \<Rightarrow> bool" where
  "bf_ok b \<longleftrightarrow> length (bf_P b) = 18 \<and> length (bf_S b) = 1024"

lemma bf_ok_init: "bf_ok blowfish_init"
  by (simp add: bf_ok_def blowfish_init_def blowfish_P_def blowfish_S_def)

lemma bf_ok_set [kpl_inv]:
  "bf_ok (bf_set_P i d b) = bf_ok b" "bf_ok (bf_set_S i d b) = bf_ok b"
  by (simp_all add: bf_ok_def bf_set_P_def bf_set_S_def)

text \<open>The key stream: byte \<^theory_text>\<open>k\<close> of the stream is byte \<^theory_text>\<open>k mod length\<close> of the key.\<close>

definition stream_u32 :: "(nat \<Rightarrow> u8) \<Rightarrow> nat \<Rightarrow> u32" where
  "stream_u32 f k =
     push_bit 8 (push_bit 8 (push_bit 8 (ucast (f k)) OR ucast (f (Suc k)))
       OR ucast (f (Suc (Suc k)))) OR ucast (f (Suc (Suc (Suc k))))"

definition key_stream :: "bytes \<Rightarrow> nat \<Rightarrow> u8" where
  "key_stream key k = key ! (k mod length key)"

lemma cyclic_step_stream:
  assumes "key \<noteq> []"
  shows "cyclic_step key (d, k mod length key) =
     Some (push_bit 8 d OR ucast (key_stream key k), Suc k mod length key)"
proof -
  have "k mod length key < length key" using assms by simp
  then show ?thesis by (auto simp: cyclic_step_def key_stream_def mod_Suc)
qed

lemma cyclic_buffer_stream:
  assumes "key \<noteq> []"
  shows "cyclic_buffer_get_u32 key (k mod length key) =
     Some (stream_u32 (key_stream key) k, Suc (Suc (Suc (Suc k))) mod length key)"
  by (simp add: cyclic_buffer_get_u32_def stream_u32_def cyclic_step_stream [OF assms])

text \<open>The reference key schedule over a stream of key bytes.\<close>

definition bf_xor_stream :: "(nat \<Rightarrow> u8) \<Rightarrow> blowfish_ctx \<Rightarrow> blowfish_ctx" where
  "bf_xor_stream f b =
     b\<lparr>bf_P := map (\<lambda>i. bf_P b ! i XOR stream_u32 f (4 * i)) [0..<18] @ drop 18 (bf_P b)\<rparr>"

lemma bf_xor_key_stream:
  assumes "key \<noteq> []" "m \<le> length (bf_P b)" "k \<le> m"
  shows "bf_xor_key key [k..<m] (4 * k mod length key) b =
     Some (b\<lparr>bf_P := take k (bf_P b)
        @ map (\<lambda>i. bf_P b ! i XOR stream_u32 (key_stream key) (4 * i)) [k..<m] @ drop m (bf_P b)\<rparr>)"
  using assms(2,3)
proof (induction "m - k" arbitrary: k b)
  case 0
  then show ?case by simp
next
  case (Suc n)
  then have k: "k < m" and up: "[k..<m] = k # [Suc k..<m]"
    by (simp_all add: upt_conv_Cons)
  let ?v = "bf_P b ! k XOR stream_u32 (key_stream key) (4 * k)"
  have st: "Suc (Suc (Suc (Suc (4 * k)))) = 4 * Suc k" by simp
  show ?case
    using Suc.hyps(1) [of "Suc k" "b\<lparr>bf_P := (bf_P b)[k := ?v]\<rparr>"] Suc.hyps(2) Suc.prems k
    by (simp add: up cyclic_buffer_stream [OF assms(1)] st take_Suc_conv_app_nth del: mult_Suc_right)
qed

lemma bf_xor_key_18:
  assumes "key \<noteq> []" "length (bf_P b) = 18"
  shows "bf_xor_key key [0..<18] 0 b = Some (bf_xor_stream (key_stream key) b)"
  using bf_xor_key_stream [OF assms(1), of 18 b 0] assms(2) by (simp add: bf_xor_stream_def)

lemma bf_xor_stream_ok [kpl_inv]: "bf_ok b \<Longrightarrow> bf_ok (bf_xor_stream f b)"
  by (simp add: bf_ok_def bf_xor_stream_def)

lemma bf_fill_ok:
  "bf_ok (fst s) \<Longrightarrow> bf_ok (fst (fold (bf_fill bf_set_P) is s))"
  "bf_ok (fst s) \<Longrightarrow> bf_ok (fst (fold (bf_fill bf_set_S) is s))"
proof -
  have "bf_ok b \<Longrightarrow> bf_ok (fst (fold (bf_fill bf_set_P) is (b, d)))"
    "bf_ok b \<Longrightarrow> bf_ok (fst (fold (bf_fill bf_set_S) is (b, d)))" for b d
    by (induction "is" arbitrary: b d) (simp_all add: bf_fill_def Let_def kpl_inv)
  then show "bf_ok (fst s) \<Longrightarrow> bf_ok (fst (fold (bf_fill bf_set_P) is s))"
    "bf_ok (fst s) \<Longrightarrow> bf_ok (fst (fold (bf_fill bf_set_S) is s))"
    by (cases s; simp)+
qed

text \<open>The salted fill as a total function of the salt's stream.\<close>

fun bf_fill_stream ::
  "(nat \<Rightarrow> u32 \<times> u32 \<Rightarrow> blowfish_ctx \<Rightarrow> blowfish_ctx) \<Rightarrow> (nat \<Rightarrow> u8) \<Rightarrow> nat list
    \<Rightarrow> nat \<Rightarrow> blowfish_ctx \<times> u32 \<times> u32 \<Rightarrow> blowfish_ctx \<times> u32 \<times> u32" where
  "bf_fill_stream store f [] k s = s"
| "bf_fill_stream store f (i # is) k (b, d) =
     (let d' = encode_one b (fst d XOR stream_u32 f k, snd d XOR stream_u32 f (k + 4))
      in bf_fill_stream store f is (k + 8) (store i d' b, d'))"

lemma bf_fill_salted_stream:
  assumes "data \<noteq> []"
  shows "bf_fill_salted store data is (k mod length data) s =
    Some ((k + 8 * length is) mod length data, bf_fill_stream store (key_stream data) is k s)"
proof (induction "is" arbitrary: k s)
  case (Cons i "is")
  obtain b d where s: "s = (b, d)" by (cases s)
  have four: "Suc (Suc (Suc (Suc m))) = m + 4" for m by simp
  show ?case
    using Cons.IH [of "k + 8"]
    by (simp add: s cyclic_buffer_stream [OF assms] four Let_def add.commute [of 8 k] add.assoc)
qed simp

lemma bf_fill_stream_ok:
  "bf_ok (fst s) \<Longrightarrow> bf_ok (fst (bf_fill_stream bf_set_P f is k s))"
  "bf_ok (fst s) \<Longrightarrow> bf_ok (fst (bf_fill_stream bf_set_S f is k s))"
proof -
  have "bf_ok b \<Longrightarrow> bf_ok (fst (bf_fill_stream bf_set_P f is k (b, d)))"
    "bf_ok b \<Longrightarrow> bf_ok (fst (bf_fill_stream bf_set_S f is k (b, d)))" for b d
    by (induction "is" arbitrary: b d k) (simp_all add: Let_def kpl_inv)
  then show "bf_ok (fst s) \<Longrightarrow> bf_ok (fst (bf_fill_stream bf_set_P f is k s))"
    "bf_ok (fst s) \<Longrightarrow> bf_ok (fst (bf_fill_stream bf_set_S f is k s))"
    by (cases s; simp)+
qed

definition bf_schedule :: "(nat \<Rightarrow> u8) \<Rightarrow> blowfish_ctx \<Rightarrow> blowfish_ctx" where
  "bf_schedule f b =
     fst (fold (bf_fill bf_set_S) (evens_upto 512)
       (fold (bf_fill bf_set_P) (evens_upto 9) (bf_xor_stream f b, 0, 0)))"

definition bf_schedule_salted :: "(nat \<Rightarrow> u8) \<Rightarrow> (nat \<Rightarrow> u8) \<Rightarrow> blowfish_ctx \<Rightarrow> blowfish_ctx" where
  "bf_schedule_salted f g b =
     fst (bf_fill_stream bf_set_S g (evens_upto 512) 72
       (bf_fill_stream bf_set_P g (evens_upto 9) 0 (bf_xor_stream f b, 0, 0)))"

lemma expandkey_schedule:
  "key \<noteq> [] \<Longrightarrow> bf_ok b \<Longrightarrow> blowfish_expandkey b key = Some (bf_schedule (key_stream key) b)"
  by (simp add: blowfish_expandkey_def bf_ok_def bf_xor_key_18 bf_schedule_def Let_def)

lemma expandkey1_schedule:
  assumes "key \<noteq> []" "data \<noteq> []" "bf_ok b"
  shows "blowfish_expandkey1 b key data =
    Some (bf_schedule_salted (key_stream key) (key_stream data) b)"
  using bf_fill_salted_stream [OF assms(2), of bf_set_P "evens_upto 9" 0 "(bf_xor_stream (key_stream key) b, 0, 0)"]
    bf_fill_salted_stream [OF assms(2), of bf_set_S "evens_upto 512" 72] assms(1,3)
  by (simp add: blowfish_expandkey1_def bf_ok_def bf_xor_key_18 bf_schedule_salted_def evens_upto_def)

lemma key_stream_append_self: "key_stream (key @ key) = key_stream key"
proof
  fix k
  show "key_stream (key @ key) k = key_stream key k"
  proof (cases "key = []")
    case False
    define n where "n = length key"
    have "k mod (n + n) mod n = k mod n" by (simp add: mod_mod_cancel mult_2 [symmetric])
    moreover have "k mod (n + n) < n + n" using False by (simp add: n_def)
    ultimately show ?thesis
      by (auto simp: key_stream_def nth_append n_def [symmetric] mod_if [of "k mod (n + n)"]
          le_mod_geq not_less)
  qed simp
qed

subsection \<open>What the ECB loop does to a buffer\<close>

definition be_word :: "bytes \<Rightarrow> nat \<Rightarrow> u32" where
  "be_word data i = the (decode_u32_be (drop i data))"

lemma decode_be_word: "i + 4 \<le> length data \<Longrightarrow> decode_u32_be (drop i data) = Some (be_word data i)"
  using u32_be.dec_total [of "drop i data"] by (auto simp: be_word_def)

lemma be_word_drop: "be_word (drop j data) i = be_word data (j + i)"
  by (simp add: be_word_def add.commute)

lemma be_word_encode: "be_word (encode_u32_be v @ rest) 0 = v"
  by (simp add: be_word_def)

lemma bf_block_result:
  assumes "8 \<le> length data"
  shows "bf_block op data =
     Some (encode_u32_be (snd (op (be_word data 0, be_word data 4))) @ drop 4 data)"
  using assms decode_be_word [of 0 data] decode_be_word [of 4 data]
  by (simp add: bf_block_def Let_def mem_write_def)

lemma bf_block_short: "length data < 8 \<Longrightarrow> bf_block op data = None"
  using u32_be.dec_short [of "drop 4 data"] by (cases "decode_u32_be data") (auto simp: bf_block_def)

lemma bf_ecb_loop_safe: "bf_ecb_loop op n data \<noteq> None \<longleftrightarrow> 8 * n \<le> length data"
proof (induction n arbitrary: data)
  case (Suc n)
  show ?case
  proof (cases "length data < 8")
    case False
    then show ?thesis
      using Suc [of "drop 8 data"]
      by (auto simp: bf_block_result bind_eq_None_conv split: option.splits)
  qed (auto simp: bf_block_short)
qed simp

lemma bf_ecb_loop_result:
  assumes "8 * n \<le> length data"
  shows "\<exists>c. bf_ecb_loop op n data = Some c \<and> length c = length data
    \<and> (\<forall>i. i < length data \<longrightarrow> 8 * n \<le> i \<or> 4 \<le> i mod 8 \<longrightarrow> c ! i = data ! i)
    \<and> (\<forall>k < n. be_word c (8 * k) = snd (op (be_word data (8 * k), be_word data (8 * k + 4))))"
  using assms
proof (induction n arbitrary: data)
  case (Suc n)
  then have n: "8 * n \<le> length (drop 8 data)" by simp
  obtain c where IH: "bf_ecb_loop op n (drop 8 data) = Some c" "length c = length (drop 8 data)"
    "\<forall>i. i < length (drop 8 data) \<longrightarrow> 8 * n \<le> i \<or> 4 \<le> i mod 8 \<longrightarrow> c ! i = drop 8 data ! i"
    "\<forall>k < n. be_word c (8 * k) =
       snd (op (be_word (drop 8 data) (8 * k), be_word (drop 8 data) (8 * k + 4)))"
    using Suc.IH [OF n] by blast
  have c: "bf_ecb_loop op n (drop 8 data) = Some c" "length c = length data - 8"
    "i < length data - 8 \<Longrightarrow> 8 * n \<le> i \<or> 4 \<le> i mod 8 \<Longrightarrow> c ! i = data ! (8 + i)"
    "k < n \<Longrightarrow> be_word c (8 * k) =
       snd (op (be_word data (8 + 8 * k), be_word data (8 + 8 * k + 4)))" for i k
    using IH Suc.prems by (auto simp: be_word_drop add.assoc)
  define w where "w = snd (op (be_word data 0, be_word data 4))"
  define r where "r = encode_u32_be w @ take 4 (drop 4 data) @ c"
  have blk: "bf_block op data = Some (encode_u32_be w @ drop 4 data)"
    using Suc.prems by (simp add: bf_block_result w_def)
  have run: "bf_ecb_loop op (Suc n) data = Some r"
    using c(1) Suc.prems by (simp add: blk r_def drop_take)
  have len: "length r = length data" using c(2) Suc.prems by (simp add: r_def)
  have nth: "r ! i = data ! i"
    if i: "i < length data" "8 * Suc n \<le> i \<or> 4 \<le> i mod 8" for i
  proof (cases "i < 8")
    case True
    then have "4 \<le> i" using i by auto
    moreover have "i - 4 < 4" using True by simp
    ultimately show ?thesis using True Suc.prems by (simp add: r_def nth_append)
  next
    case False
    have "(i - 8) mod 8 = i mod 8" using False by (simp add: le_mod_geq)
    then have "i - 8 < length data - 8" "8 * n \<le> i - 8 \<or> 4 \<le> (i - 8) mod 8"
      using i False by auto
    then have "c ! (i - 8) = data ! i" using c(3) [of "i - 8"] False by simp
    moreover have "\<not> i - 4 < 4" using False by simp
    ultimately show ?thesis using False Suc.prems by (simp add: r_def nth_append)
  qed
  have words: "be_word r (8 * k) = snd (op (be_word data (8 * k), be_word data (8 * k + 4)))"
    if "k < Suc n" for k
  proof (cases k)
    case 0
    then show ?thesis by (simp add: r_def w_def be_word_encode)
  next
    case (Suc m)
    have "be_word r (8 * k) = be_word (drop 8 r) (8 * m)" by (simp add: be_word_drop Suc)
    also have "drop 8 r = c" using Suc.prems by (simp add: r_def)
    finally show ?thesis using c(4) [of m] that Suc by (simp add: add.commute)
  qed
  show ?case using run len nth words by blast
qed simp

lemma bf_schedule_ok [kpl_inv]: "bf_ok b \<Longrightarrow> bf_ok (bf_schedule f b)"
  by (simp add: bf_schedule_def bf_fill_ok bf_xor_stream_ok)

lemma bf_schedule_salted_ok [kpl_inv]: "bf_ok b \<Longrightarrow> bf_ok (bf_schedule_salted f g b)"
  by (simp add: bf_schedule_salted_def bf_fill_stream_ok bf_xor_stream_ok)

lemma ROUND_TO_8_blocks: "8 * (ROUND_TO_8 len div 8) = ROUND_TO_8 len"
  by (simp add: ROUND_TO_8_def)

lemma blocks_less: "8 * k < ROUND_TO_8 len \<Longrightarrow> k < ROUND_TO_8 len div 8"
  using ROUND_TO_8_blocks [of len] by linarith

subsection \<open>Properties\<close>

text \<open>C29: Under every key, decoding a Blowfish block undoes encoding it, in either order and for any
  number of iterations (the eksblowfish loop of bcrypt encodes 64 times).\<close>

theorem blowfish_block_roundtrip:
  "decode_one b (encode_one b d) = d \<and> encode_one b (decode_one b d) = d
   \<and> (decode_one b ^^ n) ((encode_one b ^^ n) d) = d"
  by (simp add: blowfish_block.D_E blowfish_block.E_D blowfish_block.iterate_inverse)

text \<open>The key schedule never reads outside a non-empty key or salt nor outside the tables: it
  yields tables of the right sizes, those of the reference schedule over the endless repetition of the
  key and of the salt, so repeating the key changes nothing.  An empty key is read out of bounds.\<close>

theorem blowfish_schedule_safe:
  assumes "bf_ok b" and "key \<noteq> []" and "salt \<noteq> []"
  shows "(\<exists>b'. blowfish_expandkey b key = Some b' \<and> bf_ok b'
      \<and> b' = bf_schedule (\<lambda>k. key ! (k mod length key)) b)
    \<and> (\<exists>b'. blowfish_expandkey1 b key salt = Some b' \<and> bf_ok b'
      \<and> b' = bf_schedule_salted (\<lambda>k. key ! (k mod length key)) (\<lambda>k. salt ! (k mod length salt)) b)
    \<and> blowfish_expandkey b (key @ key) = blowfish_expandkey b key
    \<and> blowfish_expandkey b [] = None"
proof -
  have "blowfish_expandkey b [] = None"
    by (simp add: blowfish_expandkey_def upt_rec cyclic_buffer_get_u32_def cyclic_step_def)
  then show ?thesis
    using assms key_stream_append_self [of key]
    by (simp add: expandkey_schedule expandkey1_schedule bf_schedule_ok bf_schedule_salted_ok
        key_stream_def [abs_def])
qed

theorem blowfish_schedule_safe_witness:
  "\<exists>b'. blowfish_expandkey1 blowfish_init [0x6B, 0x65, 0x79, 0] [1, 2, 3] = Some b' \<and> bf_ok b'"
  using blowfish_schedule_safe [of blowfish_init "[0x6B, 0x65, 0x79, 0]" "[1, 2, 3]"] bf_ok_init by auto

text \<open>The ECB routines need the memory of \<^verbatim>\<open>ROUND_TO_8(len)\<close> bytes; given it they keep the
  length and touch nothing beyond.  In every block both result words are stored at the block's start:
  the right half of the result ends up in bytes 0 to 3, and bytes 4 to 7 of the plaintext stay as
  they were.\<close>

theorem blowfish_ecb_keeps_half:
  assumes "ROUND_TO_8 len \<le> length data"
  shows "\<exists>c. blowfish_ecb_encode_n b r data len = Some c \<and> length c = length data
    \<and> (\<forall>i. i < length data \<longrightarrow> ROUND_TO_8 len \<le> i \<or> 4 \<le> i mod 8 \<longrightarrow> c ! i = data ! i)
    \<and> (\<forall>k. 8 * k < ROUND_TO_8 len \<longrightarrow> be_word c (8 * k) =
         snd ((encode_one b ^^ r) (be_word data (8 * k), be_word data (8 * k + 4))))"
  using bf_ecb_loop_result [of "ROUND_TO_8 len div 8" data "encode_one b ^^ r"] assms
  unfolding blowfish_ecb_encode_n_def ROUND_TO_8_blocks by (meson blocks_less)

theorem blowfish_ecb_keeps_half_witness:
  "\<exists>c. blowfish_ecb_encode_n blowfish_init 64 [1, 2, 3, 4, 5, 6, 7, 8] 5 = Some c \<and> c ! 4 = 5"
  using blowfish_ecb_keeps_half [of 5 "[1, 2, 3, 4, 5, 6, 7, 8]" blowfish_init 64]
  by (fastforce simp: ROUND_TO_8_def)

end
