(* ===== verification/C_String.thy ===== *)
theory C_String
  imports Prelude
begin

text \<open>
  NUL-terminated strings and the bounded string routines of \<^verbatim>\<open>src/src/common.c\<close>.  A \<^verbatim>\<open>char *\<close> is
  the memory from that pointer on; \<^theory_text>\<open>None\<close> is an access outside it.  Sizes are
  \<^verbatim>\<open>size_t\<close>, so \<^verbatim>\<open>dstsize - 1\<close> wraps around to \<^verbatim>\<open>SIZE_MAX\<close> for \<^verbatim>\<open>dstsize = 0\<close>.
\<close>

subsection \<open>C strings in memory\<close>

fun cstrlen :: "bytes \<Rightarrow> nat option" where
  "cstrlen [] = None"
| "cstrlen (c # s) = (if c = 0 then Some 0 else map_option Suc (cstrlen s))"

text \<open>\<^theory_text>\<open>cstr mem s\<close>: the string at the start of \<open>mem\<close> is \<open>s\<close>.\<close>

definition cstr :: "bytes \<Rightarrow> bytes \<Rightarrow> bool" where
  "cstr mem s \<longleftrightarrow> 0 \<notin> set s \<and> (\<exists>rest. mem = s @ 0 # rest)"

lemma cstrlen_append: "0 \<notin> set s \<Longrightarrow> cstrlen (s @ 0 # rest) = Some (length s)"
  by (induction s) auto

lemma cstrlen_cstr: "cstr mem s \<Longrightarrow> cstrlen mem = Some (length s)"
  by (auto simp: cstr_def cstrlen_append)

lemma cstrlen_Some: "cstrlen mem = Some n \<longleftrightarrow> (\<exists>s. cstr mem s \<and> length s = n)"
proof (induction mem arbitrary: n)
  case Nil
  then show ?case by (simp add: cstr_def)
next
  case (Cons c mem)
  show ?case
  proof (cases "c = 0")
    case True
    then show ?thesis by (auto simp: cstr_def Cons_eq_append_conv)
  next
    case False
    then have "cstr (c # mem) s \<longleftrightarrow> (\<exists>t. s = c # t \<and> cstr mem t)" for s
      by (cases s) (auto simp: cstr_def)
    then show ?thesis using False Cons.IH by auto
  qed
qed

lemma cstr_unique: "cstr mem s \<Longrightarrow> cstr mem t \<Longrightarrow> s = t"
proof (induction s arbitrary: mem t)
  case Nil
  then show ?case by (cases t) (auto simp: cstr_def)
next
  case (Cons c s)
  then show ?case by (cases t; cases mem) (auto simp: cstr_def)
qed

lemma cstr_take: "cstr mem s \<Longrightarrow> take (length s) mem = s" "cstr mem s \<Longrightarrow> length s < length mem"
  by (auto simp: cstr_def)

lemma cstr_append0 [intro]: "0 \<notin> set s \<Longrightarrow> cstr (s @ 0 # rest) s"
  by (auto simp: cstr_def)

subsection \<open>The routines\<close>

definition size_sub :: "nat \<Rightarrow> nat \<Rightarrow> nat" where
  "size_sub a b = (a + (2 ^ 64 - b)) mod 2 ^ 64"

definition kpl_strncpy :: "bytes \<Rightarrow> nat \<Rightarrow> bytes \<Rightarrow> bytes option" where
  "kpl_strncpy dst dstsize src = do {
     len \<leftarrow> cstrlen src;
     let cpylen = (if len \<ge> dstsize then size_sub dstsize 1 else len);
     s \<leftarrow> mem_read 0 cpylen src;
     dst1 \<leftarrow> mem_write 0 s dst;
     mem_write cpylen [0] dst1
   }"

definition kpl_strncat :: "bytes \<Rightarrow> nat \<Rightarrow> bytes \<Rightarrow> bytes option" where
  "kpl_strncat dst dstsize src = do {
     dstlen \<leftarrow> cstrlen dst;
     tl' \<leftarrow> kpl_strncpy (drop dstlen dst) (size_sub dstsize dstlen) src;
     Some (take dstlen dst @ tl')
   }"

fun kpl_strncat_n :: "bytes \<Rightarrow> nat \<Rightarrow> bytes list \<Rightarrow> bytes option" where
  "kpl_strncat_n dst dstsize [] = Some dst"
| "kpl_strncat_n dst dstsize (src # srcs) = do {
     dst' \<leftarrow> kpl_strncat dst dstsize src;
     kpl_strncat_n dst' dstsize srcs
   }"

lemma size_sub_le:
  assumes "b \<le> a" "0 < b" "a < 2 ^ 64"
  shows "size_sub a b = a - b"
proof -
  obtain m where "a = b + m" using assms(1) le_Suc_ex by blast
  then show ?thesis using assms(2,3) by (simp add: size_sub_def)
qed

lemma size_sub_0: "a < 2 ^ 64 \<Longrightarrow> size_sub a 0 = a"
  by (simp add: size_sub_def)

lemma kpl_strncpy_cstr:
  assumes "cstr src s" "0 < n" "n \<le> length dst" "n < 2 ^ 64"
  shows "kpl_strncpy dst n src =
     Some (take (n - 1) s @ 0 # drop (Suc (length (take (n - 1) s))) dst)"
proof -
  define c where "c = (if length s \<ge> n then n - 1 else length s)"
  have c: "c < n" "c \<le> length s" "take (n - 1) s = take c s" "c < length dst"
    using assms(2,3) by (auto simp: c_def)
  have "take c src = take c s" using cstr_take(1) [OF assms(1)] c(2) by (metis min.absorb1 take_take)
  moreover have "(if length s \<ge> n then size_sub n 1 else length s) = c"
    using assms(2,4) by (simp add: c_def size_sub_le)
  ultimately show ?thesis
    using cstr_take(2) [OF assms(1)] c(1,2,4)
    by (simp add: kpl_strncpy_def Let_def cstrlen_cstr [OF assms(1)] mem_read_def mem_write_def c(3)
        del: One_nat_def)
qed

lemma kpl_strncat_cstr:
  assumes "cstr dst d" "length d < n" "cstr src s" "n \<le> length dst" "n < 2 ^ 64"
  shows "\<exists>dst'. kpl_strncat dst n src = Some dst' \<and> cstr dst' (take (n - 1) (d @ s))
     \<and> length dst' = length dst \<and> drop n dst' = drop n dst"
proof -
  define m where "m = n - length d"
  define t where "t = take (m - 1) s"
  have sub: "size_sub n (length d) = m"
    using assms(2,5) size_sub_le [of "length d" n] size_sub_0 [of n] by (cases "d = []") (auto simp: m_def)
  have t: "length t < m" "0 \<notin> set t" "0 \<notin> set d" "take (n - 1) (d @ s) = d @ t"
    using assms(1,2,3) by (auto simp: t_def m_def cstr_def dest: in_set_takeD)
  have "kpl_strncpy (drop (length d) dst) m src =
      Some (t @ 0 # drop (Suc (length t)) (drop (length d) dst))"
    unfolding t_def using assms by (intro kpl_strncpy_cstr) (auto simp: m_def)
  then have "kpl_strncat dst n src = Some (d @ t @ 0 # drop (Suc (length t)) (drop (length d) dst))"
    using cstr_take(1) [OF assms(1)] sub by (simp add: kpl_strncat_def cstrlen_cstr [OF assms(1)])
  moreover have "cstr (d @ t @ 0 # drop (Suc (length t)) (drop (length d) dst)) (d @ t)"
    using cstr_append0 [of "d @ t"] t(2,3) by simp
  moreover have "drop n (d @ t @ 0 # drop (Suc (length t)) (drop (length d) dst)) = drop n dst"
    "length (d @ t @ 0 # drop (Suc (length t)) (drop (length d) dst)) = length dst"
    using t(1) assms(2,4) by (auto simp: m_def drop_Cons' add.commute)
  ultimately show ?thesis unfolding t(4) by blast
qed

text \<open>\<^verbatim>\<open>kpl_strncat_n\<close> on a destination of capacity \<^verbatim>\<open>dstsize\<close> that holds a string: it stays
  inside the capacity and leaves the concatenation of all the strings, cut to
  \<^verbatim>\<open>dstsize - 1\<close> bytes and terminated.\<close>

theorem kpl_strncat_n_functional:
  assumes "cstr dst d" "length d < n" "list_all2 cstr srcs ss" "n \<le> length dst" "n < 2 ^ 64"
  shows "\<exists>dst'. kpl_strncat_n dst n srcs = Some dst' \<and> cstr dst' (take (n - 1) (d @ concat ss))
     \<and> length dst' = length dst \<and> drop n dst' = drop n dst"
  using assms(3,1,2,4)
proof (induction srcs ss arbitrary: dst d rule: list_all2_induct)
  case Nil
  then show ?case by simp
next
  case (Cons src srcs s ss)
  obtain dst1 where d1: "kpl_strncat dst n src = Some dst1" "cstr dst1 (take (n - 1) (d @ s))"
      "length dst1 = length dst" "drop n dst1 = drop n dst"
    using kpl_strncat_cstr [OF Cons.prems(1,2) Cons.hyps(1) Cons.prems(3) assms(5)] by blast
  moreover have "length (take (n - 1) (d @ s)) < n" using Cons.prems(2) by simp
  moreover have "take (n - 1) (take (n - 1) (d @ s) @ concat ss) = take (n - 1) (d @ s @ concat ss)"
    using Cons.prems(2) by (cases "length s \<le> n - 1 - length d") (auto simp: min_def)
  ultimately show ?case using Cons.IH [of dst1 "take (n - 1) (d @ s)"] Cons.prems(3) by auto
qed

theorem kpl_strncat_n_functional_witness:
  "\<exists>dst'. kpl_strncat_n [97, 0, 7, 7, 7, 8] 5 [[98, 99, 0], [100, 101, 102, 0]] = Some dst'
     \<and> cstr dst' [97, 98, 99, 100] \<and> drop 5 dst' = [8]"
  using kpl_strncat_n_functional
    [of "[97, 0, 7, 7, 7, 8]" "[97]" 5 "[[98, 99, 0], [100, 101, 102, 0]]" "[[98, 99], [100, 101, 102]]"]
  by (auto simp: cstr_def)

end
