(* ===== verification/Outbuf.thy ===== *)
theory Outbuf
  imports Byte_Codec C_String
begin

text \<open>
  Output buffers: \<^verbatim>\<open>src/src/outbuf.c\<close> and \<^verbatim>\<open>src/src/outbuf.h\<close>.  First the pool, an intrusive
  linked list of idle buffers (at most \<^verbatim>\<open>MAX_IDLE_OUTBUFS\<close>) refined to a list of buffers and
  run against clients that give back what they hold; then the writers, which append to a buffer
  of \<^verbatim>\<open>MAX_OUTBUF_LEN\<close> bytes and check no bound in a release build.
\<close>

subsection \<open>The pool\<close>

definition MAX_IDLE_OUTBUFS :: int where
  "MAX_IDLE_OUTBUFS = 2048"

text \<open>Buffers are named by addresses.  \<^verbatim>\<open>heap\<close> is the set of buffers obtained from
  \<^verbatim>\<open>kpl_malloc\<close> and not freed, and \<^verbatim>\<open>fresh\<close> the address the next one gets.\<close>

record outbuf_pool =
  outbuf_list_size :: int
  outbuf_head :: "nat option"
  outbuf_next :: "nat \<Rightarrow> nat option"
  outbuf_heap :: "nat set"
  outbuf_fresh :: nat

definition outbuf_init :: outbuf_pool where
  "outbuf_init = \<lparr>outbuf_list_size = 0, outbuf_head = None, outbuf_next = (\<lambda>_. None),
     outbuf_heap = {}, outbuf_fresh = 0\<rparr>"

definition outbuf_acquire :: "outbuf_pool \<Rightarrow> nat \<times> outbuf_pool" where
  "outbuf_acquire s =
     (case outbuf_head s of
        Some buf \<Rightarrow>
          (buf, s\<lparr>outbuf_list_size := outbuf_list_size s - 1, outbuf_head := outbuf_next s buf\<rparr>)
      | None \<Rightarrow>
          (outbuf_fresh s, s\<lparr>outbuf_heap := insert (outbuf_fresh s) (outbuf_heap s),
             outbuf_fresh := outbuf_fresh s + 1\<rparr>))"

definition outbuf_release :: "nat \<Rightarrow> outbuf_pool \<Rightarrow> outbuf_pool" where
  "outbuf_release buf s =
     (if outbuf_list_size s < MAX_IDLE_OUTBUFS
      then s\<lparr>outbuf_list_size := outbuf_list_size s + 1,
             outbuf_next := (outbuf_next s)(buf := outbuf_head s), outbuf_head := Some buf\<rparr>
      else s\<lparr>outbuf_heap := outbuf_heap s - {buf}\<rparr>)"

text \<open>The idle list that starts at a pointer.\<close>

fun idle_chain :: "(nat \<Rightarrow> nat option) \<Rightarrow> nat option \<Rightarrow> nat list \<Rightarrow> bool" where
  "idle_chain nxt p [] \<longleftrightarrow> p = None"
| "idle_chain nxt p (x # xs) \<longleftrightarrow> p = Some x \<and> idle_chain nxt (nxt x) xs"

lemma idle_chain_None [simp]: "idle_chain nxt None xs \<longleftrightarrow> xs = []"
  by (cases xs) auto

lemma idle_chain_Some:
  "idle_chain nxt (Some x) xs \<longleftrightarrow> (\<exists>ys. xs = x # ys \<and> idle_chain nxt (nxt x) ys)"
  by (cases xs) auto

lemma idle_chain_upd: "x \<notin> set xs \<Longrightarrow> idle_chain (nxt(x := q)) p xs = idle_chain nxt p xs"
  by (induction xs arbitrary: p) auto

text \<open>The contract of a pool of buffers: \<^theory_text>\<open>R s idle heap\<close> says that the pool state \<open>s\<close> keeps the
  buffers \<open>idle\<close> out of the \<open>heap\<close> of all existing ones.\<close>

locale buffer_pool =
  fixes acquire :: "'s \<Rightarrow> 'b \<times> 's"
    and release :: "'b \<Rightarrow> 's \<Rightarrow> 's"
    and R :: "'s \<Rightarrow> 'b list \<Rightarrow> 'b set \<Rightarrow> bool"
    and limit :: nat
  assumes pool_idle: "R s idle heap \<Longrightarrow> distinct idle \<and> set idle \<subseteq> heap \<and> length idle \<le> limit"
    and acquire_idle: "R s (b # idle) heap \<Longrightarrow> \<exists>s'. acquire s = (b, s') \<and> R s' idle heap"
    and acquire_new: "R s [] heap \<Longrightarrow>
      \<exists>b s'. acquire s = (b, s') \<and> b \<notin> heap \<and> R s' [] (insert b heap)"
    and release_keep: "R s idle heap \<Longrightarrow> b \<in> heap \<Longrightarrow> b \<notin> set idle \<Longrightarrow> length idle < limit \<Longrightarrow>
      R (release b s) (b # idle) heap"
    and release_free: "R s idle heap \<Longrightarrow> b \<in> heap \<Longrightarrow> b \<notin> set idle \<Longrightarrow> length idle = limit \<Longrightarrow>
      R (release b s) idle (heap - {b})"
begin

text \<open>\<open>held\<close> are the buffers in use; every existing buffer is either held or idle.\<close>

definition owned :: "'s \<Rightarrow> 'b list \<Rightarrow> bool" where
  "owned s held \<longleftrightarrow> (\<exists>idle heap. R s idle heap \<and> distinct held
     \<and> set held \<inter> set idle = {} \<and> set held \<union> set idle = heap)"

lemma owned_acquire:
  assumes "owned s held"
  shows "owned (snd (acquire s)) (fst (acquire s) # held) \<and> fst (acquire s) \<notin> set held"
proof -
  obtain idle heap where own: "R s idle heap" "distinct held" "set held \<inter> set idle = {}"
      "set held \<union> set idle = heap"
    using assms by (auto simp: owned_def)
  show ?thesis
  proof (cases idle)
    case Nil
    then obtain b s' where "acquire s = (b, s')" "b \<notin> heap" "R s' [] (insert b heap)"
      using acquire_new own(1) by blast
    moreover have "owned s' (b # held)"
      unfolding owned_def using own Nil calculation
      by (intro exI [of _ "[]"] exI [of _ "insert b heap"]) auto
    ultimately show ?thesis using own Nil by auto
  next
    case (Cons b rest)
    then obtain s' where s': "acquire s = (b, s')" "R s' rest heap"
      using acquire_idle own(1) by blast
    have "owned s' (b # held)"
      unfolding owned_def using own Cons s'(2) pool_idle [OF own(1)]
      by (intro exI [of _ rest] exI [of _ heap]) auto
    then show ?thesis using own Cons s'(1) by auto
  qed
qed

lemma owned_release:
  assumes "owned s held" "b \<in> set held"
  shows "owned (release b s) (remove1 b held)"
proof -
  obtain idle heap where own: "R s idle heap" "distinct held" "set held \<inter> set idle = {}"
      "set held \<union> set idle = heap"
    using assms(1) by (auto simp: owned_def)
  have b: "b \<in> heap" "b \<notin> set idle" using own(3,4) assms(2) by auto
  show ?thesis
  proof (cases "length idle < limit")
    case True
    then have "R (release b s) (b # idle) heap" using release_keep own(1) b by blast
    then show ?thesis unfolding owned_def using own b assms(2)
      by (intro exI [of _ "b # idle"] exI [of _ heap]) auto
  next
    case False
    then have "length idle = limit" using pool_idle [OF own(1)] by simp
    then have "R (release b s) idle (heap - {b})" using release_free own(1) b by blast
    then show ?thesis unfolding owned_def using own b
      by (intro exI [of _ idle] exI [of _ "heap - {b}"]) auto
  qed
qed

lemma owned_bound:
  assumes "owned s held"
  shows "\<exists>heap. finite heap \<and> set held \<subseteq> heap \<and> card heap \<le> length held + limit"
proof -
  obtain idle heap where own: "R s idle heap" "set held \<union> set idle = heap"
    using assms by (auto simp: owned_def)
  have "card (set (held @ idle)) \<le> length (held @ idle)" by (rule card_length)
  then have "card heap \<le> length held + limit"
    using pool_idle [OF own(1)] by (simp add: own(2))
  moreover have "finite heap" "set held \<subseteq> heap" by (auto simp: own(2) [symmetric])
  ultimately show ?thesis by blast
qed

end

text \<open>The pool of the code: the idle buffers are the chain from \<^verbatim>\<open>outbuf_head\<close>.\<close>

definition pool_rel :: "outbuf_pool \<Rightarrow> nat list \<Rightarrow> nat set \<Rightarrow> bool" where
  "pool_rel s idle heap \<longleftrightarrow> idle_chain (outbuf_next s) (outbuf_head s) idle
     \<and> outbuf_list_size s = int (length idle) \<and> int (length idle) \<le> MAX_IDLE_OUTBUFS
     \<and> distinct idle \<and> set idle \<subseteq> heap \<and> heap = outbuf_heap s \<and> (\<forall>b \<in> heap. b < outbuf_fresh s)"

interpretation outbuf: buffer_pool outbuf_acquire outbuf_release pool_rel 2048
proof unfold_locales
  fix s idle heap b
  show "pool_rel s idle heap \<Longrightarrow> distinct idle \<and> set idle \<subseteq> heap \<and> length idle \<le> 2048"
    by (auto simp: pool_rel_def MAX_IDLE_OUTBUFS_def)
  show "pool_rel s (b # idle) heap \<Longrightarrow> \<exists>s'. outbuf_acquire s = (b, s') \<and> pool_rel s' idle heap"
    by (auto simp: pool_rel_def outbuf_acquire_def)
  show "pool_rel s [] heap \<Longrightarrow>
      \<exists>b s'. outbuf_acquire s = (b, s') \<and> b \<notin> heap \<and> pool_rel s' [] (insert b heap)"
    by (auto simp: pool_rel_def outbuf_acquire_def less_Suc_eq)
  show "pool_rel s idle heap \<Longrightarrow> b \<in> heap \<Longrightarrow> b \<notin> set idle \<Longrightarrow> length idle < 2048 \<Longrightarrow>
      pool_rel (outbuf_release b s) (b # idle) heap"
    by (auto simp: pool_rel_def outbuf_release_def MAX_IDLE_OUTBUFS_def idle_chain_upd)
  show "pool_rel s idle heap \<Longrightarrow> b \<in> heap \<Longrightarrow> b \<notin> set idle \<Longrightarrow> length idle = 2048 \<Longrightarrow>
      pool_rel (outbuf_release b s) idle (heap - {b})"
    by (auto simp: pool_rel_def outbuf_release_def MAX_IDLE_OUTBUFS_def)
qed

text \<open>The states reachable when clients release only buffers they hold: the pool and the buffers
  in use.\<close>

inductive outbuf_reach :: "outbuf_pool \<Rightarrow> nat list \<Rightarrow> bool" where
  reach_init: "outbuf_reach outbuf_init []"
| reach_acquire: "outbuf_reach s held \<Longrightarrow> outbuf_acquire s = (b, s') \<Longrightarrow> outbuf_reach s' (b # held)"
| reach_release: "outbuf_reach s held \<Longrightarrow> b \<in> set held \<Longrightarrow>
    outbuf_reach (outbuf_release b s) (remove1 b held)"

lemma outbuf_reach_owned: "outbuf_reach s held \<Longrightarrow> outbuf.owned s held"
proof (induction rule: outbuf_reach.induct)
  case reach_init
  have "pool_rel outbuf_init [] {}" by (simp add: pool_rel_def outbuf_init_def MAX_IDLE_OUTBUFS_def)
  then show ?case
    unfolding outbuf.owned_def by (intro exI [of _ "[]"] exI [of _ "{}"]) auto
next
  case (reach_acquire s held b s')
  then show ?case using outbuf.owned_acquire by fastforce
next
  case (reach_release s held b)
  then show ?case using outbuf.owned_release by blast
qed

subsection \<open>The writers\<close>

definition MAX_OUTBUF_LEN :: nat where
  "MAX_OUTBUF_LEN = 16384 - 2 * 8"

text \<open>A buffer: the bytes at \<^verbatim>\<open>base\<close> and the offset of \<^verbatim>\<open>ptr\<close> from it.\<close>

record outbuf =
  ob_ptr :: nat
  ob_base :: bytes

definition outbuf_len :: "outbuf \<Rightarrow> nat" where
  "outbuf_len buf = ob_ptr buf"

definition outbuf_data :: "outbuf \<Rightarrow> bytes" where
  "outbuf_data buf = ob_base buf"

definition outbuf_write_byte :: "outbuf \<Rightarrow> u8 \<Rightarrow> outbuf option" where
  "outbuf_write_byte buf val = do {
     m \<leftarrow> mem_write (ob_ptr buf) (encode_u8 val) (ob_base buf);
     Some (buf\<lparr>ob_base := m, ob_ptr := ob_ptr buf + 1\<rparr>)
   }"

definition outbuf_write_u16 :: "outbuf \<Rightarrow> u16 \<Rightarrow> outbuf option" where
  "outbuf_write_u16 buf val = do {
     m \<leftarrow> mem_write (ob_ptr buf) (encode_u16_le val) (ob_base buf);
     Some (buf\<lparr>ob_base := m, ob_ptr := ob_ptr buf + 2\<rparr>)
   }"

definition outbuf_write_u32 :: "outbuf \<Rightarrow> u32 \<Rightarrow> outbuf option" where
  "outbuf_write_u32 buf val = do {
     m \<leftarrow> mem_write (ob_ptr buf) (encode_u32_le val) (ob_base buf);
     Some (buf\<lparr>ob_base := m, ob_ptr := ob_ptr buf + 4\<rparr>)
   }"

definition outbuf_write_lstr :: "outbuf \<Rightarrow> bytes \<Rightarrow> u32 \<Rightarrow> outbuf option" where
  "outbuf_write_lstr buf s len = do {
     let total = (len + 2 :: u32);
     m1 \<leftarrow> mem_write (ob_ptr buf) (encode_u16_le (ucast len)) (ob_base buf);
     m2 \<leftarrow> (if 0 <s len then do {
              src \<leftarrow> mem_read 0 (nat (sint len)) s;
              mem_write (ob_ptr buf + 2) src m1
            } else Some m1);
     Some (buf\<lparr>ob_base := m2, ob_ptr := ob_ptr buf + unat total\<rparr>)
   }"

definition outbuf_write_str :: "outbuf \<Rightarrow> bytes \<Rightarrow> outbuf option" where
  "outbuf_write_str buf s = do {
     n \<leftarrow> cstrlen s;
     outbuf_write_lstr buf s (of_nat n)
   }"

text \<open>What is in a buffer, and the effect every writer should have: \<open>bs\<close> appended, nothing else.\<close>

definition outbuf_ok :: "outbuf \<Rightarrow> bool" where
  "outbuf_ok buf \<longleftrightarrow> ob_ptr buf \<le> length (ob_base buf)"

definition outbuf_content :: "outbuf \<Rightarrow> bytes" where
  "outbuf_content buf = take (ob_ptr buf) (ob_base buf)"

definition outbuf_room :: "outbuf \<Rightarrow> nat" where
  "outbuf_room buf = length (ob_base buf) - ob_ptr buf"

definition outbuf_append :: "bytes \<Rightarrow> outbuf \<Rightarrow> outbuf" where
  "outbuf_append bs buf = buf\<lparr>ob_ptr := ob_ptr buf + length bs,
     ob_base := take (ob_ptr buf) (ob_base buf) @ bs @ drop (ob_ptr buf + length bs) (ob_base buf)\<rparr>"

locale outbuf_writer =
  fixes put :: "outbuf \<Rightarrow> 'a \<Rightarrow> outbuf option"
    and image :: "'a \<Rightarrow> bytes"
    and writable :: "'a \<Rightarrow> bool"
  assumes write_append: "writable v \<Longrightarrow> outbuf_ok buf \<Longrightarrow> length (image v) \<le> outbuf_room buf \<Longrightarrow>
      put buf v = Some (outbuf_append (image v) buf)"
    and write_overflow: "writable v \<Longrightarrow> outbuf_room buf < length (image v) \<Longrightarrow> put buf v = None"
begin

lemma write_content:
  assumes "writable v" "outbuf_ok buf"
  shows "put buf v = None \<longleftrightarrow> outbuf_room buf < length (image v)"
    and "put buf v = Some buf' \<Longrightarrow> outbuf_ok buf' \<and> outbuf_content buf' = outbuf_content buf @ image v
       \<and> outbuf_len buf' = outbuf_len buf + length (image v)
       \<and> length (ob_base buf') = length (ob_base buf)"
proof -
  show none: "put buf v = None \<longleftrightarrow> outbuf_room buf < length (image v)"
    using assms write_append write_overflow by (metis linorder_not_less option.distinct(1))
  assume w: "put buf v = Some buf'"
  then have room: "length (image v) \<le> outbuf_room buf" using none by auto
  then have "buf' = outbuf_append (image v) buf" using write_append [OF assms] w by simp
  then show "outbuf_ok buf' \<and> outbuf_content buf' = outbuf_content buf @ image v
       \<and> outbuf_len buf' = outbuf_len buf + length (image v)
       \<and> length (ob_base buf') = length (ob_base buf)"
    using room assms(2)
    by (auto simp: outbuf_append_def outbuf_ok_def outbuf_content_def outbuf_len_def outbuf_room_def)
qed

end

interpretation w_byte: outbuf_writer outbuf_write_byte encode_u8 "\<lambda>_. True"
  by unfold_locales
    (auto simp: outbuf_write_byte_def encode_u8_def outbuf_append_def outbuf_room_def outbuf_ok_def mem_write_def)

interpretation w_u16: outbuf_writer outbuf_write_u16 encode_u16_le "\<lambda>_. True"
  by unfold_locales
    (auto simp: outbuf_write_u16_def outbuf_append_def outbuf_room_def outbuf_ok_def mem_write_def)

interpretation w_u32: outbuf_writer outbuf_write_u32 encode_u32_le "\<lambda>_. True"
  by unfold_locales
    (auto simp: outbuf_write_u32_def outbuf_append_def outbuf_room_def outbuf_ok_def mem_write_def)

text \<open>A string of fewer than \<^verbatim>\<open>INT_MAX - 1\<close> characters, passed as a C string.\<close>

definition str_image :: "bytes \<Rightarrow> bytes" where
  "str_image s = encode_u16_le (of_nat (length s)) @ s"

lemma outbuf_write_str_eq:
  assumes "0 \<notin> set s" "length s < 2 ^ 31 - 2"
  shows "outbuf_write_str buf (s @ [0]) = do {
      m1 \<leftarrow> mem_write (ob_ptr buf) (encode_u16_le (of_nat (length s))) (ob_base buf);
      m2 \<leftarrow> mem_write (ob_ptr buf + 2) s m1;
      Some (buf\<lparr>ob_base := m2, ob_ptr := ob_ptr buf + (length s + 2)\<rparr>)
    }"
proof -
  have s: "sint (of_nat (length s) :: u32) = int (length s)"
    using assms(2) by (intro sint_of_nat_small) simp
  have u: "unat (of_nat (length s) + 2 :: u32) = length s + 2"
  proof -
    have "(of_nat (length s) + 2 :: u32) = of_nat (length s + 2)" by simp
    then show ?thesis using assms(2) by (simp only: unat_of_nat) simp
  qed
  have c: "(ucast (of_nat (length s) :: u32) :: u16) = of_nat (length s)"
    using assms(2) by (simp add: unsigned_of_nat take_bit_nat_eq_self)
  have pos: "0 <s (of_nat (length s) :: u32) \<longleftrightarrow> s \<noteq> []"
    by (simp add: word_sless_alt s)
  have "mem_read 0 (length s) (s @ [0]) = Some s" by (simp add: mem_read_def)
  moreover have "m1 = take n m1 @ drop n m1" for m1 :: bytes and n by simp
  ultimately show ?thesis
    using cstrlen_append [OF assms(1), of "[]"]
    by (cases "s = []")
       (auto simp: outbuf_write_str_def outbuf_write_lstr_def s u c pos Let_def mem_write_def)
qed

interpretation w_str: outbuf_writer "\<lambda>buf s. outbuf_write_str buf (s @ [0])" str_image
    "\<lambda>s. 0 \<notin> set s \<and> length s < 2 ^ 31 - 2"
  by unfold_locales
    (auto simp: outbuf_write_str_eq str_image_def outbuf_append_def outbuf_room_def outbuf_ok_def
      mem_write_def add.commute add.left_commute min_absorb2)


subsection \<open>Properties\<close>

text \<open>C24: While clients release only buffers they hold, the pool never hands out a buffer that is in
  use, loses none (each existing buffer is in use or on the idle chain, never both), and keeps at
  most 2048 idle ones, counted by \<^verbatim>\<open>outbuf_list_size\<close>.\<close>

theorem outbuf_pool_safe:
  assumes "outbuf_reach s held"
  shows "distinct held \<and> fst (outbuf_acquire s) \<notin> set held
    \<and> (\<exists>idle. idle_chain (outbuf_next s) (outbuf_head s) idle \<and> distinct idle
         \<and> set held \<inter> set idle = {} \<and> set held \<union> set idle = outbuf_heap s
         \<and> outbuf_list_size s = int (length idle) \<and> outbuf_list_size s \<le> MAX_IDLE_OUTBUFS)"
proof -
  have own: "outbuf.owned s held" by (rule outbuf_reach_owned [OF assms])
  obtain idle heap where rel: "pool_rel s idle heap" "distinct held"
      "set held \<inter> set idle = {}" "set held \<union> set idle = heap"
    using own unfolding outbuf.owned_def by blast
  then have "idle_chain (outbuf_next s) (outbuf_head s) idle" "distinct idle" "heap = outbuf_heap s"
      "outbuf_list_size s = int (length idle)" "outbuf_list_size s \<le> MAX_IDLE_OUTBUFS"
    unfolding pool_rel_def by simp_all
  moreover have "fst (outbuf_acquire s) \<notin> set held" using outbuf.owned_acquire [OF own] by blast
  ultimately show ?thesis using rel by blast
qed

theorem outbuf_pool_safe_witness:
  "\<exists>s. outbuf_reach s [0] \<and> outbuf_head s = Some 1 \<and> fst (outbuf_acquire s) \<noteq> 0"
proof -
  define s1 where "s1 = snd (outbuf_acquire outbuf_init)"
  define s2 where "s2 = snd (outbuf_acquire s1)"
  have "outbuf_reach s1 [0]"
    by (rule reach_acquire [OF reach_init]) (simp add: s1_def outbuf_acquire_def outbuf_init_def)
  then have "outbuf_reach s2 [1, 0]"
    by (rule reach_acquire) (simp add: s1_def s2_def outbuf_acquire_def outbuf_init_def)
  then have "outbuf_reach (outbuf_release 1 s2) [0]"
    using reach_release [of s2 "[1, 0]" 1] by simp
  moreover have "outbuf_head (outbuf_release 1 s2) = Some 1"
    by (simp add: s1_def s2_def outbuf_release_def outbuf_acquire_def outbuf_init_def MAX_IDLE_OUTBUFS_def)
  ultimately show ?thesis using outbuf_pool_safe [of "outbuf_release 1 s2" "[0]"] by auto
qed

text \<open>A string written into a buffer with room for it reads back with
  \<^verbatim>\<open>decode_tibia_string\<close>: the same characters, cut to the destination's size and terminated,
  and the returned length is the distance to the next item; without room the write goes past the
  buffer.\<close>

theorem outbuf_str_roundtrip:
  assumes "0 \<notin> set s" "length s < 2 ^ 16" "outbuf_ok buf"
    and "0 < maxlen" "unat maxlen \<le> length out"
  shows "(case outbuf_write_str buf (s @ [0]) of
      None \<Rightarrow> outbuf_room buf < length s + 2
    | Some buf' \<Rightarrow> outbuf_len buf' = outbuf_len buf + length s + 2
        \<and> outbuf_content buf' = outbuf_content buf @ str_image s
        \<and> decode_tibia_string (drop (outbuf_len buf) (outbuf_data buf')) (Some out) maxlen
          = Some (of_nat (length s) + 2,
              Some (let c = min (length s) (unat maxlen - 1) in take c s @ [0] @ drop (c + 1) out)))"
proof (cases "outbuf_write_str buf (s @ [0])")
  case None
  then show ?thesis using w_str.write_content(1) [of s buf] assms(1-3) by (simp add: str_image_def)
next
  case (Some buf')
  have w: "0 \<notin> set s \<and> length s < 2 ^ 31 - 2" using assms(1,2) by simp
  note w_str.write_content(2) [OF w assms(3) Some]
  then have "outbuf_content buf' = outbuf_content buf @ str_image s"
    and len: "outbuf_len buf' = outbuf_len buf + length (str_image s)" by blast+
  moreover have "outbuf_data buf' = outbuf_content buf' @ drop (ob_ptr buf') (ob_base buf')"
    by (simp add: outbuf_content_def outbuf_data_def)
  moreover have "length (outbuf_content buf) = outbuf_len buf"
    using assms(3) by (simp add: outbuf_content_def outbuf_len_def outbuf_ok_def)
  ultimately have "drop (outbuf_len buf) (outbuf_data buf') =
      str_image s @ drop (ob_ptr buf') (ob_base buf')"
    and "outbuf_content buf' = outbuf_content buf @ str_image s" by simp_all
  moreover note decode_tibia_encoded [OF assms(4,5,2), of "drop (ob_ptr buf') (ob_base buf')"]
  ultimately show ?thesis using len by (simp add: Some str_image_def)
qed

theorem outbuf_str_roundtrip_witness:
  "\<exists>buf'. outbuf_write_str \<lparr>ob_ptr = 1, ob_base = [9, 0, 0, 0, 0]\<rparr> ([65] @ [0]) = Some buf' \<and>
     decode_tibia_string (drop 1 (outbuf_data buf')) (Some [0, 0]) 2 = Some (3, Some [65, 0])"
  using outbuf_str_roundtrip [of "[65]" "\<lparr>ob_ptr = 1, ob_base = [9, 0, 0, 0, 0]\<rparr>" 2 "[0, 0]"]
  by (simp add: outbuf_ok_def outbuf_room_def outbuf_len_def split: option.splits)

end
