(* ===== verification/Task_Rbuffer.thy ===== *)
theory Task_Rbuffer
  imports Prelude
begin

text \<open>
  The bounded task queue of \<^verbatim>\<open>src/src/task_rbuffer.c\<close>: a ring of \<^verbatim>\<open>max_tasks\<close> (a power of two)
  tasks, indexed by two free-running 32-bit counters, shared by threads under a mutex and two
  condition variables.

  The first part models the data: the two critical sections of \<^verbatim>\<open>task_rbuffer_push\<close> and
  \<^verbatim>\<open>task_rbuffer_run_one\<close> (up to the wait, and after a wake-up) as functions, and refines the ring
  to a list.  The second part runs them on threads that block on the condition variables, as a step
  relation.
\<close>

subsection \<open>A bounded FIFO queue\<close>

locale bounded_queue =
  fixes content :: "'s \<Rightarrow> 'a list" and ok :: "'s \<Rightarrow> bool" and capacity :: "'s \<Rightarrow> nat"
    and put :: "'a \<Rightarrow> 's \<Rightarrow> 's" and get :: "'s \<Rightarrow> 'a \<times> 's"
  assumes ok_bound: "ok s \<Longrightarrow> length (content s) \<le> capacity s"
    and put_content: "ok s \<Longrightarrow> length (content s) < capacity s \<Longrightarrow>
      ok (put x s) \<and> content (put x s) = content s @ [x] \<and> capacity (put x s) = capacity s"
    and get_content: "ok s \<Longrightarrow> content s \<noteq> [] \<Longrightarrow>
      fst (get s) = hd (content s) \<and> ok (snd (get s)) \<and> content (snd (get s)) = tl (content s)
      \<and> capacity (snd (get s)) = capacity s"
begin

text \<open>\<open>history s ins outs\<close>: everything put so far is what was taken so far followed by the content.\<close>

definition history :: "'s \<Rightarrow> 'a list \<Rightarrow> 'a list \<Rightarrow> bool" where
  "history s ins outs \<longleftrightarrow> ok s \<and> ins = outs @ content s"

lemma history_put:
  "history s ins outs \<Longrightarrow> length (content s) < capacity s \<Longrightarrow> history (put x s) (ins @ [x]) outs"
  by (simp add: history_def put_content)

lemma history_get:
  assumes "history s ins outs" "content s \<noteq> []"
  shows "history (snd (get s)) ins (outs @ [fst (get s)])"
  using get_content [of s] assms by (auto simp: history_def)

lemma history_bound:
  "history s ins outs \<Longrightarrow> length ins \<le> length outs + capacity s \<and> outs = take (length outs) ins"
  using ok_bound [of s] by (auto simp: history_def)

end

subsection \<open>The ring\<close>

record 't task_rbuffer =
  rb_active :: bool
  rb_index_mask :: u32
  rb_readpos :: u32
  rb_writepos :: u32
  rb_buffer :: "'t list"

definition IS_POWER_OF_TWO :: "u32 \<Rightarrow> bool" where
  "IS_POWER_OF_TWO x \<longleftrightarrow> x \<noteq> 0 \<and> x AND (x - 1) = 0"

text \<open>\<^verbatim>\<open>kpl_malloc\<close> leaves the tasks unspecified; \<open>junk\<close> stands for them.  \<^theory_text>\<open>None\<close> is the
  failed assertion.\<close>

definition task_rbuffer_create :: "(nat \<Rightarrow> 't) \<Rightarrow> u32 \<Rightarrow> 't task_rbuffer option" where
  "task_rbuffer_create junk max_tasks =
     (if IS_POWER_OF_TWO max_tasks
      then Some \<lparr>rb_active = True, rb_index_mask = max_tasks - 1, rb_readpos = 0, rb_writepos = 0,
             rb_buffer = map junk [0..<unat max_tasks]\<rparr>
      else None)"

definition task_rbuffer_empty :: "'t task_rbuffer \<Rightarrow> bool" where
  "task_rbuffer_empty rb \<longleftrightarrow> rb_readpos rb = rb_writepos rb"

definition task_rbuffer_full :: "'t task_rbuffer \<Rightarrow> bool" where
  "task_rbuffer_full rb \<longleftrightarrow> rb_writepos rb - rb_readpos rb > rb_index_mask rb"

text \<open>\<^verbatim>\<open>rb->buffer[rb->writepos++ & rb->index_mask] = task\<close> and the read on the other side.\<close>

definition rb_store :: "'t \<Rightarrow> 't task_rbuffer \<Rightarrow> 't task_rbuffer" where
  "rb_store t rb = rb\<lparr>rb_buffer := (rb_buffer rb)[unat (rb_writepos rb AND rb_index_mask rb) := t],
     rb_writepos := rb_writepos rb + 1\<rparr>"

definition rb_load :: "'t task_rbuffer \<Rightarrow> 't \<times> 't task_rbuffer" where
  "rb_load rb = (rb_buffer rb ! unat (rb_readpos rb AND rb_index_mask rb),
     rb\<lparr>rb_readpos := rb_readpos rb + 1\<rparr>)"

text \<open>What a critical section ends with: a return value, or a wait on a condition variable.  \<open>signal\<close>
  tells whether the other condition variable was signalled.\<close>

datatype 'r section_result =
    Returns 'r bool
  | Waits

definition push_enter :: "'t \<Rightarrow> 't task_rbuffer \<Rightarrow> bool section_result \<times> 't task_rbuffer" where
  "push_enter t rb =
     (if \<not> rb_active rb then (Returns False False, rb)
      else if task_rbuffer_full rb then (Waits, rb)
      else (Returns True (task_rbuffer_empty rb), rb_store t rb))"

definition push_resume :: "'t \<Rightarrow> 't task_rbuffer \<Rightarrow> bool section_result \<times> 't task_rbuffer" where
  "push_resume t rb =
     (if task_rbuffer_full rb \<and> rb_active rb then (Waits, rb)
      else if \<not> rb_active rb then (Returns False False, rb)
      else (Returns True False, rb_store t rb))"

definition run_enter :: "'t task_rbuffer \<Rightarrow> 't option section_result \<times> 't task_rbuffer" where
  "run_enter rb =
     (if \<not> rb_active rb then (Returns None False, rb)
      else if task_rbuffer_empty rb then (Waits, rb)
      else (Returns (Some (fst (rb_load rb))) (task_rbuffer_full rb), snd (rb_load rb)))"

definition run_resume :: "'t task_rbuffer \<Rightarrow> 't option section_result \<times> 't task_rbuffer" where
  "run_resume rb =
     (if task_rbuffer_empty rb \<and> rb_active rb then (Waits, rb)
      else if \<not> rb_active rb then (Returns None False, rb)
      else (Returns (Some (fst (rb_load rb))) False, snd (rb_load rb)))"

definition task_rbuffer_set_inactive :: "'t task_rbuffer \<Rightarrow> 't task_rbuffer" where
  "task_rbuffer_set_inactive rb = rb\<lparr>rb_active := False\<rparr>"

text \<open>The invariant, and the list that a ring stands for.\<close>

definition rb_count :: "'t task_rbuffer \<Rightarrow> nat" where
  "rb_count rb = unat (rb_writepos rb - rb_readpos rb)"

definition rb_ok :: "'t task_rbuffer \<Rightarrow> bool" where
  "rb_ok rb \<longleftrightarrow> (\<exists>k < 32. length (rb_buffer rb) = 2 ^ k \<and> rb_index_mask rb = mask k \<and> rb_count rb \<le> 2 ^ k)"

definition rb_content :: "'t task_rbuffer \<Rightarrow> 't list" where
  "rb_content rb = map (\<lambda>i. rb_buffer rb ! unat ((rb_readpos rb + of_nat i) AND rb_index_mask rb))
     [0..<rb_count rb]"

definition rb_capacity :: "'t task_rbuffer \<Rightarrow> nat" where
  "rb_capacity rb = length (rb_buffer rb)"

lemma ring_index:
  assumes "k < 32"
  shows "unat ((r + of_nat i :: u32) AND mask k) = (unat r + i) mod 2 ^ k"
proof -
  have "unat (r + of_nat i) = (unat r + i) mod 2 ^ 32"
    by (simp add: unat_word_ariths(1) unat_of_nat mod_add_right_eq)
  moreover have "(2 :: nat) ^ k dvd 2 ^ 32" using assms by (intro le_imp_power_dvd) simp
  ultimately show ?thesis by (simp add: unat_and_mask mod_mod_cancel)
qed

lemma ring_index_eq:
  assumes "k < 32" "i < 2 ^ k" "j < 2 ^ k"
    "unat ((r + of_nat i :: u32) AND mask k) = unat ((r + of_nat j) AND mask k)"
  shows "i = j"
  using assms mod_add_left_inject [of i "2 ^ k" j "unat r"] by (simp add: ring_index)

lemma unat_mask_u32: "k < 32 \<Longrightarrow> unat (mask k :: u32) = 2 ^ k - 1"
proof -
  assume k: "k < 32"
  have "unat (mask k :: u32) = take_bit k (unat (- 1 :: u32))"
    by (simp flip: take_bit_minus_one_eq_mask unsigned_take_bit_eq)
  also have "\<dots> = take_bit k (mask 32)" by (simp only: unsigned_minus_1_eq_mask len_num0 len_bit0 len_num1) simp
  also have "\<dots> = 2 ^ k - 1" using k by (simp only: take_bit_of_mask) (simp add: min_def mask_eq_exp_minus_1)
  finally show ?thesis .
qed

lemma rb_full_count:
  assumes "rb_index_mask rb = mask k" "k < 32"
  shows "task_rbuffer_full rb \<longleftrightarrow> 2 ^ k \<le> rb_count rb"
proof -
  have "(2 :: nat) ^ k - 1 < n \<longleftrightarrow> 2 ^ k \<le> n" for n by (cases "(2 :: nat) ^ k") auto
  then show ?thesis
    using assms by (simp add: task_rbuffer_full_def rb_count_def word_less_nat_alt unat_mask_u32)
qed

lemma rb_empty_content: "task_rbuffer_empty rb \<longleftrightarrow> rb_content rb = []"
  by (auto simp: task_rbuffer_empty_def rb_content_def rb_count_def unat_eq_zero)

lemma rb_full_content: "rb_ok rb \<Longrightarrow> task_rbuffer_full rb \<longleftrightarrow> length (rb_content rb) = rb_capacity rb"
  using rb_full_count by (fastforce simp: rb_ok_def rb_content_def rb_capacity_def)

lemma rb_count_store:
  assumes "rb_count rb < 2 ^ k" "k < 32"
  shows "unat (rb_writepos rb + 1 - rb_readpos rb) = Suc (rb_count rb)"
proof -
  have "rb_writepos rb + 1 - rb_readpos rb = (rb_writepos rb - rb_readpos rb) + 1" by simp
  moreover have "(2 :: nat) ^ k \<le> 2 ^ 31" using assms(2) by (intro power_increasing) auto
  then have "rb_count rb + 1 < 2 ^ 32" using assms(1) by simp
  then have "unat ((rb_writepos rb - rb_readpos rb) + 1) = Suc (rb_count rb)"
    unfolding rb_count_def unat_word_ariths(1) by simp
  ultimately show ?thesis by (simp only:)
qed

lemma rb_count_load:
  assumes "rb_count rb \<noteq> 0"
  shows "unat (rb_writepos rb - (rb_readpos rb + 1)) = rb_count rb - 1"
proof -
  have "rb_writepos rb - (rb_readpos rb + 1) = (rb_writepos rb - rb_readpos rb) - 1" by simp
  moreover have "rb_writepos rb - rb_readpos rb \<noteq> 0"
    using assms unfolding rb_count_def by (metis unat_0)
  then have "unat ((rb_writepos rb - rb_readpos rb) - 1) = rb_count rb - 1"
    unfolding rb_count_def by (rule unat_minus_one)
  ultimately show ?thesis by (simp only:)
qed

lemma rb_store_refines:
  assumes ok: "rb_ok rb" and room: "length (rb_content rb) < rb_capacity rb"
  shows "rb_ok (rb_store t rb) \<and> rb_content (rb_store t rb) = rb_content rb @ [t]
    \<and> rb_capacity (rb_store t rb) = rb_capacity rb"
proof -
  obtain k where k: "k < 32" "length (rb_buffer rb) = 2 ^ k" "rb_index_mask rb = mask k"
    using ok by (auto simp: rb_ok_def)
  define n where "n = rb_count rb"
  have n: "n < 2 ^ k" using room k(2) by (simp add: n_def rb_content_def rb_capacity_def)
  have count: "rb_count (rb_store t rb) = Suc n"
    unfolding rb_store_def n_def
    by (subst rb_count_def) (use rb_count_store [of rb k] n k(1) in \<open>simp add: n_def\<close>)
  have w: "rb_writepos rb = rb_readpos rb + of_nat n" by (simp add: n_def rb_count_def)
  define ix where "ix i = unat ((rb_readpos rb + of_nat i) AND mask k)" for i
  have ix: "ix i < 2 ^ k" for i using k(1) by (simp add: ix_def ring_index)
  have neq: "i < n \<Longrightarrow> ix n \<noteq> ix i" for i
    using ring_index_eq [OF k(1), of n i] n by (auto simp: ix_def)
  have "rb_content (rb_store t rb) =
      map (\<lambda>i. (rb_buffer rb)[ix n := t] ! ix i) [0..<Suc n]"
    unfolding rb_content_def count by (simp add: rb_store_def k(3) w ix_def)
  also have "\<dots> = map (\<lambda>i. rb_buffer rb ! ix i) [0..<n] @ [t]"
    using neq ix [of n] k(2) by (simp add: nth_list_update_neq)
  finally have "rb_content (rb_store t rb) = rb_content rb @ [t]"
    by (simp add: rb_content_def [of rb] k(3) n_def ix_def)
  moreover have "rb_ok (rb_store t rb)"
    unfolding rb_ok_def count using k n by (intro exI [of _ k]) (simp add: rb_store_def)
  ultimately show ?thesis by (simp add: rb_capacity_def rb_store_def)
qed

lemma rb_load_refines:
  assumes ok: "rb_ok rb" and ne: "rb_content rb \<noteq> []"
  shows "fst (rb_load rb) = hd (rb_content rb) \<and> rb_ok (snd (rb_load rb))
    \<and> rb_content (snd (rb_load rb)) = tl (rb_content rb)
    \<and> rb_capacity (snd (rb_load rb)) = rb_capacity rb"
proof -
  obtain n where n: "rb_count rb = Suc n"
    using ne by (cases "rb_count rb") (auto simp: rb_content_def)
  have count: "rb_count (snd (rb_load rb)) = n"
    unfolding rb_load_def by (subst rb_count_def) (use rb_count_load [of rb] n in simp)
  have up: "[0..<Suc n] = 0 # map Suc [0..<n]"
    unfolding map_Suc_upt by (rule upt_conv_Cons) simp
  have "rb_content rb = fst (rb_load rb) # rb_content (snd (rb_load rb))"
    unfolding rb_content_def count n up by (simp add: rb_load_def comp_def add.assoc del: upt_Suc)
  moreover have "rb_ok (snd (rb_load rb))"
    using ok n unfolding rb_ok_def count by (auto simp: rb_load_def)
  ultimately show ?thesis by (simp add: rb_capacity_def rb_load_def)
qed

interpretation rb_queue: bounded_queue rb_content rb_ok rb_capacity rb_store rb_load
proof unfold_locales
  fix rb :: "'t task_rbuffer" and t
  show "rb_ok rb \<Longrightarrow> length (rb_content rb) \<le> rb_capacity rb"
    by (auto simp: rb_ok_def rb_content_def rb_capacity_def)
  show "rb_ok rb \<Longrightarrow> length (rb_content rb) < rb_capacity rb \<Longrightarrow>
      rb_ok (rb_store t rb) \<and> rb_content (rb_store t rb) = rb_content rb @ [t]
      \<and> rb_capacity (rb_store t rb) = rb_capacity rb"
    by (rule rb_store_refines)
  show "rb_ok rb \<Longrightarrow> rb_content rb \<noteq> [] \<Longrightarrow>
      fst (rb_load rb) = hd (rb_content rb) \<and> rb_ok (snd (rb_load rb))
      \<and> rb_content (snd (rb_load rb)) = tl (rb_content rb)
      \<and> rb_capacity (snd (rb_load rb)) = rb_capacity rb"
    by (rule rb_load_refines)
qed

lemma task_rbuffer_create_ok:
  assumes "task_rbuffer_create junk max_tasks = Some rb"
  shows "rb_ok rb \<and> rb_content rb = [] \<and> rb_capacity rb = unat max_tasks \<and> rb_active rb"
proof -
  have p: "max_tasks \<noteq> 0" "max_tasks AND (max_tasks - 1) = 0"
    and rb: "rb = \<lparr>rb_active = True, rb_index_mask = max_tasks - 1, rb_readpos = 0, rb_writepos = 0,
             rb_buffer = map junk [0..<unat max_tasks]\<rparr>"
    using assms by (auto simp: task_rbuffer_create_def IS_POWER_OF_TWO_def split: if_splits)
  obtain k where k: "k < 32" "max_tasks = 2 ^ k" "unat max_tasks = 2 ^ k"
    by (rule power_of_two_u32 [OF p])
  then have "rb_ok rb"
    unfolding rb_ok_def using k
    by (intro exI [of _ k]) (simp add: rb rb_count_def mask_eq_decr_exp)
  then show ?thesis by (simp add: rb rb_content_def rb_count_def rb_capacity_def)
qed

subsection \<open>Threads\<close>

text \<open>A thread is outside the queue, blocked in \<^verbatim>\<open>condvar_wait\<close>, or woken up and about to take the
  mutex again.  \<^verbatim>\<open>ins\<close> and \<^verbatim>\<open>outs\<close> record the tasks accepted and taken so far.\<close>

datatype 't rb_thread = Idle | PushWait 't | PushReady 't | RunWait | RunReady

record 't rb_sys =
  ring :: "'t task_rbuffer"
  threads :: "nat \<Rightarrow> 't rb_thread"
  ins :: "'t list"
  outs :: "'t list"

fun wake_push :: "'t rb_thread \<Rightarrow> 't rb_thread option" where
  "wake_push (PushWait t) = Some (PushReady t)"
| "wake_push _ = None"

fun wake_run :: "'t rb_thread \<Rightarrow> 't rb_thread option" where
  "wake_run RunWait = Some RunReady"
| "wake_run _ = None"

fun wake_all :: "'t rb_thread \<Rightarrow> 't rb_thread" where
  "wake_all (PushWait t) = PushReady t"
| "wake_all RunWait = RunReady"
| "wake_all th = th"

text \<open>\<^verbatim>\<open>condvar_signal\<close> wakes one waiter, if there is one.\<close>

inductive signalled ::
  "('t rb_thread \<Rightarrow> 't rb_thread option) \<Rightarrow> bool \<Rightarrow> (nat \<Rightarrow> 't rb_thread) \<Rightarrow> (nat \<Rightarrow> 't rb_thread) \<Rightarrow> bool"
  for wake where
  no_signal: "signalled wake False ths ths"
| lost: "(\<forall>i. wake (ths i) = None) \<Longrightarrow> signalled wake True ths ths"
| woken: "wake (ths i) = Some th \<Longrightarrow> signalled wake True ths (ths(i := th))"

text \<open>One critical section of one of \<open>n\<close> threads; \<open>spurious\<close> allows wake-ups without a signal.\<close>

inductive rb_step :: "bool \<Rightarrow> nat \<Rightarrow> 't rb_sys \<Rightarrow> 't rb_sys \<Rightarrow> bool" for spurious n where
  push_returns: "i < n \<Longrightarrow> threads s i = Idle \<Longrightarrow> push_enter t (ring s) = (Returns r sg, rb) \<Longrightarrow>
    signalled wake_run sg (threads s) ths \<Longrightarrow>
    rb_step spurious n s (s\<lparr>ring := rb, threads := ths, ins := ins s @ (if r then [t] else [])\<rparr>)"
| push_waits: "i < n \<Longrightarrow> threads s i = Idle \<Longrightarrow> push_enter t (ring s) = (Waits, rb) \<Longrightarrow>
    rb_step spurious n s (s\<lparr>ring := rb, threads := (threads s)(i := PushWait t)\<rparr>)"
| push_again_returns: "i < n \<Longrightarrow> threads s i = PushReady t \<Longrightarrow>
    push_resume t (ring s) = (Returns r sg, rb) \<Longrightarrow>
    signalled wake_run sg ((threads s)(i := Idle)) ths \<Longrightarrow>
    rb_step spurious n s (s\<lparr>ring := rb, threads := ths, ins := ins s @ (if r then [t] else [])\<rparr>)"
| push_again_waits: "i < n \<Longrightarrow> threads s i = PushReady t \<Longrightarrow>
    push_resume t (ring s) = (Waits, rb) \<Longrightarrow>
    rb_step spurious n s (s\<lparr>ring := rb, threads := (threads s)(i := PushWait t)\<rparr>)"
| run_returns: "i < n \<Longrightarrow> threads s i = Idle \<Longrightarrow> run_enter (ring s) = (Returns r sg, rb) \<Longrightarrow>
    signalled wake_push sg (threads s) ths \<Longrightarrow>
    rb_step spurious n s (s\<lparr>ring := rb, threads := ths, outs := outs s @ (case r of None \<Rightarrow> [] | Some t \<Rightarrow> [t])\<rparr>)"
| run_waits: "i < n \<Longrightarrow> threads s i = Idle \<Longrightarrow> run_enter (ring s) = (Waits, rb) \<Longrightarrow>
    rb_step spurious n s (s\<lparr>ring := rb, threads := (threads s)(i := RunWait)\<rparr>)"
| run_again_returns: "i < n \<Longrightarrow> threads s i = RunReady \<Longrightarrow>
    run_resume (ring s) = (Returns r sg, rb) \<Longrightarrow>
    signalled wake_push sg ((threads s)(i := Idle)) ths \<Longrightarrow>
    rb_step spurious n s (s\<lparr>ring := rb, threads := ths, outs := outs s @ (case r of None \<Rightarrow> [] | Some t \<Rightarrow> [t])\<rparr>)"
| run_again_waits: "i < n \<Longrightarrow> threads s i = RunReady \<Longrightarrow> run_resume (ring s) = (Waits, rb) \<Longrightarrow>
    rb_step spurious n s (s\<lparr>ring := rb, threads := (threads s)(i := RunWait)\<rparr>)"
| spurious_wakeup: "spurious \<Longrightarrow> wake_all (threads s i) = th \<Longrightarrow>
    rb_step spurious n s (s\<lparr>threads := (threads s)(i := th)\<rparr>)"
| set_inactive: "rb_step spurious n s
    (s\<lparr>ring := task_rbuffer_set_inactive (ring s), threads := wake_all \<circ> threads s\<rparr>)"

inductive rb_reach :: "(nat \<Rightarrow> 't) \<Rightarrow> u32 \<Rightarrow> bool \<Rightarrow> nat \<Rightarrow> 't rb_sys \<Rightarrow> bool"
  for junk max_tasks spurious n where
  created: "task_rbuffer_create junk max_tasks = Some rb \<Longrightarrow>
    rb_reach junk max_tasks spurious n \<lparr>ring = rb, threads = (\<lambda>_. Idle), ins = [], outs = []\<rparr>"
| stepped: "rb_reach junk max_tasks spurious n s \<Longrightarrow> rb_step spurious n s s' \<Longrightarrow>
    rb_reach junk max_tasks spurious n s'"

text \<open>What each critical section does to the queue.\<close>

lemmas section_defs = push_enter_def push_resume_def run_enter_def run_resume_def

lemma push_section:
  assumes "rb_ok rb" "push_enter t rb = (res, rb') \<or> push_resume t rb = (res, rb')"
  shows "rb_capacity rb' = rb_capacity rb \<and> rb_active rb' = rb_active rb \<and> rb_ok rb' \<and>
    (case res of
       Waits \<Rightarrow> rb' = rb \<and> rb_active rb \<and> length (rb_content rb) = rb_capacity rb
     | Returns r sg \<Rightarrow> (r \<longleftrightarrow> rb_active rb) \<and> rb_content rb' = rb_content rb @ (if r then [t] else []))"
proof -
  have "\<not> task_rbuffer_full rb \<Longrightarrow> length (rb_content rb) < rb_capacity rb"
    using rb_full_content [OF assms(1)] rb_queue.ok_bound [OF assms(1)] by linarith
  moreover have "rb_active (rb_store t rb) = rb_active rb" by (simp add: rb_store_def)
  ultimately show ?thesis
    using assms rb_queue.put_content [OF assms(1), of t] rb_full_content [OF assms(1)]
    by (auto simp: section_defs split: if_splits)
qed

lemma run_section:
  assumes "rb_ok rb" "run_enter rb = (res, rb') \<or> run_resume rb = (res, rb')"
  shows "rb_capacity rb' = rb_capacity rb \<and> rb_active rb' = rb_active rb \<and> rb_ok rb' \<and>
    (case res of
       Waits \<Rightarrow> rb' = rb \<and> rb_active rb \<and> rb_content rb = []
     | Returns r sg \<Rightarrow> (r = None \<longleftrightarrow> \<not> rb_active rb) \<and>
         rb_content rb = (case r of None \<Rightarrow> [] | Some t \<Rightarrow> [t]) @ rb_content rb')"
proof -
  have "rb_active (snd (rb_load rb)) = rb_active rb" by (simp add: rb_load_def)
  then show ?thesis
    using assms rb_queue.get_content [OF assms(1)] rb_empty_content [of rb]
    by (cases "rb_content rb") (auto simp: section_defs split: if_splits)
qed

subsection \<open>What every reachable state satisfies\<close>

definition rb_inv :: "u32 \<Rightarrow> 't rb_sys \<Rightarrow> bool" where
  "rb_inv max_tasks s \<longleftrightarrow> rb_queue.history (ring s) (ins s) (outs s)
     \<and> rb_capacity (ring s) = unat max_tasks
     \<and> (\<not> rb_active (ring s) \<longrightarrow> (\<forall>i. wake_all (threads s i) = threads s i))"

lemma signalled_awake:
  assumes "signalled wake sg ths ths'" "\<And>th th'. wake th = Some th' \<Longrightarrow> wake_all th' = th'"
    "\<forall>i. wake_all (ths i) = ths i"
  shows "\<forall>i. wake_all (ths' i) = ths' i"
  using assms by (cases rule: signalled.cases) auto

lemma wake_awake:
  "wake_push th = Some th' \<Longrightarrow> wake_all th' = th'" "wake_run th = Some th' \<Longrightarrow> wake_all th' = th'"
  by (cases th; auto)+

lemma wake_all_idem: "wake_all (wake_all th) = wake_all th"
  by (cases th) auto

lemma rb_inv_push:
  assumes inv: "rb_inv m s"
    and sec: "push_enter t (ring s) = (res, rb) \<or> push_resume t (ring s) = (res, rb)"
    and awake: "\<not> rb_active (ring s) \<Longrightarrow> (\<forall>i. wake_all (threads s i) = threads s i) \<Longrightarrow> res \<noteq> Waits \<Longrightarrow>
      (\<forall>i. wake_all (ths i) = ths i)"
  shows "rb_inv m (s\<lparr>ring := rb, threads := ths,
    ins := ins s @ (case res of Returns r sg \<Rightarrow> if r then [t] else [] | Waits \<Rightarrow> [])\<rparr>)"
proof -
  have ok: "rb_ok (ring s)" using inv by (simp add: rb_inv_def rb_queue.history_def)
  show ?thesis using push_section [OF ok sec] inv awake
    by (auto simp: rb_inv_def rb_queue.history_def split: section_result.splits)
qed

lemma rb_inv_run:
  assumes inv: "rb_inv m s"
    and sec: "run_enter (ring s) = (res, rb) \<or> run_resume (ring s) = (res, rb)"
    and awake: "\<not> rb_active (ring s) \<Longrightarrow> (\<forall>i. wake_all (threads s i) = threads s i) \<Longrightarrow> res \<noteq> Waits \<Longrightarrow>
      (\<forall>i. wake_all (ths i) = ths i)"
  shows "rb_inv m (s\<lparr>ring := rb, threads := ths,
    outs := outs s @ (case res of Returns r sg \<Rightarrow> (case r of None \<Rightarrow> [] | Some t \<Rightarrow> [t]) | Waits \<Rightarrow> [])\<rparr>)"
proof -
  have ok: "rb_ok (ring s)" using inv by (simp add: rb_inv_def rb_queue.history_def)
  show ?thesis using run_section [OF ok sec] inv awake
    by (auto simp: rb_inv_def rb_queue.history_def split: section_result.splits option.splits)
qed

lemma rb_inv_step: "rb_step spurious n s s' \<Longrightarrow> rb_inv m s \<Longrightarrow> rb_inv m s'"
proof (induction rule: rb_step.induct)
  case (push_returns i s t r sg rb ths)
  then show ?case
    using rb_inv_push [of m s t "Returns r sg" rb ths] signalled_awake wake_awake(2) by fastforce
next
  case (push_waits i s t rb)
  then show ?case using rb_inv_push [of m s t Waits rb "(threads s)(i := PushWait t)"] by simp
next
  case (push_again_returns i s t r sg rb ths)
  then show ?case
    using rb_inv_push [of m s t "Returns r sg" rb ths]
      signalled_awake [OF push_again_returns.hyps(4) wake_awake(2)] by fastforce
next
  case (push_again_waits i s t rb)
  then show ?case using rb_inv_push [of m s t Waits rb "(threads s)(i := PushWait t)"] by simp
next
  case (run_returns i s r sg rb ths)
  then show ?case
    using rb_inv_run [of m s "Returns r sg" rb ths] signalled_awake wake_awake(1) by fastforce
next
  case (run_waits i s rb)
  then show ?case using rb_inv_run [of m s Waits rb "(threads s)(i := RunWait)"] by simp
next
  case (run_again_returns i s r sg rb ths)
  then show ?case
    using rb_inv_run [of m s "Returns r sg" rb ths]
      signalled_awake [OF run_again_returns.hyps(4) wake_awake(1)] by fastforce
next
  case (run_again_waits i s rb)
  then show ?case using rb_inv_run [of m s Waits rb "(threads s)(i := RunWait)"] by simp
next
  case (spurious_wakeup s i th)
  then show ?case by (auto simp: rb_inv_def wake_all_idem)
next
  case (set_inactive s)
  then show ?case
    by (auto simp: rb_inv_def wake_all_idem rb_queue.history_def rb_ok_def rb_content_def
        rb_count_def rb_capacity_def task_rbuffer_set_inactive_def)
qed

lemma rb_reach_inv: "rb_reach junk m spurious n s \<Longrightarrow> rb_inv m s"
proof (induction rule: rb_reach.induct)
  case (created rb)
  then show ?case
    using task_rbuffer_create_ok [OF created] by (simp add: rb_inv_def rb_queue.history_def)
next
  case (stepped s s')
  then show ?case using rb_inv_step by blast
qed

subsection \<open>Properties\<close>



lemma awake_not_waiting: "wake_all th = th \<Longrightarrow> th \<noteq> RunWait \<and> th \<noteq> PushWait t"
  by (cases th) auto

text \<open>C11: Whatever the interleaving of any number of producers and consumers, and with spurious
  wake-ups or without: no task is lost, duplicated or reordered (what was accepted is what was taken
  followed by the queue), the queue holds at most \<^verbatim>\<open>max_tasks\<close> tasks, and once the queue is inactive
  no thread is left waiting.\<close>

theorem task_rbuffer_fifo:
  assumes "rb_reach junk max_tasks spurious n s"
  shows "ins s = outs s @ rb_content (ring s) \<and> length (rb_content (ring s)) \<le> unat max_tasks
    \<and> (\<not> rb_active (ring s) \<longrightarrow> (\<forall>i t. threads s i \<noteq> RunWait \<and> threads s i \<noteq> PushWait t))"
  using rb_reach_inv [OF assms] rb_queue.ok_bound [of "ring s"]
  by (auto simp: rb_inv_def rb_queue.history_def dest: awake_not_waiting spec)

text \<open>A run of a consumer (thread 1) and a producer (thread 0) on a queue of one slot.\<close>

definition rb_stuck :: "nat rb_sys" where
  "rb_stuck = \<lparr>ring = \<lparr>rb_active = True, rb_index_mask = 0, rb_readpos = 1, rb_writepos = 1, rb_buffer = [1]\<rparr>,
     threads = (\<lambda>_. Idle)(0 := PushWait 2, 1 := RunWait), ins = [1], outs = [1]\<rparr>"

lemma rb_stuck_reachable: "rb_reach (\<lambda>_. 0) 1 False 2 rb_stuck"
proof -
  let ?reach = "rb_reach (\<lambda>_. 0) 1 False 2 :: nat rb_sys \<Rightarrow> bool"
  let ?rb = "\<lambda>r w b. \<lparr>rb_active = True, rb_index_mask = 0 :: u32, rb_readpos = r, rb_writepos = w, rb_buffer = [b :: nat]\<rparr>"
  let ?s = "\<lambda>r w b p c i os. \<lparr>ring = ?rb r w b, threads = (\<lambda>_. Idle)(0 := p, 1 := c), ins = i, outs = os\<rparr>"
  note defs = section_defs task_rbuffer_empty_def task_rbuffer_full_def rb_store_def rb_load_def fun_upd_def
  have "task_rbuffer_create (\<lambda>_. 0) 1 = Some (?rb 0 0 0)"
    by (simp add: task_rbuffer_create_def IS_POWER_OF_TWO_def)
  then have "?reach \<lparr>ring = ?rb 0 0 0, threads = (\<lambda>_. Idle), ins = [], outs = []\<rparr>" by (rule created)
  moreover have "(\<lambda>_. Idle)(0 := Idle, Suc 0 := Idle) = ((\<lambda>_. Idle) :: nat \<Rightarrow> nat rb_thread)" by auto
  ultimately have "?reach (?s 0 0 0 Idle Idle [] [])" by simp
  moreover have "rb_step False 2 (?s 0 0 0 Idle Idle [] []) (?s 0 0 0 Idle RunWait [] [])"
    by (rule rb_step.run_waits [where i = 1, THEN back_subst [of "rb_step False 2 _"]]) (auto simp: defs)
  ultimately have "?reach (?s 0 0 0 Idle RunWait [] [])" by (rule stepped)
  moreover have "rb_step False 2 (?s 0 0 0 Idle RunWait [] []) (?s 0 1 1 Idle RunReady [1] [])"
    by (rule rb_step.push_returns [where i = 0 and t = 1 and r = True and sg = True,
            OF _ _ _ signalled.woken [where i = 1], THEN back_subst [of "rb_step False 2 _"]])
      (auto simp: defs)
  ultimately have "?reach (?s 0 1 1 Idle RunReady [1] [])" by (rule stepped)
  moreover have "rb_step False 2 (?s 0 1 1 Idle RunReady [1] []) (?s 0 1 1 (PushWait 2) RunReady [1] [])"
    by (rule rb_step.push_waits [where i = 0 and t = 2, THEN back_subst [of "rb_step False 2 _"]])
      (auto simp: defs)
  ultimately have "?reach (?s 0 1 1 (PushWait 2) RunReady [1] [])" by (rule stepped)
  moreover have "rb_step False 2 (?s 0 1 1 (PushWait 2) RunReady [1] [])
      (?s 1 1 1 (PushWait 2) Idle [1] [1])"
    by (rule rb_step.run_again_returns [where i = 1 and r = "Some 1" and sg = False,
            OF _ _ _ signalled.no_signal, THEN back_subst [of "rb_step False 2 _"]])
      (auto simp: defs)
  ultimately have "?reach (?s 1 1 1 (PushWait 2) Idle [1] [1])" by (rule stepped)
  moreover have "rb_step False 2 (?s 1 1 1 (PushWait 2) Idle [1] [1]) (?s 1 1 1 (PushWait 2) RunWait [1] [1])"
    by (rule rb_step.run_waits [where i = 1, THEN back_subst [of "rb_step False 2 _"]]) (auto simp: defs)
  ultimately have "?reach (?s 1 1 1 (PushWait 2) RunWait [1] [1])" by (rule stepped)
  then show ?thesis by (simp add: rb_stuck_def)
qed

text \<open>C39: A thread that was itself woken up does not signal the other side.  A queue of one slot can
  therefore reach a state with an empty queue where the producer waits for room, the consumer
  waits for a task, and nothing but a shutdown moves either of them.\<close>

theorem task_rbuffer_lost_wakeup:
  "\<exists>s. rb_reach (\<lambda>_. 0 :: nat) 1 False 2 s \<and> rb_active (ring s) \<and> rb_content (ring s) = []
     \<and> threads s 0 = PushWait 2 \<and> threads s 1 = RunWait
     \<and> (\<forall>s'. rb_step False 2 s s' \<longrightarrow> \<not> rb_active (ring s'))"
proof (intro exI [of _ rb_stuck] conjI allI impI)
  show "rb_reach (\<lambda>_. 0) 1 False 2 rb_stuck" by (rule rb_stuck_reachable)
  fix s' assume "rb_step False 2 rb_stuck s'"
  moreover have "threads rb_stuck i \<in> {PushWait 2, RunWait}" if "i < 2" for i
    using that by (auto simp: rb_stuck_def less_2_cases_iff)
  ultimately show "\<not> rb_active (ring s')"
    by (cases rule: rb_step.cases) (force simp: task_rbuffer_set_inactive_def)+
qed (auto simp: rb_stuck_def rb_content_def rb_count_def)

theorem task_rbuffer_fifo_witness:
  "ins rb_stuck = outs rb_stuck @ rb_content (ring rb_stuck)"
  using task_rbuffer_fifo [OF rb_stuck_reachable] by blast

theorem task_rbuffer_lost_wakeup_witness:
  "\<exists>s. rb_reach (\<lambda>_. 0 :: nat) 1 False 2 s \<and> \<not> rb_step False 2 s s \<and> threads s 0 = PushWait 2"
  using task_rbuffer_lost_wakeup by blast

end
