(* ===== verification/Task_Dbuffer.thy ===== *)
theory Task_Dbuffer
  imports Prelude
begin

text \<open>
  The double buffer of tasks of \<^verbatim>\<open>src/src/task_dbuffer.c\<close>: any number of threads add to the write
  buffer under a mutex, one thread swaps the buffers and runs the tasks of the old one outside the
  mutex.  An adder that finds its buffer full waits for it, and keeps the index of that buffer
  while it sleeps.
\<close>

subsection \<open>The buffers\<close>

text \<open>\<open>db_buffer\<close> are the two halves of the allocation, each of \<^verbatim>\<open>max_tasks\<close> tasks.\<close>

record 't task_dbuffer =
  db_active :: bool
  db_write_idx :: nat
  db_max_tasks :: u32
  db_count :: "u32 list"
  db_buffer :: "'t list list"

text \<open>\<^verbatim>\<open>kpl_malloc\<close> leaves the tasks unspecified; \<open>junk\<close> stands for them.\<close>

definition task_dbuffer_create :: "(nat \<Rightarrow> 't) \<Rightarrow> u32 \<Rightarrow> 't task_dbuffer" where
  "task_dbuffer_create junk max_tasks = \<lparr>db_active = True, db_write_idx = 0, db_max_tasks = max_tasks,
     db_count = [0, 0], db_buffer = replicate 2 (map junk [0..<unat max_tasks])\<rparr>"

text \<open>The critical section of \<^verbatim>\<open>task_dbuffer_add\<close> from the test of the loop on, entered with the
  write index, or after a wake-up with the index the thread has kept.\<close>

datatype add_result = Add_waits | Add_returns bool

definition add_section :: "nat \<Rightarrow> 't \<Rightarrow> 't task_dbuffer \<Rightarrow> add_result \<times> 't task_dbuffer" where
  "add_section idx t db =
     (let count = db_count db ! idx
      in if count \<ge> db_max_tasks db \<and> db_active db then (Add_waits, db)
         else if \<not> db_active db then (Add_returns False, db)
         else (Add_returns True, db\<lparr>
             db_buffer := (db_buffer db)[idx := (db_buffer db ! idx)[unat count := t]],
             db_count := (db_count db)[idx := count + 1]\<rparr>))"

definition task_dbuffer_add :: "'t \<Rightarrow> 't task_dbuffer \<Rightarrow> add_result \<times> 't task_dbuffer" where
  "task_dbuffer_add t db = add_section (db_write_idx db) t db"

text \<open>The critical section of \<^verbatim>\<open>task_dbuffer_swap_and_run\<close>: the buffer and number of tasks to run, and
  whether the waiters are woken.\<close>

definition swap_section :: "'t task_dbuffer \<Rightarrow> (nat \<times> u32 \<times> bool) \<times> 't task_dbuffer" where
  "swap_section db =
     (let idx = db_write_idx db; count = db_count db ! idx; w = 1 - db_write_idx db
      in ((idx, count, count \<ge> db_max_tasks db),
          db\<lparr>db_write_idx := w, db_count := (db_count db)[w := 0]\<rparr>))"

definition task_dbuffer_set_inactive :: "'t task_dbuffer \<Rightarrow> 't task_dbuffer" where
  "task_dbuffer_set_inactive db = db\<lparr>db_active := False\<rparr>"

subsection \<open>Threads\<close>

datatype 't adder = Outside | Add_wait nat 't | Add_ready nat 't

text \<open>The runner is outside, or has \<open>left\<close> tasks to run from position \<open>pos\<close> of a buffer.\<close>

datatype runner = Run_idle | Running nat nat nat

record 't db_sys =
  db :: "'t task_dbuffer"
  adders :: "nat \<Rightarrow> 't adder"
  runner :: runner
  accepted :: "'t list"
  ran :: "'t list"

fun wake :: "'t adder \<Rightarrow> 't adder" where
  "wake (Add_wait idx t) = Add_ready idx t"
| "wake a = a"

definition add_accept :: "add_result \<Rightarrow> 't \<Rightarrow> 't list" where
  "add_accept r t = (if r = Add_returns True then [t] else [])"

definition add_state :: "add_result \<Rightarrow> nat \<Rightarrow> 't \<Rightarrow> 't adder" where
  "add_state r idx t = (if r = Add_waits then Add_wait idx t else Outside)"

text \<open>\<^verbatim>\<open>swap_and_run\<close>, \<^verbatim>\<open>task->fp(task->arg)\<close> and its return, by the one thread that may call it.\<close>

inductive run_step :: "'t db_sys \<Rightarrow> 't db_sys \<Rightarrow> bool" where
  db_swap: "runner s = Run_idle \<Longrightarrow> swap_section (db s) = ((idx, count, broadcast), b) \<Longrightarrow>
    run_step s (s\<lparr>db := b, adders := (if broadcast then wake \<circ> adders s else adders s),
      runner := Running idx 0 (unat count)\<rparr>)"
| db_run: "runner s = Running idx pos (Suc left) \<Longrightarrow>
    run_step s (s\<lparr>runner := Running idx (Suc pos) left, ran := ran s @ [db_buffer (db s) ! idx ! pos]\<rparr>)"
| db_done: "runner s = Running idx pos 0 \<Longrightarrow> run_step s (s\<lparr>runner := Run_idle\<rparr>)"

text \<open>A step of the system.  \<open>stale\<close> allows an adder to go on with an index that is no longer the
  write index; \<open>spurious\<close> allows wake-ups without a broadcast.\<close>

inductive db_step :: "bool \<Rightarrow> bool \<Rightarrow> 't db_sys \<Rightarrow> 't db_sys \<Rightarrow> bool" for stale spurious where
  db_add: "adders s i = Outside \<Longrightarrow> task_dbuffer_add t (db s) = (r, b) \<Longrightarrow>
    db_step stale spurious s (s\<lparr>db := b, adders := (adders s)(i := add_state r (db_write_idx (db s)) t),
      accepted := accepted s @ add_accept r t\<rparr>)"
| db_resume: "adders s i = Add_ready idx t \<Longrightarrow> stale \<or> idx = db_write_idx (db s) \<Longrightarrow>
    add_section idx t (db s) = (r, b) \<Longrightarrow>
    db_step stale spurious s (s\<lparr>db := b, adders := (adders s)(i := add_state r idx t),
      accepted := accepted s @ add_accept r t\<rparr>)"
| db_runner: "run_step s s' \<Longrightarrow> db_step stale spurious s s'"
| db_inactive: "db_step stale spurious s
    (s\<lparr>db := task_dbuffer_set_inactive (db s), adders := wake \<circ> adders s\<rparr>)"
| db_spurious: "spurious \<Longrightarrow> db_step stale spurious s (s\<lparr>adders := (adders s)(i := wake (adders s i))\<rparr>)"

inductive db_reach :: "(nat \<Rightarrow> 't) \<Rightarrow> u32 \<Rightarrow> bool \<Rightarrow> bool \<Rightarrow> 't db_sys \<Rightarrow> bool"
  for junk max_tasks stale spurious where
  db_created: "db_reach junk max_tasks stale spurious \<lparr>db = task_dbuffer_create junk max_tasks,
    adders = (\<lambda>_. Outside), runner = Run_idle, accepted = [], ran = []\<rparr>"
| db_stepped: "db_reach junk max_tasks stale spurious s \<Longrightarrow> db_step stale spurious s s' \<Longrightarrow>
    db_reach junk max_tasks stale spurious s'"

subsection \<open>The invariant without stale indices\<close>

definition db_ok :: "'t task_dbuffer \<Rightarrow> bool" where
  "db_ok b \<longleftrightarrow> db_write_idx b < 2 \<and> length (db_count b) = 2 \<and> length (db_buffer b) = 2
     \<and> (\<forall>i < 2. length (db_buffer b ! i) = unat (db_max_tasks b) \<and> db_count b ! i \<le> db_max_tasks b)"

definition queued :: "'t task_dbuffer \<Rightarrow> 't list" where
  "queued b = take (unat (db_count b ! db_write_idx b)) (db_buffer b ! db_write_idx b)"

definition to_run :: "'t db_sys \<Rightarrow> 't list" where
  "to_run s = (case runner s of Run_idle \<Rightarrow> []
     | Running idx pos left \<Rightarrow> take left (drop pos (db_buffer (db s) ! idx)))"

definition db_inv :: "'t db_sys \<Rightarrow> bool" where
  "db_inv s \<longleftrightarrow> db_ok (db s) \<and> accepted s = ran s @ to_run s @ queued (db s)
     \<and> (\<forall>idx pos left. runner s = Running idx pos left \<longrightarrow>
          idx = 1 - db_write_idx (db s) \<and> pos + left \<le> unat (db_max_tasks (db s)))"

lemma add_section_ok:
  assumes "db_ok b" "add_section (db_write_idx b) t b = (r, b')"
  shows "db_ok b' \<and> queued b' = queued b @ add_accept r t \<and> db_write_idx b' = db_write_idx b
    \<and> db_max_tasks b' = db_max_tasks b
    \<and> db_buffer b' ! (1 - db_write_idx b) = db_buffer b ! (1 - db_write_idx b)
    \<and> (r = Add_waits \<longrightarrow> length (queued b) = unat (db_max_tasks b)) \<and> (r = Add_returns False \<longleftrightarrow> \<not> db_active b)"
proof (cases "db_count b ! db_write_idx b < db_max_tasks b \<and> db_active b")
  case False
  have "unat (db_count b ! db_write_idx b) \<le> length (db_buffer b ! db_write_idx b)"
    using assms(1) by (auto simp: db_ok_def word_le_nat_alt)
  then show ?thesis using False assms
    by (auto simp: add_section_def Let_def add_accept_def queued_def db_ok_def word_le_nat_alt not_less
        split: if_splits)
next
  case True
  let ?w = "db_write_idx b" and ?c = "db_count b ! db_write_idx b"
  have w: "?w < 2" "?w < length (db_buffer b)" "?w < length (db_count b)"
    "length (db_buffer b ! ?w) = unat (db_max_tasks b)" "unat ?c < unat (db_max_tasks b)"
    using assms(1) True by (auto simp: db_ok_def word_less_nat_alt)
  have b': "r = Add_returns True" "b' = b\<lparr>db_buffer := (db_buffer b)[?w := (db_buffer b ! ?w)[unat ?c := t]],
             db_count := (db_count b)[?w := ?c + 1]\<rparr>"
    using assms(2) True by (auto simp: add_section_def Let_def not_le split: if_splits)
  have "unat (db_max_tasks b) < 2 ^ 32" using unsigned_less [of "db_max_tasks b", where 'a = nat] by simp
  then have c: "unat (?c + 1) = Suc (unat ?c)" using w(5) by (simp add: unat_word_ariths)
  have q: "queued b' = queued b @ [t]"
    using w c by (simp add: b'(2) queued_def take_Suc_conv_app_nth)
  have "db_ok b'"
    using assms(1) w c b'(2) by (auto simp: db_ok_def nth_list_update word_le_nat_alt)
  moreover have "?w \<noteq> 1 - ?w" using w(1) by (cases ?w) auto
  ultimately show ?thesis using q b' True by (simp add: add_accept_def)
qed

lemma swap_section_ok:
  assumes "db_ok b" "swap_section b = ((idx, count, br), b')"
  shows "db_ok b' \<and> queued b' = [] \<and> idx = 1 - db_write_idx b' \<and> db_max_tasks b' = db_max_tasks b
    \<and> unat count \<le> unat (db_max_tasks b') \<and> take (unat count) (db_buffer b' ! idx) = queued b"
proof -
  have w: "db_write_idx b < 2" "1 - db_write_idx b < 2" "1 - (1 - db_write_idx b) = db_write_idx b"
    "db_count b ! db_write_idx b \<le> db_max_tasks b" "length (db_count b) = 2"
    using assms(1) by (auto simp: db_ok_def)
  moreover have "b' = b\<lparr>db_write_idx := 1 - db_write_idx b, db_count := (db_count b)[1 - db_write_idx b := 0]\<rparr>"
      "idx = db_write_idx b" "count = db_count b ! db_write_idx b"
    using assms(2) by (auto simp: swap_section_def Let_def)
  ultimately show ?thesis using assms(1)
    by (auto simp: db_ok_def queued_def nth_list_update word_le_nat_alt)
qed

lemma run_step_inv: "run_step s s' \<Longrightarrow> db_inv s \<Longrightarrow> db_inv s'"
proof (induction rule: run_step.induct)
  case (db_swap s idx count broadcast b)
  have ok: "db_ok (db s)" using db_swap.prems by (simp add: db_inv_def)
  show ?case using swap_section_ok [OF ok db_swap.hyps(2)] db_swap
    by (auto simp: db_inv_def to_run_def)
next
  case (db_run s idx pos left)
  have r: "idx = 1 - db_write_idx (db s)" "pos + Suc left \<le> unat (db_max_tasks (db s))" "db_ok (db s)"
    using db_run by (simp_all add: db_inv_def)
  then have "pos < length (db_buffer (db s) ! idx)" by (auto simp: db_ok_def)
  then have "take (Suc left) (drop pos (db_buffer (db s) ! idx)) =
      db_buffer (db s) ! idx ! pos # take left (drop (Suc pos) (db_buffer (db s) ! idx))"
    by (simp flip: Cons_nth_drop_Suc)
  then show ?case using db_run r by (simp add: db_inv_def to_run_def)
next
  case (db_done s idx pos)
  then show ?case by (simp add: db_inv_def to_run_def)
qed

lemma db_inv_add:
  assumes "db_inv s" "add_section (db_write_idx (db s)) t (db s) = (r, b)"
  shows "db_inv (s\<lparr>db := b, adders := ads, accepted := accepted s @ add_accept r t\<rparr>)"
proof -
  have ok: "db_ok (db s)" using assms(1) by (simp add: db_inv_def)
  have "to_run (s\<lparr>db := b, adders := ads, accepted := accepted s @ add_accept r t\<rparr>) = to_run s"
    using add_section_ok [OF ok assms(2)] assms(1)
    by (auto simp: to_run_def db_inv_def split: runner.splits)
  then show ?thesis using add_section_ok [OF ok assms(2)] assms(1) by (simp add: db_inv_def)
qed

lemma db_step_inv: "db_step False spurious s s' \<Longrightarrow> db_inv s \<Longrightarrow> db_inv s'"
proof (induction rule: db_step.induct)
  case (db_add s i t r b)
  then show ?case using db_inv_add by (simp add: task_dbuffer_add_def)
next
  case (db_resume s i idx t r b)
  then show ?case using db_inv_add by simp
next
  case (db_runner s s')
  then show ?case using run_step_inv by blast
next
  case (db_inactive s)
  then show ?case
    by (cases "runner s")
      (simp_all add: db_inv_def task_dbuffer_set_inactive_def db_ok_def to_run_def queued_def)
next
  case (db_spurious s i)
  then show ?case by (cases "runner s") (simp_all add: db_inv_def to_run_def)
qed

lemma db_reach_inv: "db_reach junk m False spurious s \<Longrightarrow> db_inv s"
proof (induction rule: db_reach.induct)
  case db_created
  show ?case by (auto simp: db_inv_def task_dbuffer_create_def db_ok_def to_run_def queued_def nth_Cons'
        numeral_2_eq_2 less_Suc_eq)
next
  case (db_stepped s s')
  then show ?case using db_step_inv by blast
qed

subsection \<open>Properties\<close>

text \<open>C12: As long as no adder goes on with the index of a buffer that is no longer the write buffer, tasks
  are run in the order they were accepted, each once: what was accepted is what was run, what the
  runner still has to run, and what is queued.  A buffer never holds more than \<^verbatim>\<open>max_tasks\<close>.\<close>

theorem task_dbuffer_fifo:
  assumes "db_reach junk max_tasks False spurious s"
  shows "accepted s = ran s @ to_run s @ queued (db s)
    \<and> (\<forall>i < 2. unat (db_count (db s) ! i) \<le> unat (db_max_tasks (db s)))"
  using db_reach_inv [OF assms] by (auto simp: db_inv_def db_ok_def word_le_nat_alt)

text \<open>A run of two adders and the runner on buffers of one task.  Thread 1 waits with index 0; it is
  woken when the runner has swapped twice, but comes in only after the third swap.\<close>

definition db_state ::
  "nat \<Rightarrow> u32 list \<Rightarrow> nat list list \<Rightarrow> nat adder \<Rightarrow> runner \<Rightarrow> nat list \<Rightarrow> nat list \<Rightarrow> nat db_sys" where
  "db_state w cs bs a r acc rn = \<lparr>db = \<lparr>db_active = True, db_write_idx = w, db_max_tasks = 1, db_count = cs,
     db_buffer = bs\<rparr>, adders = (\<lambda>_. Outside)(1 := a), runner = r, accepted = acc, ran = rn\<rparr>"

lemma db_state_add0:
  assumes "cs ! w = 0"
  shows "db_step stale sp (db_state w cs bs a r acc rn)
    (db_state w (cs[w := 1]) (bs[w := (bs ! w)[0 := t]]) a r (acc @ [t]) rn)"
proof -
  have "adders (db_state w cs bs a r acc rn) 0 = Outside" by (simp add: db_state_def)
  from db_add [of "db_state w cs bs a r acc rn" 0, OF this, of t, OF surjective_pairing] assms
  show ?thesis
    by (simp add: db_state_def task_dbuffer_add_def add_section_def add_accept_def add_state_def fun_upd_idem)
qed

lemma db_state_wait:
  assumes "cs ! w = 1"
  shows "db_step stale sp (db_state w cs bs Outside r acc rn) (db_state w cs bs (Add_wait w t) r acc rn)"
proof -
  have "adders (db_state w cs bs Outside r acc rn) 1 = Outside" by (simp add: db_state_def)
  from db_add [of "db_state w cs bs Outside r acc rn" 1, OF this, of t, OF surjective_pairing] assms
  show ?thesis
    by (simp add: db_state_def task_dbuffer_add_def add_section_def add_accept_def add_state_def)
qed

lemma db_state_resume:
  "db_step True sp (db_state w cs bs (Add_ready i t) r acc rn)
    (if cs ! i \<ge> 1 then db_state w cs bs (Add_wait i t) r acc rn
     else db_state w (cs[i := cs ! i + 1]) (bs[i := (bs ! i)[unat (cs ! i) := t]]) Outside r (acc @ [t]) rn)"
proof -
  have "adders (db_state w cs bs (Add_ready i t) r acc rn) 1 = Add_ready i t" by (simp add: db_state_def)
  from db_resume [of "db_state w cs bs (Add_ready i t) r acc rn" 1, OF this, of True, OF _ surjective_pairing]
  show ?thesis
    by (auto simp: db_state_def add_section_def add_accept_def add_state_def Let_def split: if_splits)
qed

lemma db_state_swap:
  "db_step stale sp (db_state w cs bs a Run_idle acc rn)
    (db_state (1 - w) (cs[1 - w := 0]) bs (if cs ! w \<ge> 1 then wake a else a) (Running w 0 (unat (cs ! w))) acc rn)"
proof -
  let ?s = "db_state w cs bs a Run_idle acc rn"
  have r: "runner ?s = Run_idle" by (simp add: db_state_def)
  have s: "swap_section (db ?s) = ((w, cs ! w, cs ! w \<ge> 1),
      (db ?s)\<lparr>db_write_idx := 1 - w, db_count := cs[1 - w := 0]\<rparr>)"
    by (simp add: db_state_def swap_section_def Let_def)
  have "?s\<lparr>db := (db ?s)\<lparr>db_write_idx := 1 - w, db_count := cs[1 - w := 0]\<rparr>,
      adders := (if cs ! w \<ge> 1 then wake \<circ> adders ?s else adders ?s), runner := Running w 0 (unat (cs ! w))\<rparr>
    = db_state (1 - w) (cs[1 - w := 0]) bs (if cs ! w \<ge> 1 then wake a else a) (Running w 0 (unat (cs ! w))) acc rn"
    by (auto simp: db_state_def fun_eq_iff)
  then show ?thesis using db_runner [OF db_swap [OF r s], of stale sp] by simp
qed

lemma db_state_run:
  "db_step stale sp (db_state w cs bs a (Running idx pos (Suc left)) acc rn)
    (db_state w cs bs a (Running idx (Suc pos) left) acc (rn @ [bs ! idx ! pos]))"
proof -
  let ?s = "db_state w cs bs a (Running idx pos (Suc left)) acc rn"
  have "runner ?s = Running idx pos (Suc left)" by (simp add: db_state_def)
  from db_runner [OF db_run [OF this]] show ?thesis by (simp add: db_state_def)
qed

lemma db_state_done:
  "db_step stale sp (db_state w cs bs a (Running idx pos 0) acc rn) (db_state w cs bs a Run_idle acc rn)"
proof -
  let ?s = "db_state w cs bs a (Running idx pos 0) acc rn"
  have "runner ?s = Running idx pos 0" by (simp add: db_state_def)
  from db_runner [OF db_done [OF this]] show ?thesis by (simp add: db_state_def)
qed

lemma db_state_created:
  "db_reach (\<lambda>_. 0) 1 stale sp (db_state 0 [0, 0] [[0], [0]] Outside Run_idle [] [])"
  using db_created [of "\<lambda>_. 0" 1 stale sp]
  by (simp add: db_state_def task_dbuffer_create_def numeral_2_eq_2 fun_upd_idem)

lemmas db_state_reach = db_stepped [OF _ db_state_add0] db_stepped [OF _ db_state_wait]
  db_stepped [OF _ db_state_resume] db_stepped [OF _ db_state_swap] db_stepped [OF _ db_state_run]
  db_stepped [OF _ db_state_done]

text \<open>Task 1 fills buffer 0, thread 1 waits for it with task 9, and one swap lets it wait again.\<close>

lemma db_run_waits:
  "db_reach (\<lambda>_. 0) 1 True sp (db_state 1 [1, 0] [[1], [0]] (Add_wait 0 9) Run_idle [1] [1])"
proof -
  note r = db_state_created [of True sp]
  note r = db_stepped [OF r db_state_add0 [of _ _ _ _ _ _ _ _ _ 1], simplified]
  note r = db_stepped [OF r db_state_wait [of _ _ _ _ _ _ _ _ 9], simplified]
  note r = db_stepped [OF r db_state_swap, simplified]
  note r = db_stepped [OF r db_state_resume, simplified]
  note r = db_stepped [OF r db_state_run [where left = 0, simplified], simplified]
  show ?thesis using db_stepped [OF r db_state_done] by simp
qed

lemma db_run_lost:
  "db_reach (\<lambda>_. 0) 1 True sp (db_state 0 [0, 0] [[9], [2]] Outside Run_idle [1, 2, 9] [1, 2])"
proof -
  note r = db_run_waits [of sp]
  note r = db_stepped [OF r db_state_add0 [of _ _ _ _ _ _ _ _ _ 2], simplified]
  note r = db_stepped [OF r db_state_swap, simplified]
  note r = db_stepped [OF r db_state_run [where left = 0, simplified], simplified]
  note r = db_stepped [OF r db_state_done, simplified]
  note r = db_stepped [OF r db_state_swap, simplified]
  note r = db_stepped [OF r db_state_done, simplified]
  note r = db_stepped [OF r db_state_resume, simplified]
  note r = db_stepped [OF r db_state_swap, simplified]
  show ?thesis using db_stepped [OF r db_state_done] by simp
qed

text \<open>From the state of \<open>db_run_waits\<close> the runner can go on forever without waking thread 1: both
  buffers are empty, so no swap finds a full one.\<close>

lemma run_step_no_wake:
  "run_step s s' \<Longrightarrow> db_count (db s) = [0, 0] \<or> (db_write_idx (db s) = 1 \<and> db_count (db s) = [c, 0])
    \<Longrightarrow> db_max_tasks (db s) = 1 \<Longrightarrow> db_write_idx (db s) < 2
   \<Longrightarrow> adders s' = adders s \<and> db_max_tasks (db s') = 1 \<and> db_write_idx (db s') < 2
     \<and> (db_count (db s') = [0, 0] \<or> (db_write_idx (db s') = 1 \<and> db_count (db s') = [c, 0]))"
  by (induction rule: run_step.induct)
    (auto simp: swap_section_def Let_def less_2_cases_iff)

lemma run_steps_no_wake:
  assumes "run_step\<^sup>*\<^sup>* (db_state 1 [1, 0] bs a r acc rn) s'"
  shows "adders s' = adders (db_state 1 [1, 0] bs a r acc rn)
    \<and> db_count (db s') ! db_write_idx (db s') = 0 \<and> db_max_tasks (db s') = 1"
proof -
  let ?s = "db_state 1 [1, 0] bs a r acc rn"
  have "adders s' = adders ?s \<and> db_max_tasks (db s') = 1 \<and> db_write_idx (db s') < 2
     \<and> (db_count (db s') = [0, 0] \<or> (db_write_idx (db s') = 1 \<and> db_count (db s') = [1, 0]))"
    using assms
  proof (induction rule: rtranclp_induct)
    case base
    show ?case by (simp add: db_state_def)
  next
    case (step y z)
    then show ?case using run_step_no_wake [OF step.hyps(2), of 1] by simp
  qed
  then show ?thesis by (auto simp: less_2_cases_iff)
qed

text \<open>C38: The code goes on with the index it read before it slept (\<open>stale\<close> true), and this breaks the order
  and the promise above without any spurious wake-up.  A task can be accepted, with \<^verbatim>\<open>true\<close> returned,
  and then be neither queued nor run: the adder writes to a buffer that is no longer the write buffer,
  and the next swap resets its count.  And a waiting adder can be left asleep for ever while the write
  buffer is empty each time: a swap wakes the waiters only if the buffer it takes was full.\<close>

theorem task_dbuffer_stale_waiter:
  "(\<exists>s :: nat db_sys. db_reach (\<lambda>_. 0) 1 True False s \<and> accepted s = [1, 2, 9] \<and> ran s = [1, 2]
      \<and> runner s = Run_idle \<and> queued (db s) = [] \<and> (\<forall>i. adders s i = Outside))
   \<and> (\<exists>s :: nat db_sys. db_reach (\<lambda>_. 0) 1 True False s \<and> adders s 1 = Add_wait 0 9
      \<and> (\<forall>s'. run_step\<^sup>*\<^sup>* s s' \<longrightarrow> adders s' 1 = Add_wait 0 9
           \<and> db_count (db s') ! db_write_idx (db s') < db_max_tasks (db s')))"
proof (intro conjI)
  let ?s = "db_state 0 [0, 0] [[9], [2]] Outside Run_idle [1, 2, 9] [1, 2]"
  show "\<exists>s :: nat db_sys. db_reach (\<lambda>_. 0) 1 True False s \<and> accepted s = [1, 2, 9] \<and> ran s = [1, 2]
      \<and> runner s = Run_idle \<and> queued (db s) = [] \<and> (\<forall>i. adders s i = Outside)"
    using db_run_lost [of False] by (intro exI [of _ ?s]) (simp add: db_state_def queued_def)
next
  let ?s = "db_state 1 [1, 0] [[1], [0]] (Add_wait 0 9) Run_idle [1] [1]"
  have a: "adders ?s 1 = Add_wait 0 9" by (simp add: db_state_def)
  have r: "adders s' 1 = Add_wait 0 9 \<and> db_count (db s') ! db_write_idx (db s') < db_max_tasks (db s')"
    if "run_step\<^sup>*\<^sup>* ?s s'" for s'
  proof -
    have "0 < (1 :: u32)" by simp
    then show ?thesis using run_steps_no_wake [OF that] a by metis
  qed
  show "\<exists>s :: nat db_sys. db_reach (\<lambda>_. 0) 1 True False s \<and> adders s 1 = Add_wait 0 9
      \<and> (\<forall>s'. run_step\<^sup>*\<^sup>* s s' \<longrightarrow> adders s' 1 = Add_wait 0 9
           \<and> db_count (db s') ! db_write_idx (db s') < db_max_tasks (db s'))"
    by (intro exI [of _ ?s] conjI) (rule db_run_waits, rule a, intro allI impI, rule r)
qed

theorem task_dbuffer_stale_waiter_witness:
  "db_count (db (db_state 1 [1, 0] [[1], [0]] (Add_wait 0 9) Run_idle [1] [1])) = [1, 0]
   \<and> (\<exists>s :: nat db_sys. db_reach (\<lambda>_. 0) 1 True False s \<and> accepted s \<noteq> ran s @ to_run s @ queued (db s))"
proof -
  obtain s :: "nat db_sys" where s: "db_reach (\<lambda>_. 0) 1 True False s" "accepted s = [1, 2, 9]"
    "ran s = [1, 2]" "runner s = Run_idle" "queued (db s) = []"
    using task_dbuffer_stale_waiter by blast
  then have "accepted s \<noteq> ran s @ to_run s @ queued (db s)" by (simp add: to_run_def)
  then show ?thesis using s(1) by (auto simp: db_state_def)
qed

text \<open>One task added, and the state of it.\<close>

theorem task_dbuffer_fifo_witness:
  "accepted (db_state 0 [1, 0] [[7], [0]] Outside Run_idle [7] [])
     = ran (db_state 0 [1, 0] [[7], [0]] Outside Run_idle [7] [])
       @ to_run (db_state 0 [1, 0] [[7], [0]] Outside Run_idle [7] [])
       @ queued (db (db_state 0 [1, 0] [[7], [0]] Outside Run_idle [7] []))"
proof -
  have "db_reach (\<lambda>_. 0) 1 False False (db_state 0 [1, 0] [[7], [0]] Outside Run_idle [7] [])"
    using db_stepped [OF db_state_created [of False False] db_state_add0 [of _ _ _ _ _ _ _ _ _ 7]] by simp
  from task_dbuffer_fifo [OF this] show ?thesis by simp
qed

end
