(* ===== verification/Mem_Arena.thy ===== *)
theory Mem_Arena
  imports Prelude
begin

text \<open>
  The arena allocator \<^verbatim>\<open>src/src/mem_arena.c\<close> (64-bit).  A pointer is its address, 0 is
  \<^verbatim>\<open>NULL\<close>, and pointer arithmetic wraps as the machine's does.  The heap is the list of the live
  regions of \<^verbatim>\<open>malloc\<close> (address and size); where \<^verbatim>\<open>malloc\<close> places a region, and whether there is
  one, is a parameter.  The outer \<^theory_text>\<open>None\<close> of an operation is an abort: \<^verbatim>\<open>kpl_malloc\<close> out of
  memory or a failed \<^verbatim>\<open>ASSERT\<close>.
\<close>

type_synonym heap = "(u64 \<times> u64) list"
type_synonym malloc = "heap \<Rightarrow> u64 \<Rightarrow> u64 option"

definition PTR_ALIGN :: "u64 \<Rightarrow> u64" where
  "PTR_ALIGN x = (if x AND 7 \<noteq> 0 then (x + 8) AND NOT 7 else x)"

definition kpl_malloc :: "malloc \<Rightarrow> u64 \<Rightarrow> heap \<Rightarrow> (u64 \<times> heap) option" where
  "kpl_malloc malloc n h = map_option (\<lambda>p. (p, (p, n) # h)) (malloc h n)"

definition kpl_free :: "u64 \<Rightarrow> heap \<Rightarrow> heap" where
  "kpl_free p h = filter (\<lambda>r. fst r \<noteq> p) h"

record mem_arena_block =
  mem_prev :: u64
  mem_ptr :: u64
  mem_end :: u64
  mem_start :: u64

text \<open>\<^verbatim>\<open>sizeof(struct mem_arena_block)\<close>: four pointers before \<^verbatim>\<open>mem_start\<close>.\<close>

definition BLOCK_HEADER :: u64 where
  "BLOCK_HEADER = 32"

text \<open>\<open>blocks\<close> is the list that starts at \<^verbatim>\<open>head\<close>.\<close>

record mem_arena =
  block_size :: u64
  blocks :: "mem_arena_block list"

definition MEM_ARENA_INIT :: "u64 \<Rightarrow> mem_arena" where
  "MEM_ARENA_INIT s = \<lparr>block_size = s, blocks = []\<rparr>"

definition free_blocks :: "mem_arena_block list \<Rightarrow> heap \<Rightarrow> heap" where
  "free_blocks = fold (\<lambda>b. kpl_free (mem_start b - BLOCK_HEADER))"

definition mem_arena_cleanup :: "mem_arena \<Rightarrow> heap \<Rightarrow> mem_arena \<times> heap" where
  "mem_arena_cleanup a h = (a\<lparr>blocks := []\<rparr>, free_blocks (blocks a) h)"

definition mem_arena_block_create :: "malloc \<Rightarrow> u64 \<Rightarrow> heap \<Rightarrow> (mem_arena_block \<times> heap) option" where
  "mem_arena_block_create malloc bs h = do {
     let sz = PTR_ALIGN bs;
     (blk, h1) \<leftarrow> kpl_malloc malloc (BLOCK_HEADER + sz) h;
     let start = blk + BLOCK_HEADER;
     Some (\<lparr>mem_prev = 0, mem_ptr = start, mem_end = start + sz, mem_start = start\<rparr>, h1)
   }"

definition mem_arena_block_alloc :: "u64 \<Rightarrow> mem_arena_block \<Rightarrow> (u64 \<times> mem_arena_block) option" where
  "mem_arena_block_alloc sz blk =
     (let ptr = mem_ptr blk; nextptr = mem_ptr blk + sz
      in if nextptr \<ge> mem_end blk then None
         else Some (ptr, blk\<lparr>mem_prev := ptr, mem_ptr := nextptr\<rparr>))"

definition mem_arena_alloc ::
  "malloc \<Rightarrow> u64 \<Rightarrow> mem_arena \<Rightarrow> heap \<Rightarrow> (u64 option \<times> mem_arena \<times> heap) option" where
  "mem_arena_alloc malloc size0 a h =
     (let sz = PTR_ALIGN size0
      in if sz > block_size a div 2 then Some (None, a, h)
         else do {
           (blk, rest, h1) \<leftarrow> (case blocks a of
               [] \<Rightarrow> map_option (\<lambda>(b, h1). (b, [], h1)) (mem_arena_block_create malloc (block_size a) h)
             | b # bs \<Rightarrow> Some (b, bs, h));
           (case mem_arena_block_alloc sz blk of
               Some (p, blk') \<Rightarrow> Some (Some p, a\<lparr>blocks := blk' # rest\<rparr>, h1)
             | None \<Rightarrow> do {
                 (blk2, h2) \<leftarrow> mem_arena_block_create malloc (block_size a) h1;
                 (p, blk2') \<leftarrow> mem_arena_block_alloc sz blk2;
                 Some (Some p, a\<lparr>blocks := blk2' # blk # rest\<rparr>, h2)
               })
         })"

definition mem_arena_rollback :: "mem_arena \<Rightarrow> mem_arena" where
  "mem_arena_rollback a =
     (case blocks a of
        [] \<Rightarrow> a
      | blk # rest \<Rightarrow>
          if mem_prev blk \<noteq> 0
          then a\<lparr>blocks := blk\<lparr>mem_ptr := mem_prev blk, mem_prev := 0\<rparr> # rest\<rparr>
          else a)"

definition mem_arena_reset :: "mem_arena \<Rightarrow> heap \<Rightarrow> mem_arena \<times> heap" where
  "mem_arena_reset a h =
     (case blocks a of
        [] \<Rightarrow> (a, h)
      | b # rest \<Rightarrow>
          (a\<lparr>blocks := [b\<lparr>mem_prev := 0, mem_ptr := mem_start b\<rparr>]\<rparr>, free_blocks rest h))"

subsection \<open>Alignment\<close>

lemma unat_and_not_mask: "unat (x AND NOT (mask k)) = unat (x :: 'a :: len word) div 2 ^ k * 2 ^ k"
proof -
  have "(x AND mask k) + (x AND NOT (mask k)) = (x AND mask k) OR (x AND NOT (mask k))"
    by (rule disjunctive_add_eq_or) (simp add: bit_eq_iff bit_simps)
  also have "\<dots> = x" by (auto simp: bit_eq_iff bit_simps)
  finally have "x AND NOT (mask k) = x - (x AND mask k)" by (metis add_diff_cancel_left')
  moreover have "x AND mask k \<le> x" by (simp add: word_le_nat_alt unat_and_mask)
  ultimately have "unat (x AND NOT (mask k)) = unat x - unat x mod 2 ^ k"
    by (simp add: unat_sub unat_and_mask)
  then show ?thesis by (simp add: minus_mod_eq_div_mult)
qed

lemma unat_and_7: "unat (x AND 7) = unat (x :: u64) mod 8"
  using unat_and_mask [of x 3] by (simp add: mask_eq_exp_minus_1)

lemma and_7_iff: "x AND 7 \<noteq> (0 :: u64) \<longleftrightarrow> unat x mod 8 \<noteq> 0"
  by (metis unat_and_7 unat_eq_zero)

lemma unat_and_not_7: "unat (x AND NOT 7) = unat (x :: u64) div 8 * 8"
  using unat_and_not_mask [of x 3] by (simp add: mask_eq_exp_minus_1)

lemma PTR_ALIGN_unat:
  assumes "unat x \<le> 2 ^ 64 - 8"
  shows "unat (PTR_ALIGN x) = (unat x + 7) div 8 * 8"
proof (cases "unat x mod 8 = 0")
  case True
  then have "(unat x + 7) div 8 = unat x div 8" by (simp add: div_add1_eq [of "unat x" 7])
  moreover have "unat x = unat x div 8 * 8" using True div_mult_mod_eq [of "unat x" 8] by simp
  ultimately show ?thesis using True and_7_iff [of x] by (simp add: PTR_ALIGN_def)
next
  case False
  then have "unat x \<noteq> 18446744073709551608" by auto
  then have "unat x + 8 < 2 ^ 64" using assms by simp
  then have "unat (x + 8) = unat x + 8" by (simp add: unat_word_ariths)
  moreover have "(unat x mod 8 + 7) div 8 = 1" using False by (intro div_nat_eqI) auto
  then have "(unat x + 8) div 8 = (unat x + 7) div 8" by (simp add: div_add1_eq [of "unat x" 7])
  moreover have "PTR_ALIGN x = (x + 8) AND NOT 7" using False and_7_iff [of x] by (metis PTR_ALIGN_def)
  ultimately show ?thesis using False by (metis unat_and_not_7)
qed

lemma PTR_ALIGN_wraps:
  assumes "2 ^ 64 - 8 < unat x"
  shows "PTR_ALIGN x = 0"
proof -
  have lt: "unat x < 2 ^ 64" using unsigned_less [of x, where 'a = nat] by simp
  obtain j where j: "unat x = 18446744073709551608 + j" "0 < j" "j < 8"
    using assms lt by (intro that [of "unat x - 18446744073709551608"]) simp_all
  then have "unat x mod 8 = j" by (simp add: mod_add_left_eq [symmetric])
  then have "x AND 7 \<noteq> 0" using j(2) and_7_iff [of x] by simp
  moreover have "(unat x + 8) mod 2 ^ 64 = unat x + 8 - 2 ^ 64"
    using assms lt by (subst mod_if) simp
  then have "unat (x + 8) < 8" using assms lt by (simp add: unat_word_ariths)
  then have "unat ((x + 8) AND NOT 7) = 0" unfolding unat_and_not_7 by simp
  ultimately show ?thesis by (metis PTR_ALIGN_def unat_eq_zero)
qed

subsection \<open>Allocations and the heap\<close>

text \<open>Two regions that share no byte.\<close>

definition apart :: "u64 \<times> nat \<Rightarrow> u64 \<times> nat \<Rightarrow> bool" where
  "apart r q \<longleftrightarrow> unat (fst r) + snd r \<le> unat (fst q) \<or> unat (fst q) + snd q \<le> unat (fst r)"

lemma apart_sym: "apart r q \<Longrightarrow> apart q r"
  by (auto simp: apart_def)

lemma apart_inside:
  "apart (p, n) (q, m) \<Longrightarrow> unat p \<le> unat p' \<Longrightarrow> unat p' + n' \<le> unat p + n \<Longrightarrow>
   unat q \<le> unat q' \<Longrightarrow> unat q' + m' \<le> unat q + m \<Longrightarrow> apart (p', n') (q', m')"
  by (auto simp: apart_def)

text \<open>What the code relies on of \<^verbatim>\<open>malloc\<close>: an aligned region in the user half of the address
  space, apart from the live ones.\<close>

definition malloc_law :: "malloc \<Rightarrow> bool" where
  "malloc_law malloc \<longleftrightarrow> (\<forall>h n p. malloc h n = Some p \<longrightarrow>
     p \<noteq> 0 \<and> unat p mod 8 = 0 \<and> unat p + unat n \<le> 2 ^ 63
     \<and> (\<forall>(q, k) \<in> set h. apart (p, unat n) (q, unat k)))"

definition arena_config :: "u64 \<Rightarrow> bool" where
  "arena_config bs \<longleftrightarrow> 0 < unat bs \<and> unat bs \<le> 2 ^ 62"

text \<open>Histories of one arena beside other users of the heap, with the allocations that are live,
  newest first.  \<^verbatim>\<open>mem_arena_rollback\<close> takes back the newest one if there was no rollback since.\<close>

inductive arena_reach ::
  "malloc \<Rightarrow> u64 \<Rightarrow> mem_arena \<Rightarrow> heap \<Rightarrow> (u64 \<times> nat) list \<Rightarrow> bool" for malloc bs where
  ar_init: "arena_reach malloc bs (MEM_ARENA_INIT bs) [] []"
| ar_alloc: "arena_reach malloc bs a h L \<Longrightarrow> mem_arena_alloc malloc n a h = Some (r, a', h') \<Longrightarrow>
    arena_reach malloc bs a' h' (case r of None \<Rightarrow> L | Some p \<Rightarrow> (p, unat (PTR_ALIGN n)) # L)"
| ar_rollback: "arena_reach malloc bs a h L \<Longrightarrow>
    arena_reach malloc bs (mem_arena_rollback a) h
      (case blocks a of [] \<Rightarrow> L | b # bs \<Rightarrow> if mem_prev b = 0 then L else tl L)"
| ar_reset: "arena_reach malloc bs a h L \<Longrightarrow> mem_arena_reset a h = (a', h') \<Longrightarrow>
    arena_reach malloc bs a' h' []"
| ar_cleanup: "arena_reach malloc bs a h L \<Longrightarrow> mem_arena_cleanup a h = (a', h') \<Longrightarrow>
    arena_reach malloc bs a' h' []"
| ar_other_malloc: "arena_reach malloc bs a h L \<Longrightarrow> kpl_malloc malloc n h = Some (p, h') \<Longrightarrow>
    arena_reach malloc bs a h' L"
| ar_other_free: "arena_reach malloc bs a h L \<Longrightarrow>
    p \<notin> (\<lambda>b. mem_start b - BLOCK_HEADER) ` set (blocks a) \<Longrightarrow>
    arena_reach malloc bs a (kpl_free p h) L"

text \<open>The invariant: of one block of size \<open>S\<close>, of the list of blocks, of the live allocations.\<close>

definition block_ok :: "heap \<Rightarrow> nat \<Rightarrow> mem_arena_block \<Rightarrow> bool" where
  "block_ok h S b \<longleftrightarrow> unat (mem_end b) = unat (mem_start b) + S \<and> unat (mem_end b) \<le> 2 ^ 63
     \<and> 32 \<le> unat (mem_start b)
     \<and> unat (mem_start b) \<le> unat (mem_ptr b) \<and> unat (mem_ptr b) \<le> unat (mem_end b)
     \<and> unat (mem_start b) mod 8 = 0 \<and> unat (mem_ptr b) mod 8 = 0 \<and> unat (mem_prev b) mod 8 = 0
     \<and> (mem_prev b \<noteq> 0 \<longrightarrow> unat (mem_start b) \<le> unat (mem_prev b) \<and> unat (mem_prev b) \<le> unat (mem_ptr b))
     \<and> (mem_start b - BLOCK_HEADER, BLOCK_HEADER + of_nat S) \<in> set h"

definition blocks_ok :: "heap \<Rightarrow> nat \<Rightarrow> mem_arena_block list \<Rightarrow> bool" where
  "blocks_ok h S bs \<longleftrightarrow> (\<forall>b \<in> set bs. block_ok h S b)
     \<and> sorted_wrt (\<lambda>b c. apart (mem_start b, S) (mem_start c, S)) bs"

definition in_block :: "mem_arena_block \<Rightarrow> u64 \<times> nat \<Rightarrow> bool" where
  "in_block b l \<longleftrightarrow> unat (mem_start b) \<le> unat (fst l) \<and> unat (fst l) + snd l \<le> unat (mem_ptr b)
     \<and> unat (fst l) mod 8 = 0"

text \<open>Allocations lie in the used part of a block, or before the previous pointer of the head, which
  the newest one starts at.\<close>

definition live_ok :: "mem_arena_block list \<Rightarrow> (u64 \<times> nat) list \<Rightarrow> bool" where
  "live_ok bs L \<longleftrightarrow> (\<forall>l \<in> set L. \<exists>b \<in> set bs. in_block b l) \<and> sorted_wrt apart L
     \<and> (case bs of [] \<Rightarrow> True
        | b # rest \<Rightarrow> mem_prev b \<noteq> 0 \<longrightarrow>
            (\<exists>n L'. L = (mem_prev b, n) # L' \<and>
              (\<forall>l \<in> set L'. \<exists>c \<in> set (b\<lparr>mem_ptr := mem_prev b\<rparr> # rest). in_block c l)))"

definition arena_inv :: "u64 \<Rightarrow> mem_arena \<Rightarrow> heap \<Rightarrow> (u64 \<times> nat) list \<Rightarrow> bool" where
  "arena_inv bs a h L \<longleftrightarrow> block_size a = bs
     \<and> blocks_ok h (unat (PTR_ALIGN bs)) (blocks a) \<and> live_ok (blocks a) L"

lemma PTR_ALIGN_mod: "unat (PTR_ALIGN x) mod 8 = 0"
  by (cases "unat x \<le> 2 ^ 64 - 8") (simp_all add: PTR_ALIGN_unat PTR_ALIGN_wraps)

lemma arena_size_bounds:
  assumes "arena_config bs"
  shows "unat bs \<le> unat (PTR_ALIGN bs)" "unat (PTR_ALIGN bs) \<le> 2 ^ 62 + 7" "0 < unat (PTR_ALIGN bs)"
proof -
  have "unat bs \<le> 2 ^ 64 - 8" using assms by (simp add: arena_config_def)
  then have "unat (PTR_ALIGN bs) = (unat bs + 7) div 8 * 8" by (rule PTR_ALIGN_unat)
  moreover have "(n + 7) div 8 * 8 = n + 7 - (n + 7) mod 8" for n :: nat
    by (simp add: minus_mod_eq_div_mult)
  ultimately obtain r where "r \<le> 7" "unat (PTR_ALIGN bs) = unat bs + 7 - r"
    by (intro that [of "(unat bs + 7) mod 8"]) (simp_all add: less_Suc_eq_le [symmetric])
  then show "unat bs \<le> unat (PTR_ALIGN bs)" "unat (PTR_ALIGN bs) \<le> 2 ^ 62 + 7"
    "0 < unat (PTR_ALIGN bs)"
    using assms by (simp_all add: arena_config_def) linarith?
qed

lemma block_ok_mono: "block_ok h S b \<Longrightarrow> set h \<subseteq> set h' \<Longrightarrow> block_ok h' S b"
  by (auto simp: block_ok_def)

lemma blocks_ok_mono: "blocks_ok h S bs \<Longrightarrow> set h \<subseteq> set h' \<Longrightarrow> blocks_ok h' S bs"
  by (auto simp: blocks_ok_def intro: block_ok_mono)

lemma unat_add_small: "unat (x :: u64) + unat y < 2 ^ 64 \<Longrightarrow> unat (x + y) = unat x + unat y"
  by (simp add: unat_word_ariths)

text \<open>A new block is apart from the others and empty.\<close>

lemma block_create:
  assumes law: "malloc_law malloc" and cfg: "arena_config bs"
    and create: "mem_arena_block_create malloc bs h = Some (b, h1)"
    and ok: "blocks_ok h (unat (PTR_ALIGN bs)) cs"
  shows "blocks_ok h1 (unat (PTR_ALIGN bs)) (b # cs)" "set h \<subseteq> set h1" "mem_prev b = 0"
    "mem_ptr b = mem_start b"
proof -
  let ?S = "unat (PTR_ALIGN bs)"
  from create obtain p where p: "malloc h (BLOCK_HEADER + PTR_ALIGN bs) = Some p"
      "h1 = (p, BLOCK_HEADER + PTR_ALIGN bs) # h"
      "b = \<lparr>mem_prev = 0, mem_ptr = p + BLOCK_HEADER, mem_end = p + BLOCK_HEADER + PTR_ALIGN bs,
        mem_start = p + BLOCK_HEADER\<rparr>"
    by (cases "malloc h (BLOCK_HEADER + PTR_ALIGN bs)")
      (auto simp: mem_arena_block_create_def kpl_malloc_def Let_def)
  show "set h \<subseteq> set h1" "mem_prev b = 0" "mem_ptr b = mem_start b" using p by auto
  have S: "unat (BLOCK_HEADER + PTR_ALIGN bs) = 32 + ?S"
    using arena_size_bounds [OF cfg] by (subst unat_add_small) (simp_all add: BLOCK_HEADER_def)
  have m: "unat p + (32 + ?S) \<le> 2 ^ 63" "unat p mod 8 = 0"
      "\<forall>(q, k) \<in> set h. apart (p, 32 + ?S) (q, unat k)"
    using law p(1) S unfolding malloc_law_def by metis+
  have start: "unat (p + BLOCK_HEADER) = unat p + 32"
    using m(1) by (subst unat_add_small) (simp_all add: BLOCK_HEADER_def)
  then have "unat (p + BLOCK_HEADER + PTR_ALIGN bs) = unat p + 32 + ?S"
    using m(1) by (subst unat_add_small) simp_all
  then have b: "block_ok h1 ?S b"
    using m start p by (simp add: block_ok_def mod_add_left_eq [symmetric])
  have "apart (mem_start b, ?S) (mem_start c, ?S)" if c: "c \<in> set cs" for c
  proof -
    have "block_ok h ?S c" using ok c by (simp add: blocks_ok_def)
    then have c': "(mem_start c - BLOCK_HEADER, BLOCK_HEADER + PTR_ALIGN bs) \<in> set h"
        "32 \<le> unat (mem_start c)"
      by (simp_all add: block_ok_def)
    have "unat (mem_start c - BLOCK_HEADER) = unat (mem_start c) - 32"
      using c'(2) by (subst unat_sub) (simp_all add: BLOCK_HEADER_def word_le_nat_alt)
    moreover have "apart (p, 32 + ?S) (mem_start c - BLOCK_HEADER, 32 + ?S)" using m(3) c'(1) S by auto
    ultimately show ?thesis using start p c'(2) by (auto simp: apart_def)
  qed
  then show "blocks_ok h1 ?S (b # cs)"
    using ok b blocks_ok_mono [OF ok \<open>set h \<subseteq> set h1\<close>] by (simp add: blocks_ok_def)
qed

text \<open>Allocation in one block.\<close>

lemma block_alloc:
  assumes "block_ok h S b" "unat n \<le> S" "unat n mod 8 = 0"
  shows "mem_arena_block_alloc n b =
    (if unat (mem_ptr b) + unat n < unat (mem_end b)
     then Some (mem_ptr b, b\<lparr>mem_prev := mem_ptr b, mem_ptr := mem_ptr b + n\<rparr>) else None)"
    and "unat (mem_ptr b) + unat n < unat (mem_end b) \<Longrightarrow>
      block_ok h S (b\<lparr>mem_prev := mem_ptr b, mem_ptr := mem_ptr b + n\<rparr>)
      \<and> unat (mem_ptr b + n) = unat (mem_ptr b) + unat n \<and> mem_ptr b \<noteq> 0"
proof -
  have b: "unat (mem_ptr b) \<le> unat (mem_end b)" "unat (mem_end b) \<le> 2 ^ 63" "S + 32 \<le> unat (mem_end b)"
    using assms(1) by (simp_all add: block_ok_def)
  then have add: "unat (mem_ptr b + n) = unat (mem_ptr b) + unat n"
    using assms(2) by (intro unat_add_small) simp
  then show "mem_arena_block_alloc n b =
    (if unat (mem_ptr b) + unat n < unat (mem_end b)
     then Some (mem_ptr b, b\<lparr>mem_prev := mem_ptr b, mem_ptr := mem_ptr b + n\<rparr>) else None)"
    by (simp add: mem_arena_block_alloc_def word_le_nat_alt Let_def)
  assume "unat (mem_ptr b) + unat n < unat (mem_end b)"
  then have "block_ok h S (b\<lparr>mem_prev := mem_ptr b, mem_ptr := mem_ptr b + n\<rparr>)"
    using assms add by (auto simp: block_ok_def mod_add_left_eq [symmetric])
  moreover have "mem_ptr b \<noteq> 0" using assms(1) by (auto simp: block_ok_def)
  ultimately show "block_ok h S (b\<lparr>mem_prev := mem_ptr b, mem_ptr := mem_ptr b + n\<rparr>)
      \<and> unat (mem_ptr b + n) = unat (mem_ptr b) + unat n \<and> mem_ptr b \<noteq> 0"
    using add by simp
qed

text \<open>Allocation in the arena: the block that serves it is the head or a new one.\<close>

lemma blocks_ok_Cons: "blocks_ok h S (b # bs) \<longleftrightarrow> block_ok h S b \<and> blocks_ok h S bs
    \<and> (\<forall>c \<in> set bs. apart (mem_start b, S) (mem_start c, S))"
  by (auto simp: blocks_ok_def)

lemma half_size:
  assumes "arena_config bs" "\<not> PTR_ALIGN n > bs div 2"
  shows "unat (PTR_ALIGN n) < unat (PTR_ALIGN bs)"
proof -
  have "unat (PTR_ALIGN n) \<le> unat bs div 2"
    using assms(2) by (simp add: word_le_nat_alt unat_div not_less)
  also have "\<dots> < unat bs" using assms(1) by (simp add: arena_config_def)
  finally show ?thesis using arena_size_bounds(1) [OF assms(1)] by simp
qed

lemma fresh_alloc:
  assumes law: "malloc_law malloc" and cfg: "arena_config bs" and n: "\<not> PTR_ALIGN n > bs div 2"
    and create: "mem_arena_block_create malloc bs h = Some (b, h1)"
    and ok: "blocks_ok h (unat (PTR_ALIGN bs)) cs"
  shows "mem_arena_block_alloc (PTR_ALIGN n) b
           = Some (mem_ptr b, b\<lparr>mem_prev := mem_ptr b, mem_ptr := mem_ptr b + PTR_ALIGN n\<rparr>)"
    and "unat (mem_ptr b) + unat (PTR_ALIGN n) < unat (mem_end b)"
proof -
  note b = block_create [OF law cfg create ok]
  have ok_b: "block_ok h1 (unat (PTR_ALIGN bs)) b" using b(1) by (simp add: blocks_ok_Cons)
  then show "unat (mem_ptr b) + unat (PTR_ALIGN n) < unat (mem_end b)"
    using half_size [OF cfg n] b(4) by (simp add: block_ok_def)
  then show "mem_arena_block_alloc (PTR_ALIGN n) b
           = Some (mem_ptr b, b\<lparr>mem_prev := mem_ptr b, mem_ptr := mem_ptr b + PTR_ALIGN n\<rparr>)"
    using block_alloc(1) [OF ok_b] half_size [OF cfg n] PTR_ALIGN_mod by simp
qed

lemma create_None: "mem_arena_block_create malloc bs h = None \<longleftrightarrow> malloc h (BLOCK_HEADER + PTR_ALIGN bs) = None"
  by (cases "malloc h (BLOCK_HEADER + PTR_ALIGN bs)")
    (simp_all add: mem_arena_block_create_def kpl_malloc_def Let_def)

lemma arena_alloc_cases:
  assumes law: "malloc_law malloc" and cfg: "arena_config bs" and inv: "arena_inv bs a h L"
  obtains (refused) "PTR_ALIGN n > bs div 2" "mem_arena_alloc malloc n a h = Some (None, a, h)"
  | (out_of_memory) "\<not> PTR_ALIGN n > bs div 2" "mem_arena_alloc malloc n a h = None"
      "malloc h (BLOCK_HEADER + PTR_ALIGN bs) = None"
  | (allocated) b rest h' where "\<not> PTR_ALIGN n > bs div 2"
      "mem_arena_alloc malloc n a h = Some (Some (mem_ptr b),
         a\<lparr>blocks := b\<lparr>mem_prev := mem_ptr b, mem_ptr := mem_ptr b + PTR_ALIGN n\<rparr> # rest\<rparr>, h')"
      "blocks_ok h' (unat (PTR_ALIGN bs)) (b # rest)" "set h \<subseteq> set h'"
      "unat (mem_ptr b) + unat (PTR_ALIGN n) < unat (mem_end b)"
      "b # rest = blocks a \<or> mem_prev b = 0 \<and> rest = blocks a"
proof (cases "PTR_ALIGN n > bs div 2")
  case True
  then show thesis using refused inv by (simp add: mem_arena_alloc_def arena_inv_def Let_def)
next
  case n: False
  have bs: "block_size a = bs" and ok: "blocks_ok h (unat (PTR_ALIGN bs)) (blocks a)"
    using inv by (simp_all add: arena_inv_def)
  have new: thesis
    if "mem_arena_alloc malloc n a h = do {
          (b, h1) \<leftarrow> mem_arena_block_create malloc bs h;
          (p, b') \<leftarrow> mem_arena_block_alloc (PTR_ALIGN n) b;
          Some (Some p, a\<lparr>blocks := b' # blocks a\<rparr>, h1)
        }"
  proof (cases "mem_arena_block_create malloc bs h")
    case None
    then show thesis using that n out_of_memory by (simp add: create_None [symmetric])
  next
    case (Some r)
    then obtain b h1 where c: "mem_arena_block_create malloc bs h = Some (b, h1)" by (cases r) simp
    note b = block_create [OF law cfg c ok] fresh_alloc [OF law cfg n c ok]
    show thesis by (rule allocated [OF n _ b(1,2,6)]) (use that c b in simp_all)
  qed
  show thesis
  proof (cases "blocks a")
    case Nil
    have "mem_arena_alloc malloc n a h = do {
          (b, h1) \<leftarrow> mem_arena_block_create malloc bs h;
          (p, b') \<leftarrow> mem_arena_block_alloc (PTR_ALIGN n) b;
          Some (Some p, a\<lparr>blocks := b' # blocks a\<rparr>, h1)
        }"
      using n bs Nil fresh_alloc(1) [OF law cfg n _ ok]
      by (cases "mem_arena_block_create malloc bs h") (auto simp: mem_arena_alloc_def Let_def)
    then show thesis by (rule new)
  next
    case (Cons b rest)
    have b: "block_ok h (unat (PTR_ALIGN bs)) b" using ok Cons by (simp add: blocks_ok_Cons)
    have a: "mem_arena_block_alloc (PTR_ALIGN n) b =
        (if unat (mem_ptr b) + unat (PTR_ALIGN n) < unat (mem_end b)
         then Some (mem_ptr b, b\<lparr>mem_prev := mem_ptr b, mem_ptr := mem_ptr b + PTR_ALIGN n\<rparr>) else None)"
      using block_alloc(1) [OF b] half_size [OF cfg n] PTR_ALIGN_mod by simp
    show thesis
    proof (cases "unat (mem_ptr b) + unat (PTR_ALIGN n) < unat (mem_end b)")
      case True
      show thesis by (rule allocated [of b rest h, OF n _ _ _ True]) (use n bs ok a True Cons in
            \<open>simp_all add: mem_arena_alloc_def Let_def\<close>)
    next
      case False
      then show thesis using n bs a Cons by (intro new) (simp add: mem_arena_alloc_def Let_def)
    qed
  qed
qed

text \<open>The live allocations after an allocation in the first block.\<close>

lemma live_ok_alloc:
  assumes ok: "blocks_ok h S (b # rest)" and live: "live_ok (b # rest) L"
    and room: "unat (mem_ptr b) + k < unat (mem_end b)" "unat q = unat (mem_ptr b) + k"
  shows "live_ok (b\<lparr>mem_prev := mem_ptr b, mem_ptr := q\<rparr> # rest) ((mem_ptr b, k) # L)"
proof -
  have b: "block_ok h S b" using ok by (simp add: blocks_ok_Cons)
  have "in_block (b\<lparr>mem_prev := mem_ptr b, mem_ptr := q\<rparr>) (mem_ptr b, k)"
    using b room by (simp add: in_block_def block_ok_def)
  moreover have grow: "in_block (b\<lparr>mem_prev := mem_ptr b, mem_ptr := q\<rparr>) l" if "in_block b l" for l
    using that room by (simp add: in_block_def)
  moreover have "apart (mem_ptr b, k) l" if "l \<in> set L" for l
  proof -
    obtain c where c: "c \<in> set (b # rest)" "in_block c l" using live \<open>l \<in> set L\<close> by (auto simp: live_ok_def)
    show ?thesis
    proof (cases "c = b")
      case True
      then show ?thesis using c by (auto simp: in_block_def apart_def)
    next
      case False
      then have "apart (mem_start b, S) (mem_start c, S)" "block_ok h S c"
        using ok c by (auto simp: blocks_ok_Cons) (simp add: blocks_ok_def)
      then show ?thesis using c(2) b room
        by (cases l) (auto simp: apart_def in_block_def block_ok_def)
    qed
  qed
  moreover have "sorted_wrt apart L" "\<forall>l \<in> set L. \<exists>c \<in> set (b # rest). in_block c l"
    using live by (simp_all add: live_ok_def)
  ultimately show ?thesis by (auto simp: live_ok_def in_block_def)
qed

text \<open>Freeing other regions keeps the blocks.\<close>

lemma block_ok_free:
  assumes "block_ok h S b" "mem_start b - BLOCK_HEADER \<noteq> p"
  shows "block_ok (kpl_free p h) S b"
  using assms by (simp add: block_ok_def kpl_free_def)

lemma block_ok_free_blocks:
  assumes "block_ok h S b" "\<forall>c \<in> set cs. mem_start c \<noteq> mem_start b"
  shows "block_ok (free_blocks cs h) S b"
  using assms
proof (induction cs arbitrary: h)
  case (Cons c cs)
  then have "block_ok (free_blocks cs (kpl_free (mem_start c - BLOCK_HEADER) h)) S b"
    using block_ok_free by auto
  then show ?case by (simp add: free_blocks_def)
qed (simp add: free_blocks_def)

text \<open>Every operation keeps the invariant.\<close>

lemma inv_alloc:
  assumes law: "malloc_law malloc" and cfg: "arena_config bs" and inv: "arena_inv bs a h L"
    and run: "mem_arena_alloc malloc n a h = Some (r, a', h')"
  shows "arena_inv bs a' h' (case r of None \<Rightarrow> L | Some p \<Rightarrow> (p, unat (PTR_ALIGN n)) # L)"
  using law cfg inv
proof (cases rule: arena_alloc_cases [where n = n])
  case refused
  then show ?thesis using run inv by simp
next
  case out_of_memory
  then show ?thesis using run by simp
next
  case (allocated b rest h1)
  let ?S = "unat (PTR_ALIGN bs)" and ?k = "unat (PTR_ALIGN n)"
  let ?b = "b\<lparr>mem_prev := mem_ptr b, mem_ptr := mem_ptr b + PTR_ALIGN n\<rparr>"
  have b: "block_ok h1 ?S b" using allocated(3) by (simp add: blocks_ok_Cons)
  have k: "?k \<le> ?S" using half_size [OF cfg allocated(1)] by simp
  note ba = block_alloc(2) [OF b k PTR_ALIGN_mod allocated(5)]
  have "live_ok (blocks a) L" using inv by (simp add: arena_inv_def)
  then have "live_ok (b # rest) L" using allocated(6)
    by (auto simp: live_ok_def split: list.splits)
  then have "live_ok (?b # rest) ((mem_ptr b, ?k) # L)"
    using live_ok_alloc [OF allocated(3) _ allocated(5)] ba by simp
  moreover have "blocks_ok h1 ?S (?b # rest)"
    using allocated(3) ba by (simp add: blocks_ok_Cons)
  ultimately show ?thesis using run allocated(2) inv by (auto simp: arena_inv_def)
qed

lemma inv_rollback:
  assumes "arena_inv bs a h L"
  shows "arena_inv bs (mem_arena_rollback a) h
    (case blocks a of [] \<Rightarrow> L | b # bs \<Rightarrow> if mem_prev b = 0 then L else tl L)"
proof (cases "blocks a")
  case Nil
  then show ?thesis using assms by (simp add: mem_arena_rollback_def)
next
  case (Cons b rest)
  show ?thesis
  proof (cases "mem_prev b = 0")
    case True
    then show ?thesis using assms Cons by (simp add: mem_arena_rollback_def)
  next
    case False
    let ?b = "b\<lparr>mem_ptr := mem_prev b, mem_prev := 0\<rparr>"
    have ok: "blocks_ok h (unat (PTR_ALIGN bs)) (b # rest)" and live: "live_ok (b # rest) L"
      using assms Cons by (simp_all add: arena_inv_def)
    have "blocks_ok h (unat (PTR_ALIGN bs)) (?b # rest)"
      using ok False by (auto simp: blocks_ok_Cons block_ok_def)
    moreover obtain k L' where L: "L = (mem_prev b, k) # L'"
        "\<forall>l \<in> set L'. \<exists>c \<in> set (b\<lparr>mem_ptr := mem_prev b\<rparr> # rest). in_block c l"
      using live False by (auto simp: live_ok_def)
    then have "live_ok (?b # rest) L'"
      using live by (auto simp: live_ok_def in_block_def)
    ultimately show ?thesis using assms Cons False L
      by (simp add: mem_arena_rollback_def arena_inv_def)
  qed
qed

lemma inv_reset:
  assumes cfg: "arena_config bs" and inv: "arena_inv bs a h L"
  shows "arena_inv bs (fst (mem_arena_reset a h)) (snd (mem_arena_reset a h)) []"
proof (cases "blocks a")
  case Nil
  then show ?thesis using inv by (simp add: mem_arena_reset_def arena_inv_def live_ok_def)
next
  case (Cons b rest)
  then have ok: "blocks_ok h (unat (PTR_ALIGN bs)) (b # rest)" using inv by (simp add: arena_inv_def)
  then have "\<forall>c \<in> set rest. mem_start c \<noteq> mem_start b"
    using arena_size_bounds(3) [OF cfg] by (auto simp: blocks_ok_Cons apart_def)
  then have "block_ok (free_blocks rest h) (unat (PTR_ALIGN bs)) b"
    using ok by (intro block_ok_free_blocks) (simp_all add: blocks_ok_Cons)
  then show ?thesis using inv Cons
    by (auto simp: mem_arena_reset_def arena_inv_def live_ok_def blocks_ok_def block_ok_def)
qed

lemma arena_reach_inv:
  assumes "malloc_law malloc" "arena_config bs"
  shows "arena_reach malloc bs a h L \<Longrightarrow> arena_inv bs a h L"
proof (induction rule: arena_reach.induct)
  case ar_init
  show ?case by (simp add: arena_inv_def MEM_ARENA_INIT_def blocks_ok_def live_ok_def)
next
  case (ar_alloc a h L n r a' h')
  then show ?case using inv_alloc [OF assms] by blast
next
  case (ar_rollback a h L)
  show ?case by (rule inv_rollback [OF ar_rollback.IH])
next
  case (ar_reset a h L a' h')
  then show ?case using inv_reset [OF assms(2)] by (metis fst_conv snd_conv)
next
  case (ar_cleanup a h L a' h')
  then show ?case by (auto simp: mem_arena_cleanup_def arena_inv_def blocks_ok_def live_ok_def)
next
  case (ar_other_malloc a h L n p h')
  then have "set h \<subseteq> set h'" by (auto simp: kpl_malloc_def)
  then show ?case using ar_other_malloc.IH by (auto simp: arena_inv_def intro: blocks_ok_mono)
next
  case (ar_other_free a h L p)
  then show ?case by (auto simp: arena_inv_def blocks_ok_def intro!: block_ok_free)
qed

subsection \<open>A concrete \<open>malloc\<close>\<close>

fun heap_top :: "heap \<Rightarrow> nat" where
  "heap_top [] = 4096"
| "heap_top ((q, k) # h) = max (heap_top h) (unat q + unat k)"

definition bump_malloc :: malloc where
  "bump_malloc h n =
     (let p = (heap_top h + 7) div 8 * 8
      in if p + unat n \<le> 2 ^ 63 then Some (of_nat p) else None)"

lemma heap_top_above: "(q, k) \<in> set h \<Longrightarrow> unat q + unat k \<le> heap_top h"
  by (induction h) auto

lemma heap_top_pos: "4096 \<le> heap_top h"
  by (induction h) auto

lemma bump_malloc_law: "malloc_law bump_malloc"
  unfolding malloc_law_def
proof (intro allI impI)
  fix h n p assume "bump_malloc h n = Some p"
  moreover define t where "t = (heap_top h + 7) div 8 * 8"
  ultimately have p: "p = of_nat t" "t + unat n \<le> 2 ^ 63"
    by (simp_all add: bump_malloc_def Let_def split: if_splits)
  then have t: "unat p = t" by (simp add: unat_of_nat take_bit_nat_eq_self)
  have "t = heap_top h + 7 - (heap_top h + 7) mod 8" by (simp add: t_def minus_mod_eq_div_mult)
  moreover have "(heap_top h + 7) mod 8 \<le> 7" by (simp add: less_Suc_eq_le [symmetric])
  ultimately have top: "heap_top h \<le> t" by linarith
  then have "p \<noteq> 0" using heap_top_pos [of h] t by (metis not_numeral_le_zero le_trans unat_0)
  moreover have "unat p mod 8 = 0" by (simp add: t t_def)
  moreover have "\<forall>(q, k) \<in> set h. apart (p, unat n) (q, unat k)"
    using heap_top_above top t by (fastforce simp: apart_def)
  ultimately show "p \<noteq> 0 \<and> unat p mod 8 = 0 \<and> unat p + unat n \<le> 2 ^ 63
     \<and> (\<forall>(q, k) \<in> set h. apart (p, unat n) (q, unat k))"
    using p(2) t by simp
qed

definition arena_one :: mem_arena where
  "arena_one = \<lparr>block_size = 64, blocks = [\<lparr>mem_prev = 4128, mem_ptr = 4144, mem_end = 4192, mem_start = 4128\<rparr>]\<rparr>"

lemma arena_one_alloc: "mem_arena_alloc bump_malloc 12 (MEM_ARENA_INIT 64) [] = Some (Some 4128, arena_one, [(4096, 96)])"
  by (simp add: mem_arena_alloc_def mem_arena_block_create_def mem_arena_block_alloc_def kpl_malloc_def
      bump_malloc_def MEM_ARENA_INIT_def PTR_ALIGN_def BLOCK_HEADER_def arena_one_def)

lemma arena_one_reach: "arena_reach bump_malloc 64 arena_one [(4096, 96)] [(4128, 16)]"
proof -
  have "unat (PTR_ALIGN 12) = 16" by code_simp
  then show ?thesis using ar_alloc [OF ar_init arena_one_alloc] by simp
qed

lemma config_64: "arena_config 64"
  by (simp add: arena_config_def)

subsection \<open>Properties\<close>



text \<open>An allocation is refused exactly when the aligned size exceeds half a block, and otherwise
  fails only if \<^verbatim>\<open>malloc\<close> does: the assertion in it never fails.  A rollback takes it back: the same
  request then yields the same pointer and state.\<close>

theorem arena_alloc_result:
  assumes "malloc_law malloc" "arena_config bs" "arena_reach malloc bs a h L"
  shows "(mem_arena_alloc malloc n a h = Some (None, a, h) \<longleftrightarrow> PTR_ALIGN n > bs div 2)
    \<and> (mem_arena_alloc malloc n a h = None \<longrightarrow> malloc h (BLOCK_HEADER + PTR_ALIGN bs) = None)
    \<and> (\<forall>p a' h'. mem_arena_alloc malloc n a h = Some (Some p, a', h') \<longrightarrow>
         p \<noteq> 0 \<and> mem_arena_alloc malloc n (mem_arena_rollback a') h' = Some (Some p, a', h'))"
  using assms(1,2) arena_reach_inv [OF assms]
proof (cases rule: arena_alloc_cases [where n = n])
  case (allocated b rest h1)
  have b: "block_ok h1 (unat (PTR_ALIGN bs)) b" using allocated(3) by (simp add: blocks_ok_Cons)
  have k: "unat (PTR_ALIGN n) \<le> unat (PTR_ALIGN bs)" using half_size [OF assms(2) allocated(1)] by simp
  have p: "mem_ptr b \<noteq> 0" using block_alloc(2) [OF b k PTR_ALIGN_mod allocated(5)] by simp
  have "mem_arena_block_alloc (PTR_ALIGN n) (b\<lparr>mem_ptr := mem_ptr b, mem_prev := 0\<rparr>)
      = Some (mem_ptr b, b\<lparr>mem_prev := mem_ptr b, mem_ptr := mem_ptr b + PTR_ALIGN n\<rparr>)"
    using block_alloc(1) [OF b k PTR_ALIGN_mod] allocated(5)
    by (simp add: mem_arena_block_alloc_def Let_def split: if_splits)
  moreover have "block_size a = bs" using arena_reach_inv [OF assms] by (simp add: arena_inv_def)
  ultimately show ?thesis using allocated(1,2) p
    by (simp add: mem_arena_alloc_def mem_arena_rollback_def)
qed auto

theorem arena_alloc_result_witness:
  "mem_arena_alloc bump_malloc 33 arena_one [(4096, 96)] = Some (None, arena_one, [(4096, 96)])"
proof -
  have "(64 :: u64) div 2 < PTR_ALIGN 33" by code_simp
  then show ?thesis using arena_alloc_result [OF bump_malloc_law config_64 arena_one_reach, of 33] by simp
qed

text \<open>The alignment of a size above \<^verbatim>\<open>SIZE_MAX - 7\<close> wraps to 0 and passes the size check: the
  caller is given a pointer to no bytes at all, which the next allocation in the block is given too.\<close>

theorem arena_alloc_wraps:
  assumes "malloc_law malloc" "arena_config bs" "arena_reach malloc bs a h L"
    and "2 ^ 64 - 8 < unat n" "mem_arena_alloc malloc n a h = Some (r, a', h')"
  shows "\<exists>p. r = Some p \<and> (\<forall>m p2 a2 h2. mem_arena_alloc malloc m a' h' = Some (Some p2, a2, h2)
    \<and> length (blocks a2) = length (blocks a') \<longrightarrow> p2 = p)"
proof -
  have n: "PTR_ALIGN n = 0" by (rule PTR_ALIGN_wraps [OF assms(4)])
  show ?thesis
    using assms(1,2) arena_reach_inv [OF assms(1-3)]
  proof (cases rule: arena_alloc_cases [where n = n])
    case refused
    then show ?thesis using n by (simp add: word_less_nat_alt)
  next
    case out_of_memory
    then show ?thesis using assms(5) by simp
  next
    case (allocated b rest h1)
    have r: "r = Some (mem_ptr b)" and a': "blocks a' = b\<lparr>mem_prev := mem_ptr b\<rparr> # rest"
      using allocated(2) assms(5) n by auto
    have inv: "arena_inv bs a' h' ((mem_ptr b, unat (PTR_ALIGN n)) # L)"
      using inv_alloc [OF assms(1,2) arena_reach_inv [OF assms(1-3)] assms(5)] r by simp
    have "p2 = mem_ptr b" if "mem_arena_alloc malloc m a' h' = Some (Some p2, a2, h2)"
      "length (blocks a2) = length (blocks a')" for m p2 a2 h2
      using assms(1,2) inv by (cases rule: arena_alloc_cases [where n = m]) (use that a' in auto)
    then show ?thesis using r by blast
  qed
qed

theorem arena_alloc_wraps_witness:
  "\<exists>p a'. mem_arena_alloc bump_malloc 0xFFFFFFFFFFFFFFFF arena_one [(4096, 96)] = Some (Some p, a', [(4096, 96)])
     \<and> fst (the (mem_arena_alloc bump_malloc 8 a' [(4096, 96)])) = Some p"
proof -
  let ?a = "arena_one\<lparr>blocks := [\<lparr>mem_prev = 4144, mem_ptr = 4144, mem_end = 4192, mem_start = 4128\<rparr>]\<rparr>"
  let ?a2 = "arena_one\<lparr>blocks := [\<lparr>mem_prev = 4144, mem_ptr = 4152, mem_end = 4192, mem_start = 4128\<rparr>]\<rparr>"
  have "mem_arena_alloc bump_malloc 0xFFFFFFFFFFFFFFFF arena_one [(4096, 96)] = Some (Some 4144, ?a, [(4096, 96)])"
    by (simp add: mem_arena_alloc_def mem_arena_block_alloc_def PTR_ALIGN_def arena_one_def)
  moreover have b: "mem_arena_alloc bump_malloc 8 ?a [(4096, 96)] = Some (Some 4144, ?a2, [(4096, 96)])"
    by (simp add: mem_arena_alloc_def mem_arena_block_alloc_def PTR_ALIGN_def arena_one_def)
  moreover have "2 ^ 64 - 8 < unat (0xFFFFFFFFFFFFFFFF :: u64)" by simp
  ultimately obtain p where p: "Some 4144 = Some p"
      "\<forall>m p2 a2 h2. mem_arena_alloc bump_malloc m ?a [(4096, 96)] = Some (Some p2, a2, h2)
        \<and> length (blocks a2) = length (blocks ?a) \<longrightarrow> p2 = p"
    using arena_alloc_wraps [OF bump_malloc_law config_64 arena_one_reach] by blast
  then show ?thesis using b \<open>mem_arena_alloc bump_malloc 0xFFFFFFFFFFFFFFFF arena_one _ = _\<close> by auto
qed

end
