(* ===== verification/Service.thy ===== *)
theory Service
  imports Prelude
begin

text \<open>
  The services of \<^verbatim>\<open>src/src/server/iocp_svcmgr.c\<close> as data: which protocols listen on which port.
  A protocol (\<^verbatim>\<open>struct protocol\<close> of \<^verbatim>\<open>protocol.h\<close>) is a reference of type \<^theory_text>\<open>'p\<close>; what the
  service manager reads of it is its \<^verbatim>\<open>sends_first\<close> flag and its \<^verbatim>\<open>identify\<close> function.
\<close>

definition MAX_SERVICE_PROTOCOLS :: nat where
  "MAX_SERVICE_PROTOCOLS = 4"

definition MAX_SERVER_SERVICES :: nat where
  "MAX_SERVER_SERVICES = 4"

text \<open>\<^verbatim>\<open>sv_s\<close> is \<^theory_text>\<open>None\<close> for \<^verbatim>\<open>INVALID_SOCKET\<close>; \<^verbatim>\<open>sv_protocols\<close> holds the first
  \<^verbatim>\<open>num_protocols\<close> entries of the array.\<close>

record 'p service =
  sv_s :: "nat option"
  sv_closing :: bool
  sv_pending_work :: int
  sv_port :: int
  sv_protocols :: "'p list"
  sv_accept_socket :: "nat option"

record 'p protocol_info =
  sends_first :: "'p \<Rightarrow> bool"
  identify :: "'p \<Rightarrow> bytes \<Rightarrow> bool"

fun find_service :: "int \<Rightarrow> 'p service list \<Rightarrow> nat option" where
  "find_service port [] = None"
| "find_service port (svc # svcs) =
     (if sv_port svc = port then Some 0 else map_option Suc (find_service port svcs))"

definition new_service :: "'p \<Rightarrow> int \<Rightarrow> 'p service" where
  "new_service p port = \<lparr>sv_s = None, sv_closing = False, sv_pending_work = 0, sv_port = port,
     sv_protocols = [p], sv_accept_socket = None\<rparr>"

definition svcmgr_add_protocol ::
  "'p protocol_info \<Rightarrow> 'p \<Rightarrow> int \<Rightarrow> 'p service list \<Rightarrow> bool \<times> 'p service list" where
  "svcmgr_add_protocol pr p port services =
     (case find_service port services of
        None \<Rightarrow>
          if length services \<ge> MAX_SERVER_SERVICES then (False, services)
          else (True, services @ [new_service p port])
      | Some i \<Rightarrow>
          let svc = services ! i in
          if sends_first pr p \<or> length (sv_protocols svc) \<ge> MAX_SERVICE_PROTOCOLS
             \<or> sends_first pr (sv_protocols svc ! 0)
          then (False, services)
          else (True, services[i := svc\<lparr>sv_protocols := sv_protocols svc @ [p]\<rparr>]))"

definition service_sends_first :: "'p protocol_info \<Rightarrow> 'p service \<Rightarrow> bool" where
  "service_sends_first pr svc = sends_first pr (sv_protocols svc ! 0)"

definition service_first_protocol :: "'p service \<Rightarrow> 'p" where
  "service_first_protocol svc = sv_protocols svc ! 0"

fun select_protocol :: "'p protocol_info \<Rightarrow> 'p list \<Rightarrow> bytes \<Rightarrow> 'p option" where
  "select_protocol pr [] data = None"
| "select_protocol pr (p # ps) data =
     (if identify pr p data then Some p else select_protocol pr ps data)"

definition service_select_protocol :: "'p protocol_info \<Rightarrow> 'p service \<Rightarrow> bytes \<Rightarrow> 'p option" where
  "service_select_protocol pr svc data = select_protocol pr (sv_protocols svc) data"

subsection \<open>The registry of services\<close>

text \<open>At most four services, on different ports, each with one to four protocols; a protocol that
  sends the first message is alone on its port.\<close>

definition services_ok :: "'p protocol_info \<Rightarrow> 'p service list \<Rightarrow> bool" where
  "services_ok pr services \<longleftrightarrow> length services \<le> MAX_SERVER_SERVICES
     \<and> distinct (map sv_port services)
     \<and> (\<forall>svc \<in> set services. sv_protocols svc \<noteq> []
          \<and> length (sv_protocols svc) \<le> MAX_SERVICE_PROTOCOLS
          \<and> (\<forall>p \<in> set (sv_protocols svc). sends_first pr p \<longrightarrow> sv_protocols svc = [p]))"

text \<open>The protocols registered for a port, in the order they were added.\<close>

fun protocols_on :: "int \<Rightarrow> 'p service list \<Rightarrow> 'p list" where
  "protocols_on port [] = []"
| "protocols_on port (svc # svcs) =
     (if sv_port svc = port then sv_protocols svc else protocols_on port svcs)"

lemma find_service_None: "find_service port svcs = None \<longleftrightarrow> port \<notin> sv_port ` set svcs"
  by (induction svcs) auto

lemma find_service_Some:
  "find_service port svcs = Some i \<Longrightarrow> i < length svcs \<and> sv_port (svcs ! i) = port
     \<and> protocols_on port svcs = sv_protocols (svcs ! i)"
  by (induction svcs arbitrary: i) (auto split: if_splits)

lemma protocols_on_None: "port \<notin> sv_port ` set svcs \<Longrightarrow> protocols_on port svcs = []"
  by (induction svcs) auto

lemma protocols_on_append:
  "protocols_on port (svcs @ [svc]) =
     (if port \<in> sv_port ` set svcs then protocols_on port svcs
      else if sv_port svc = port then sv_protocols svc else [])"
  by (induction svcs) auto

lemma protocols_on_update:
  assumes "distinct (map sv_port svcs)" "i < length svcs"
  shows "protocols_on port (svcs[i := (svcs ! i)\<lparr>sv_protocols := ps\<rparr>]) =
     (if sv_port (svcs ! i) = port then ps else protocols_on port svcs)"
  using assms
proof (induction svcs arbitrary: i)
  case (Cons svc svcs)
  have "sv_port (svcs ! n) \<noteq> sv_port svc" if "n < length svcs" for n
    using Cons.prems(1) nth_mem [OF that] by (metis distinct.simps(2) image_eqI list.set_map list.simps(9))
  then show ?case using Cons by (cases i) auto
qed simp

lemma ports_update: "map sv_port (svcs[i := (svcs ! i)\<lparr>sv_protocols := ps\<rparr>]) = map sv_port svcs"
  by (cases "i < length svcs") (simp_all add: map_update list_update_same_conv list_update_beyond)

lemma select_protocol_find:
  "select_protocol pr ps data = find (\<lambda>p. identify pr p data) ps"
  by (induction ps) auto

lemma services_ok_add:
  assumes "services_ok pr services"
  shows "services_ok pr (snd (svcmgr_add_protocol pr p port services))"
proof (cases "find_service port services")
  case None
  then have "port \<notin> sv_port ` set services" by (simp add: find_service_None)
  moreover have "snd (svcmgr_add_protocol pr p port services) =
      (if length services \<ge> MAX_SERVER_SERVICES then services else services @ [new_service p port])"
    by (simp add: svcmgr_add_protocol_def None)
  ultimately show ?thesis
    using assms by (auto simp: services_ok_def new_service_def MAX_SERVICE_PROTOCOLS_def)
next
  case (Some i)
  let ?svc = "services ! i"
  have i: "i < length services" using find_service_Some [OF Some] by simp
  have svc: "sv_protocols ?svc \<noteq> []" "length (sv_protocols ?svc) \<le> MAX_SERVICE_PROTOCOLS"
    "\<forall>q \<in> set (sv_protocols ?svc). sends_first pr q \<longrightarrow> sv_protocols ?svc = [q]"
    using assms i by (auto simp: services_ok_def)
  show ?thesis
  proof (cases "fst (svcmgr_add_protocol pr p port services)")
    case False
    then have "snd (svcmgr_add_protocol pr p port services) = services"
      using Some by (auto simp: svcmgr_add_protocol_def Let_def)
    then show ?thesis using assms by simp
  next
    case True
    then have new: "snd (svcmgr_add_protocol pr p port services) =
        services[i := ?svc\<lparr>sv_protocols := sv_protocols ?svc @ [p]\<rparr>]"
      and free: "\<not> sends_first pr p" "length (sv_protocols ?svc) < MAX_SERVICE_PROTOCOLS"
        "\<not> sends_first pr (sv_protocols ?svc ! 0)"
      using Some by (auto simp: svcmgr_add_protocol_def Let_def split: if_splits)
    have none: "\<not> sends_first pr q" if "q \<in> set (sv_protocols ?svc)" for q
      using svc(3) free(3) that by fastforce
    have "services_ok pr (services[i := ?svc\<lparr>sv_protocols := sv_protocols ?svc @ [p]\<rparr>])"
      unfolding services_ok_def ports_update
      using assms free none svc
      by (auto simp: services_ok_def dest!: set_update_subset_insert [THEN subsetD])
    then show ?thesis by (simp only: new)
  qed
qed


subsection \<open>Properties\<close>

text \<open>Registering protocols keeps the registry well formed (at most four services on different
  ports, one to four protocols each, a protocol that sends first alone on its port).  A
  registration that succeeds adds the protocol last on its port and changes no other port; one
  that fails changes nothing.\<close>

theorem svcmgr_add_protocol_functional:
  assumes "services_ok pr services"
  shows "services_ok pr (snd (svcmgr_add_protocol pr p port services))
    \<and> (case svcmgr_add_protocol pr p port services of (ok, services') \<Rightarrow>
         (if ok then \<forall>q. protocols_on q services' =
              protocols_on q services @ (if q = port then [p] else [])
          else services' = services \<and>
            (if protocols_on port services = [] then length services \<ge> MAX_SERVER_SERVICES
             else sends_first pr p \<or> length (protocols_on port services) \<ge> MAX_SERVICE_PROTOCOLS
               \<or> sends_first pr (hd (protocols_on port services)))))"
proof (cases "find_service port services")
  case None
  have "port \<notin> sv_port ` set services" using None by (simp add: find_service_None)
  then have none: "port \<notin> sv_port ` set services" "protocols_on port services = []"
    by (simp_all add: protocols_on_None)
  show ?thesis
  proof (cases "length services \<ge> MAX_SERVER_SERVICES")
    case True
    then have "svcmgr_add_protocol pr p port services = (False, services)"
      by (simp add: svcmgr_add_protocol_def None)
    then show ?thesis using True none assms by simp
  next
    case False
    then have "svcmgr_add_protocol pr p port services = (True, services @ [new_service p port])"
      by (simp add: svcmgr_add_protocol_def None)
    moreover have "protocols_on q (services @ [new_service p port]) =
        protocols_on q services @ (if q = port then [p] else [])" for q
      using none protocols_on_None [of q services]
      by (auto simp: protocols_on_append new_service_def)
    ultimately show ?thesis using services_ok_add [OF assms, of p port] by simp
  qed
next
  case (Some i)
  note i = find_service_Some [OF Some]
  then have svc: "sv_protocols (services ! i) \<noteq> []" "distinct (map sv_port services)"
    "length (sv_protocols (services ! i)) \<le> MAX_SERVICE_PROTOCOLS"
    using assms by (auto simp: services_ok_def)
  let ?refuse = "sends_first pr p \<or> length (sv_protocols (services ! i)) \<ge> MAX_SERVICE_PROTOCOLS
    \<or> sends_first pr (sv_protocols (services ! i) ! 0)"
  show ?thesis
  proof (cases ?refuse)
    case True
    then have "svcmgr_add_protocol pr p port services = (False, services)"
      by (simp add: svcmgr_add_protocol_def Some Let_def)
    moreover have "hd (sv_protocols (services ! i)) = sv_protocols (services ! i) ! 0"
      using svc(1) by (rule hd_conv_nth)
    ultimately show ?thesis using True i svc(1) assms by (simp only: prod.case snd_conv if_False)
  next
    case False
    then have "svcmgr_add_protocol pr p port services = (True, services[i :=
        (services ! i)\<lparr>sv_protocols := sv_protocols (services ! i) @ [p]\<rparr>])"
      by (simp add: svcmgr_add_protocol_def Some Let_def)
    then show ?thesis
      using services_ok_add [OF assms, of p port] i protocols_on_update [OF svc(2), of i] by simp
  qed
qed

theorem svcmgr_add_protocol_functional_witness:
  "services_ok \<lparr>sends_first = (\<lambda>p. p = (0 :: nat)), identify = (\<lambda>p d. True)\<rparr>
     (snd (svcmgr_add_protocol \<lparr>sends_first = (\<lambda>p. p = (0 :: nat)), identify = (\<lambda>p d. True)\<rparr>
       2 7171 [new_service 1 7171]))"
  using svcmgr_add_protocol_functional
    [of "\<lparr>sends_first = (\<lambda>p. p = (0 :: nat)), identify = (\<lambda>p d. True)\<rparr>" "[new_service 1 7171]" 2 7171]
  by (simp add: services_ok_def new_service_def MAX_SERVER_SERVICES_def MAX_SERVICE_PROTOCOLS_def)

text \<open>The protocol of a connection's first message is the first one registered on its port
  that identifies the message; there is none only if no protocol of the port does.\<close>

theorem service_select_protocol_first:
  "service_select_protocol pr svc data = find (\<lambda>p. identify pr p data) (sv_protocols svc)
   \<and> (service_select_protocol pr svc data = None \<longleftrightarrow> (\<forall>p \<in> set (sv_protocols svc). \<not> identify pr p data))"
  by (auto simp: service_select_protocol_def select_protocol_find find_None_iff)

theorem service_select_protocol_first_witness:
  "service_select_protocol \<lparr>sends_first = (\<lambda>p. False), identify = (\<lambda>p d. hd d = p)\<rparr>
     ((new_service 1 7171)\<lparr>sv_protocols := [1, 2, 2]\<rparr>) [2, 0] = Some 2"
  using service_select_protocol_first [of "\<lparr>sends_first = (\<lambda>p. False), identify = (\<lambda>p d. hd d = p)\<rparr>"]
  by simp

end
