(* ===== verification/Connmgr.thy ===== *)
theory Connmgr
  imports Byte_Codec Service
begin

text \<open>
  The connection manager \<^verbatim>\<open>src/src/server/iocp_connmgr.c\<close>: 4096 connection slots with a free list
  threaded through their uids, the reads and writes each connection has outstanding at the OS, the
  completion handlers, and the interface the protocols call.

  A connection pointer is its slot number.  The winsock calls and the callbacks of the protocols
  are the parameters of the model (\<^theory_text>\<open>conn_env\<close>): a callback may do anything to the state, and a
  handler passes on what it did.  \<^theory_text>\<open>None\<close> is undefined behaviour or a failed assertion: a null
  pointer, an index outside an array, \<^verbatim>\<open>UNREACHABLE()\<close>.
\<close>

subsection \<open>State\<close>

definition MAX_CONNECTIONS :: nat where
  "MAX_CONNECTIONS = 4096"

definition CONN_INPUT_BUFFER_SIZE :: u16 where
  "CONN_INPUT_BUFFER_SIZE = 1024"

definition CONN_OP_RETRIES_BEFORE_CLOSING :: nat where
  "CONN_OP_RETRIES_BEFORE_CLOSING = 5"

definition CONN_INUSE :: u32 where "CONN_INUSE = 0x01"
definition CONN_CLOSING :: u32 where "CONN_CLOSING = 0x02"
definition CONN_FIRST_MSG :: u32 where "CONN_FIRST_MSG = 0x04"
definition CONN_OUTPUT_IN_PROGRESS :: u32 where "CONN_OUTPUT_IN_PROGRESS = 0x08"

datatype protocol_status = PROTO_OK | PROTO_STOP_READING | PROTO_CLOSE | PROTO_ABORT

text \<open>The completion callback that an outstanding operation was started with.\<close>

datatype conn_op = Read_length | Read_body | Write

text \<open>\<^verbatim>\<open>udata\<close> points to the service of a new connection, later to data of its protocol.\<close>

datatype 'd udata = Udata_service nat | Udata_data 'd

record ('p, 'd) conn_ctl =
  c_uid :: u32
  c_flags :: u32
  c_s :: nat
  c_rdwr_count :: int
  c_pending_work :: int
  c_proto :: "'p option"
  c_udata :: "'d udata"
  c_bodylen :: u32
  c_output_len :: u32
  c_output_data :: bytes

text \<open>\<open>io_pending\<close> are the operations the OS has accepted and not completed yet; \<open>world\<close> is
  everything outside the connection manager.\<close>

record ('p, 'd, 'w) connmgr =
  ctl :: "('p, 'd) conn_ctl list"
  input_buf :: "bytes list"
  freelist :: u16
  next_unused_slot :: u16
  services :: "'p service list"
  io_pending :: "(nat \<times> conn_op) list"
  world :: 'w

text \<open>\<^verbatim>\<open>wsa_recv\<close> and \<^verbatim>\<open>wsa_send\<close> tell whether the operation was started (at once or
  \<^verbatim>\<open>WSA_IO_PENDING\<close>); \<^verbatim>\<open>cancel_io\<close> cancels all operations of a socket or the read only.\<close>

record 'w conn_os =
  wsa_recv :: "nat \<Rightarrow> u32 \<Rightarrow> 'w \<Rightarrow> bool \<times> 'w"
  wsa_send :: "nat \<Rightarrow> u32 \<Rightarrow> bytes \<Rightarrow> 'w \<Rightarrow> bool \<times> 'w"
  cancel_io :: "nat \<Rightarrow> bool \<Rightarrow> 'w \<Rightarrow> 'w"
  closesocket :: "nat \<Rightarrow> 'w \<Rightarrow> 'w"

text \<open>\<^verbatim>\<open>struct protocol\<close>: its data and its callbacks, by protocol reference.\<close>

record ('p, 'd, 'w) conn_env =
  os :: "'w conn_os"
  proto_info :: "'p protocol_info"
  on_assign_protocol :: "'p \<Rightarrow> u32 \<Rightarrow> ('p, 'd, 'w) connmgr \<Rightarrow> bool \<times> ('p, 'd, 'w) connmgr"
  on_close :: "'p \<Rightarrow> u32 \<Rightarrow> ('p, 'd, 'w) connmgr \<Rightarrow> ('p, 'd, 'w) connmgr"
  on_connect :: "'p \<Rightarrow> u32 \<Rightarrow> ('p, 'd, 'w) connmgr \<Rightarrow> protocol_status \<times> ('p, 'd, 'w) connmgr"
  on_write :: "'p \<Rightarrow> u32 \<Rightarrow> ('p, 'd, 'w) connmgr \<Rightarrow> protocol_status \<times> ('p, 'd, 'w) connmgr"
  on_recv_message ::
    "'p \<Rightarrow> u32 \<Rightarrow> bytes \<Rightarrow> ('p, 'd, 'w) connmgr \<Rightarrow> protocol_status \<times> ('p, 'd, 'w) connmgr"
  on_recv_first_message ::
    "'p \<Rightarrow> u32 \<Rightarrow> bytes \<Rightarrow> ('p, 'd, 'w) connmgr \<Rightarrow> protocol_status \<times> ('p, 'd, 'w) connmgr"

definition conn_flag :: "u32 \<Rightarrow> ('p, 'd, 'w) connmgr \<Rightarrow> nat \<Rightarrow> bool" where
  "conn_flag fl m i \<longleftrightarrow> c_flags (ctl m ! i) AND fl \<noteq> 0"

definition upd_conn ::
  "nat \<Rightarrow> (('p, 'd) conn_ctl \<Rightarrow> ('p, 'd) conn_ctl) \<Rightarrow> ('p, 'd, 'w) connmgr \<Rightarrow> ('p, 'd, 'w) connmgr" where
  "upd_conn i f m = m\<lparr>ctl := (ctl m)[i := f (ctl m ! i)]\<rparr>"

subsection \<open>Slots\<close>

text \<open>\<^verbatim>\<open>uid & 0xFFFF\<close>\<close>

definition conn_slot :: "u32 \<Rightarrow> nat" where
  "conn_slot uid = unat (uid AND 0xFFFF)"

definition internal_alloc :: "('p, 'd, 'w) connmgr \<Rightarrow> (nat \<times> ('p, 'd, 'w) connmgr) option" where
  "internal_alloc m =
     (let take_slot = (\<lambda>slot m. upd_conn slot (\<lambda>c. c\<lparr>
            c_uid := ((c_uid c + 0x00010000) AND 0xFFFF0000) OR of_nat slot,
            c_flags := CONN_INUSE\<rparr>) m)
      in if freelist m \<noteq> 0xFFFF then
           let slot = unat (freelist m)
           in Some (slot, take_slot slot (m\<lparr>freelist := ucast (c_uid (ctl m ! slot) AND 0xFFFF)\<rparr>))
         else if unat (next_unused_slot m) \<ge> MAX_CONNECTIONS then None
         else
           let slot = unat (next_unused_slot m)
           in Some (slot, take_slot slot (m\<lparr>next_unused_slot := next_unused_slot m + 1\<rparr>)))"

definition internal_free :: "nat \<Rightarrow> ('p, 'd, 'w) connmgr \<Rightarrow> ('p, 'd, 'w) connmgr" where
  "internal_free i m =
     (let slot = (ucast (c_uid (ctl m ! i) AND 0xFFFF) :: u16)
      in upd_conn i (\<lambda>c. c\<lparr>
             c_uid := (c_uid c AND 0xFFFF0000) OR ucast (freelist m),
             c_flags := c_flags c XOR CONN_INUSE\<rparr>)
           (m\<lparr>freelist := slot\<rparr>))"

text \<open>\<^verbatim>\<open>CONN_CTL(uid)\<close> with the test \<^verbatim>\<open>c->uid == uid\<close>; the outer \<^theory_text>\<open>None\<close> is an index
  outside \<^verbatim>\<open>ctl\<close>, the inner one a uid that is not the slot's.\<close>

definition conn_lookup :: "u32 \<Rightarrow> ('p, 'd, 'w) connmgr \<Rightarrow> nat option option" where
  "conn_lookup uid m =
     (if conn_slot uid < length (ctl m)
      then Some (if c_uid (ctl m ! conn_slot uid) = uid then Some (conn_slot uid) else None)
      else None)"

definition conn_input_buf :: "nat \<Rightarrow> ('p, 'd, 'w) connmgr \<Rightarrow> bytes option" where
  "conn_input_buf i m =
     (let k = conn_slot (c_uid (ctl m ! i))
      in if k < length (input_buf m) then Some (input_buf m ! k) else None)"

subsection \<open>Closing\<close>

definition internal_dispatch_on_close ::
  "('p, 'd, 'w) conn_env \<Rightarrow> nat \<Rightarrow> ('p, 'd, 'w) connmgr \<Rightarrow> ('p, 'd, 'w) connmgr" where
  "internal_dispatch_on_close env i m =
     (case c_proto (ctl m ! i) of
        None \<Rightarrow> m
      | Some p \<Rightarrow> upd_conn i (\<lambda>c. c\<lparr>c_proto := None\<rparr>) (on_close env p (c_uid (ctl m ! i)) m))"

definition internal_close_operation ::
  "('p, 'd, 'w) conn_env \<Rightarrow> nat \<Rightarrow> ('p, 'd, 'w) connmgr \<Rightarrow> ('p, 'd, 'w) connmgr" where
  "internal_close_operation env i m =
     (let m1 = internal_dispatch_on_close env i m;
          m2 = m1\<lparr>world := closesocket (os env) (c_s (ctl m1 ! i)) (world m1)\<rparr>
      in internal_free i m2)"

definition internal_start_close_operation ::
  "('p, 'd, 'w) conn_env \<Rightarrow> nat \<Rightarrow> bool \<Rightarrow> ('p, 'd, 'w) connmgr \<Rightarrow> ('p, 'd, 'w) connmgr" where
  "internal_start_close_operation env i abort m =
     (if c_pending_work (ctl m ! i) = 0 then internal_close_operation env i m
      else
        let m1 = upd_conn i (\<lambda>c. c\<lparr>c_flags := c_flags c OR CONN_CLOSING\<rparr>) m
        in m1\<lparr>world := cancel_io (os env) (c_s (ctl m1 ! i)) abort (world m1)\<rparr>)"

definition internal_close ::
  "('p, 'd, 'w) conn_env \<Rightarrow> nat \<Rightarrow> ('p, 'd, 'w) connmgr \<Rightarrow> ('p, 'd, 'w) connmgr" where
  "internal_close env i m = internal_start_close_operation env i False m"

definition internal_abort ::
  "('p, 'd, 'w) conn_env \<Rightarrow> nat \<Rightarrow> ('p, 'd, 'w) connmgr \<Rightarrow> ('p, 'd, 'w) connmgr" where
  "internal_abort env i m = internal_start_close_operation env i True m"

subsection \<open>Starting operations\<close>

definition internal_start_async_read ::
  "('p, 'd, 'w) conn_env \<Rightarrow> nat \<Rightarrow> u32 \<Rightarrow> conn_op \<Rightarrow> ('p, 'd, 'w) connmgr
    \<Rightarrow> bool \<times> ('p, 'd, 'w) connmgr" where
  "internal_start_async_read env i readlen callback m =
     (let (ok, w) = wsa_recv (os env) (c_s (ctl m ! i)) readlen (world m);
          m1 = m\<lparr>world := w\<rparr>
      in if ok
         then (True, upd_conn i (\<lambda>c. c\<lparr>c_pending_work := c_pending_work c + 1\<rparr>)
                (m1\<lparr>io_pending := (i, callback) # io_pending m1\<rparr>))
         else (False, m1))"

fun async_read_tries ::
  "('p, 'd, 'w) conn_env \<Rightarrow> nat \<Rightarrow> nat \<Rightarrow> u32 \<Rightarrow> conn_op \<Rightarrow> ('p, 'd, 'w) connmgr
    \<Rightarrow> ('p, 'd, 'w) connmgr" where
  "async_read_tries env 0 i readlen callback m = internal_abort env i m"
| "async_read_tries env (Suc n) i readlen callback m =
     (let (ok, m1) = internal_start_async_read env i readlen callback m
      in if ok then m1 else async_read_tries env n i readlen callback m1)"

definition internal_async_read ::
  "('p, 'd, 'w) conn_env \<Rightarrow> nat \<Rightarrow> u32 \<Rightarrow> conn_op \<Rightarrow> ('p, 'd, 'w) connmgr
    \<Rightarrow> ('p, 'd, 'w) connmgr" where
  "internal_async_read env = async_read_tries env CONN_OP_RETRIES_BEFORE_CLOSING"

definition internal_start_async_write ::
  "'w conn_os \<Rightarrow> nat \<Rightarrow> ('p, 'd, 'w) connmgr \<Rightarrow> bool \<times> ('p, 'd, 'w) connmgr" where
  "internal_start_async_write sys i m =
     (let c = ctl m ! i;
          (ok, w) = wsa_send sys (c_s c) (c_output_len c) (c_output_data c) (world m);
          m1 = m\<lparr>world := w\<rparr>
      in if ok
         then (True, upd_conn i (\<lambda>c. c\<lparr>c_flags := c_flags c OR CONN_OUTPUT_IN_PROGRESS,
                  c_pending_work := c_pending_work c + 1\<rparr>)
                (m1\<lparr>io_pending := (i, Write) # io_pending m1\<rparr>))
         else (False, m1))"

fun async_write_tries ::
  "('p, 'd, 'w) conn_env \<Rightarrow> nat \<Rightarrow> nat \<Rightarrow> ('p, 'd, 'w) connmgr \<Rightarrow> ('p, 'd, 'w) connmgr" where
  "async_write_tries env 0 i m = internal_abort env i m"
| "async_write_tries env (Suc n) i m =
     (let (ok, m1) = internal_start_async_write (os env) i m
      in if ok then m1 else async_write_tries env n i m1)"

definition internal_async_write ::
  "('p, 'd, 'w) conn_env \<Rightarrow> nat \<Rightarrow> ('p, 'd, 'w) connmgr \<Rightarrow> ('p, 'd, 'w) connmgr" where
  "internal_async_write env = async_write_tries env CONN_OP_RETRIES_BEFORE_CLOSING"

subsection \<open>Dispatch to the protocols\<close>

definition internal_dispatch_on_connect ::
  "('p, 'd, 'w) conn_env \<Rightarrow> nat \<Rightarrow> ('p, 'd, 'w) connmgr
    \<Rightarrow> (protocol_status \<times> ('p, 'd, 'w) connmgr) option" where
  "internal_dispatch_on_connect env i m =
     (case c_udata (ctl m ! i) of
        Udata_data d \<Rightarrow> None
      | Udata_service k \<Rightarrow>
          if k < length (services m) \<and> sv_protocols (services m ! k) \<noteq> [] then
            let svc = services m ! k
            in if \<not> service_sends_first (proto_info env) svc then Some (PROTO_OK, m)
               else
                 let p = service_first_protocol svc;
                     m1 = upd_conn i (\<lambda>c. c\<lparr>c_proto := Some p\<rparr>) m;
                     (ok, m2) = on_assign_protocol env p (c_uid (ctl m1 ! i)) m1
                 in if \<not> ok then Some (PROTO_ABORT, m2)
                    else map_option (\<lambda>p. on_connect env p (c_uid (ctl m2 ! i)) m2) (c_proto (ctl m2 ! i))
          else None)"

definition internal_dispatch_on_write ::
  "('p, 'd, 'w) conn_env \<Rightarrow> nat \<Rightarrow> ('p, 'd, 'w) connmgr
    \<Rightarrow> (protocol_status \<times> ('p, 'd, 'w) connmgr) option" where
  "internal_dispatch_on_write env i m =
     (case c_proto (ctl m ! i) of
        None \<Rightarrow> None
      | Some p \<Rightarrow> Some (on_write env p (c_uid (ctl m ! i)) m))"

definition dispatch_message ::
  "('p, 'd, 'w) conn_env \<Rightarrow> nat \<Rightarrow> bytes \<Rightarrow> ('p, 'd, 'w) connmgr
    \<Rightarrow> (protocol_status \<times> ('p, 'd, 'w) connmgr) option" where
  "dispatch_message env i data m =
     (case c_proto (ctl m ! i) of
        None \<Rightarrow> None
      | Some p \<Rightarrow> Some (
          if \<not> conn_flag CONN_FIRST_MSG m i then
            let m1 = upd_conn i (\<lambda>c. c\<lparr>c_flags := c_flags c OR CONN_FIRST_MSG\<rparr>) m
            in on_recv_first_message env p (c_uid (ctl m1 ! i)) data m1
          else on_recv_message env p (c_uid (ctl m ! i)) data m))"

definition internal_dispatch_on_recv_message ::
  "('p, 'd, 'w) conn_env \<Rightarrow> nat \<Rightarrow> bytes \<Rightarrow> ('p, 'd, 'w) connmgr
    \<Rightarrow> (protocol_status \<times> ('p, 'd, 'w) connmgr) option" where
  "internal_dispatch_on_recv_message env i data m =
     (case c_proto (ctl m ! i) of
        Some p \<Rightarrow> dispatch_message env i data m
      | None \<Rightarrow>
          (case c_udata (ctl m ! i) of
             Udata_data d \<Rightarrow> None
           | Udata_service k \<Rightarrow>
               if k < length (services m) then
                 (case service_select_protocol (proto_info env) (services m ! k) data of
                    None \<Rightarrow> Some (PROTO_ABORT, m)
                  | Some p \<Rightarrow>
                      let m1 = upd_conn i (\<lambda>c. c\<lparr>c_proto := Some p\<rparr>) m;
                          (ok, m2) = on_assign_protocol env p (c_uid (ctl m1 ! i)) m1
                      in if \<not> ok then Some (PROTO_ABORT, m2)
                         else dispatch_message env i data m2)
               else None))"

subsection \<open>Completion handlers\<close>

text \<open>The first lines of every handler; \<open>rdwr\<close> is the increment of \<^verbatim>\<open>rdwr_count\<close>.\<close>

definition work_done :: "nat \<Rightarrow> int \<Rightarrow> ('p, 'd, 'w) connmgr \<Rightarrow> ('p, 'd, 'w) connmgr" where
  "work_done i rdwr = upd_conn i (\<lambda>c. c\<lparr>c_pending_work := c_pending_work c - 1,
     c_rdwr_count := c_rdwr_count c + rdwr\<rparr>)"

definition handle_closing ::
  "('p, 'd, 'w) conn_env \<Rightarrow> nat \<Rightarrow> ('p, 'd, 'w) connmgr \<Rightarrow> ('p, 'd, 'w) connmgr" where
  "handle_closing env i m =
     (if c_pending_work (ctl m ! i) = 0 then internal_close_operation env i m else m)"

definition internal_on_read_length ::
  "('p, 'd, 'w) conn_env \<Rightarrow> nat \<Rightarrow> bool \<Rightarrow> nat \<Rightarrow> ('p, 'd, 'w) connmgr
    \<Rightarrow> ('p, 'd, 'w) connmgr option" where
  "internal_on_read_length env i err transferred m =
     (let m1 = work_done i 0 m
      in if conn_flag CONN_CLOSING m1 i then Some (handle_closing env i m1)
         else if err then Some (internal_async_read env i 2 Read_length m1)
         else if transferred = 0 then Some (internal_abort env i m1)
         else do {
           buf \<leftarrow> conn_input_buf i m1;
           bodylen \<leftarrow> decode_u16_le buf;
           if bodylen > CONN_INPUT_BUFFER_SIZE \<or> bodylen = 0 then Some (internal_abort env i m1)
           else Some (internal_async_read env i (ucast bodylen) Read_body
                  (upd_conn i (\<lambda>c. c\<lparr>c_bodylen := ucast bodylen\<rparr>) m1))
         })"

definition internal_on_read_body ::
  "('p, 'd, 'w) conn_env \<Rightarrow> nat \<Rightarrow> bool \<Rightarrow> nat \<Rightarrow> ('p, 'd, 'w) connmgr
    \<Rightarrow> ('p, 'd, 'w) connmgr option" where
  "internal_on_read_body env i err transferred m =
     (let m1 = work_done i 1 m;
          bodylen = c_bodylen (ctl m1 ! i)
      in if conn_flag CONN_CLOSING m1 i then Some (handle_closing env i m1)
         else if err then Some (internal_async_read env i bodylen Read_body m1)
         else if transferred = 0 then Some (internal_abort env i m1)
         else do {
           buf \<leftarrow> conn_input_buf i m1;
           data \<leftarrow> mem_read 0 (unat bodylen) buf;
           (st, m2) \<leftarrow> internal_dispatch_on_recv_message env i data m1;
           Some (case st of
               PROTO_OK \<Rightarrow> internal_async_read env i 2 Read_length m2
             | PROTO_STOP_READING \<Rightarrow> m2
             | PROTO_CLOSE \<Rightarrow> internal_close env i m2
             | PROTO_ABORT \<Rightarrow> internal_abort env i m2)
         })"

definition internal_on_write ::
  "('p, 'd, 'w) conn_env \<Rightarrow> nat \<Rightarrow> bool \<Rightarrow> nat \<Rightarrow> ('p, 'd, 'w) connmgr
    \<Rightarrow> ('p, 'd, 'w) connmgr option" where
  "internal_on_write env i err transferred m =
     (let m1 = work_done i 1 m
      in if conn_flag CONN_CLOSING m1 i then Some (handle_closing env i m1)
         else if err then Some (internal_async_write env i m1)
         else if transferred = 0 then Some (internal_abort env i m1)
         else do {
           (st, m2) \<leftarrow> internal_dispatch_on_write env i
             (upd_conn i (\<lambda>c. c\<lparr>c_flags := c_flags c AND NOT CONN_OUTPUT_IN_PROGRESS\<rparr>) m1);
           (case st of
               PROTO_OK \<Rightarrow> Some m2
             | PROTO_STOP_READING \<Rightarrow> None
             | PROTO_CLOSE \<Rightarrow> Some (internal_close env i m2)
             | PROTO_ABORT \<Rightarrow> Some (internal_abort env i m2))
         })"

subsection \<open>The interface\<close>

definition connmgr_shutdown ::
  "('p, 'd, 'w) conn_env \<Rightarrow> ('p, 'd, 'w) connmgr \<Rightarrow> ('p, 'd, 'w) connmgr" where
  "connmgr_shutdown env m =
     fold (\<lambda>i m. if conn_flag CONN_INUSE m i then internal_close_operation env i m else m)
       [0..<unat (next_unused_slot m)] m"

definition timeout_slot ::
  "('p, 'd, 'w) conn_env \<Rightarrow> nat \<Rightarrow> ('p, 'd, 'w) connmgr \<Rightarrow> ('p, 'd, 'w) connmgr" where
  "timeout_slot env i m =
     (if conn_flag CONN_INUSE m i then
        if c_rdwr_count (ctl m ! i) = 0 then internal_abort env i m
        else upd_conn i (\<lambda>c. c\<lparr>c_rdwr_count := 0\<rparr>) m
      else m)"

definition connmgr_timeout_check ::
  "('p, 'd, 'w) conn_env \<Rightarrow> ('p, 'd, 'w) connmgr \<Rightarrow> ('p, 'd, 'w) connmgr" where
  "connmgr_timeout_check env m = fold (timeout_slot env) [0..<unat (next_unused_slot m)] m"

definition conn_setup :: "nat \<Rightarrow> nat \<Rightarrow> ('p, 'd) conn_ctl \<Rightarrow> ('p, 'd) conn_ctl" where
  "conn_setup s svc c = c\<lparr>c_s := s, c_rdwr_count := 1, c_pending_work := 0, c_proto := None,
     c_udata := Udata_service svc\<rparr>"

definition connmgr_start_connection ::
  "('p, 'd, 'w) conn_env \<Rightarrow> nat \<Rightarrow> nat \<Rightarrow> ('p, 'd, 'w) connmgr \<Rightarrow> ('p, 'd, 'w) connmgr option" where
  "connmgr_start_connection env s svc m = do {
     (i, m1) \<leftarrow> internal_alloc m;
     (st, m2) \<leftarrow> internal_dispatch_on_connect env i (upd_conn i (conn_setup s svc) m1);
     (case st of
         PROTO_OK \<Rightarrow>
           (let (ok, m3) = internal_start_async_read env i 2 Read_length m2
            in Some (if ok then m3 else internal_abort env i m3))
       | PROTO_STOP_READING \<Rightarrow> None
       | PROTO_CLOSE \<Rightarrow> Some (internal_close env i m2)
       | PROTO_ABORT \<Rightarrow> Some (internal_abort env i m2))
   }"

definition connection_close ::
  "('p, 'd, 'w) conn_env \<Rightarrow> u32 \<Rightarrow> ('p, 'd, 'w) connmgr \<Rightarrow> ('p, 'd, 'w) connmgr option" where
  "connection_close env uid m =
     map_option (\<lambda>r. case r of None \<Rightarrow> m | Some i \<Rightarrow> internal_close env i m) (conn_lookup uid m)"

definition connection_abort ::
  "('p, 'd, 'w) conn_env \<Rightarrow> u32 \<Rightarrow> ('p, 'd, 'w) connmgr \<Rightarrow> ('p, 'd, 'w) connmgr option" where
  "connection_abort env uid m =
     map_option (\<lambda>r. case r of None \<Rightarrow> m | Some i \<Rightarrow> internal_abort env i m) (conn_lookup uid m)"

text \<open>\<^verbatim>\<open>connection_userdata\<close> returns the slot whose \<^verbatim>\<open>udata\<close> the caller may access.\<close>

definition connection_userdata :: "u32 \<Rightarrow> ('p, 'd, 'w) connmgr \<Rightarrow> nat option option" where
  "connection_userdata uid m = conn_lookup uid m"

definition connection_send ::
  "'w conn_os \<Rightarrow> u32 \<Rightarrow> bytes \<Rightarrow> u32 \<Rightarrow> ('p, 'd, 'w) connmgr
    \<Rightarrow> (bool \<times> ('p, 'd, 'w) connmgr) option" where
  "connection_send sys uid data datalen m =
     map_option (\<lambda>r. case r of
         None \<Rightarrow> (False, m)
       | Some i \<Rightarrow>
           if conn_flag CONN_OUTPUT_IN_PROGRESS m i then (False, m)
           else internal_start_async_write sys i
             (upd_conn i (\<lambda>c. c\<lparr>c_output_data := data, c_output_len := datalen\<rparr>) m))
       (conn_lookup uid m)"

subsection \<open>Runs\<close>

definition cm_init :: "'p service list \<Rightarrow> 'w \<Rightarrow> 'd \<Rightarrow> ('p, 'd, 'w) connmgr" where
  "cm_init svcs w null = \<lparr>
     ctl = replicate MAX_CONNECTIONS \<lparr>c_uid = 0, c_flags = 0, c_s = 0, c_rdwr_count = 0,
       c_pending_work = 0, c_proto = None, c_udata = Udata_data null, c_bodylen = 0,
       c_output_len = 0, c_output_data = []\<rparr>,
     input_buf = replicate MAX_CONNECTIONS (replicate (unat CONN_INPUT_BUFFER_SIZE) 0),
     freelist = 0xFFFF, next_unused_slot = 0, services = svcs, io_pending = [], world = w\<rparr>"

definition is_read :: "conn_op \<Rightarrow> bool" where
  "is_read op \<longleftrightarrow> op \<noteq> Write"

text \<open>An operation completes: the OS has put \<open>data\<close> into the input buffer if it was a read, and
  \<^verbatim>\<open>server_internal_work\<close> calls \<^verbatim>\<open>ov->complete(ov->data, error, transferred)\<close>.\<close>

definition io_complete ::
  "('p, 'd, 'w) conn_env \<Rightarrow> nat \<Rightarrow> conn_op \<Rightarrow> bool \<Rightarrow> nat \<Rightarrow> bytes \<Rightarrow> ('p, 'd, 'w) connmgr
    \<Rightarrow> ('p, 'd, 'w) connmgr option" where
  "io_complete env i op err transferred data m =
     (let m0 = m\<lparr>io_pending := remove1 (i, op) (io_pending m)\<rparr>;
          m1 = (if is_read op
                then m0\<lparr>input_buf := (input_buf m)[i := data @ drop (length data) (input_buf m ! i)]\<rparr>
                else m0)
      in case op of
           Read_length \<Rightarrow> internal_on_read_length env i err transferred m1
         | Read_body \<Rightarrow> internal_on_read_body env i err transferred m1
         | Write \<Rightarrow> internal_on_write env i err transferred m1)"

text \<open>What can happen to the connection manager.  Users of the interface name connections by uids
  other than 0, and send only on connections that have a protocol.\<close>

inductive cm_step ::
  "('p, 'd, 'w) conn_env \<Rightarrow> ('p, 'd, 'w) connmgr \<Rightarrow> ('p, 'd, 'w) connmgr option \<Rightarrow> bool" for env where
  cm_complete: "(i, op) \<in> set (io_pending m) \<Longrightarrow> length data \<le> unat CONN_INPUT_BUFFER_SIZE \<Longrightarrow>
    cm_step env m (io_complete env i op err transferred data m)"
| cm_start: "svc < length (services m) \<Longrightarrow> cm_step env m (connmgr_start_connection env s svc m)"
| cm_timeout: "cm_step env m (Some (connmgr_timeout_check env m))"
| cm_close: "uid \<noteq> 0 \<Longrightarrow> conn_slot uid < MAX_CONNECTIONS \<Longrightarrow> cm_step env m (connection_close env uid m)"
| cm_abort: "uid \<noteq> 0 \<Longrightarrow> conn_slot uid < MAX_CONNECTIONS \<Longrightarrow> cm_step env m (connection_abort env uid m)"
| cm_send: "uid \<noteq> 0 \<Longrightarrow> conn_slot uid < MAX_CONNECTIONS \<Longrightarrow>
    (\<And>i. conn_lookup uid m = Some (Some i) \<Longrightarrow> c_proto (ctl m ! i) \<noteq> None) \<Longrightarrow>
    cm_step env m (map_option snd (connection_send (os env) uid data datalen m))"
| cm_world: "cm_step env m (Some (m\<lparr>world := w\<rparr>))"

inductive cm_reach ::
  "('p, 'd, 'w) conn_env \<Rightarrow> 'p service list \<Rightarrow> ('p, 'd, 'w) connmgr \<Rightarrow> bool" for env svcs where
  cm_initial: "cm_reach env svcs (cm_init svcs w null)"
| cm_next: "cm_reach env svcs m \<Longrightarrow> cm_step env m (Some m') \<Longrightarrow> cm_reach env svcs m'"

subsection \<open>The invariant\<close>

text \<open>The free list: slot numbers chained through the low halves of the uids.\<close>

fun free_chain :: "('p, 'd) conn_ctl list \<Rightarrow> u16 \<Rightarrow> nat list \<Rightarrow> bool" where
  "free_chain cs f [] \<longleftrightarrow> f = 0xFFFF"
| "free_chain cs f (x # xs) \<longleftrightarrow> unat f = x \<and> x < MAX_CONNECTIONS
     \<and> free_chain cs (ucast (c_uid (cs ! x) AND 0xFFFF)) xs"

abbreviation inuse :: "('p, 'd, 'w) connmgr \<Rightarrow> nat \<Rightarrow> bool" where
  "inuse \<equiv> conn_flag CONN_INUSE"

definition ops_on :: "nat \<Rightarrow> ('p, 'd, 'w) connmgr \<Rightarrow> conn_op list" where
  "ops_on i m = map snd (filter (\<lambda>x. fst x = i) (io_pending m))"

definition reads_on :: "nat \<Rightarrow> ('p, 'd, 'w) connmgr \<Rightarrow> conn_op list" where
  "reads_on i m = filter is_read (ops_on i m)"

definition writes_on :: "nat \<Rightarrow> ('p, 'd, 'w) connmgr \<Rightarrow> nat" where
  "writes_on i m = length (filter (\<lambda>op. \<not> is_read op) (ops_on i m))"

text \<open>Sizes, the service table and the free list, which holds exactly the slots that have been used
  and are free.\<close>

definition cm_base :: "('p, 'd, 'w) conn_env \<Rightarrow> ('p, 'd, 'w) connmgr \<Rightarrow> bool" where
  "cm_base env m \<longleftrightarrow> length (ctl m) = MAX_CONNECTIONS \<and> length (input_buf m) = MAX_CONNECTIONS
     \<and> (\<forall>b \<in> set (input_buf m). length b = unat CONN_INPUT_BUFFER_SIZE)
     \<and> unat (next_unused_slot m) \<le> MAX_CONNECTIONS
     \<and> services_ok (proto_info env) (services m)
     \<and> (\<exists>fl. free_chain (ctl m) (freelist m) fl \<and> distinct fl
          \<and> set fl = {i. i < unat (next_unused_slot m) \<and> \<not> inuse m i})
     \<and> (\<forall>i < MAX_CONNECTIONS. inuse m i \<longrightarrow> i < unat (next_unused_slot m))
     \<and> (\<forall>i < MAX_CONNECTIONS. unat (next_unused_slot m) \<le> i \<longrightarrow> c_uid (ctl m ! i) = 0)
     \<and> (\<forall>x \<in> set (io_pending m). fst x < MAX_CONNECTIONS)"

text \<open>One slot.  A connection in use knows its slot and counts its outstanding operations, at most
  one read and one write; a closing one is waiting for some, unless it is in the exempt set \<open>X\<close>.
  A free slot has no outstanding operation.\<close>

definition conn_ok :: "nat set \<Rightarrow> ('p, 'd, 'w) connmgr \<Rightarrow> nat \<Rightarrow> bool" where
  "conn_ok X m i \<longleftrightarrow>
     (if inuse m i then
        conn_slot (c_uid (ctl m ! i)) = i
        \<and> c_pending_work (ctl m ! i) = int (length (ops_on i m))
        \<and> length (reads_on i m) \<le> 1 \<and> writes_on i m \<le> 1
        \<and> (conn_flag CONN_CLOSING m i \<longrightarrow> i \<notin> X \<longrightarrow> ops_on i m \<noteq> [])
        \<and> (0 < writes_on i m \<longrightarrow> conn_flag CONN_OUTPUT_IN_PROGRESS m i \<and> c_proto (ctl m ! i) \<noteq> None)
        \<and> (Read_body \<in> set (ops_on i m) \<longrightarrow>
             0 < unat (c_bodylen (ctl m ! i)) \<and> unat (c_bodylen (ctl m ! i)) \<le> unat CONN_INPUT_BUFFER_SIZE)
        \<and> (c_proto (ctl m ! i) = None \<longrightarrow> (\<exists>k < length (services m). c_udata (ctl m ! i) = Udata_service k))
      else ops_on i m = [])"

definition cm_inv :: "('p, 'd, 'w) conn_env \<Rightarrow> nat set \<Rightarrow> ('p, 'd, 'w) connmgr \<Rightarrow> bool" where
  "cm_inv env X m \<longleftrightarrow> cm_base env m \<and> (\<forall>i < MAX_CONNECTIONS. conn_ok X m i)"

end
