(* ===== verification/Connmgr_Inv.thy ===== *)
theory Connmgr_Inv
  imports Connmgr
begin

text \<open>
  The invariant of the connection manager is kept by every operation, whatever the OS answers and
  whatever the protocols do within their contract; the properties of the connection manager.
\<close>

subsection \<open>Facts on flags, slots and single updates\<close>

lemmas flag_defs = CONN_INUSE_def CONN_CLOSING_def CONN_FIRST_MSG_def CONN_OUTPUT_IN_PROGRESS_def

lemma and_bit_test: "(x :: u32) AND push_bit n 1 \<noteq> 0 \<longleftrightarrow> n < 32 \<and> bit x n"
proof -
  have "x AND push_bit n 1 = (if bit x n then push_bit n 1 else 0)"
    by (rule bit_word_eqI) (auto simp: bit_simps bit_1_iff)
  then show ?thesis by (auto simp: push_bit_eq_mult word_bit_high)
qed

lemma flag_bits:
  "x AND CONN_INUSE \<noteq> 0 \<longleftrightarrow> bit x 0" "x AND CONN_CLOSING \<noteq> 0 \<longleftrightarrow> bit x 1"
  "x AND CONN_FIRST_MSG \<noteq> 0 \<longleftrightarrow> bit x 2" "x AND CONN_OUTPUT_IN_PROGRESS \<noteq> 0 \<longleftrightarrow> bit x 3"
  using and_bit_test [of x 0] and_bit_test [of x 1] and_bit_test [of x 2] and_bit_test [of x 3]
  by (auto simp: flag_defs)

lemma flag_bit_or:
  "bit (x OR CONN_CLOSING) n \<longleftrightarrow> bit x n \<or> n = 1"
  "bit (x OR CONN_FIRST_MSG) n \<longleftrightarrow> bit x n \<or> n = 2"
  "bit (x OR CONN_OUTPUT_IN_PROGRESS) n \<longleftrightarrow> bit x n \<or> n = 3"
  "bit (x XOR CONN_INUSE) n \<longleftrightarrow> bit x n \<noteq> (n = 0)"
  "bit (x AND NOT CONN_OUTPUT_IN_PROGRESS) n \<longleftrightarrow> bit x n \<and> n \<noteq> 3"
proof -
  have bits: "bit CONN_INUSE n \<longleftrightarrow> n = 0" "bit CONN_CLOSING n \<longleftrightarrow> n = 1"
    "bit CONN_FIRST_MSG n \<longleftrightarrow> n = 2" "bit CONN_OUTPUT_IN_PROGRESS n \<longleftrightarrow> n = 3"
    using bit_push_bit_iff [of 1 "1 :: u32" n] bit_push_bit_iff [of 2 "1 :: u32" n]
      bit_push_bit_iff [of 3 "1 :: u32" n] by (auto simp: flag_defs bit_1_iff bit_simps)
  then show "bit (x OR CONN_CLOSING) n \<longleftrightarrow> bit x n \<or> n = 1"
    "bit (x OR CONN_FIRST_MSG) n \<longleftrightarrow> bit x n \<or> n = 2"
    "bit (x OR CONN_OUTPUT_IN_PROGRESS) n \<longleftrightarrow> bit x n \<or> n = 3"
    "bit (x XOR CONN_INUSE) n \<longleftrightarrow> bit x n \<noteq> (n = 0)"
    "bit (x AND NOT CONN_OUTPUT_IN_PROGRESS) n \<longleftrightarrow> bit x n \<and> n \<noteq> 3"
    by (auto simp: bits bit_or_iff bit_xor_iff bit_and_iff bit_not_iff dest: bit_imp_le_length)
qed

lemma output_flag_nonzero [simp]: "CONN_OUTPUT_IN_PROGRESS \<noteq> 0" "CONN_INUSE \<noteq> 0"
  by (simp_all add: flag_defs)

lemma low_mask: "(0xFFFF :: u32) = mask 16" "(0xFFFF0000 :: u32) = NOT (mask 16)"
  by (simp_all add: mask_eq_exp_minus_1)

lemma conn_slot_mod: "conn_slot uid = unat uid mod 2 ^ 16"
  unfolding conn_slot_def low_mask by (rule unat_and_mask)

lemma bit_small_u32: "unat (x :: u32) < 2 ^ 16 \<Longrightarrow> 16 \<le> n \<Longrightarrow> \<not> bit x n"
proof -
  assume "unat x < 2 ^ 16" "16 \<le> n"
  then have "x AND mask 16 = x"
    using unat_and_mask [of x 16] by (metis mod_less word_unat_eq_iff)
  then show ?thesis using \<open>16 \<le> n\<close> by (metis bit_and_iff bit_mask_iff linorder_not_less)
qed

text \<open>A uid put together from a counter half and a slot half.\<close>

lemma uid_low:
  assumes "unat (s :: u32) < 2 ^ 16"
  shows "((w AND 0xFFFF0000) OR s) AND 0xFFFF = s"
  unfolding low_mask using bit_small_u32 [OF assms]
  by (intro bit_word_eqI) (auto simp: bit_simps not_le [symmetric])

lemma uid_high:
  assumes "unat (s :: u32) < 2 ^ 16"
  shows "((w AND 0xFFFF0000) OR s) AND 0xFFFF0000 = w AND 0xFFFF0000"
  unfolding low_mask using bit_small_u32 [OF assms]
  by (intro bit_word_eqI) (auto simp: bit_simps)

lemma uid_split: "uid = (uid AND 0xFFFF0000) OR (uid AND (0xFFFF :: u32))"
  unfolding low_mask by (intro bit_word_eqI) (auto simp: bit_simps)

lemma conn_slot_uid: "unat (s :: u32) < 2 ^ 16 \<Longrightarrow> conn_slot ((w AND 0xFFFF0000) OR s) = unat s"
  by (simp add: conn_slot_def uid_low)

lemma unat_slot: "i < 2 ^ 16 \<Longrightarrow> unat (of_nat i :: u32) = i"
  by (simp add: unat_of_nat)

lemma unat_ucast_u16: "unat (ucast (f :: u16) :: u32) = unat f"
  using unsigned_less [of f, where 'a = nat]
  by (simp add: unsigned_ucast_eq take_bit_nat_eq_self)

lemma u16_u32_u16: "ucast (ucast (f :: u16) :: u32) = f"
  using unsigned_less [of f, where 'a = nat]
  by (simp add: word_unat_eq_iff unsigned_ucast_eq [where 'b = 32] unat_ucast_u16 take_bit_nat_eq_self)

lemma link_uid: "ucast (((w AND 0xFFFF0000) OR ucast (f :: u16)) AND (0xFFFF :: u32)) = f"
proof -
  have "unat (ucast f :: u32) < 2 ^ 16"
    unfolding unat_ucast_u16 using unsigned_less [of f, where 'a = nat] by simp
  then have "((w AND 0xFFFF0000) OR ucast f) AND (0xFFFF :: u32) = ucast f" by (rule uid_low)
  then show ?thesis by (simp add: u16_u32_u16)
qed

lemma upd_conn_simps [simp]:
  "length (ctl (upd_conn i f m)) = length (ctl m)" "input_buf (upd_conn i f m) = input_buf m"
  "freelist (upd_conn i f m) = freelist m" "next_unused_slot (upd_conn i f m) = next_unused_slot m"
  "services (upd_conn i f m) = services m" "io_pending (upd_conn i f m) = io_pending m"
  "world (upd_conn i f m) = world m"
  by (simp_all add: upd_conn_def)

lemma nth_upd_conn:
  "i < length (ctl m) \<Longrightarrow> ctl (upd_conn i f m) ! j = (if j = i then f (ctl m ! i) else ctl m ! j)"
  by (simp add: upd_conn_def)

lemma ops_on_upd [simp]: "ops_on j (upd_conn i f m) = ops_on j m"
  "reads_on j (upd_conn i f m) = reads_on j m" "writes_on j (upd_conn i f m) = writes_on j m"
  by (simp_all add: ops_on_def reads_on_def writes_on_def)

lemma ops_on_world [simp]: "ops_on j (m\<lparr>world := w\<rparr>) = ops_on j m"
  "reads_on j (m\<lparr>world := w\<rparr>) = reads_on j m" "writes_on j (m\<lparr>world := w\<rparr>) = writes_on j m"
  by (simp_all add: ops_on_def reads_on_def writes_on_def)

lemma ops_on_add [simp]:
  "ops_on j (m\<lparr>io_pending := (i, op) # io_pending m\<rparr>) = (if i = j then op # ops_on j m else ops_on j m)"
  by (simp add: ops_on_def)

lemma ops_on_remove:
  "ops_on j (m\<lparr>io_pending := remove1 (i, op) (io_pending m)\<rparr>) =
     (if i = j then remove1 op (ops_on j m) else ops_on j m)"
proof -
  have "map snd (filter (\<lambda>x. fst x = j) (remove1 (i, op) xs)) =
      (if i = j then remove1 op (map snd (filter (\<lambda>x. fst x = j) xs))
       else map snd (filter (\<lambda>x. fst x = j) xs))" for xs
    by (induction xs) auto
  then show ?thesis by (simp add: ops_on_def)
qed

lemma conn_flag_world [simp]: "conn_flag fl (m\<lparr>world := w\<rparr>) = conn_flag fl m"
  "conn_flag fl (m\<lparr>io_pending := p\<rparr>) = conn_flag fl m" "conn_flag fl (m\<lparr>freelist := f\<rparr>) = conn_flag fl m"
  "conn_flag fl (m\<lparr>next_unused_slot := n\<rparr>) = conn_flag fl m"
  by (simp_all add: conn_flag_def fun_eq_iff)

lemma free_chain_cong:
  "(\<And>x. x \<in> set xs \<Longrightarrow> c_uid (cs ! x) AND 0xFFFF = c_uid (cs' ! x) AND 0xFFFF) \<Longrightarrow>
     free_chain cs f xs = free_chain cs' f xs"
  by (induction xs arbitrary: f) auto

text \<open>Operations that keep the slots in use and the links of the others keep \<^theory_text>\<open>cm_base\<close>.\<close>

lemma cm_base_same:
  assumes base: "cm_base env m"
    and same: "length (ctl m') = length (ctl m)" "input_buf m' = input_buf m" "freelist m' = freelist m"
      "next_unused_slot m' = next_unused_slot m" "services m' = services m"
    and slots: "\<And>j. j < MAX_CONNECTIONS \<Longrightarrow> inuse m' j = inuse m j"
      "\<And>j. j < MAX_CONNECTIONS \<Longrightarrow> \<not> inuse m j \<Longrightarrow> c_uid (ctl m' ! j) = c_uid (ctl m ! j)"
    and io: "\<forall>x \<in> set (io_pending m'). fst x < MAX_CONNECTIONS"
  shows "cm_base env m'"
proof -
  obtain fl where fl: "free_chain (ctl m) (freelist m) fl" "distinct fl"
      "set fl = {i. i < unat (next_unused_slot m) \<and> \<not> inuse m i}"
    and bound: "unat (next_unused_slot m) \<le> MAX_CONNECTIONS"
    using base unfolding cm_base_def by blast
  have small: "x < MAX_CONNECTIONS \<and> \<not> inuse m x" if "x \<in> set fl" for x using that fl(3) bound by auto
  have "free_chain (ctl m') (freelist m') fl"
    using fl(1) small slots(2) same(3) by (simp add: free_chain_cong [of fl "ctl m'" "ctl m"])
  moreover have "set fl = {i. i < unat (next_unused_slot m') \<and> \<not> inuse m' i}"
    using fl(3) slots(1) same(4) bound by auto
  moreover have "c_uid (ctl m' ! j) = 0" if "j < MAX_CONNECTIONS" "unat (next_unused_slot m) \<le> j" for j
  proof -
    have "c_uid (ctl m ! j) = 0" "\<not> inuse m j"
      using base that unfolding cm_base_def by (blast, force)
    then show ?thesis using slots(2) [OF that(1)] by simp
  qed
  ultimately show ?thesis
    using base same slots(1) io fl(2) unfolding cm_base_def by auto
qed

lemma conn_ok_same:
  assumes "ctl m' ! j = ctl m ! j" "ops_on j m' = ops_on j m" "services m' = services m"
  shows "conn_ok X m' j = conn_ok X m j"
  using assms unfolding conn_ok_def conn_flag_def reads_on_def writes_on_def by simp

lemma cm_inv_simps:
  assumes "cm_inv env X m"
  shows "length (ctl m) = MAX_CONNECTIONS" "i < MAX_CONNECTIONS \<Longrightarrow> conn_ok X m i" "cm_base env m"
  using assms by (auto simp: cm_inv_def cm_base_def)

lemma conn_ok_mono: "conn_ok X m i \<Longrightarrow> (i \<in> X \<Longrightarrow> i \<in> Y) \<Longrightarrow> conn_ok Y m i"
  unfolding conn_ok_def by (auto split: if_splits)

lemma cm_inv_mono: "cm_inv env X m \<Longrightarrow> X \<subseteq> Y \<Longrightarrow> cm_inv env Y m"
  unfolding cm_inv_def by (blast intro: conn_ok_mono)

subsection \<open>Single steps keep the invariant\<close>

lemma cm_inv_update:
  assumes inv: "cm_inv env (insert i X) m" and i: "i < MAX_CONNECTIONS" "inuse m i"
    and ctl: "ctl m' = (ctl m)[i := c']" "c_flags c' AND CONN_INUSE \<noteq> 0"
    and same: "input_buf m' = input_buf m" "freelist m' = freelist m"
      "next_unused_slot m' = next_unused_slot m" "services m' = services m"
    and ops: "\<And>j. j \<noteq> i \<Longrightarrow> ops_on j m' = ops_on j m"
      "\<forall>x \<in> set (io_pending m'). fst x < MAX_CONNECTIONS"
    and ok: "conn_ok X m' i"
  shows "cm_inv env X m'"
proof -
  note base = cm_inv_simps(3) [OF inv]
  have len: "length (ctl m) = MAX_CONNECTIONS" using inv by (rule cm_inv_simps)
  have nth: "ctl m' ! j = (if j = i then c' else ctl m ! j)" for j using ctl(1) i len by simp
  have inu: "inuse m' j = inuse m j" for j
    using ctl i len by (cases "j = i") (auto simp: conn_flag_def)
  have "cm_base env m'"
    by (rule cm_base_same [OF base]) (use ctl same inu i ops nth in auto)
  moreover have "conn_ok X m' j" if "j < MAX_CONNECTIONS" for j
  proof (cases "j = i")
    case False
    then have "conn_ok (insert i X) m' j"
      using conn_ok_same [of m' j m "insert i X"] ctl same ops cm_inv_simps(2) [OF inv that] by simp
    then show ?thesis using False conn_ok_mono by blast
  qed (simp add: ok)
  ultimately show ?thesis by (simp add: cm_inv_def)
qed

lemma cm_inv_world [simp]: "cm_inv env X (m\<lparr>world := w\<rparr>) = cm_inv env X m"
  by (simp add: cm_inv_def cm_base_def conn_ok_def conn_flag_def)

lemma start_read_inv:
  assumes inv: "cm_inv env X m" and i: "i < MAX_CONNECTIONS" "inuse m i"
    and op: "reads_on i m = []" "is_read op" "op = Read_body \<Longrightarrow>
      0 < unat (c_bodylen (ctl m ! i)) \<and> unat (c_bodylen (ctl m ! i)) \<le> unat CONN_INPUT_BUFFER_SIZE"
    and start: "internal_start_async_read env i len op m = (ok, m')"
  shows "cm_inv env X m' \<and> (if ok then cm_inv env (X - {i}) m' \<and> inuse m' i else \<exists>w. m' = m\<lparr>world := w\<rparr>)
    \<and> services m' = services m"
proof -
  have len: "i < length (ctl m)" using i cm_inv_simps(1) [OF inv] by simp
  obtain w where w: "m' = m\<lparr>world := w\<rparr> \<and> \<not> ok \<or> ok \<and>
      m' = upd_conn i (\<lambda>c. c\<lparr>c_pending_work := c_pending_work c + 1\<rparr>)
        (m\<lparr>world := w, io_pending := (i, op) # io_pending m\<rparr>)"
    using start by (auto simp: internal_start_async_read_def Let_def split: prod.splits if_splits)
  show ?thesis
  proof (cases ok)
    case False
    then have m': "m' = m\<lparr>world := w\<rparr>" using w by simp
    then show ?thesis using False inv by auto
  next
    case True
    then have m': "m' = upd_conn i (\<lambda>c. c\<lparr>c_pending_work := c_pending_work c + 1\<rparr>)
        (m\<lparr>world := w, io_pending := (i, op) # io_pending m\<rparr>)" using w by simp
    have ok: "conn_ok X m i" using cm_inv_simps(2) [OF inv i(1)] .
    have ops: "ops_on j m' = (if j = i then op # ops_on i m else ops_on j m)" for j
      by (auto simp: m' ops_on_def)
    have ctl: "ctl m' ! i = (ctl m ! i)\<lparr>c_pending_work := c_pending_work (ctl m ! i) + 1\<rparr>"
      using len by (simp add: m' nth_upd_conn)
    have "conn_ok (X - {i}) m' i"
      using ok op i unfolding conn_ok_def conn_flag_def reads_on_def writes_on_def ops ctl
      by (auto simp: m' is_read_def)
    then have "cm_inv env (X - {i}) m'"
      using cm_inv_update [of env i "X - {i}" m m' "ctl m' ! i"] i inv len ops ctl
        cm_inv_simps(3) [OF inv]
      by (auto simp: m' upd_conn_def cm_base_def conn_flag_def intro: cm_inv_mono [OF inv])
    then show ?thesis using True i len
      by (auto simp: m' conn_flag_def nth_upd_conn intro: cm_inv_mono)
  qed
qed

lemma start_write_inv:
  assumes inv: "cm_inv env X m" and i: "i < MAX_CONNECTIONS" "inuse m i"
    and op: "writes_on i m = 0" "c_proto (ctl m ! i) \<noteq> None"
    and start: "internal_start_async_write sys i m = (ok, m')"
  shows "cm_inv env X m' \<and> (if ok then cm_inv env (X - {i}) m' \<and> inuse m' i else \<exists>w. m' = m\<lparr>world := w\<rparr>)
    \<and> reads_on i m' = reads_on i m \<and> c_proto (ctl m' ! i) = c_proto (ctl m ! i)
    \<and> c_uid (ctl m' ! i) = c_uid (ctl m ! i) \<and> services m' = services m"
proof -
  have len: "i < length (ctl m)" using i cm_inv_simps(1) [OF inv] by simp
  obtain w where w: "m' = m\<lparr>world := w\<rparr> \<and> \<not> ok \<or> ok \<and>
      m' = upd_conn i (\<lambda>c. c\<lparr>c_flags := c_flags c OR CONN_OUTPUT_IN_PROGRESS,
          c_pending_work := c_pending_work c + 1\<rparr>)
        (m\<lparr>world := w, io_pending := (i, Write) # io_pending m\<rparr>)"
    using start by (auto simp: internal_start_async_write_def Let_def split: prod.splits if_splits)
  show ?thesis
  proof (cases ok)
    case False
    then have m': "m' = m\<lparr>world := w\<rparr>" using w by simp
    then show ?thesis using False inv by auto
  next
    case True
    then have m': "m' = upd_conn i (\<lambda>c. c\<lparr>c_flags := c_flags c OR CONN_OUTPUT_IN_PROGRESS,
          c_pending_work := c_pending_work c + 1\<rparr>)
        (m\<lparr>world := w, io_pending := (i, Write) # io_pending m\<rparr>)" using w by simp
    have ok: "conn_ok X m i" using cm_inv_simps(2) [OF inv i(1)] .
    have ops: "ops_on j m' = (if j = i then Write # ops_on i m else ops_on j m)" for j
      by (auto simp: m' ops_on_def)
    have ctl: "ctl m' ! i = (ctl m ! i)\<lparr>c_flags := c_flags (ctl m ! i) OR CONN_OUTPUT_IN_PROGRESS,
        c_pending_work := c_pending_work (ctl m ! i) + 1\<rparr>"
      using len by (simp add: m' nth_upd_conn)
    have "conn_ok (X - {i}) m' i"
      using ok op i unfolding conn_ok_def conn_flag_def reads_on_def writes_on_def ops ctl
      by (auto simp: m' is_read_def flag_bits bit_simps flag_bit_or)
    then have "cm_inv env (X - {i}) m'"
      using cm_inv_update [of env i "X - {i}" m m' "ctl m' ! i"] i inv len ops ctl
        cm_inv_simps(3) [OF inv]
      by (auto simp: m' upd_conn_def cm_base_def conn_flag_def flag_bits flag_bit_or
          intro: cm_inv_mono [OF inv])
    moreover have "reads_on i m' = reads_on i m" by (simp add: reads_on_def ops is_read_def)
    ultimately show ?thesis using True i len ctl
      by (auto simp: m' conn_flag_def flag_bits flag_bit_or intro: cm_inv_mono)
  qed
qed

lemma free_inv:
  assumes base: "cm_base env m" and i: "i < MAX_CONNECTIONS" "inuse m i"
    and slot: "conn_slot (c_uid (ctl m ! i)) = i" and ops: "ops_on i m = []"
    and others: "\<And>j. j < MAX_CONNECTIONS \<Longrightarrow> j \<noteq> i \<Longrightarrow> conn_ok X m j"
  shows "cm_inv env (X - {i}) (internal_free i m) \<and> \<not> inuse (internal_free i m) i"
proof -
  let ?m = "internal_free i m"
  obtain fl where fl: "free_chain (ctl m) (freelist m) fl" "distinct fl"
      "set fl = {i. i < unat (next_unused_slot m) \<and> \<not> inuse m i}"
    and bound: "unat (next_unused_slot m) \<le> MAX_CONNECTIONS" and len: "length (ctl m) = MAX_CONNECTIONS"
    and used: "\<And>j. j < MAX_CONNECTIONS \<Longrightarrow> inuse m j \<Longrightarrow> j < unat (next_unused_slot m)"
    using base unfolding cm_base_def by blast
  have low: "unat (c_uid (ctl m ! i) AND 0xFFFF) = i" using slot by (simp add: conn_slot_def)
  have fresh: "freelist ?m = ucast (c_uid (ctl m ! i) AND 0xFFFF)"
    by (simp add: internal_free_def Let_def)
  have i16: "i < 2 ^ 16" using i(1) by (simp add: MAX_CONNECTIONS_def)
  have fi: "unat (freelist ?m) = i"
    unfolding fresh using low i16 by (simp add: unsigned_ucast_eq take_bit_nat_eq_self)
  have ctl: "ctl ?m = (ctl m)[i := (ctl m ! i)\<lparr>
      c_uid := (c_uid (ctl m ! i) AND 0xFFFF0000) OR ucast (freelist m),
      c_flags := c_flags (ctl m ! i) XOR CONN_INUSE\<rparr>]"
    by (simp add: internal_free_def upd_conn_def Let_def)
  have inu: "inuse ?m j \<longleftrightarrow> inuse m j \<and> j \<noteq> i" for j
    using i len by (cases "j = i") (auto simp: conn_flag_def ctl flag_bits flag_bit_or)
  have nin: "i \<notin> set fl" using fl(3) i(2) by simp
  have "c_uid (ctl ?m ! x) = c_uid (ctl m ! x)" if "x \<in> set fl" for x
    using that nin by (cases "x = i") (auto simp: ctl)
  then have "free_chain (ctl ?m) (freelist m) fl"
    using fl(1) by (subst free_chain_cong [of fl "ctl ?m" "ctl m"]) simp_all
  then have chain: "free_chain (ctl ?m) (freelist ?m) (i # fl)"
    using fi i len by (simp add: ctl link_uid)
  have sel: "length (ctl ?m) = length (ctl m)" "input_buf ?m = input_buf m"
    "next_unused_slot ?m = next_unused_slot m" "services ?m = services m" "io_pending ?m = io_pending m"
    by (simp_all add: internal_free_def Let_def)
  have slots: "set (i # fl) = {j. j < unat (next_unused_slot m) \<and> \<not> inuse ?m j}"
    using fl(3) used [OF i] by (auto simp: inu)
  have "cm_base env ?m"
    unfolding cm_base_def sel
  proof (intro conjI)
    show "\<exists>fl. free_chain (ctl ?m) (freelist ?m) fl \<and> distinct fl
        \<and> set fl = {j. j < unat (next_unused_slot m) \<and> \<not> inuse ?m j}"
      using chain slots fl(2) nin by (intro exI [of _ "i # fl"]) simp
    show "\<forall>j < MAX_CONNECTIONS. inuse ?m j \<longrightarrow> j < unat (next_unused_slot m)"
      using used inu by blast
    show "\<forall>j < MAX_CONNECTIONS. unat (next_unused_slot m) \<le> j \<longrightarrow> c_uid (ctl ?m ! j) = 0"
      using base used [OF i] by (auto simp: ctl cm_base_def nth_list_update)
  qed (use base in \<open>simp_all add: cm_base_def\<close>)
  moreover have "conn_ok (X - {i}) ?m j" if j: "j < MAX_CONNECTIONS" for j
  proof (cases "j = i")
    case True
    have "ops_on i ?m = []" using ops by (simp add: internal_free_def Let_def ops_on_def)
    then show ?thesis using inu [of i] by (simp add: conn_ok_def True)
  next
    case False
    then have "ctl ?m ! j = ctl m ! j" by (simp add: ctl)
    moreover have "ops_on j ?m = ops_on j m" unfolding ops_on_def sel ..
    ultimately have "conn_ok X ?m j = conn_ok X m j" using sel(4) by (rule conn_ok_same)
    then have "conn_ok X ?m j" using others [OF j False] by (simp only:)
    then show ?thesis by (rule conn_ok_mono) (use False in simp)
  qed
  ultimately show ?thesis by (simp add: cm_inv_def inu)
qed

subsection \<open>The contract of the protocols\<close>

text \<open>What a callback must leave as it is of the connection it is called for: the connection stays in
  use, keeps its uid and protocol, and no read is started on it.\<close>

definition conn_frame :: "nat \<Rightarrow> ('p, 'd, 'w) connmgr \<Rightarrow> ('p, 'd, 'w) connmgr \<Rightarrow> bool" where
  "conn_frame i m m' \<longleftrightarrow> inuse m' i \<and> c_uid (ctl m' ! i) = c_uid (ctl m ! i)
     \<and> c_proto (ctl m' ! i) = c_proto (ctl m ! i) \<and> reads_on i m' = reads_on i m
     \<and> services m' = services m"

text \<open>A callback may be called for connection \<open>i\<close> of protocol \<open>p\<close>.\<close>

definition callable ::
  "('p, 'd, 'w) conn_env \<Rightarrow> nat set \<Rightarrow> ('p, 'd, 'w) connmgr \<Rightarrow> nat \<Rightarrow> 'p \<Rightarrow> u32 \<Rightarrow> bool" where
  "callable env X m i p uid \<longleftrightarrow> cm_inv env X m \<and> i < MAX_CONNECTIONS \<and> inuse m i
     \<and> c_proto (ctl m ! i) = Some p \<and> c_uid (ctl m ! i) = uid"

locale conn_protocols =
  fixes env :: "('p, 'd, 'w) conn_env"
  assumes assign: "callable env X m i p uid \<Longrightarrow> on_assign_protocol env p uid m = (ok, m') \<Longrightarrow>
      cm_inv env X m' \<and> conn_frame i m m'"
    and close: "callable env X m i p uid \<Longrightarrow>
      cm_inv env X (on_close env p uid m) \<and> conn_frame i m (on_close env p uid m)
      \<and> ops_on i (on_close env p uid m) = ops_on i m"
    and connect: "callable env X m i p uid \<Longrightarrow> on_connect env p uid m = (st, m') \<Longrightarrow>
      cm_inv env X m' \<and> conn_frame i m m' \<and> st \<noteq> PROTO_STOP_READING"
    and written: "callable env X m i p uid \<Longrightarrow> on_write env p uid m = (st, m') \<Longrightarrow>
      cm_inv env X m' \<and> conn_frame i m m' \<and> st \<noteq> PROTO_STOP_READING"
    and recv: "callable env X m i p uid \<Longrightarrow> on_recv_message env p uid data m = (st, m') \<Longrightarrow>
      cm_inv env X m' \<and> conn_frame i m m'"
    and recv_first: "callable env X m i p uid \<Longrightarrow> on_recv_first_message env p uid data m = (st, m') \<Longrightarrow>
      cm_inv env X m' \<and> conn_frame i m m'"
begin

lemma close_operation_inv:
  assumes inv: "cm_inv env X m" and i: "i < MAX_CONNECTIONS" "inuse m i" "ops_on i m = []"
  shows "cm_inv env (X - {i}) (internal_close_operation env i m)
    \<and> \<not> inuse (internal_close_operation env i m) i
    \<and> services (internal_close_operation env i m) = services m"
proof -
  define m1 where "m1 = internal_dispatch_on_close env i m"
  have m1: "cm_base env m1 \<and> inuse m1 i \<and> ops_on i m1 = [] \<and> services m1 = services m
      \<and> c_uid (ctl m1 ! i) = c_uid (ctl m ! i) \<and> (\<forall>j < MAX_CONNECTIONS. j \<noteq> i \<longrightarrow> conn_ok X m1 j)"
  proof (cases "c_proto (ctl m ! i)")
    case None
    then show ?thesis using inv i by (simp add: m1_def internal_dispatch_on_close_def cm_inv_def)
  next
    case (Some p)
    define m2 where "m2 = on_close env p (c_uid (ctl m ! i)) m"
    have "callable env X m i p (c_uid (ctl m ! i))" using inv i Some by (simp add: callable_def)
    note m2 = close [OF this, folded m2_def, unfolded conn_frame_def]
    have m1': "m1 = upd_conn i (\<lambda>c. c\<lparr>c_proto := None\<rparr>) m2"
      by (simp add: m1_def internal_dispatch_on_close_def Some m2_def)
    have len: "i < length (ctl m2)" using cm_inv_simps(1) [of env X m2] m2 i by simp
    have inu: "inuse m1 j = inuse m2 j" for j
      using len by (auto simp: m1' conn_flag_def nth_upd_conn)
    have "cm_base env m1"
      by (rule cm_base_same [of env m2])
         (use m2 len inu in \<open>auto simp: m1' nth_upd_conn cm_inv_def cm_base_def\<close>)
    moreover have "conn_ok X m1 j" if "j < MAX_CONNECTIONS" "j \<noteq> i" for j
      using m2 that len cm_inv_simps(2) [of env X m2 j]
      by (subst conn_ok_same [of _ _ m2]) (auto simp: m1' nth_upd_conn)
    ultimately show ?thesis using m2 i len inu by (simp add: m1' nth_upd_conn)
  qed
  define m3 where "m3 = m1\<lparr>world := closesocket (os env) (c_s (ctl m1 ! i)) (world m1)\<rparr>"
  have "conn_slot (c_uid (ctl m ! i)) = i"
    using cm_inv_simps(2) [OF inv i(1)] i(2) by (simp add: conn_ok_def)
  then have "cm_inv env (X - {i}) (internal_free i m3) \<and> \<not> inuse (internal_free i m3) i"
    using m1 i by (intro free_inv)
      (auto simp: m3_def cm_base_def conn_flag_def conn_ok_same [of m3 _ m1, unfolded m3_def])
  moreover have "internal_close_operation env i m = internal_free i m3"
    by (simp add: internal_close_operation_def m1_def m3_def Let_def)
  ultimately show ?thesis using m1 by (simp add: internal_free_def Let_def m3_def)
qed

end

context conn_protocols
begin

text \<open>Closing a connection, at once or when its last operation completes, lifts its exemption.\<close>

lemma start_close_inv:
  assumes inv: "cm_inv env (insert i X) m" and i: "i < MAX_CONNECTIONS" "inuse m i"
  shows "cm_inv env X (internal_start_close_operation env i abort m)
    \<and> services (internal_start_close_operation env i abort m) = services m"
proof (cases "c_pending_work (ctl m ! i) = 0")
  case True
  then have "ops_on i m = []" using cm_inv_simps(2) [OF inv i(1)] i(2) by (simp add: conn_ok_def)
  then show ?thesis
    using close_operation_inv [OF inv i] True cm_inv_mono [of env "insert i X - {i}" _ X]
    by (auto simp: internal_start_close_operation_def)
next
  case False
  let ?c = "(ctl m ! i)\<lparr>c_flags := c_flags (ctl m ! i) OR CONN_CLOSING\<rparr>"
  let ?m = "upd_conn i (\<lambda>c. c\<lparr>c_flags := c_flags c OR CONN_CLOSING\<rparr>) m"
  have len: "i < length (ctl m)" using i cm_inv_simps(1) [OF inv] by simp
  have ok: "conn_ok (insert i X) m i" using cm_inv_simps(2) [OF inv i(1)] .
  have "conn_ok X ?m i"
    using ok False i(2) len
    by (auto simp: conn_ok_def nth_upd_conn conn_flag_def flag_bits flag_bit_or)
  then have "cm_inv env X ?m"
    using cm_inv_update [of env i X m ?m ?c] inv i len cm_inv_simps(3) [OF inv]
    by (auto simp: upd_conn_def conn_flag_def flag_bits flag_bit_or cm_base_def ops_on_def)
  then show ?thesis using False by (simp add: internal_start_close_operation_def Let_def)
qed

lemma abort_inv:
  assumes "cm_inv env (insert i X) m" "i < MAX_CONNECTIONS" "inuse m i"
  shows "cm_inv env X (internal_abort env i m)" "cm_inv env X (internal_close env i m)"
    "services (internal_abort env i m) = services m" "services (internal_close env i m) = services m"
  using start_close_inv [OF assms] by (auto simp: internal_abort_def internal_close_def)

lemma async_read_inv:
  assumes "cm_inv env (insert i X) m" "i < MAX_CONNECTIONS" "inuse m i" "reads_on i m = []" "is_read op"
    "op = Read_body \<Longrightarrow>
      0 < unat (c_bodylen (ctl m ! i)) \<and> unat (c_bodylen (ctl m ! i)) \<le> unat CONN_INPUT_BUFFER_SIZE"
  shows "cm_inv env X (async_read_tries env n i len op m)
    \<and> services (async_read_tries env n i len op m) = services m"
  using assms
proof (induction n arbitrary: m)
  case 0
  then show ?case by (simp add: abort_inv)
next
  case (Suc n)
  obtain ok m1 where st: "internal_start_async_read env i len op m = (ok, m1)"
    by (cases "internal_start_async_read env i len op m") auto
  note r = start_read_inv [OF Suc.prems(1-6) st]
  show ?case
  proof (cases ok)
    case True
    then have "cm_inv env (insert i X - {i}) m1" using r by simp
    then have "cm_inv env X m1" by (rule cm_inv_mono) blast
    then show ?thesis using True r by (simp add: st)
  next
    case False
    then obtain w where m1: "m1 = m\<lparr>world := w\<rparr>" using r by auto
    have "cm_inv env X (async_read_tries env n i len op m1)
        \<and> services (async_read_tries env n i len op m1) = services m1"
      using Suc.prems by (intro Suc.IH) (auto simp: m1)
    then show ?thesis using False by (simp add: st m1)
  qed
qed

lemma async_write_inv:
  assumes "cm_inv env (insert i X) m" "i < MAX_CONNECTIONS" "inuse m i" "writes_on i m = 0"
    "c_proto (ctl m ! i) \<noteq> None"
  shows "cm_inv env X (async_write_tries env n i m)
    \<and> services (async_write_tries env n i m) = services m"
  using assms
proof (induction n arbitrary: m)
  case 0
  then show ?case by (simp add: abort_inv)
next
  case (Suc n)
  obtain ok m1 where st: "internal_start_async_write (os env) i m = (ok, m1)"
    by (cases "internal_start_async_write (os env) i m") auto
  note r = start_write_inv [OF Suc.prems(1-5) st]
  show ?case
  proof (cases ok)
    case True
    then have "cm_inv env (insert i X - {i}) m1" using r by simp
    then have "cm_inv env X m1" by (rule cm_inv_mono) blast
    then show ?thesis using True r by (simp add: st)
  next
    case False
    then obtain w where m1: "m1 = m\<lparr>world := w\<rparr>" using r by auto
    have "cm_inv env X (async_write_tries env n i m1)
        \<and> services (async_write_tries env n i m1) = services m1"
      using Suc.prems by (intro Suc.IH) (auto simp: m1)
    then show ?thesis using False by (simp add: st m1)
  qed
qed

end

subsection \<open>Allocation and lookup of slots\<close>

lemma free_chain_next:
  "free_chain cs f fl \<Longrightarrow> distinct fl \<Longrightarrow> i \<in> set fl \<Longrightarrow> conn_slot (c_uid (cs ! i)) \<noteq> i"
proof (induction fl arbitrary: f)
  case (Cons x fl)
  have link: "unat (ucast (c_uid (cs ! x) AND 0xFFFF) :: u16) = conn_slot (c_uid (cs ! x))"
    by (simp add: conn_slot_mod low_mask unat_and_mask unsigned_ucast_eq take_bit_eq_mod)
  show ?case
  proof (cases "i = x")
    case True
    show ?thesis
    proof (cases fl)
      case Nil
      then have "(ucast (c_uid (cs ! x) AND 0xFFFF) :: u16) = 0xFFFF" using Cons.prems(1) by simp
      then have "conn_slot (c_uid (cs ! x)) = 65535" using link by simp
      then show ?thesis using Cons.prems(1) True by (auto simp: MAX_CONNECTIONS_def)
    next
      case (Cons y ys)
      then have "unat (ucast (c_uid (cs ! x) AND 0xFFFF) :: u16) = y" using \<open>free_chain cs f (x # fl)\<close> by simp
      then show ?thesis using link Cons \<open>distinct (x # fl)\<close> True by auto
    qed
  next
    case False
    then show ?thesis using Cons.IH Cons.prems by auto
  qed
qed simp

lemma lookup_inuse:
  assumes base: "cm_base env m" and "uid \<noteq> 0" "conn_slot uid < MAX_CONNECTIONS"
    and look: "conn_lookup uid m = Some (Some i)"
  shows "i < MAX_CONNECTIONS \<and> inuse m i \<and> c_uid (ctl m ! i) = uid \<and> i = conn_slot uid"
proof -
  have i: "i = conn_slot uid" "c_uid (ctl m ! i) = uid"
    using look by (auto simp: conn_lookup_def split: if_splits)
  have "inuse m i"
  proof (rule ccontr)
    assume free: "\<not> inuse m i"
    obtain fl where fl: "free_chain (ctl m) (freelist m) fl" "distinct fl"
        "set fl = {i. i < unat (next_unused_slot m) \<and> \<not> inuse m i}"
      using base unfolding cm_base_def by blast
    show False
    proof (cases "i < unat (next_unused_slot m)")
      case True
      then have "i \<in> set fl" using free fl(3) by simp
      then show False using free_chain_next [OF fl(1,2), of i] i by simp
    next
      case False
      then have "c_uid (ctl m ! i) = 0" using base assms(3) i(1) unfolding cm_base_def by auto
      then show False using i(2) assms(2) by simp
    qed
  qed
  then show ?thesis using i assms(3) by simp
qed

lemma lookup_defined: "cm_base env m \<Longrightarrow> conn_slot uid < MAX_CONNECTIONS \<Longrightarrow> conn_lookup uid m \<noteq> None"
  by (auto simp: conn_lookup_def cm_base_def)

lemma alloc_None:
  assumes "cm_base env m"
  shows "internal_alloc m = None \<longleftrightarrow> (\<forall>i < MAX_CONNECTIONS. inuse m i)"
proof -
  obtain fl where fl: "free_chain (ctl m) (freelist m) fl"
      "set fl = {i. i < unat (next_unused_slot m) \<and> \<not> inuse m i}"
    and bound: "unat (next_unused_slot m) \<le> MAX_CONNECTIONS"
    and used: "\<forall>i < MAX_CONNECTIONS. inuse m i \<longrightarrow> i < unat (next_unused_slot m)"
    using assms unfolding cm_base_def by blast
  have head: "freelist m = 0xFFFF \<longleftrightarrow> fl = []"
    using fl(1) by (cases fl) (auto simp: MAX_CONNECTIONS_def)
  have "internal_alloc m = None \<longleftrightarrow> fl = [] \<and> MAX_CONNECTIONS \<le> unat (next_unused_slot m)"
    by (auto simp: internal_alloc_def Let_def head)
  also have "\<dots> \<longleftrightarrow> (\<forall>i < MAX_CONNECTIONS. inuse m i)"
  proof
    assume "fl = [] \<and> MAX_CONNECTIONS \<le> unat (next_unused_slot m)"
    then show "\<forall>i < MAX_CONNECTIONS. inuse m i" using fl(2) by auto
  next
    assume all: "\<forall>i < MAX_CONNECTIONS. inuse m i"
    then have "set fl = {}" unfolding fl(2) using bound by fastforce
    then have "fl = []" by simp
    moreover have "MAX_CONNECTIONS \<le> unat (next_unused_slot m)"
      using used all by (metis linorder_not_less order_less_irrefl)
    ultimately show "fl = [] \<and> MAX_CONNECTIONS \<le> unat (next_unused_slot m)" by simp
  qed
  finally show ?thesis .
qed

text \<open>The uid a slot gets next.\<close>

definition next_uid :: "u32 \<Rightarrow> nat \<Rightarrow> u32" where
  "next_uid uid i = ((uid + 0x00010000) AND 0xFFFF0000) OR of_nat i"

lemma alloc_Some:
  assumes base: "cm_base env m" and alloc: "internal_alloc m = Some (i, m1)"
  shows "i < MAX_CONNECTIONS" "\<not> inuse m i" "cm_base env m1"
    "ctl m1 = (ctl m)[i := (ctl m ! i)\<lparr>c_uid := next_uid (c_uid (ctl m ! i)) i, c_flags := CONN_INUSE\<rparr>]"
    "io_pending m1 = io_pending m" "services m1 = services m"
proof -
  obtain fl where fl: "free_chain (ctl m) (freelist m) fl" "distinct fl"
      "set fl = {i. i < unat (next_unused_slot m) \<and> \<not> inuse m i}"
    and bound: "unat (next_unused_slot m) \<le> MAX_CONNECTIONS" and len: "length (ctl m) = MAX_CONNECTIONS"
    and used: "\<forall>i < MAX_CONNECTIONS. inuse m i \<longrightarrow> i < unat (next_unused_slot m)"
    and fresh: "\<forall>i < MAX_CONNECTIONS. unat (next_unused_slot m) \<le> i \<longrightarrow> c_uid (ctl m ! i) = 0"
    using base unfolding cm_base_def by blast
  show ctl: "ctl m1 = (ctl m)[i := (ctl m ! i)\<lparr>c_uid := next_uid (c_uid (ctl m ! i)) i, c_flags := CONN_INUSE\<rparr>]"
    and io: "io_pending m1 = io_pending m" "services m1 = services m"
    using alloc by (auto simp: internal_alloc_def Let_def upd_conn_def next_uid_def split: if_splits)
  have same: "input_buf m1 = input_buf m"
    using alloc by (auto simp: internal_alloc_def Let_def split: if_splits)
  obtain rest where cases: "i < MAX_CONNECTIONS \<and> \<not> inuse m i \<and> unat (next_unused_slot m1) \<le> MAX_CONNECTIONS
      \<and> free_chain (ctl m) (freelist m1) rest \<and> distinct rest \<and> i < unat (next_unused_slot m1)
      \<and> unat (next_unused_slot m) \<le> unat (next_unused_slot m1)
      \<and> set rest = {j. j < unat (next_unused_slot m1) \<and> \<not> inuse m j \<and> j \<noteq> i}"
  proof (cases fl)
    case Nil
    then have f: "freelist m = 0xFFFF" using fl(1) by simp
    then have n: "i = unat (next_unused_slot m)" "unat (next_unused_slot m) < MAX_CONNECTIONS"
        "freelist m1 = 0xFFFF" "next_unused_slot m1 = next_unused_slot m + 1"
      using alloc by (auto simp: internal_alloc_def Let_def split: if_splits)
    have suc: "unat (next_unused_slot m1) = Suc i"
      using n unat_word_ariths(1) [of "next_unused_slot m" 1] by (simp add: MAX_CONNECTIONS_def)
    have "\<not> inuse m i" using used n by auto
    moreover have "{j. j < unat (next_unused_slot m1) \<and> \<not> inuse m j \<and> j \<noteq> i} = set fl"
      unfolding fl(3) suc using n(1) by auto
    ultimately show thesis using that [of "[]"] n suc Nil by simp
  next
    case (Cons x rest)
    then have x: "unat (freelist m) = x" "x < MAX_CONNECTIONS" using fl(1) by auto
    then have "freelist m \<noteq> 0xFFFF" by (auto simp: MAX_CONNECTIONS_def)
    then have n: "i = x" "next_unused_slot m1 = next_unused_slot m"
        "freelist m1 = ucast (c_uid (ctl m ! x) AND 0xFFFF)"
      using alloc x by (auto simp: internal_alloc_def Let_def split: if_splits)
    have "x \<in> set fl" "set rest = set fl - {x}" using Cons fl(2) by auto
    then have "set rest = {j. j < unat (next_unused_slot m1) \<and> \<not> inuse m j \<and> j \<noteq> i}"
      "x < unat (next_unused_slot m) \<and> \<not> inuse m x"
      unfolding n fl(3) by auto
    moreover have "free_chain (ctl m) (freelist m1) rest" "distinct rest"
      using fl(1,2) Cons by (simp_all add: n)
    ultimately show thesis using that [of rest] n x(2) bound by simp
  qed
  show "i < MAX_CONNECTIONS" "\<not> inuse m i" using cases by auto
  have inu: "inuse m1 j \<longleftrightarrow> inuse m j \<or> j = i" for j
    using cases len by (cases "j = i") (auto simp: conn_flag_def ctl flag_bits)
  have "free_chain (ctl m1) (freelist m1) rest"
    using cases by (subst free_chain_cong [of rest _ "ctl m"]) (auto simp: ctl)
  moreover have "set rest = {j. j < unat (next_unused_slot m1) \<and> \<not> inuse m1 j}"
    using cases inu by auto
  ultimately have chain: "\<exists>fl. free_chain (ctl m1) (freelist m1) fl \<and> distinct fl
      \<and> set fl = {j. j < unat (next_unused_slot m1) \<and> \<not> inuse m1 j}" using cases by blast
  show "cm_base env m1"
    unfolding cm_base_def
  proof (intro conjI)
    show "\<forall>j < MAX_CONNECTIONS. inuse m1 j \<longrightarrow> j < unat (next_unused_slot m1)"
    proof (intro allI impI)
      fix j assume j: "j < MAX_CONNECTIONS" "inuse m1 j"
      have le: "unat (next_unused_slot m) \<le> unat (next_unused_slot m1)" "i < unat (next_unused_slot m1)"
        using cases by auto
      show "j < unat (next_unused_slot m1)"
      proof (cases "j = i")
        case False
        then have "j < unat (next_unused_slot m)" using j inu used by blast
        then show ?thesis using le(1) by simp
      qed (simp add: le)
    qed
    show "\<forall>j < MAX_CONNECTIONS. unat (next_unused_slot m1) \<le> j \<longrightarrow> c_uid (ctl m1 ! j) = 0"
    proof (intro allI impI)
      fix j assume "j < MAX_CONNECTIONS" "unat (next_unused_slot m1) \<le> j"
      then show "c_uid (ctl m1 ! j) = 0" using cases fresh by (cases "j = i") (auto simp: ctl)
    qed
  qed (use base same io cases chain ctl in \<open>simp_all add: cm_base_def\<close>)
qed

subsection \<open>Completions\<close>

lemma cm_inv_touch:
  assumes inv: "cm_inv env X m" and i: "i < MAX_CONNECTIONS" "inuse m i"
    and f: "c_uid (f (ctl m ! i)) = c_uid (ctl m ! i)"
      "c_pending_work (f (ctl m ! i)) = c_pending_work (ctl m ! i)"
      "c_proto (f (ctl m ! i)) = c_proto (ctl m ! i)" "c_udata (f (ctl m ! i)) = c_udata (ctl m ! i)"
      "\<And>n. n \<in> {0, 1, 3} \<Longrightarrow> bit (c_flags (f (ctl m ! i))) n = bit (c_flags (ctl m ! i)) n"
    and body: "c_bodylen (f (ctl m ! i)) = c_bodylen (ctl m ! i) \<or> Read_body \<notin> set (ops_on i m)"
  shows "cm_inv env X (upd_conn i f m)"
proof (rule cm_inv_update [of env i X m _ "f (ctl m ! i)"])
  have len: "i < length (ctl m)" using i cm_inv_simps(1) [OF inv] by simp
  have ctl: "ctl (upd_conn i f m) ! i = f (ctl m ! i)" using len by (simp add: nth_upd_conn)
  have flags: "conn_flag CONN_INUSE (upd_conn i f m) i = conn_flag CONN_INUSE m i"
    "conn_flag CONN_CLOSING (upd_conn i f m) i = conn_flag CONN_CLOSING m i"
    "conn_flag CONN_OUTPUT_IN_PROGRESS (upd_conn i f m) i = conn_flag CONN_OUTPUT_IN_PROGRESS m i"
    using f(5) by (simp_all add: conn_flag_def flag_bits ctl)
  show "conn_ok X (upd_conn i f m) i"
    using cm_inv_simps(2) [OF inv i(1)] i(2) body
    unfolding conn_ok_def flags ctl f(1-4) by auto
  show "c_flags (f (ctl m ! i)) AND CONN_INUSE \<noteq> 0"
    using i(2) flags(1) unfolding conn_flag_def ctl by simp
  show "cm_inv env (insert i X) m" by (rule cm_inv_mono [OF inv]) blast
  show "\<forall>x \<in> set (io_pending (upd_conn i f m)). fst x < MAX_CONNECTIONS"
    using cm_inv_simps(3) [OF inv] by (simp add: cm_base_def)
qed (use i in \<open>simp_all add: upd_conn_def ops_on_def\<close>)

lemma cm_inv_input:
  "cm_inv env X m \<Longrightarrow> i < MAX_CONNECTIONS \<Longrightarrow> length b = unat CONN_INPUT_BUFFER_SIZE \<Longrightarrow>
     cm_inv env X (m\<lparr>input_buf := (input_buf m)[i := b]\<rparr>)"
  by (auto simp: cm_inv_def cm_base_def conn_ok_def conn_flag_def ops_on_def reads_on_def writes_on_def
      dest!: set_update_subset_insert [THEN subsetD])

lemma cm_inv_not_closing:
  assumes "cm_inv env (insert i X) m" "\<not> conn_flag CONN_CLOSING m i"
  shows "cm_inv env X m"
proof -
  have "conn_ok X m j" if "conn_ok (insert i X) m j" for j
    using that assms(2) by (cases "j = i") (auto simp: conn_ok_def)
  then show ?thesis using assms(1) by (auto simp: cm_inv_def)
qed

lemma ops_inuse:
  assumes "cm_inv env X m" "(i, op) \<in> set (io_pending m)"
  shows "i < MAX_CONNECTIONS \<and> inuse m i \<and> op \<in> set (ops_on i m)"
proof -
  have i: "i < MAX_CONNECTIONS" using assms by (auto simp: cm_inv_def cm_base_def)
  have op: "op \<in> set (ops_on i m)" using assms(2) by (force simp: ops_on_def)
  then show ?thesis using i cm_inv_simps(2) [OF assms(1) i] by (auto simp: conn_ok_def split: if_splits)
qed

lemma length_remove1_filter:
  "x \<in> set xs \<Longrightarrow> length (filter P (remove1 x xs)) = length (filter P xs) - (if P x then 1 else 0)"
  by (simp add: filter_remove1 length_remove1 remove1_idem)

text \<open>The state in which a handler does its work: the operation is gone, and not counted any more.\<close>

definition completed :: "nat \<Rightarrow> conn_op \<Rightarrow> int \<Rightarrow> bytes \<Rightarrow> ('p, 'd, 'w) connmgr \<Rightarrow> ('p, 'd, 'w) connmgr" where
  "completed i op rdwr data m = work_done i rdwr
     (let m0 = m\<lparr>io_pending := remove1 (i, op) (io_pending m)\<rparr>
      in if is_read op
         then m0\<lparr>input_buf := (input_buf m)[i := data @ drop (length data) (input_buf m ! i)]\<rparr> else m0)"

lemma completed_services: "services (completed i op rdwr data m) = services m"
  by (simp add: completed_def work_done_def Let_def)

lemma completed_inv:
  fixes rdwr :: int
  assumes inv: "cm_inv env {} m" and op: "(i, op) \<in> set (io_pending m)"
    and data: "length data \<le> unat CONN_INPUT_BUFFER_SIZE"
  defines "m1 \<equiv> completed i op rdwr data m"
  shows "cm_inv env {i} m1 \<and> inuse m1 i \<and> i < MAX_CONNECTIONS \<and> (is_read op \<longrightarrow> reads_on i m1 = [])
    \<and> (\<not> is_read op \<longrightarrow> writes_on i m1 = 0 \<and> c_proto (ctl m1 ! i) \<noteq> None)
    \<and> c_bodylen (ctl m1 ! i) = c_bodylen (ctl m ! i)
    \<and> length (input_buf m1) = MAX_CONNECTIONS \<and> length (input_buf m1 ! i) = unat CONN_INPUT_BUFFER_SIZE"
proof -
  have i: "i < MAX_CONNECTIONS" "inuse m i" "op \<in> set (ops_on i m)" using ops_inuse [OF inv op] by auto
  have len: "i < length (ctl m)" "i < length (input_buf m)" "length (input_buf m ! i) = unat CONN_INPUT_BUFFER_SIZE"
    using i inv by (auto simp: cm_inv_def cm_base_def)
  define m0 where "m0 = m\<lparr>input_buf := if is_read op
      then (input_buf m)[i := data @ drop (length data) (input_buf m ! i)] else input_buf m\<rparr>"
  have inv0: "cm_inv env {} m0"
    using cm_inv_input [OF inv i(1)] data len inv by (simp add: m0_def)
  have eq: "io_pending m0 = io_pending m" "ctl m0 = ctl m" "services m0 = services m"
    "ops_on j m0 = ops_on j m" "inuse m0 j = inuse m j" for j
    by (simp_all add: m0_def ops_on_def conn_flag_def)
  let ?c = "(ctl m ! i)\<lparr>c_pending_work := c_pending_work (ctl m ! i) - 1,
      c_rdwr_count := c_rdwr_count (ctl m ! i) + rdwr\<rparr>"
  have m1: "m1 = m0\<lparr>io_pending := remove1 (i, op) (io_pending m), ctl := (ctl m)[i := ?c]\<rparr>"
    by (simp add: m1_def completed_def work_done_def upd_conn_def m0_def Let_def)
  have ops: "ops_on j m1 = (if j = i then remove1 op (ops_on i m) else ops_on j m)" for j
    using ops_on_remove [of j i op m] by (simp add: m1 m0_def ops_on_def)
  have ok: "conn_ok {} m i" using cm_inv_simps(2) [OF inv i(1)] .
  have ctl: "ctl m1 ! i = ?c" using len by (simp add: m1)
  have flags: "conn_flag fl m1 i = conn_flag fl m i" for fl by (simp add: conn_flag_def ctl)
  have okm: "conn_slot (c_uid (ctl m ! i)) = i" "c_pending_work (ctl m ! i) = int (length (ops_on i m))"
    "length (reads_on i m) \<le> 1" "writes_on i m \<le> 1"
    "0 < writes_on i m \<longrightarrow> conn_flag CONN_OUTPUT_IN_PROGRESS m i \<and> c_proto (ctl m ! i) \<noteq> None"
    "Read_body \<in> set (ops_on i m) \<longrightarrow>
       0 < unat (c_bodylen (ctl m ! i)) \<and> unat (c_bodylen (ctl m ! i)) \<le> unat CONN_INPUT_BUFFER_SIZE"
    "c_proto (ctl m ! i) = None \<longrightarrow> (\<exists>k < length (services m). c_udata (ctl m ! i) = Udata_service k)"
    using ok i(2) unfolding conn_ok_def by auto
  have cnt: "int (length (ops_on i m1)) = int (length (ops_on i m)) - 1"
  proof -
    have "0 < length (ops_on i m)" using i(3) by (rule length_pos_if_in_set)
    then show ?thesis unfolding ops using i(3) by (simp add: length_remove1 of_nat_diff Suc_leI)
  qed
  have fewer: "length (reads_on i m1) \<le> length (reads_on i m)" "writes_on i m1 \<le> writes_on i m"
    "Read_body \<in> set (ops_on i m1) \<Longrightarrow> Read_body \<in> set (ops_on i m)"
    unfolding reads_on_def writes_on_def ops
    by (auto simp: filter_remove1 length_remove1 dest: set_remove1_subset [THEN subsetD])
  have "conn_ok {i} m1 i"
    unfolding conn_ok_def flags ctl using okm fewer cnt i(2) by (simp add: m1 eq)
  moreover have "cm_inv env (insert i {i}) m0" by (rule cm_inv_mono [OF inv0]) blast
  moreover have "\<forall>x \<in> set (remove1 (i, op) (io_pending m)). fst x < MAX_CONNECTIONS"
    using cm_inv_simps(3) [OF inv] by (auto simp: cm_base_def dest: notin_set_remove1)
  ultimately have "cm_inv env {i} m1"
    using cm_inv_update [of env i "{i}" m0 m1 ?c] i ops eq
    by (simp add: m1 conn_flag_def)
  moreover have "is_read op \<Longrightarrow> reads_on i m1 = []"
    using ok i length_remove1_filter [OF i(3), of is_read]
    by (simp add: reads_on_def ops conn_ok_def)
  moreover have "\<not> is_read op \<Longrightarrow> writes_on i m1 = 0 \<and> c_proto (ctl m1 ! i) \<noteq> None"
    using ok i length_remove1_filter [OF i(3), of "\<lambda>op. \<not> is_read op"]
    by (auto simp: writes_on_def ops conn_ok_def ctl filter_empty_conv)
  moreover have "inuse m1 i" using i(2) by (simp add: flags)
  moreover have "c_bodylen (ctl m1 ! i) = c_bodylen (ctl m ! i)" by (simp add: ctl)
  moreover have "length (input_buf m1) = MAX_CONNECTIONS"
    "length (input_buf m1 ! i) = unat CONN_INPUT_BUFFER_SIZE"
    using len data cm_inv_simps(3) [OF inv] by (simp_all add: m1 m0_def cm_base_def)
  ultimately show ?thesis using i(1) by blast
qed

context conn_protocols
begin

lemma handle_closing_inv:
  assumes inv: "cm_inv env (insert i X) m" and i: "i < MAX_CONNECTIONS" "inuse m i"
  shows "cm_inv env X (handle_closing env i m) \<and> services (handle_closing env i m) = services m"
proof (cases "ops_on i m = []")
  case True
  then have "c_pending_work (ctl m ! i) = 0"
    using cm_inv_simps(2) [OF inv i(1)] i(2) by (simp add: conn_ok_def)
  then show ?thesis
    using close_operation_inv [OF inv i True] cm_inv_mono [of env "insert i X - {i}" _ X]
    by (auto simp: handle_closing_def)
next
  case False
  then have "c_pending_work (ctl m ! i) \<noteq> 0"
    using cm_inv_simps(2) [OF inv i(1)] i(2) by (simp add: conn_ok_def)
  moreover have "conn_ok X m j" if "conn_ok (insert i X) m j" for j
    using that False by (cases "j = i") (auto simp: conn_ok_def)
  ultimately show ?thesis using inv by (auto simp: handle_closing_def cm_inv_def)
qed

lemma frame_reads: "conn_frame i m m' \<Longrightarrow> reads_on i m = [] \<Longrightarrow> reads_on i m' = [] \<and> inuse m' i"
  by (simp add: conn_frame_def)

text \<open>A status other than \<^verbatim>\<open>PROTO_STOP_READING\<close> ends in a state of the invariant.\<close>

lemma set_insert_mono: "cm_inv env X m \<Longrightarrow> cm_inv env (insert i X) m"
  by (erule cm_inv_mono) blast

lemma dispatch_message_inv:
  assumes inv: "cm_inv env X m" and i: "i < MAX_CONNECTIONS" "inuse m i" "c_proto (ctl m ! i) \<noteq> None"
  shows "\<exists>st m'. dispatch_message env i data m = Some (st, m') \<and> cm_inv env X m' \<and> conn_frame i m m'"
proof -
  obtain p where p: "c_proto (ctl m ! i) = Some p" using i(3) by auto
  let ?uid = "c_uid (ctl m ! i)"
  show ?thesis
  proof (cases "conn_flag CONN_FIRST_MSG m i")
    case True
    obtain st m' where r: "on_recv_message env p ?uid data m = (st, m')" by fastforce
    have "callable env X m i p ?uid" using inv i p by (simp add: callable_def)
    then have "cm_inv env X m' \<and> conn_frame i m m'" using recv r by blast
    then show ?thesis using True p r by (simp add: dispatch_message_def)
  next
    case False
    define m1 where "m1 = upd_conn i (\<lambda>c. c\<lparr>c_flags := c_flags c OR CONN_FIRST_MSG\<rparr>) m"
    have len: "i < length (ctl m)" using i cm_inv_simps(1) [OF inv] by simp
    have m1: "cm_inv env X m1"
      unfolding m1_def using inv i by (intro cm_inv_touch) (auto simp: flag_bit_or)
    have same: "inuse m1 i" "c_proto (ctl m1 ! i) = Some p" "c_uid (ctl m1 ! i) = ?uid"
      using i len p by (auto simp: m1_def nth_upd_conn conn_flag_def flag_bits flag_bit_or)
    obtain st m' where r: "on_recv_first_message env p ?uid data m1 = (st, m')" by fastforce
    have "callable env X m1 i p ?uid" using m1 i same by (simp add: callable_def)
    then have "cm_inv env X m' \<and> conn_frame i m1 m'" using recv_first r by blast
    moreover have "conn_frame i m1 m' = conn_frame i m m'"
      using same p by (simp add: conn_frame_def m1_def)
    ultimately show ?thesis using False p r same by (simp add: dispatch_message_def m1_def Let_def)
  qed
qed

lemma set_proto_inv:
  assumes inv: "cm_inv env X m" and i: "i < MAX_CONNECTIONS" "inuse m i"
  shows "callable env X (upd_conn i (\<lambda>c. c\<lparr>c_proto := Some p\<rparr>) m) i p (c_uid (ctl m ! i))"
proof -
  have len: "i < length (ctl m)" using i cm_inv_simps(1) [OF inv] by simp
  let ?m = "upd_conn i (\<lambda>c. c\<lparr>c_proto := Some p\<rparr>) m"
  have "conn_ok X ?m i"
    using cm_inv_simps(2) [OF inv i(1)] i(2) len
    by (simp add: conn_ok_def conn_flag_def nth_upd_conn)
  then have "cm_inv env X ?m"
    using cm_inv_update [of env i X m ?m "(ctl m ! i)\<lparr>c_proto := Some p\<rparr>"] i
      set_insert_mono [OF inv] cm_inv_simps(3) [OF inv]
    by (simp add: conn_flag_def upd_conn_def ops_on_def cm_base_def)
  then show ?thesis using i len by (simp add: callable_def conn_flag_def nth_upd_conn)
qed

lemma dispatch_recv_inv:
  assumes inv: "cm_inv env X m" and i: "i < MAX_CONNECTIONS" "inuse m i" "reads_on i m = []"
  shows "\<exists>st m'. internal_dispatch_on_recv_message env i data m = Some (st, m') \<and> cm_inv env X m'
    \<and> inuse m' i \<and> reads_on i m' = [] \<and> (st = PROTO_OK \<longrightarrow> c_uid (ctl m' ! i) = c_uid (ctl m ! i))
    \<and> services m' = services m"
proof (cases "c_proto (ctl m ! i)")
  case (Some p)
  then show ?thesis
    using dispatch_message_inv [OF inv i(1,2), of data] i(3)
    by (auto simp: internal_dispatch_on_recv_message_def conn_frame_def)
next
  case None
  then obtain k where k: "k < length (services m)" "c_udata (ctl m ! i) = Udata_service k"
    using cm_inv_simps(2) [OF inv i(1)] i(2) by (auto simp: conn_ok_def)
  show ?thesis
  proof (cases "service_select_protocol (proto_info env) (services m ! k) data")
    case None
    then show ?thesis using \<open>c_proto (ctl m ! i) = None\<close> k inv i
      by (simp add: internal_dispatch_on_recv_message_def)
  next
    case (Some p)
    define m1 where "m1 = upd_conn i (\<lambda>c. c\<lparr>c_proto := Some p\<rparr>) m"
    have len: "i < length (ctl m)" using i cm_inv_simps(1) [OF inv] by simp
    have uid: "c_uid (ctl m1 ! i) = c_uid (ctl m ! i)" using len by (simp add: m1_def nth_upd_conn)
    have call: "callable env X m1 i p (c_uid (ctl m ! i))"
      unfolding m1_def by (rule set_proto_inv [OF inv i(1,2)])
    obtain ok m2 where a: "on_assign_protocol env p (c_uid (ctl m ! i)) m1 = (ok, m2)" by fastforce
    have m2: "cm_inv env X m2" "conn_frame i m1 m2" using assign [OF call a] by auto
    have "reads_on i m1 = []" using i(3) by (simp add: m1_def)
    then have r: "inuse m2 i" "reads_on i m2 = []" "c_uid (ctl m2 ! i) = c_uid (ctl m ! i)"
        "c_proto (ctl m2 ! i) \<noteq> None" "services m2 = services m"
      using m2(2) uid call by (auto simp: conn_frame_def callable_def m1_def)
    have e: "internal_dispatch_on_recv_message env i data m =
        (if \<not> ok then Some (PROTO_ABORT, m2) else dispatch_message env i data m2)"
      using \<open>c_proto (ctl m ! i) = None\<close> k Some a uid
      by (simp add: internal_dispatch_on_recv_message_def m1_def Let_def)
    show ?thesis
    proof (cases ok)
      case True
      then show ?thesis
        using e r dispatch_message_inv [OF m2(1) i(1) r(1,4), of data] by (auto simp: conn_frame_def)
    qed (use e m2 r in simp)
  qed
qed

end

context conn_protocols
begin

lemma input_buf_word:
  assumes "length buf = unat CONN_INPUT_BUFFER_SIZE"
  shows "\<exists>v. decode_u16_le buf = Some v"
  using u16_le.dec_total [of buf] assms by (auto simp: CONN_INPUT_BUFFER_SIZE_def)

lemma input_lookup:
  assumes "conn_slot (c_uid (ctl m ! i)) = i" "i < MAX_CONNECTIONS" "length (input_buf m) = MAX_CONNECTIONS"
  shows "conn_input_buf i m = Some (input_buf m ! i)"
  using assms by (simp add: conn_input_buf_def)

lemma read_length_inv:
  assumes inv: "cm_inv env {} m" and op: "(i, Read_length) \<in> set (io_pending m)"
    and data: "length data \<le> unat CONN_INPUT_BUFFER_SIZE"
  shows "\<exists>m'. io_complete env i Read_length err transferred data m = Some m' \<and> cm_inv env {} m'
    \<and> services m' = services m"
proof -
  define m1 where "m1 = completed i Read_length 0 data m"
  have c: "cm_inv env {i} m1" "inuse m1 i" "i < MAX_CONNECTIONS" "reads_on i m1 = []"
    "length (input_buf m1) = MAX_CONNECTIONS" "length (input_buf m1 ! i) = unat CONN_INPUT_BUFFER_SIZE"
    using completed_inv [OF inv op data, of 0] by (auto simp: m1_def is_read_def)
  have slot: "conn_slot (c_uid (ctl m1 ! i)) = i"
    using cm_inv_simps(2) [OF c(1,3)] c(2) by (simp add: conn_ok_def)
  obtain v where v: "decode_u16_le (input_buf m1 ! i) = Some v" using input_buf_word c(6) by blast
  define m2 where "m2 = upd_conn i (\<lambda>c. c\<lparr>c_bodylen := ucast v\<rparr>) m1"
  have e: "io_complete env i Read_length err transferred data m =
    (if conn_flag CONN_CLOSING m1 i then Some (handle_closing env i m1)
     else if err then Some (internal_async_read env i 2 Read_length m1)
     else if transferred = 0 \<or> v > CONN_INPUT_BUFFER_SIZE \<or> v = 0 then Some (internal_abort env i m1)
     else Some (internal_async_read env i (ucast v) Read_body m2))"
    using v input_lookup [OF slot c(3,5)]
    by (simp add: io_complete_def internal_on_read_length_def Let_def m1_def completed_def is_read_def m2_def)
  have "cm_inv env {} (internal_async_read env i (ucast v) Read_body m2)
      \<and> services (internal_async_read env i (ucast v) Read_body m2) = services m2"
    if "\<not> v > CONN_INPUT_BUFFER_SIZE" "v \<noteq> 0"
  proof -
    have len: "i < length (ctl m1)" using cm_inv_simps(1) [OF c(1)] c(3) by simp
    have "Read_body \<notin> set (ops_on i m1)"
      using c(4) by (auto simp: reads_on_def filter_empty_conv is_read_def)
    then have "cm_inv env {i} m2"
      unfolding m2_def using c by (intro cm_inv_touch) auto
    moreover have "c_bodylen (ctl m2 ! i) = ucast v" "inuse m2 i" "reads_on i m2 = []"
      using c len by (auto simp: m2_def nth_upd_conn conn_flag_def)
    moreover have "0 < unat v \<and> unat v \<le> unat CONN_INPUT_BUFFER_SIZE"
      using that by (auto simp: word_less_nat_alt word_le_nat_alt not_less unat_gt_0)
    ultimately show ?thesis
      unfolding internal_async_read_def
      by (intro async_read_inv) (use c(3) in \<open>auto simp: is_read_def unat_ucast_u16\<close>)
  qed
  moreover have "cm_inv env {} (internal_async_read env i 2 Read_length m1)
      \<and> services (internal_async_read env i 2 Read_length m1) = services m1"
    unfolding internal_async_read_def
    by (intro async_read_inv) (use c in \<open>auto simp: is_read_def\<close>)
  ultimately show ?thesis
    using handle_closing_inv [OF c(1,3,2)] abort_inv [OF c(1,3,2)] e completed_services
    by (auto simp: m2_def m1_def)
qed

lemma read_body_inv:
  assumes inv: "cm_inv env {} m" and op: "(i, Read_body) \<in> set (io_pending m)"
    and data: "length data \<le> unat CONN_INPUT_BUFFER_SIZE"
  shows "\<exists>m'. io_complete env i Read_body err transferred data m = Some m' \<and> cm_inv env {} m'
    \<and> services m' = services m"
proof -
  define m1 where "m1 = completed i Read_body 1 data m"
  have c: "cm_inv env {i} m1" "inuse m1 i" "i < MAX_CONNECTIONS" "reads_on i m1 = []"
    "length (input_buf m1) = MAX_CONNECTIONS" "length (input_buf m1 ! i) = unat CONN_INPUT_BUFFER_SIZE"
    and body_eq: "c_bodylen (ctl m1 ! i) = c_bodylen (ctl m ! i)"
    using completed_inv [OF inv op data, of 1] by (auto simp: m1_def is_read_def)
  have slot: "conn_slot (c_uid (ctl m1 ! i)) = i"
    using cm_inv_simps(2) [OF c(1,3)] c(2) by (simp add: conn_ok_def)
  let ?n = "c_bodylen (ctl m1 ! i)"
  have n: "0 < unat ?n \<and> unat ?n \<le> unat CONN_INPUT_BUFFER_SIZE"
    using cm_inv_simps(2) [OF inv c(3)] ops_inuse [OF inv op] body_eq by (simp add: conn_ok_def)
  define d where "d = take (unat ?n) (input_buf m1 ! i)"
  have e: "io_complete env i Read_body err transferred data m =
    (if conn_flag CONN_CLOSING m1 i then Some (handle_closing env i m1)
     else if err then Some (internal_async_read env i ?n Read_body m1)
     else if transferred = 0 then Some (internal_abort env i m1)
     else do {
       (st, m2) \<leftarrow> internal_dispatch_on_recv_message env i d m1;
       Some (case st of
           PROTO_OK \<Rightarrow> internal_async_read env i 2 Read_length m2
         | PROTO_STOP_READING \<Rightarrow> m2
         | PROTO_CLOSE \<Rightarrow> internal_close env i m2
         | PROTO_ABORT \<Rightarrow> internal_abort env i m2)
     })"
    using n input_lookup [OF slot c(3,5)] c(6)
    by (simp add: io_complete_def internal_on_read_body_def Let_def m1_def completed_def is_read_def
        mem_read_def d_def)
  show ?thesis
  proof (cases "conn_flag CONN_CLOSING m1 i \<or> err \<or> transferred = 0")
    case True
    moreover have "cm_inv env {} (internal_async_read env i ?n Read_body m1)
        \<and> services (internal_async_read env i ?n Read_body m1) = services m1"
      unfolding internal_async_read_def
      by (intro async_read_inv) (use c n in \<open>auto simp: is_read_def\<close>)
    ultimately show ?thesis
      using handle_closing_inv [OF c(1,3,2)] abort_inv [OF c(1,3,2)] e completed_services
      by (auto simp: m1_def)
  next
    case False
    then have m1: "cm_inv env {} m1" using cm_inv_not_closing c(1) by blast
    obtain st m2 where d: "internal_dispatch_on_recv_message env i d m1 = Some (st, m2)"
        "cm_inv env {} m2" "inuse m2 i" "reads_on i m2 = []" "services m2 = services m1"
      using dispatch_recv_inv [OF m1 c(3,2,4), of d] by blast
    have "cm_inv env {} (internal_async_read env i 2 Read_length m2)
        \<and> services (internal_async_read env i 2 Read_length m2) = services m2"
      unfolding internal_async_read_def
      by (intro async_read_inv) (use c d set_insert_mono in \<open>auto simp: is_read_def\<close>)
    then show ?thesis
      using False e d abort_inv [OF set_insert_mono [OF d(2)] c(3) d(3)]
      by (cases st) (auto simp: m1_def completed_services)
  qed
qed

lemma write_inv:
  assumes inv: "cm_inv env {} m" and op: "(i, Write) \<in> set (io_pending m)"
  shows "\<exists>m'. io_complete env i Write err transferred data m = Some m' \<and> cm_inv env {} m'
    \<and> services m' = services m"
proof -
  define m1 where "m1 = completed i Write 1 [] m"
  have c: "cm_inv env {i} m1" "inuse m1 i" "i < MAX_CONNECTIONS" "writes_on i m1 = 0"
    "c_proto (ctl m1 ! i) \<noteq> None"
    using completed_inv [OF inv op, of "[]" 1] by (auto simp: m1_def is_read_def)
  then obtain p where p: "c_proto (ctl m1 ! i) = Some p" by auto
  define m2 where "m2 = upd_conn i (\<lambda>c. c\<lparr>c_flags := c_flags c AND NOT CONN_OUTPUT_IN_PROGRESS\<rparr>) m1"
  have len: "i < length (ctl m1)" using cm_inv_simps(1) [OF c(1)] c(3) by simp
  let ?uid = "c_uid (ctl m1 ! i)"
  have e: "io_complete env i Write err transferred data m =
    (if conn_flag CONN_CLOSING m1 i then Some (handle_closing env i m1)
     else if err then Some (internal_async_write env i m1)
     else if transferred = 0 then Some (internal_abort env i m1)
     else case on_write env p ?uid m2 of (st, m3) \<Rightarrow> (case st of
             PROTO_OK \<Rightarrow> Some m3
           | PROTO_STOP_READING \<Rightarrow> None
           | PROTO_CLOSE \<Rightarrow> Some (internal_close env i m3)
           | PROTO_ABORT \<Rightarrow> Some (internal_abort env i m3)))"
    using p len
    by (simp add: io_complete_def internal_on_write_def internal_dispatch_on_write_def Let_def m1_def
        completed_def is_read_def m2_def nth_upd_conn)
  show ?thesis
  proof (cases "conn_flag CONN_CLOSING m1 i \<or> err \<or> transferred = 0")
    case True
    moreover have "cm_inv env {} (internal_async_write env i m1)
        \<and> services (internal_async_write env i m1) = services m1"
      unfolding internal_async_write_def using c by (intro async_write_inv) auto
    ultimately show ?thesis
      using handle_closing_inv [OF c(1,3,2)] abort_inv [OF c(1,3,2)] e completed_services
      by (auto simp: m1_def)
  next
    case False
    then have m1: "cm_inv env {} m1" using cm_inv_not_closing c(1) by blast
    have ctl: "ctl m2 ! i = (ctl m1 ! i)\<lparr>c_flags := c_flags (ctl m1 ! i) AND NOT CONN_OUTPUT_IN_PROGRESS\<rparr>"
      using len by (simp add: m2_def nth_upd_conn)
    have inu: "inuse m2 i" using c(2) by (simp add: conn_flag_def flag_bits ctl flag_bit_or)
    have "conn_ok {} m2 i"
      using cm_inv_simps(2) [OF m1 c(3)] c(2,4) inu unfolding conn_ok_def conn_flag_def flag_bits ctl
      by (auto simp: m2_def flag_bit_or)
    then have "cm_inv env {} m2"
      using cm_inv_update [of env i "{}" m1 m2 "ctl m2 ! i"] c inu cm_inv_simps(3) [OF m1]
      by (simp add: conn_flag_def ops_on_def cm_base_def) (simp add: m2_def upd_conn_def len)
    then have call: "callable env {} m2 i p ?uid" using c(3) inu p ctl by (simp add: callable_def)
    obtain st m3 where r: "on_write env p ?uid m2 = (st, m3)" by fastforce
    have m3: "cm_inv env {} m3" "inuse m3 i" "st \<noteq> PROTO_STOP_READING" "services m3 = services m"
      using written [OF call r] by (auto simp: conn_frame_def m2_def m1_def completed_services)
    show ?thesis
      using False e r m3(1,3,4) abort_inv [OF set_insert_mono [OF m3(1)] c(3) m3(2)]
      by (cases st) auto
  qed
qed

end

subsection \<open>The interface\<close>

lemma conn_slot_next_uid: "i < MAX_CONNECTIONS \<Longrightarrow> conn_slot (next_uid uid i) = i"
  by (simp add: next_uid_def conn_slot_uid unat_slot MAX_CONNECTIONS_def)

lemma new_connection_inv:
  fixes s :: nat
  assumes inv: "cm_inv env X m" and alloc: "internal_alloc m = Some (i, m1)"
    and svc: "svc < length (services m)"
  defines "m2 \<equiv> upd_conn i (conn_setup s svc) m1"
  shows "cm_inv env X m2 \<and> inuse m2 i \<and> i < MAX_CONNECTIONS \<and> ops_on i m2 = []
    \<and> c_udata (ctl m2 ! i) = Udata_service svc \<and> c_proto (ctl m2 ! i) = None \<and> services m2 = services m
    \<and> c_uid (ctl m2 ! i) = next_uid (c_uid (ctl m ! i)) i \<and> \<not> inuse m i"
proof -
  note a = alloc_Some [OF cm_inv_simps(3) [OF inv] alloc]
  have len: "i < length (ctl m)" "length (ctl m1) = length (ctl m)"
    using a(1,4) cm_inv_simps(1) [OF inv] by simp_all
  have none: "ops_on i m = []"
    using cm_inv_simps(2) [OF inv a(1)] a(2) by (simp add: conn_ok_def)
  have ops: "ops_on j m2 = ops_on j m" for j by (simp add: m2_def ops_on_def a(5))
  have ctl: "ctl m2 ! j = (if j = i then conn_setup s svc
      ((ctl m ! i)\<lparr>c_uid := next_uid (c_uid (ctl m ! i)) i, c_flags := CONN_INUSE\<rparr>) else ctl m ! j)" for j
    using len by (simp add: m2_def nth_upd_conn a(4))
  have inu: "inuse m2 j = inuse m1 j" for j
    using len by (auto simp: conn_flag_def ctl a(4) conn_setup_def)
  have "cm_base env m2"
  proof (rule cm_base_same [OF a(3)])
    fix j assume "\<not> inuse m1 j"
    then have "j \<noteq> i" using len by (auto simp: conn_flag_def a(4))
    then show "c_uid (ctl m2 ! j) = c_uid (ctl m1 ! j)" by (simp add: ctl a(4))
  next
    show "\<forall>x \<in> set (io_pending m2). fst x < MAX_CONNECTIONS"
      using cm_inv_simps(3) [OF inv] by (simp add: m2_def a(5) cm_base_def)
  qed (simp_all add: m2_def inu [unfolded m2_def])
  moreover have "conn_ok X m2 j" if j: "j < MAX_CONNECTIONS" for j
  proof (cases "j = i")
    case True
    then show ?thesis
      using none svc conn_slot_next_uid [OF a(1)]
      by (simp add: conn_ok_def conn_flag_def ctl ops reads_on_def writes_on_def conn_setup_def flag_defs)
         (simp add: m2_def a(6))
  next
    case False
    then have "ctl m2 ! j = ctl m ! j" by (simp add: ctl)
    then show ?thesis using cm_inv_simps(2) [OF inv j] conn_ok_same [of m2 j m X] ops
      by (simp add: m2_def a(6))
  qed
  ultimately show ?thesis
    using a none by (simp add: cm_inv_def ctl ops conn_setup_def) (simp add: m2_def conn_flag_def nth_upd_conn len conn_setup_def)
qed

context conn_protocols
begin

lemma dispatch_connect_inv:
  assumes inv: "cm_inv env X m" and i: "i < MAX_CONNECTIONS" "inuse m i" "reads_on i m = []"
    and k: "c_udata (ctl m ! i) = Udata_service k" "k < length (services m)"
  shows "\<exists>st m'. internal_dispatch_on_connect env i m = Some (st, m') \<and> cm_inv env X m'
    \<and> inuse m' i \<and> reads_on i m' = [] \<and> st \<noteq> PROTO_STOP_READING \<and> services m' = services m"
proof -
  have ne: "sv_protocols (services m ! k) \<noteq> []"
    using inv k(2) by (auto simp: cm_inv_def cm_base_def services_ok_def)
  show ?thesis
  proof (cases "service_sends_first (proto_info env) (services m ! k)")
    case False
    then show ?thesis using k ne inv i by (simp add: internal_dispatch_on_connect_def)
  next
    case True
    let ?p = "service_first_protocol (services m ! k)"
    define m1 where "m1 = upd_conn i (\<lambda>c. c\<lparr>c_proto := Some ?p\<rparr>) m"
    have len: "i < length (ctl m)" using i cm_inv_simps(1) [OF inv] by simp
    have uid: "c_uid (ctl m1 ! i) = c_uid (ctl m ! i)" using len by (simp add: m1_def nth_upd_conn)
    have call: "callable env X m1 i ?p (c_uid (ctl m ! i))"
      unfolding m1_def by (rule set_proto_inv [OF inv i(1,2)])
    obtain ok m2 where a: "on_assign_protocol env ?p (c_uid (ctl m ! i)) m1 = (ok, m2)" by fastforce
    have m2: "cm_inv env X m2" "conn_frame i m1 m2" using assign [OF call a] by auto
    have "reads_on i m1 = []" using i(3) by (simp add: m1_def)
    then have r: "inuse m2 i" "reads_on i m2 = []" "c_uid (ctl m2 ! i) = c_uid (ctl m ! i)"
        "c_proto (ctl m2 ! i) = Some ?p" "services m2 = services m"
      using m2(2) uid call by (auto simp: conn_frame_def callable_def m1_def)
    obtain st m3 where o: "on_connect env ?p (c_uid (ctl m ! i)) m2 = (st, m3)" by fastforce
    have "callable env X m2 i ?p (c_uid (ctl m ! i))" using m2(1) i(1) r by (simp add: callable_def)
    note m3 = connect [OF this o]
    have "internal_dispatch_on_connect env i m = Some (if \<not> ok then (PROTO_ABORT, m2) else (st, m3))"
      using True k ne a uid r o by (simp add: internal_dispatch_on_connect_def m1_def Let_def)
    then show ?thesis using m2 r m3 by (auto simp: conn_frame_def)
  qed
qed

lemma start_connection_inv:
  assumes inv: "cm_inv env {} m" and svc: "svc < length (services m)"
    and room: "\<exists>i < MAX_CONNECTIONS. \<not> inuse m i"
  shows "\<exists>m'. connmgr_start_connection env s svc m = Some m' \<and> cm_inv env {} m' \<and> services m' = services m"
proof -
  obtain i m1 where alloc: "internal_alloc m = Some (i, m1)"
    using room alloc_None [OF cm_inv_simps(3) [OF inv]] by (cases "internal_alloc m") auto
  note n = new_connection_inv [OF inv alloc svc, of s]
  then have "reads_on i (upd_conn i (conn_setup s svc) m1) = []" by (simp add: reads_on_def)
  then obtain st m2 where d: "internal_dispatch_on_connect env i (upd_conn i (conn_setup s svc) m1) = Some (st, m2)"
      "cm_inv env {} m2" "inuse m2 i" "reads_on i m2 = []" "st \<noteq> PROTO_STOP_READING"
      "services m2 = services m"
    using dispatch_connect_inv [of "{}" _ i svc] n svc by metis
  obtain ok m3 where r: "internal_start_async_read env i 2 Read_length m2 = (ok, m3)" by fastforce
  have i: "i < MAX_CONNECTIONS" using n by simp
  note rr = start_read_inv [OF d(2) i d(3,4) _ _ r]
  have m3: "cm_inv env {} m3" "\<not> ok \<Longrightarrow> inuse m3 i" "services m3 = services m"
    using rr d(3,6) by (auto simp: is_read_def)
  have "cm_inv env {} (if ok then m3 else internal_abort env i m3)
      \<and> services (if ok then m3 else internal_abort env i m3) = services m"
    using m3 abort_inv(1,3) [OF set_insert_mono [OF m3(1)] i] by simp
  then show ?thesis
    using alloc d r abort_inv [OF set_insert_mono [OF d(2)] i d(3)]
    by (cases st) (auto simp: connmgr_start_connection_def)
qed

lemma timeout_slot_inv:
  assumes "cm_inv env {} m" "i < MAX_CONNECTIONS"
  shows "cm_inv env {} (timeout_slot env i m) \<and> services (timeout_slot env i m) = services m"
  using assms abort_inv(1,3) [OF set_insert_mono [OF assms(1)] assms(2)]
    cm_inv_touch [OF assms, of "\<lambda>c. c\<lparr>c_rdwr_count := 0\<rparr>"]
  by (simp add: timeout_slot_def)

lemma timeout_inv: "cm_inv env {} m \<Longrightarrow> cm_inv env {} (connmgr_timeout_check env m)
    \<and> services (connmgr_timeout_check env m) = services m"
proof -
  assume inv: "cm_inv env {} m"
  have "cm_inv env {} m \<Longrightarrow> \<forall>i \<in> set is. i < MAX_CONNECTIONS \<Longrightarrow>
      cm_inv env {} (fold (timeout_slot env) is m)
      \<and> services (fold (timeout_slot env) is m) = services m" for "is" m
    by (induction "is" arbitrary: m) (auto simp: timeout_slot_inv)
  moreover have "unat (next_unused_slot m) \<le> MAX_CONNECTIONS"
    using inv by (simp add: cm_inv_def cm_base_def)
  ultimately show ?thesis using inv by (auto simp: connmgr_timeout_check_def)
qed

lemma connection_close_inv:
  assumes inv: "cm_inv env X m" and uid: "uid \<noteq> 0" "conn_slot uid < MAX_CONNECTIONS"
  shows "\<exists>m'. connection_close env uid m = Some m' \<and> cm_inv env X m' \<and> services m' = services m"
    "\<exists>m'. connection_abort env uid m = Some m' \<and> cm_inv env X m' \<and> services m' = services m"
proof -
  obtain r where r: "conn_lookup uid m = Some r"
    using lookup_defined [OF cm_inv_simps(3) [OF inv] uid(2)] by auto
  have "cm_inv env X (internal_close env i m) \<and> cm_inv env X (internal_abort env i m)
      \<and> services (internal_close env i m) = services m \<and> services (internal_abort env i m) = services m" if "r = Some i" for i
  proof -
    have "i < MAX_CONNECTIONS" "inuse m i"
      using lookup_inuse [OF cm_inv_simps(3) [OF inv] uid, of i] r that by blast+
    then show ?thesis using abort_inv [OF set_insert_mono [OF inv], of i] by simp
  qed
  then show "\<exists>m'. connection_close env uid m = Some m' \<and> cm_inv env X m' \<and> services m' = services m"
    "\<exists>m'. connection_abort env uid m = Some m' \<and> cm_inv env X m' \<and> services m' = services m"
    using r inv by (auto simp: connection_close_def connection_abort_def split: option.splits)
qed

end

text \<open>Sending keeps the invariant and the contract of callbacks, for any connection with a protocol.\<close>

lemma send_slot_inv:
  assumes inv: "cm_inv env X m" and look: "conn_lookup uid m = Some (Some i)"
    and i: "i < MAX_CONNECTIONS" "inuse m i" and proto: "c_proto (ctl m ! i) \<noteq> None"
  shows "\<exists>ok m'. connection_send sys uid data n m = Some (ok, m') \<and> cm_inv env X m' \<and> conn_frame i m m'"
proof -
  have len: "i < length (ctl m)" using i cm_inv_simps(1) [OF inv] by simp
  let ?m = "upd_conn i (\<lambda>c. c\<lparr>c_output_data := data, c_output_len := n\<rparr>) m"
  have m: "cm_inv env X ?m" by (rule cm_inv_touch [OF inv i]) simp_all
  have keep: "c_proto (ctl ?m ! i) = c_proto (ctl m ! i)" "inuse ?m i = inuse m i"
      "c_uid (ctl ?m ! i) = c_uid (ctl m ! i)"
    using len by (simp_all add: nth_upd_conn conn_flag_def)
  show ?thesis
  proof (cases "conn_flag CONN_OUTPUT_IN_PROGRESS m i")
    case True
    then show ?thesis using look inv i by (auto simp: connection_send_def conn_frame_def)
  next
    case False
    have "writes_on i ?m = 0"
      using cm_inv_simps(2) [OF inv i(1)] i(2) False by (simp add: conn_ok_def)
    moreover have "c_proto (ctl ?m ! i) \<noteq> None" using proto keep by simp
    moreover obtain ok m' where st: "internal_start_async_write sys i ?m = (ok, m')" by fastforce
    ultimately have w: "cm_inv env X m'" "inuse m' i" "reads_on i m' = reads_on i ?m"
        "c_proto (ctl m' ! i) = c_proto (ctl ?m ! i)" "c_uid (ctl m' ! i) = c_uid (ctl ?m ! i)"
        "services m' = services ?m"
      using start_write_inv [OF m i(1) _ _ _ st] i(2) keep by (auto split: if_splits)
    then show ?thesis
      using look False st keep by (simp add: connection_send_def conn_frame_def)
  qed
qed

lemma connection_send_inv:
  assumes inv: "cm_inv env X m" and uid: "uid \<noteq> 0" "conn_slot uid < MAX_CONNECTIONS"
    and proto: "\<And>i. conn_lookup uid m = Some (Some i) \<Longrightarrow> c_proto (ctl m ! i) \<noteq> None"
  shows "\<exists>ok m'. connection_send sys uid data n m = Some (ok, m') \<and> cm_inv env X m' \<and> services m' = services m"
proof -
  obtain r where r: "conn_lookup uid m = Some r"
    using lookup_defined [OF cm_inv_simps(3) [OF inv] uid(2)] by auto
  show ?thesis
  proof (cases r)
    case None
    then show ?thesis using r inv by (auto simp: connection_send_def)
  next
    case (Some i)
    then have "i < MAX_CONNECTIONS" "inuse m i"
      using lookup_inuse [OF cm_inv_simps(3) [OF inv] uid, of i] r by blast+
    then show ?thesis using send_slot_inv [OF inv, of uid i] r Some proto unfolding conn_frame_def by blast
  qed
qed

subsection \<open>Reachable states\<close>

lemma nth_replicate_flags: "i < n \<Longrightarrow> replicate n c ! i = c"
  by simp

lemma cm_init_inv:
  assumes "services_ok (proto_info env) svcs"
  shows "cm_inv env {} (cm_init svcs w null)"
proof -
  have "cm_base env (cm_init svcs w null)"
    unfolding cm_base_def using assms
    by (auto simp: cm_init_def conn_flag_def intro: exI [of _ "[]"])
  moreover have "conn_ok {} (cm_init svcs w null) i" if "i < MAX_CONNECTIONS" for i
    using that by (simp add: conn_ok_def cm_init_def conn_flag_def ops_on_def)
  ultimately show ?thesis by (simp add: cm_inv_def)
qed

context conn_protocols
begin

lemma step_inv:
  assumes "cm_step env m r" "cm_inv env {} m"
  shows "(case r of Some m' \<Rightarrow> cm_inv env {} m' \<and> services m' = services m
    | None \<Rightarrow> \<forall>i < MAX_CONNECTIONS. inuse m i)"
  using assms
proof (induction rule: cm_step.induct)
  case (cm_complete i op m data err transferred)
  then show ?case
    using read_length_inv [of m i data err transferred] read_body_inv [of m i data err transferred]
      write_inv [of m i err transferred data] by (cases op) auto
next
  case (cm_start svc m s)
  show ?case
  proof (cases "\<exists>i < MAX_CONNECTIONS. \<not> inuse m i")
    case True
    then show ?thesis using start_connection_inv [of m svc s] cm_start by auto
  next
    case False
    then have "internal_alloc m = None" using alloc_None [OF cm_inv_simps(3) [OF cm_start(2)]] by blast
    then show ?thesis using False by (simp add: connmgr_start_connection_def)
  qed
next
  case (cm_timeout m)
  then show ?case by (simp add: timeout_inv)
next
  case (cm_close uid m)
  then show ?case using connection_close_inv(1) [of "{}" m uid] by auto
next
  case (cm_abort uid m)
  then show ?case using connection_close_inv(2) [of "{}" m uid] by auto
next
  case (cm_send uid m data datalen)
  then show ?case using connection_send_inv [of env "{}" m uid "os env" data datalen] by auto
next
  case (cm_world m w)
  then show ?case by simp
qed

lemma reach_inv:
  assumes "cm_reach env svcs m" "services_ok (proto_info env) svcs"
  shows "cm_inv env {} m"
  using assms
proof (induction rule: cm_reach.induct)
  case (cm_initial w null)
  then show ?case by (rule cm_init_inv)
next
  case (cm_next m m')
  then show ?case using step_inv [of m "Some m'"] by simp
qed

end

subsection \<open>Properties\<close>


text \<open>C2: In every reachable state each operation the OS still has to complete belongs to a connection
  in use, which counts it in \<^verbatim>\<open>pending_work\<close>: no completion ever reaches a released slot.  A
  connection has at most one read and one write outstanding, and one that is closing is waiting
  for an operation that will release it.\<close>

theorem connmgr_pending_work_exact:
  assumes "conn_protocols env" "services_ok (proto_info env) svcs" "cm_reach env svcs m"
    and "i < MAX_CONNECTIONS"
  shows "(inuse m i \<longrightarrow> c_pending_work (ctl m ! i) = int (length (ops_on i m))
        \<and> length (reads_on i m) \<le> 1 \<and> writes_on i m \<le> 1
        \<and> (conn_flag CONN_CLOSING m i \<longrightarrow> ops_on i m \<noteq> []))
    \<and> (\<not> inuse m i \<longrightarrow> ops_on i m = [])"
  using cm_inv_simps(2) [OF conn_protocols.reach_inv [OF assms(1,3,2)] assms(4)]
  by (simp add: conn_ok_def split: if_splits)

text \<open>The slots: allocation fails only when all 4096 slots are in use, never hands out a slot in
  use, and a uid names at most the connection in use in its own slot; a uid whose connection was
  released names none.\<close>

theorem connmgr_slots:
  assumes "conn_protocols env" "services_ok (proto_info env) svcs" "cm_reach env svcs m"
  shows "(internal_alloc m = None \<longleftrightarrow> (\<forall>i < MAX_CONNECTIONS. inuse m i))
    \<and> (\<forall>i m'. internal_alloc m = Some (i, m') \<longrightarrow> i < MAX_CONNECTIONS \<and> \<not> inuse m i
        \<and> c_uid (ctl m' ! i) = next_uid (c_uid (ctl m ! i)) i)
    \<and> (\<forall>uid i. uid \<noteq> 0 \<and> conn_slot uid < MAX_CONNECTIONS \<and> conn_lookup uid m = Some (Some i) \<longrightarrow>
        inuse m i \<and> i = conn_slot uid \<and> c_uid (ctl m ! i) = uid)"
proof -
  have base: "cm_base env m" using cm_inv_simps(3) [OF conn_protocols.reach_inv [OF assms(1,3,2)]] .
  have "i < MAX_CONNECTIONS \<and> \<not> inuse m i \<and> c_uid (ctl m' ! i) = next_uid (c_uid (ctl m ! i)) i"
    if "internal_alloc m = Some (i, m')" for i m'
  proof -
    note a = alloc_Some [OF base that]
    have "length (ctl m) = MAX_CONNECTIONS" using base by (simp add: cm_base_def)
    then show ?thesis using a(1,2) by (simp add: a(4))
  qed
  then show ?thesis using alloc_None [OF base] lookup_inuse [OF base] by blast
qed

lemma counter_changes: "next_uid u i AND 0xFFFF0000 \<noteq> v AND 0xFFFF0000"
  if "u AND 0xFFFF0000 = v AND (0xFFFF0000 :: u32)" "i < MAX_CONNECTIONS"
proof -
  have high: "bit (x AND 0xFFFF0000) 16 \<longleftrightarrow> bit (x :: u32) 16" for x
    unfolding low_mask by (simp add: bit_simps)
  have "unat (of_nat i :: u32) < 2 ^ 16" using that(2) by (simp add: unat_slot MAX_CONNECTIONS_def)
  then have "next_uid u i AND 0xFFFF0000 = (u + 0x00010000) AND 0xFFFF0000"
    unfolding next_uid_def by (rule uid_high)
  moreover have "bit (u + 0x00010000) 16 \<longleftrightarrow> \<not> bit u 16"
  proof -
    have b: "bit (x :: u32) 16 \<longleftrightarrow> odd (unat x div 2 ^ 16)" for x
      using bit_unsigned_iff [of x 16, where 'a = nat] by (simp add: bit_iff_odd)
    define n where "n = unat u"
    have "unat (u + 0x00010000) = (n + 2 ^ 16) mod 2 ^ 32"
      by (simp add: n_def unat_word_ariths(1))
    then have "unat (u + 0x00010000) div 2 ^ 16 = (n div 2 ^ 16 + 1) mod 2 ^ 16"
    proof -
      have "(n + 2 ^ 16) mod (2 ^ 16 * 2 ^ 16) div 2 ^ 16 = (n + 2 ^ 16) div 2 ^ 16 mod 2 ^ 16"
        by (simp only: mod_mult2_eq) simp
      moreover have "(n + 2 ^ 16) div 2 ^ 16 = n div 2 ^ 16 + 1" by simp
      ultimately show ?thesis
        using \<open>unat (u + 0x00010000) = (n + 2 ^ 16) mod 2 ^ 32\<close> by simp
    qed
    moreover have "even (x mod 2 ^ 16) \<longleftrightarrow> even x" for x :: nat
      by (rule dvd_mod_iff) simp
    ultimately show ?thesis unfolding b n_def by (simp only: even_Suc Suc_eq_plus1 [symmetric])
  qed
  ultimately show ?thesis using high that(1) by metis
qed

context conn_protocols
begin

lemma close_operation_uid:
  assumes inv: "cm_inv env X m" and i: "i < MAX_CONNECTIONS" "inuse m i" "ops_on i m = []"
  shows "c_uid (ctl (internal_close_operation env i m) ! i) AND 0xFFFF0000 = c_uid (ctl m ! i) AND 0xFFFF0000
    \<and> i < unat (next_unused_slot (internal_close_operation env i m))"
proof -
  have used: "i < unat (next_unused_slot m')" if "cm_inv env X m'" "inuse m' i" for m'
    using that i(1) by (simp add: cm_inv_def cm_base_def)
  have keep: "next_unused_slot (internal_free i m') = next_unused_slot m'" for m' :: "('p, 'd, 'w) connmgr"
    by (simp add: internal_free_def Let_def)
  have fin: "c_uid (ctl (internal_free i m') ! i) AND 0xFFFF0000 = c_uid (ctl m' ! i) AND 0xFFFF0000"
    if "i < length (ctl m')" for m' :: "('p, 'd, 'w) connmgr"
  proof -
    have "unat (ucast (freelist m') :: u32) < 2 ^ 16"
      unfolding unat_ucast_u16 using unsigned_less [of "freelist m'", where 'a = nat] by simp
    then show ?thesis using that by (simp add: internal_free_def Let_def upd_conn_def uid_high)
  qed
  show ?thesis
  proof (cases "c_proto (ctl m ! i)")
    case None
    then show ?thesis
      using fin cm_inv_simps(1) [OF inv] i(1) used [OF inv i(2)]
      by (simp add: keep internal_close_operation_def internal_dispatch_on_close_def Let_def)
  next
    case (Some p)
    define m2 where "m2 = on_close env p (c_uid (ctl m ! i)) m"
    have "callable env X m i p (c_uid (ctl m ! i))" using inv i Some by (simp add: callable_def)
    note m2 = close [OF this, folded m2_def, unfolded conn_frame_def]
    have "i < length (ctl m2)" using cm_inv_simps(1) [of env X m2] m2 i by simp
    then show ?thesis
      using fin m2 Some used [of m2]
      by (simp add: keep internal_close_operation_def internal_dispatch_on_close_def Let_def nth_upd_conn
          flip: m2_def)
  qed
qed

lemma stale_uid:
  assumes inv: "cm_inv env X m" and i: "i < MAX_CONNECTIONS" "inuse m i" "ops_on i m = []"
  defines "m1 \<equiv> internal_close_operation env i m"
  shows "conn_lookup (c_uid (ctl m ! i)) m1 = Some None
    \<and> (\<forall>m2. internal_alloc m1 = Some (i, m2) \<longrightarrow> conn_lookup (c_uid (ctl m ! i)) m2 = Some None)"
proof -
  have c: "cm_base env m1" "\<not> inuse m1 i"
    using close_operation_inv [OF inv i] by (auto simp: m1_def cm_inv_def)
  have slot: "conn_slot (c_uid (ctl m ! i)) = i"
    using cm_inv_simps(2) [OF inv i(1)] i(2) by (simp add: conn_ok_def)
  have high: "c_uid (ctl m1 ! i) AND 0xFFFF0000 = c_uid (ctl m ! i) AND 0xFFFF0000"
    using close_operation_uid [OF inv i] by (simp add: m1_def)
  have len: "length (ctl m1) = MAX_CONNECTIONS" using c(1) by (simp add: cm_base_def)
  have "c_uid (ctl m1 ! i) \<noteq> c_uid (ctl m ! i)"
  proof
    assume same: "c_uid (ctl m1 ! i) = c_uid (ctl m ! i)"
    obtain fl where fl: "free_chain (ctl m1) (freelist m1) fl" "distinct fl"
        "set fl = {i. i < unat (next_unused_slot m1) \<and> \<not> inuse m1 i}"
      using c(1) unfolding cm_base_def by blast
    show False
    proof (cases "i < unat (next_unused_slot m1)")
      case True
      then have "i \<in> set fl" using c(2) fl(3) by simp
      then show False using free_chain_next [OF fl(1,2)] slot same by metis
    next
      case False
      then show False using close_operation_uid [OF inv i] by (simp add: m1_def)
    qed
  qed
  moreover have "conn_lookup (c_uid (ctl m ! i)) m2 = Some None"
    if a: "internal_alloc m1 = Some (i, m2)" for m2
  proof -
    have "ctl m2 ! i = (ctl m1 ! i)\<lparr>c_uid := next_uid (c_uid (ctl m1 ! i)) i, c_flags := CONN_INUSE\<rparr>"
      "length (ctl m2) = MAX_CONNECTIONS"
      using alloc_Some(4) [OF c(1) a] len i(1) by simp_all
    moreover have "next_uid (c_uid (ctl m1 ! i)) i \<noteq> c_uid (ctl m ! i)"
      using counter_changes [OF high i(1)] by auto
    ultimately show ?thesis using slot i(1) by (simp add: conn_lookup_def)
  qed
  ultimately show ?thesis using slot i(1) len by (simp add: conn_lookup_def)
qed

end

text \<open>A uid kept after its connection was released is recognised as stale: no operation through it
  touches the slot, neither while the slot is free nor after it was given to the next connection.\<close>

theorem connmgr_stale_uid:
  assumes "conn_protocols env" "cm_inv env X m" "i < MAX_CONNECTIONS" "inuse m i" "ops_on i m = []"
  shows "conn_lookup (c_uid (ctl m ! i)) (internal_close_operation env i m) = Some None
    \<and> (\<forall>m2. internal_alloc (internal_close_operation env i m) = Some (i, m2) \<longrightarrow>
        conn_lookup (c_uid (ctl m ! i)) m2 = Some None)"
  by (rule conn_protocols.stale_uid [OF assms])

text \<open>The uid 0 is not handed out before the counter of slot 0 wraps around, but before the first
  connection it passes the staleness test: closing it puts the unused slot 0 on the free list, and
  the next two connections are both given slot 0.\<close>

theorem connmgr_uid_zero:
  "\<exists>m1 m2 m3. connection_close env 0 (cm_init svcs w null) = Some m1
     \<and> internal_alloc m1 = Some (0, m2) \<and> internal_alloc m2 = Some (0, m3)"
proof -
  define m where "m = cm_init svcs w null"
  have m: "length (ctl m) = MAX_CONNECTIONS" "freelist m = 0xFFFF" "next_unused_slot m = 0"
    "c_uid (ctl m ! 0) = 0" "c_pending_work (ctl m ! 0) = 0" "c_proto (ctl m ! 0) = None"
    "(0 :: nat) < MAX_CONNECTIONS"
    by (simp_all add: m_def cm_init_def MAX_CONNECTIONS_def)
  define m1 where "m1 = internal_close_operation env 0 m"
  have "conn_lookup 0 m = Some (Some 0)" using m by (simp add: conn_lookup_def conn_slot_def)
  then have "connection_close env 0 m = Some m1"
    using m by (simp add: connection_close_def internal_close_def internal_start_close_operation_def m1_def)
  moreover have m1: "length (ctl m1) = MAX_CONNECTIONS" "freelist m1 = 0" "next_unused_slot m1 = 0"
    "c_uid (ctl m1 ! 0) = 0xFFFF"
    using m by (simp_all add: m1_def internal_close_operation_def internal_dispatch_on_close_def
        internal_free_def Let_def nth_upd_conn unsigned_ucast_eq)
  obtain m2 where m2: "internal_alloc m1 = Some (0, m2)" "freelist m2 = 0xFFFF" "next_unused_slot m2 = 0"
    using m1 by (auto simp: internal_alloc_def Let_def)
  moreover obtain m3 where "internal_alloc m2 = Some (0, m3)"
    using m2 by (auto simp: internal_alloc_def Let_def MAX_CONNECTIONS_def)
  ultimately show ?thesis unfolding m_def by blast
qed


end
