(* ===== verification/Protocol_Echo.thy ===== *)
theory Protocol_Echo
  imports Connmgr_Inv
begin

text \<open>
  The echo protocol \<^verbatim>\<open>src/src/protocol_echo.c\<close>: its callbacks, as transformers of the connection
  manager's state, and the proof that they keep the contract \<^theory_text>\<open>conn_protocols\<close>.  The handle that
  \<^verbatim>\<open>*connection_userdata(c)\<close> points to is owned by one connection, so it is kept as a value; \<^theory_text>\<open>None\<close>
  is a null or wrong pointer.
\<close>

definition ECHO_BUFFER_SIZE :: nat where
  "ECHO_BUFFER_SIZE = 1024 - 1"

record echo_handle =
  output_ready :: bool
  output_buffer :: bytes

type_synonym ('p, 'w) echo_mgr = "('p, echo_handle, 'w) connmgr"

text \<open>\<^verbatim>\<open>*connection_userdata(c)\<close> read and written.\<close>

definition get_handle :: "u32 \<Rightarrow> ('p, 'd, 'w) connmgr \<Rightarrow> 'd option" where
  "get_handle c m =
     (case connection_userdata c m of
        Some (Some i) \<Rightarrow> (case c_udata (ctl m ! i) of Udata_data h \<Rightarrow> Some h | Udata_service k \<Rightarrow> None)
      | _ \<Rightarrow> None)"

definition set_handle :: "u32 \<Rightarrow> 'd \<Rightarrow> ('p, 'd, 'w) connmgr \<Rightarrow> ('p, 'd, 'w) connmgr option" where
  "set_handle c h m =
     (case connection_userdata c m of
        Some (Some i) \<Rightarrow> Some (upd_conn i (\<lambda>k. k\<lparr>c_udata := Udata_data h\<rparr>) m)
      | _ \<Rightarrow> None)"

definition echo_identify :: "bytes \<Rightarrow> bool" where
  "echo_identify data \<longleftrightarrow> length data \<ge> 4
     \<and> data ! 0 = 0x45 \<and> data ! 1 = 0x43 \<and> data ! 2 = 0x48 \<and> data ! 3 = 0x4F"

definition echo_on_assign_protocol ::
  "bytes \<Rightarrow> u32 \<Rightarrow> ('p, 'w) echo_mgr \<Rightarrow> (bool \<times> ('p, 'w) echo_mgr) option" where
  "echo_on_assign_protocol junk c m = do {
     m1 \<leftarrow> set_handle c \<lparr>output_ready = True, output_buffer = junk\<rparr> m;
     Some (True, m1)
   }"

definition echo_on_close :: "u32 \<Rightarrow> ('p, 'w) echo_mgr \<Rightarrow> ('p, 'w) echo_mgr option" where
  "echo_on_close c m = map_option (\<lambda>h. m) (get_handle c m)"

definition echo_on_write ::
  "u32 \<Rightarrow> ('p, 'w) echo_mgr \<Rightarrow> (protocol_status \<times> ('p, 'w) echo_mgr) option" where
  "echo_on_write c m = do {
     h \<leftarrow> get_handle c m;
     m1 \<leftarrow> set_handle c (h\<lparr>output_ready := True\<rparr>) m;
     Some (PROTO_OK, m1)
   }"

definition echo_on_recv_message ::
  "'w conn_os \<Rightarrow> u32 \<Rightarrow> bytes \<Rightarrow> ('p, 'w) echo_mgr \<Rightarrow> (protocol_status \<times> ('p, 'w) echo_mgr) option" where
  "echo_on_recv_message sys c data m = do {
     h \<leftarrow> get_handle c m;
     if output_ready h then do {
       let output_length = min (length data) (ECHO_BUFFER_SIZE - 2);
       b1 \<leftarrow> mem_write 0 (encode_u16_le (of_nat output_length)) (output_buffer h);
       b2 \<leftarrow> mem_write 2 (take output_length data) b1;
       m1 \<leftarrow> set_handle c (h\<lparr>output_buffer := b2\<rparr>) m;
       (sent, m2) \<leftarrow> connection_send sys c b2 (of_nat (output_length + 2)) m1;
       (if sent then do {
          m3 \<leftarrow> set_handle c (h\<lparr>output_buffer := b2, output_ready := False\<rparr>) m2;
          Some (PROTO_OK, m3)
        } else Some (PROTO_OK, m2))
     }
     else Some (PROTO_OK, m)
   }"

definition echo_on_recv_first_message ::
  "'w conn_os \<Rightarrow> u32 \<Rightarrow> bytes \<Rightarrow> ('p, 'w) echo_mgr \<Rightarrow> (protocol_status \<times> ('p, 'w) echo_mgr) option" where
  "echo_on_recv_first_message sys c data m = echo_on_recv_message sys c (drop 4 data) m"

text \<open>An environment that runs the echo protocol only, as protocol reference \<^theory_text>\<open>()\<close>.  A callback
  whose result is \<^theory_text>\<open>None\<close> has no value here; the lemmas below show it does not occur on a
  connection that the protocol was assigned to.\<close>

definition echo_env :: "'w conn_os \<Rightarrow> bytes \<Rightarrow> (unit, echo_handle, 'w) conn_env" where
  "echo_env sys junk = \<lparr>os = sys,
     proto_info = \<lparr>sends_first = (\<lambda>p. False), identify = (\<lambda>p. echo_identify)\<rparr>,
     on_assign_protocol = (\<lambda>p c m. case echo_on_assign_protocol junk c m of Some r \<Rightarrow> r | None \<Rightarrow> (False, m)),
     on_close = (\<lambda>p c m. case echo_on_close c m of Some m' \<Rightarrow> m' | None \<Rightarrow> m),
     on_connect = (\<lambda>p c m. (PROTO_ABORT, m)),
     on_write = (\<lambda>p c m. case echo_on_write c m of Some r \<Rightarrow> r | None \<Rightarrow> (PROTO_ABORT, m)),
     on_recv_message = (\<lambda>p c d m. case echo_on_recv_message sys c d m of Some r \<Rightarrow> r | None \<Rightarrow> (PROTO_ABORT, m)),
     on_recv_first_message = (\<lambda>p c d m.
        case echo_on_recv_first_message sys c d m of Some r \<Rightarrow> r | None \<Rightarrow> (PROTO_ABORT, m))\<rparr>"

subsection \<open>The callbacks keep the contract\<close>

lemma callable_lookup:
  assumes "callable env X m i p c"
  shows "conn_lookup c m = Some (Some i)"
proof -
  have inv: "cm_inv env X m" and i: "i < MAX_CONNECTIONS" "inuse m i" "c_uid (ctl m ! i) = c"
    using assms by (auto simp: callable_def)
  have "conn_slot c = i" using cm_inv_simps(2) [OF inv i(1)] i by (auto simp: conn_ok_def)
  then show ?thesis using i cm_inv_simps(1) [OF inv] by (simp add: conn_lookup_def)
qed

lemma set_handle_callable:
  assumes call: "callable env X m i p c"
  shows "\<exists>m'. set_handle c h m = Some m' \<and> callable env X m' i p c \<and> conn_frame i m m'
    \<and> c_udata (ctl m' ! i) = Udata_data h \<and> ops_on i m' = ops_on i m"
proof -
  have inv: "cm_inv env X m" and i: "i < MAX_CONNECTIONS" "inuse m i"
    and p: "c_proto (ctl m ! i) = Some p" "c_uid (ctl m ! i) = c"
    using call by (auto simp: callable_def)
  have len: "i < length (ctl m)" using i cm_inv_simps(1) [OF inv] by simp
  define m' where "m' = upd_conn i (\<lambda>k. k\<lparr>c_udata := Udata_data h\<rparr>) m"
  have ctl: "ctl m' ! i = (ctl m ! i)\<lparr>c_udata := Udata_data h\<rparr>" using len by (simp add: m'_def nth_upd_conn)
  have "conn_ok X m' i"
    using cm_inv_simps(2) [OF inv i(1)] i(2) p by (simp add: conn_ok_def conn_flag_def ctl) (simp add: m'_def)
  then have "cm_inv env X m'"
    using cm_inv_update [of env i X m m' "ctl m' ! i"] i cm_inv_mono [OF inv, of "insert i X"]
      cm_inv_simps(3) [OF inv] ctl
    by (auto simp: m'_def conn_flag_def upd_conn_def ops_on_def cm_base_def)
  then have "callable env X m' i p c" "conn_frame i m m'" "c_udata (ctl m' ! i) = Udata_data h"
      "ops_on i m' = ops_on i m"
    using i p ctl by (simp_all add: callable_def conn_frame_def conn_flag_def) (simp_all add: m'_def)
  moreover have "set_handle c h m = Some m'"
    using callable_lookup [OF call] by (simp add: set_handle_def connection_userdata_def m'_def)
  ultimately show ?thesis by blast
qed

lemma send_callable:
  assumes "callable env X m i p c"
  shows "\<exists>ok m'. connection_send sys c data n m = Some (ok, m') \<and> callable env X m' i p c \<and> conn_frame i m m'"
proof -
  have inv: "cm_inv env X m" and i: "i < MAX_CONNECTIONS" "inuse m i" and p: "c_proto (ctl m ! i) = Some p"
    using assms by (auto simp: callable_def)
  then obtain ok m' where s: "connection_send sys c data n m = Some (ok, m')" "cm_inv env X m'" "conn_frame i m m'"
    using send_slot_inv [OF inv callable_lookup [OF assms] i, of sys data n] by auto
  have "c_uid (ctl m ! i) = c" using assms by (simp add: callable_def)
  then have "callable env X m' i p c" using s(2,3) i p by (simp add: callable_def conn_frame_def)
  then show ?thesis using s by blast
qed

lemma conn_frame_refl: "inuse m i \<Longrightarrow> conn_frame i m m"
  by (simp add: conn_frame_def)

lemma conn_frame_trans: "conn_frame i m1 m2 \<Longrightarrow> conn_frame i m2 m3 \<Longrightarrow> conn_frame i m1 m3"
  by (simp add: conn_frame_def)

lemma callable_keep: "callable env X m i p c \<Longrightarrow> cm_inv env X m \<and> conn_frame i m m"
  by (simp add: callable_def conn_frame_refl)

lemma callable_end: "callable env X m' i p c \<Longrightarrow> conn_frame i m m' \<Longrightarrow> cm_inv env X m' \<and> conn_frame i m m'"
  by (simp add: callable_def)

text \<open>The echo of one message, on a connection that has its handle.\<close>

lemma echo_recv_callable:
  assumes call: "callable env X m i p c" and h: "get_handle c m = Some h"
    and buf: "length (output_buffer h) = ECHO_BUFFER_SIZE"
  shows "\<exists>m'. echo_on_recv_message sys c data m = Some (PROTO_OK, m') \<and> cm_inv env X m' \<and> conn_frame i m m'"
proof (cases "output_ready h")
  case False
  then show ?thesis using h callable_keep [OF call] by (simp add: echo_on_recv_message_def)
next
  case True
  define n where "n = min (length data) (ECHO_BUFFER_SIZE - 2)"
  have n: "n + 2 \<le> ECHO_BUFFER_SIZE" by (simp add: n_def ECHO_BUFFER_SIZE_def)
  obtain b1 where b1: "mem_write 0 (encode_u16_le (of_nat n)) (output_buffer h) = Some b1" "length b1 = ECHO_BUFFER_SIZE"
    using n buf by (auto simp: mem_write_def)
  obtain b2 where b2: "mem_write 2 (take n data) b1 = Some b2"
    using n b1(2) by (auto simp: mem_write_def n_def)
  obtain m1 where m1: "set_handle c (h\<lparr>output_buffer := b2\<rparr>) m = Some m1" "callable env X m1 i p c" "conn_frame i m m1"
    using set_handle_callable [OF call] by blast
  obtain sent m2 where m2: "connection_send sys c b2 (of_nat (n + 2)) m1 = Some (sent, m2)"
      "callable env X m2 i p c" "conn_frame i m1 m2"
    using send_callable [OF m1(2)] by blast
  obtain m3 where m3: "set_handle c (h\<lparr>output_buffer := b2, output_ready := False\<rparr>) m2 = Some m3"
      "callable env X m3 i p c" "conn_frame i m2 m3"
    using set_handle_callable [OF m2(2)] by blast
  have "echo_on_recv_message sys c data m = Some (PROTO_OK, if sent then m3 else m2)"
    unfolding echo_on_recv_message_def Let_def using h True b1 b2 m1 m2 m3 by (simp add: n_def)
  moreover have "conn_frame i m m2" "conn_frame i m m3"
    using m1(3) m2(3) m3(3) conn_frame_trans by blast+
  ultimately show ?thesis
    using callable_end [OF m2(2)] callable_end [OF m3(2)] by (cases sent) auto
qed

lemma echo_recv_result:
  assumes call: "callable env X m i p c" and r: "echo_on_recv_message sys c data m = Some (st, m')"
  shows "cm_inv env X m' \<and> conn_frame i m m'"
proof -
  obtain h where h: "get_handle c m = Some h"
    using r by (auto simp: echo_on_recv_message_def bind_eq_Some_conv)
  show ?thesis
  proof (cases "output_ready h")
    case False
    then show ?thesis using r h callable_keep [OF call] by (simp add: echo_on_recv_message_def)
  next
    case True
    then obtain b m1 n sent m2 where s: "set_handle c (h\<lparr>output_buffer := b\<rparr>) m = Some m1"
        "connection_send sys c b n m1 = Some (sent, m2)"
        "(if sent then do {
            m3 \<leftarrow> set_handle c (h\<lparr>output_buffer := b, output_ready := False\<rparr>) m2;
            Some (PROTO_OK, m3)
          } else Some (PROTO_OK, m2)) = Some (st, m')"
      using r h by (fastforce simp: echo_on_recv_message_def Let_def bind_eq_Some_conv)
    have m1: "callable env X m1 i p c" "conn_frame i m m1"
      using set_handle_callable [OF call, of "h\<lparr>output_buffer := b\<rparr>"] s(1) by auto
    have m2: "callable env X m2 i p c" "conn_frame i m1 m2"
      using send_callable [OF m1(1), of sys b n] s(2) by auto
    show ?thesis
    proof (cases sent)
      case True
      then obtain m3 where "set_handle c (h\<lparr>output_buffer := b, output_ready := False\<rparr>) m2 = Some m3" "m' = m3"
        using s(3) by (auto simp: bind_eq_Some_conv)
      then have "callable env X m' i p c" "conn_frame i m2 m'"
        using set_handle_callable [OF m2(1), of "h\<lparr>output_buffer := b, output_ready := False\<rparr>"] by auto
      then show ?thesis using callable_end conn_frame_trans m1(2) m2(2) by meson
    next
      case False
      then show ?thesis using s(3) callable_end [OF m2(1)] conn_frame_trans [OF m1(2) m2(2)] by auto
    qed
  qed
qed

lemma echo_env_simps:
  "os (echo_env sys junk) = sys"
  "on_assign_protocol (echo_env sys junk) p c m =
     (case echo_on_assign_protocol junk c m of Some r \<Rightarrow> r | None \<Rightarrow> (False, m))"
  "on_close (echo_env sys junk) p c m = (case echo_on_close c m of Some m' \<Rightarrow> m' | None \<Rightarrow> m)"
  "on_connect (echo_env sys junk) p c m = (PROTO_ABORT, m)"
  "on_write (echo_env sys junk) p c m = (case echo_on_write c m of Some r \<Rightarrow> r | None \<Rightarrow> (PROTO_ABORT, m))"
  "on_recv_message (echo_env sys junk) p c d m =
     (case echo_on_recv_message sys c d m of Some r \<Rightarrow> r | None \<Rightarrow> (PROTO_ABORT, m))"
  "on_recv_first_message (echo_env sys junk) p c d m =
     (case echo_on_recv_first_message sys c d m of Some r \<Rightarrow> r | None \<Rightarrow> (PROTO_ABORT, m))"
  by (simp_all add: echo_env_def)

interpretation echo: conn_protocols "echo_env sys junk" for sys :: "'w conn_os" and junk :: bytes
proof unfold_locales
  fix X :: "nat set" and m m' :: "(unit, echo_handle, 'w) connmgr" and i p c ok st data
  assume call: "callable (echo_env sys junk) X m i p c"
  note keep = callable_keep [OF call]
  have set: "cm_inv (echo_env sys junk) X m' \<and> conn_frame i m m'" if "set_handle c h m = Some m'" for h m'
    using set_handle_callable [OF call, of h] callable_end that by fastforce
  have recv: "(case echo_on_recv_message sys c d m of Some r \<Rightarrow> r | None \<Rightarrow> (PROTO_ABORT, m)) = (st, m') \<Longrightarrow>
      cm_inv (echo_env sys junk) X m' \<and> conn_frame i m m'" for d
    using echo_recv_result [OF call, of sys d] keep
    by (cases "echo_on_recv_message sys c d m") auto
  let ?h = "\<lparr>output_ready = True, output_buffer = junk\<rparr>"
  show "on_assign_protocol (echo_env sys junk) p c m = (ok, m') \<Longrightarrow>
      cm_inv (echo_env sys junk) X m' \<and> conn_frame i m m'"
    using set [of ?h] keep
    by (cases "set_handle c ?h m") (auto simp: echo_env_simps echo_on_assign_protocol_def)
  show "cm_inv (echo_env sys junk) X (on_close (echo_env sys junk) p c m)
      \<and> conn_frame i m (on_close (echo_env sys junk) p c m)
      \<and> ops_on i (on_close (echo_env sys junk) p c m) = ops_on i m"
    using keep by (cases "get_handle c m") (simp_all add: echo_env_simps echo_on_close_def)
  show "on_connect (echo_env sys junk) p c m = (st, m') \<Longrightarrow>
      cm_inv (echo_env sys junk) X m' \<and> conn_frame i m m' \<and> st \<noteq> PROTO_STOP_READING"
    using keep by (auto simp: echo_env_simps)
  show "on_write (echo_env sys junk) p c m = (st, m') \<Longrightarrow>
      cm_inv (echo_env sys junk) X m' \<and> conn_frame i m m' \<and> st \<noteq> PROTO_STOP_READING"
  proof (cases "get_handle c m")
    case (Some h)
    then show "on_write (echo_env sys junk) p c m = (st, m') \<Longrightarrow> ?thesis"
      using set [of "h\<lparr>output_ready := True\<rparr>"] keep
      by (cases "set_handle c (h\<lparr>output_ready := True\<rparr>) m") (auto simp: echo_env_simps echo_on_write_def)
  qed (use keep in \<open>auto simp: echo_env_simps echo_on_write_def\<close>)
  show "on_recv_message (echo_env sys junk) p c data m = (st, m') \<Longrightarrow>
      cm_inv (echo_env sys junk) X m' \<and> conn_frame i m m'"
    using recv by (simp add: echo_env_simps)
  show "on_recv_first_message (echo_env sys junk) p c data m = (st, m') \<Longrightarrow>
      cm_inv (echo_env sys junk) X m' \<and> conn_frame i m m'"
    using recv by (simp add: echo_env_simps echo_on_recv_first_message_def)
qed

subsection \<open>A server that runs the echo protocol\<close>

text \<open>An OS that starts every operation, and one accepted connection on socket 5.\<close>

definition willing_os :: "unit conn_os" where
  "willing_os = \<lparr>wsa_recv = (\<lambda>s n w. (True, w)), wsa_send = (\<lambda>s n d w. (True, w)),
     cancel_io = (\<lambda>s a w. w), closesocket = (\<lambda>s w. w)\<rparr>"

abbreviation echo_server :: "(unit, echo_handle, unit) conn_env" where
  "echo_server \<equiv> echo_env willing_os (replicate ECHO_BUFFER_SIZE 0)"

definition echo_init :: "(unit, echo_handle, unit) connmgr" where
  "echo_init = cm_init [new_service () 7171] () \<lparr>output_ready = False, output_buffer = []\<rparr>"

lemma echo_services: "services_ok (proto_info echo_server) [new_service () 7171]"
  by (simp add: services_ok_def new_service_def MAX_SERVER_SERVICES_def MAX_SERVICE_PROTOCOLS_def echo_env_def)

lemma echo_init_simps:
  "length (ctl echo_init) = MAX_CONNECTIONS" "freelist echo_init = 0xFFFF" "next_unused_slot echo_init = 0"
  "services echo_init = [new_service () 7171]" "io_pending echo_init = []"
  "c_uid (ctl echo_init ! 0) = 0" "c_flags (ctl echo_init ! 0) = 0"
  by (simp_all add: echo_init_def cm_init_def MAX_CONNECTIONS_def)

lemma echo_init_inv: "cm_inv echo_server {} echo_init"
  unfolding echo_init_def by (rule cm_init_inv [OF echo_services])

lemma echo_init_reach: "cm_reach echo_server [new_service () 7171] echo_init"
  unfolding echo_init_def by (rule cm_initial)

text \<open>The state after the first connection was accepted: slot 0 waits for a message length.\<close>

definition echo_accepted :: "(unit, echo_handle, unit) connmgr" where
  "echo_accepted = upd_conn 0 (conn_setup 5 0) (upd_conn 0
     (\<lambda>c. c\<lparr>c_uid := 0x00010000, c_flags := CONN_INUSE\<rparr>) (echo_init\<lparr>next_unused_slot := 1\<rparr>))"

definition echo_started :: "(unit, echo_handle, unit) connmgr" where
  "echo_started = upd_conn 0 (\<lambda>c. c\<lparr>c_pending_work := c_pending_work c + 1\<rparr>)
     (echo_accepted\<lparr>io_pending := [(0, Read_length)]\<rparr>)"

lemma echo_accepted_simps:
  "ctl echo_accepted ! 0 = conn_setup 5 0 ((ctl echo_init ! 0)\<lparr>c_uid := 0x00010000, c_flags := CONN_INUSE\<rparr>)"
  "length (ctl echo_accepted) = MAX_CONNECTIONS" "services echo_accepted = [new_service () 7171]"
  "io_pending echo_accepted = []"
  by (simp_all add: echo_accepted_def nth_upd_conn upd_conn_def echo_init_simps MAX_CONNECTIONS_def)

lemma echo_alloc: "internal_alloc echo_init = Some (0, upd_conn 0
     (\<lambda>c. c\<lparr>c_uid := 0x00010000, c_flags := CONN_INUSE\<rparr>) (echo_init\<lparr>next_unused_slot := 1\<rparr>))"
  by (simp add: internal_alloc_def echo_init_simps MAX_CONNECTIONS_def upd_conn_def)

lemma echo_dispatch: "internal_dispatch_on_connect echo_server 0 echo_accepted = Some (PROTO_OK, echo_accepted)"
  by (simp add: internal_dispatch_on_connect_def echo_accepted_simps conn_setup_def new_service_def
      service_sends_first_def echo_env_def)

lemma unit_world: "m\<lparr>world := (), io_pending := io\<rparr> = m\<lparr>io_pending := io\<rparr>"
  for m :: "('p, 'd, unit) connmgr"
  by (cases m) simp

lemma echo_read: "internal_start_async_read echo_server 0 2 Read_length echo_accepted = (True, echo_started)"
  by (simp add: internal_start_async_read_def echo_env_def willing_os_def echo_accepted_simps
      echo_started_def unit_world)

lemma echo_start: "connmgr_start_connection echo_server 5 0 echo_init = Some echo_started"
  using echo_dispatch echo_read
  by (simp add: connmgr_start_connection_def echo_alloc echo_accepted_def)

lemma echo_started_state: "inuse echo_started 0" "ops_on 0 echo_started = [Read_length]"
  "c_uid (ctl echo_started ! 0) = 0x00010000"
  by (simp_all add: echo_started_def conn_flag_def nth_upd_conn echo_accepted_simps MAX_CONNECTIONS_def
      conn_setup_def flag_defs ops_on_def)

lemma echo_started_reach: "cm_reach echo_server [new_service () 7171] echo_started"
proof -
  have "cm_step echo_server echo_init (Some echo_started)"
    using cm_start [of 0 echo_init echo_server 5] by (simp add: echo_start echo_init_simps)
  then show ?thesis by (rule cm_next [OF echo_init_reach])
qed

lemma echo_init_free: "0 < MAX_CONNECTIONS \<and> \<not> inuse echo_init 0"
  by (simp add: conn_flag_def echo_init_simps MAX_CONNECTIONS_def)

subsection \<open>Witnesses of the connection manager's properties\<close>


theorem connmgr_pending_work_exact_witness:
  "c_pending_work (ctl echo_started ! 0) = int (length (ops_on 0 echo_started))
   \<and> ops_on 0 echo_started = [Read_length]"
  using connmgr_pending_work_exact [OF echo.conn_protocols_axioms echo_services echo_started_reach, of 0]
    echo_started_state by (simp add: MAX_CONNECTIONS_def)

theorem connmgr_slots_witness: "internal_alloc echo_init \<noteq> None"
  using connmgr_slots [OF echo.conn_protocols_axioms echo_services echo_init_reach] echo_init_free by blast

theorem connmgr_stale_uid_witness:
  "conn_lookup 0x00010000 (internal_close_operation echo_server 0 (completed 0 Read_length 0 [] echo_started))
     = Some None"
proof -
  let ?m = "completed 0 Read_length 0 [] echo_started"
  have "(0, Read_length) \<in> set (io_pending echo_started)" by (simp add: echo_started_def)
  then have c: "cm_inv echo_server {0} ?m" "inuse ?m 0" "0 < MAX_CONNECTIONS"
    using completed_inv [OF echo.reach_inv [OF echo_started_reach echo_services], of 0 Read_length "[]" 0]
    by auto
  have "ops_on 0 ?m = []" "c_uid (ctl ?m ! 0) = 0x00010000"
    using echo_started_state
    by (simp_all add: completed_def work_done_def Let_def is_read_def nth_upd_conn
        ops_on_def echo_started_def echo_accepted_simps MAX_CONNECTIONS_def)
  then show ?thesis using connmgr_stale_uid [OF echo.conn_protocols_axioms c(1,3,2)] by simp
qed

subsection \<open>Properties\<close>

text \<open>On a connection that has its handle, the echo protocol never fails.  With no reply under way
  it answers a message with the 16-bit length and the message, cut to 1021 bytes, in one write of
  exactly these bytes; while a reply is under way it drops the message and changes nothing.\<close>

theorem echo_replies:
  assumes "callable env X m i p c" "get_handle c m = Some h"
    and "length (output_buffer h) = ECHO_BUFFER_SIZE" "\<not> conn_flag CONN_OUTPUT_IN_PROGRESS m i"
  shows "(\<not> output_ready h \<longrightarrow> echo_on_recv_message sys c data m = Some (PROTO_OK, m))
    \<and> (output_ready h \<longrightarrow> (\<exists>m' n. n = min (length data) 1021
         \<and> echo_on_recv_message sys c data m = Some (PROTO_OK, m')
         \<and> unat (c_output_len (ctl m' ! i)) = n + 2
         \<and> take (n + 2) (c_output_data (ctl m' ! i)) = encode_u16_le (of_nat n) @ take n data))"
proof -
  define n where "n = min (length data) 1021"
  have look: "conn_lookup c m = Some (Some i)" by (rule callable_lookup [OF assms(1)])
  have i: "i < MAX_CONNECTIONS" "i < length (ctl m)" "c_uid (ctl m ! i) = c" "conn_slot c = i"
    using assms(1) cm_inv_simps(1) [of env X m] look
    by (auto simp: callable_def conn_lookup_def split: if_splits)
  define b where "b = encode_u16_le (of_nat n) @ take n data @ drop (n + 2) (output_buffer h)"
  define m1 where "m1 = upd_conn i (\<lambda>k. k\<lparr>c_udata := Udata_data (h\<lparr>output_buffer := b\<rparr>)\<rparr>) m"
  define m2 where "m2 = upd_conn i (\<lambda>k. k\<lparr>c_output_data := b, c_output_len := of_nat (n + 2)\<rparr>) m1"
  obtain sent m3 where send: "internal_start_async_write sys i m2 = (sent, m3)" by fastforce
  have n: "n + 2 \<le> 1023" "length (take n data) = n" by (simp_all add: n_def)
  have ctl2: "c_output_data (ctl m2 ! i) = b" "c_output_len (ctl m2 ! i) = of_nat (n + 2)"
    "length (ctl m2) = length (ctl m)"
    using i(2) by (simp_all add: m2_def m1_def nth_upd_conn)
  have m3: "c_output_data (ctl m3 ! i) = b" "c_output_len (ctl m3 ! i) = of_nat (n + 2)"
      "length (ctl m3) = length (ctl m)" "c_uid (ctl m3 ! i) = c"
    using send ctl2 i
    by (auto simp: internal_start_async_write_def Let_def nth_upd_conn m2_def m1_def split: prod.splits if_splits)
  have look': "conn_lookup c m1 = Some (Some i)" "\<not> conn_flag CONN_OUTPUT_IN_PROGRESS m1 i"
    "conn_lookup c m3 = Some (Some i)"
    using i m3 assms(4) by (simp_all add: conn_lookup_def m1_def nth_upd_conn conn_flag_def)
  have bytes: "mem_write 0 (encode_u16_le (of_nat n)) (output_buffer h) \<bind> mem_write 2 (take n data) = Some b"
    using n assms(3) by (simp add: mem_write_def b_def ECHO_BUFFER_SIZE_def)
  have "echo_on_recv_message sys c data m = Some (PROTO_OK,
      if sent then upd_conn i (\<lambda>k. k\<lparr>c_udata := Udata_data (h\<lparr>output_buffer := b, output_ready := False\<rparr>)\<rparr>) m3
      else m3)" if "output_ready h"
    using that assms(2) look look' bytes send
    by (simp add: echo_on_recv_message_def Let_def set_handle_def connection_userdata_def connection_send_def
        ECHO_BUFFER_SIZE_def m1_def m2_def flip: n_def bind_assoc)
  moreover have "unat (of_nat (n + 2) :: u32) = n + 2" using n by (simp only: unat_of_nat) simp
  moreover have "take (n + 2) b = encode_u16_le (of_nat n) @ take n data" using n by (simp add: b_def)
  ultimately show ?thesis
    using m3 i assms(2)
    by (auto simp: echo_on_recv_message_def nth_upd_conn n_def [symmetric] intro!: exI)
qed

theorem echo_replies_witness:
  "\<exists>(m :: (unit, echo_handle, unit) connmgr) m' h. get_handle 0x00010000 m = Some h \<and> output_ready h
     \<and> echo_on_recv_message willing_os 0x00010000 [7, 8, 9] m = Some (PROTO_OK, m')
     \<and> take 5 (c_output_data (ctl m' ! 0)) = [3, 0, 7, 8, 9]"
proof -
  let ?h = "\<lparr>output_ready = True, output_buffer = replicate ECHO_BUFFER_SIZE 0\<rparr>"
  define m0 where "m0 = upd_conn 0 (\<lambda>c. c\<lparr>c_proto := Some ()\<rparr>) echo_started"
  have "callable echo_server {} m0 0 () (c_uid (ctl echo_started ! 0))"
    unfolding m0_def using echo_started_state(1) echo_init_free
      echo.reach_inv [OF echo_started_reach echo_services] by (intro echo.set_proto_inv) auto
  then have call: "callable echo_server {} m0 0 () 0x00010000" by (simp add: echo_started_state)
  obtain m where m: "set_handle 0x00010000 ?h m0 = Some m" "callable echo_server {} m 0 () 0x00010000"
      "c_udata (ctl m ! 0) = Udata_data ?h"
    using set_handle_callable [OF call, of ?h] by blast
  have get: "get_handle 0x00010000 m = Some ?h"
    using callable_lookup [OF m(2)] m(3) by (simp add: get_handle_def connection_userdata_def)
  have "m = upd_conn 0 (\<lambda>k. k\<lparr>c_udata := Udata_data ?h\<rparr>) m0"
    using m(1) callable_lookup [OF call] by (simp add: set_handle_def connection_userdata_def)
  then have idle: "\<not> conn_flag CONN_OUTPUT_IN_PROGRESS m 0"
    by (simp add: m0_def conn_flag_def nth_upd_conn echo_started_def echo_accepted_simps conn_setup_def
        MAX_CONNECTIONS_def flag_defs)
  have h: "length (output_buffer ?h) = ECHO_BUFFER_SIZE" "output_ready ?h" by simp_all
  obtain m' n where n: "n = min (length [7, 8, 9 :: u8]) 1021"
      and m': "echo_on_recv_message willing_os 0x00010000 [7, 8, 9] m = Some (PROTO_OK, m')"
      and out: "take (n + 2) (c_output_data (ctl m' ! 0)) = encode_u16_le (of_nat n) @ take n [7, 8, 9]"
    using echo_replies [OF m(2) get h(1) idle, of willing_os "[7, 8, 9]"] h(2) by blast
  have "n = 3" using n by simp
  then have "take 5 (c_output_data (ctl m' ! 0)) = [3, 0, 7, 8, 9]"
    using out by (simp add: encode_u16_le_def)
  then show ?thesis using get m' h(2) by blast
qed

end
