(* ===== verification/Svcmgr.thy ===== *)
theory Svcmgr
  imports Connmgr_Inv
begin

text \<open>
  The accept loop of \<^verbatim>\<open>src/src/server/iocp_svcmgr.c\<close>: opening and closing the listening sockets of
  the services, the asynchronous accepts, and what is done when one completes.  The services are
  those of the connection manager's state; \<open>accept_pending\<close> lists the services that have an accept
  outstanding at the OS.  A completed accept hands its socket to the connection manager.
\<close>

subsection \<open>State\<close>

text \<open>The winsock calls of the service manager.  A \<^verbatim>\<open>SOCKET\<close> is a number, \<^verbatim>\<open>INVALID_SOCKET\<close> is
  \<^theory_text>\<open>None\<close>.  \<open>accept_ex\<close> tells whether the accept was started (at once or \<^verbatim>\<open>WSA_IO_PENDING\<close>).\<close>

record 'w svc_os =
  wsa_socket :: "'w \<Rightarrow> nat option \<times> 'w"
  bind_iocp :: "nat \<Rightarrow> 'w \<Rightarrow> bool \<times> 'w"
  sock_bind :: "nat \<Rightarrow> int \<Rightarrow> 'w \<Rightarrow> bool \<times> 'w"
  sock_listen :: "nat \<Rightarrow> 'w \<Rightarrow> bool \<times> 'w"
  accept_ex :: "nat option \<Rightarrow> nat \<Rightarrow> 'w \<Rightarrow> bool \<times> 'w"
  cancel_accept :: "nat option \<Rightarrow> 'w \<Rightarrow> 'w"

record ('p, 'd, 'w) server =
  mgr :: "('p, 'd, 'w) connmgr"
  accept_pending :: "nat list"

definition MAX_TRIES_BEFORE_REOPEN :: nat where
  "MAX_TRIES_BEFORE_REOPEN = 5"

definition svc_at :: "('p, 'd, 'w) server \<Rightarrow> nat \<Rightarrow> 'p service" where
  "svc_at m i = services (mgr m) ! i"

definition upd_svc ::
  "nat \<Rightarrow> ('p service \<Rightarrow> 'p service) \<Rightarrow> ('p, 'd, 'w) server \<Rightarrow> ('p, 'd, 'w) server" where
  "upd_svc i f m = m\<lparr>mgr := (mgr m)\<lparr>services := (services (mgr m))[i := f (svc_at m i)]\<rparr>\<rparr>"

definition set_world :: "'w \<Rightarrow> ('p, 'd, 'w) server \<Rightarrow> ('p, 'd, 'w) server" where
  "set_world w m = m\<lparr>mgr := (mgr m)\<lparr>world := w\<rparr>\<rparr>"

text \<open>\<^verbatim>\<open>closesocket\<close>, which does nothing for \<^verbatim>\<open>INVALID_SOCKET\<close>.\<close>

definition close_opt :: "('p, 'd, 'w) conn_env \<Rightarrow> nat option \<Rightarrow> ('p, 'd, 'w) server \<Rightarrow> ('p, 'd, 'w) server" where
  "close_opt env s m =
     (case s of None \<Rightarrow> m | Some n \<Rightarrow> set_world (closesocket (os env) n (world (mgr m))) m)"

subsection \<open>Operations\<close>

definition internal_create_iocp_socket ::
  "('p, 'd, 'w) conn_env \<Rightarrow> 'w svc_os \<Rightarrow> 'w \<Rightarrow> nat option \<times> 'w" where
  "internal_create_iocp_socket env so w =
     (case wsa_socket so w of
        (None, w1) \<Rightarrow> (None, w1)
      | (Some s, w1) \<Rightarrow>
          let (ok, w2) = bind_iocp so s w1
          in if \<not> ok then (None, closesocket (os env) s w2) else (Some s, w2))"

definition service_start_async_accept ::
  "('p, 'd, 'w) conn_env \<Rightarrow> 'w svc_os \<Rightarrow> nat \<Rightarrow> ('p, 'd, 'w) server \<Rightarrow> bool \<times> ('p, 'd, 'w) server" where
  "service_start_async_accept env so i m =
     (let (r, w1) = internal_create_iocp_socket env so (world (mgr m)); m1 = set_world w1 m
      in case r of
           None \<Rightarrow> (False, m1)
         | Some s \<Rightarrow>
             let m2 = upd_svc i (\<lambda>svc. svc\<lparr>sv_accept_socket := Some s\<rparr>) m1;
                 (ok, w2) = accept_ex so (sv_s (svc_at m2 i)) s w1;
                 m3 = set_world w2 m2
             in if \<not> ok then (False, close_opt env (Some s) m3)
                else (True, upd_svc i (\<lambda>svc. svc\<lparr>sv_pending_work := sv_pending_work svc + 1\<rparr>)
                       (m3\<lparr>accept_pending := i # accept_pending m3\<rparr>)))"

definition internal_service_close ::
  "('p, 'd, 'w) conn_env \<Rightarrow> nat \<Rightarrow> ('p, 'd, 'w) server \<Rightarrow> ('p, 'd, 'w) server" where
  "internal_service_close env i m =
     upd_svc i (\<lambda>svc. svc\<lparr>sv_s := None, sv_closing := False\<rparr>) (close_opt env (sv_s (svc_at m i)) m)"

definition service_open ::
  "('p, 'd, 'w) conn_env \<Rightarrow> 'w svc_os \<Rightarrow> nat \<Rightarrow> ('p, 'd, 'w) server \<Rightarrow> bool \<times> ('p, 'd, 'w) server" where
  "service_open env so i m =
     (if sv_s (svc_at m i) \<noteq> None then (True, m)
      else
        let (r, w1) = internal_create_iocp_socket env so (world (mgr m)); m1 = set_world w1 m
        in case r of
             None \<Rightarrow> (False, m1)
           | Some s \<Rightarrow>
               let (bound, w2) = sock_bind so s (sv_port (svc_at m i)) w1; m2 = set_world w2 m1
               in if \<not> bound then (False, close_opt env (Some s) m2)
                  else
                    let (listening, w3) = sock_listen so s w2; m3 = set_world w3 m2
                    in if \<not> listening then (False, close_opt env (Some s) m3)
                       else
                         let (ok, m4) = service_start_async_accept env so i
                               (upd_svc i (\<lambda>svc. svc\<lparr>sv_s := Some s\<rparr>) m3)
                         in if \<not> ok
                            then (False, close_opt env (Some s) (upd_svc i (\<lambda>svc. svc\<lparr>sv_s := None\<rparr>) m4))
                            else (True, m4))"

fun accept_tries ::
  "('p, 'd, 'w) conn_env \<Rightarrow> 'w svc_os \<Rightarrow> nat \<Rightarrow> nat \<Rightarrow> ('p, 'd, 'w) server \<Rightarrow> bool \<times> ('p, 'd, 'w) server" where
  "accept_tries env so 0 i m = (False, m)"
| "accept_tries env so (Suc n) i m =
     (let (ok, m1) = service_start_async_accept env so i m
      in if ok then (True, m1) else accept_tries env so n i m1)"

definition service_async_accept ::
  "('p, 'd, 'w) conn_env \<Rightarrow> 'w svc_os \<Rightarrow> nat \<Rightarrow> ('p, 'd, 'w) server \<Rightarrow> ('p, 'd, 'w) server" where
  "service_async_accept env so i m =
     (let (ok, m1) = accept_tries env so MAX_TRIES_BEFORE_REOPEN i m
      in if ok then m1
         else if sv_pending_work (svc_at m1 i) \<noteq> 0 then m1
         else snd (service_open env so i (internal_service_close env i m1)))"

text \<open>\<^theory_text>\<open>None\<close> is undefined behaviour in the connection manager.\<close>

definition service_on_accept ::
  "('p, 'd, 'w) conn_env \<Rightarrow> 'w svc_os \<Rightarrow> nat \<Rightarrow> bool \<Rightarrow> ('p, 'd, 'w) server \<Rightarrow> ('p, 'd, 'w) server option" where
  "service_on_accept env so i err m =
     (let s = sv_accept_socket (svc_at m i);
          m1 = upd_svc i (\<lambda>svc. svc\<lparr>sv_pending_work := sv_pending_work svc - 1\<rparr>) m
      in if sv_closing (svc_at m1 i) then
           let m2 = close_opt env s m1
           in Some (if sv_pending_work (svc_at m2 i) = 0 then internal_service_close env i m2 else m2)
         else if err then Some (service_async_accept env so i (close_opt env s m1))
         else do {
           n \<leftarrow> s;
           c \<leftarrow> connmgr_start_connection env n i (mgr m1);
           Some (service_async_accept env so i (m1\<lparr>mgr := c\<rparr>))
         })"

definition service_start_closing ::
  "('p, 'd, 'w) conn_env \<Rightarrow> 'w svc_os \<Rightarrow> nat \<Rightarrow> ('p, 'd, 'w) server \<Rightarrow> ('p, 'd, 'w) server" where
  "service_start_closing env so i m =
     (if sv_pending_work (svc_at m i) = 0 then internal_service_close env i m
      else
        let m1 = upd_svc i (\<lambda>svc. svc\<lparr>sv_closing := True\<rparr>) m
        in set_world (cancel_accept so (sv_s (svc_at m1 i)) (world (mgr m1))) m1)"

fun svcmgr_init_from ::
  "('p, 'd, 'w) conn_env \<Rightarrow> 'w svc_os \<Rightarrow> nat list \<Rightarrow> nat list \<Rightarrow> ('p, 'd, 'w) server
    \<Rightarrow> bool \<times> ('p, 'd, 'w) server" where
  "svcmgr_init_from env so opened [] m = (True, m)"
| "svcmgr_init_from env so opened (i # is) m =
     (let (ok, m1) = service_open env so i m
      in if \<not> ok then (False, fold (internal_service_close env) opened m1)
         else svcmgr_init_from env so (i # opened) is m1)"

definition svcmgr_init ::
  "('p, 'd, 'w) conn_env \<Rightarrow> 'w svc_os \<Rightarrow> ('p, 'd, 'w) server \<Rightarrow> bool \<times> ('p, 'd, 'w) server" where
  "svcmgr_init env so m = svcmgr_init_from env so [] [0..<length (services (mgr m))] m"

definition svcmgr_shutdown ::
  "('p, 'd, 'w) conn_env \<Rightarrow> ('p, 'd, 'w) server \<Rightarrow> ('p, 'd, 'w) server" where
  "svcmgr_shutdown env m = fold (internal_service_close env) [0..<length (services (mgr m))] m"

text \<open>\<^verbatim>\<open>server_internal_work\<close> hands a completed accept to \<^verbatim>\<open>service_on_accept\<close>.\<close>

definition accept_complete ::
  "('p, 'd, 'w) conn_env \<Rightarrow> 'w svc_os \<Rightarrow> nat \<Rightarrow> bool \<Rightarrow> ('p, 'd, 'w) server \<Rightarrow> ('p, 'd, 'w) server option" where
  "accept_complete env so i err m =
     service_on_accept env so i err (m\<lparr>accept_pending := remove1 i (accept_pending m)\<rparr>)"

subsection \<open>States that differ in one service\<close>

definition svc_change ::
  "nat \<Rightarrow> 'p service \<Rightarrow> 'w \<Rightarrow> nat list \<Rightarrow> ('p, 'd, 'w) server \<Rightarrow> ('p, 'd, 'w) server" where
  "svc_change i svc w ap m =
     m\<lparr>mgr := (mgr m)\<lparr>services := (services (mgr m))[i := svc], world := w\<rparr>, accept_pending := ap\<rparr>"

lemma svc_change_id: "i < length (services (mgr m)) \<Longrightarrow>
    svc_change i (svc_at m i) (world (mgr m)) (accept_pending m) m = m"
  by (simp add: svc_change_def svc_at_def)

lemma svc_change_simps [simp]:
  assumes "i < length (services (mgr m))"
  shows "svc_at (svc_change i svc w ap m) i = svc"
    "upd_svc i f (svc_change i svc w ap m) = svc_change i (f svc) w ap m"
    "(svc_change i svc w ap m)\<lparr>accept_pending := ap'\<rparr> = svc_change i svc w ap' m"
    "set_world w' (svc_change i svc w ap m) = svc_change i svc w' ap m"
    "world (mgr (svc_change i svc w ap m)) = w"
    "accept_pending (svc_change i svc w ap m) = ap"
  using assms by (simp_all add: svc_change_def svc_at_def upd_svc_def set_world_def)

lemma close_opt_change [simp]:
  "i < length (services (mgr m)) \<Longrightarrow> close_opt env s (svc_change i svc w ap m) =
    svc_change i svc (case s of None \<Rightarrow> w | Some n \<Rightarrow> closesocket (os env) n w) ap m"
  by (cases s) (simp_all add: close_opt_def)

lemma close_change [simp]:
  "i < length (services (mgr m)) \<Longrightarrow> internal_service_close env i (svc_change i svc w ap m) =
    svc_change i (svc\<lparr>sv_s := None, sv_closing := False\<rparr>)
      (case sv_s svc of None \<Rightarrow> w | Some n \<Rightarrow> closesocket (os env) n w) ap m"
  by (simp add: internal_service_close_def)

text \<open>What the service manager relies on of winsock for its sockets: a new socket is new, and only
  \<^verbatim>\<open>WSASocket\<close> and \<^verbatim>\<open>closesocket\<close> change which sockets are open.\<close>

definition socket_law :: "('p, 'd, 'w) conn_env \<Rightarrow> 'w svc_os \<Rightarrow> ('w \<Rightarrow> nat set) \<Rightarrow> bool" where
  "socket_law env so opn \<longleftrightarrow>
     (\<forall>w s w'. wsa_socket so w = (Some s, w') \<longrightarrow> s \<notin> opn w \<and> opn w' = insert s (opn w))
     \<and> (\<forall>w w'. wsa_socket so w = (None, w') \<longrightarrow> opn w' = opn w)
     \<and> (\<forall>s w. opn (closesocket (os env) s w) = opn w - {s})
     \<and> (\<forall>s w. opn (snd (bind_iocp so s w)) = opn w)
     \<and> (\<forall>s p w. opn (snd (sock_bind so s p w)) = opn w)
     \<and> (\<forall>s w. opn (snd (sock_listen so s w)) = opn w)
     \<and> (\<forall>l s w. opn (snd (accept_ex so l s w)) = opn w)"

lemma socket_lawD:
  assumes "socket_law env so opn"
  shows "wsa_socket so w = (Some s, w') \<Longrightarrow> s \<notin> opn w \<and> opn w' = insert s (opn w)"
    "wsa_socket so w = (None, w') \<Longrightarrow> opn w' = opn w"
    "opn (closesocket (os env) s w) = opn w - {s}"
    "bind_iocp so s w = (ok, w') \<Longrightarrow> opn w' = opn w"
    "sock_bind so s p w = (ok, w') \<Longrightarrow> opn w' = opn w"
    "sock_listen so s w = (ok, w') \<Longrightarrow> opn w' = opn w"
    "accept_ex so l s w = (ok, w') \<Longrightarrow> opn w' = opn w"
proof -
  have *: "opn (snd (bind_iocp so s w)) = opn w" "opn (snd (sock_bind so s p w)) = opn w"
    "opn (snd (sock_listen so s w)) = opn w" "opn (snd (accept_ex so l s w)) = opn w"
    "opn (closesocket (os env) s w) = opn w - {s}"
    using assms by (simp_all add: socket_law_def)
  then show "opn (closesocket (os env) s w) = opn w - {s}"
    "bind_iocp so s w = (ok, w') \<Longrightarrow> opn w' = opn w" "sock_bind so s p w = (ok, w') \<Longrightarrow> opn w' = opn w"
    "sock_listen so s w = (ok, w') \<Longrightarrow> opn w' = opn w" "accept_ex so l s w = (ok, w') \<Longrightarrow> opn w' = opn w"
    by simp_all
  show "wsa_socket so w = (Some s, w') \<Longrightarrow> s \<notin> opn w \<and> opn w' = insert s (opn w)"
    "wsa_socket so w = (None, w') \<Longrightarrow> opn w' = opn w"
    using assms by (simp_all add: socket_law_def)
qed

lemma create_socket_ledger:
  assumes "socket_law env so opn" "internal_create_iocp_socket env so w = (r, w')"
  shows "case r of None \<Rightarrow> opn w' = opn w | Some s \<Rightarrow> s \<notin> opn w \<and> opn w' = insert s (opn w)"
proof -
  obtain r1 w1 where s: "wsa_socket so w = (r1, w1)" by fastforce
  show ?thesis
  proof (cases r1)
    case None
    then have "r = None" "w' = w1" using assms(2) s by (simp_all add: internal_create_iocp_socket_def)
    then show ?thesis using socket_lawD(2) [OF assms(1)] s None by simp
  next
    case (Some n)
    obtain ok w2 where b: "bind_iocp so n w1 = (ok, w2)" by fastforce
    have "opn w2 = opn w1" using socket_lawD(4) [OF assms(1) b] .
    moreover have "n \<notin> opn w" "opn w1 = insert n (opn w)"
      using socket_lawD(1) [OF assms(1)] s Some by simp_all
    moreover have "r = (if ok then Some n else None)"
      "w' = (if ok then w2 else closesocket (os env) n w2)"
      using assms(2) s Some b by (simp_all add: internal_create_iocp_socket_def split: if_splits)
    ultimately show ?thesis using socket_lawD(3) [OF assms(1), of n w2] by simp
  qed
qed

text \<open>Starting an accept: the service gets the accept socket, or keeps all but that.\<close>

definition accept_started ::
  "nat \<Rightarrow> ('w \<Rightarrow> nat set) \<Rightarrow> 'w \<Rightarrow> 'p service \<Rightarrow> nat list \<Rightarrow> bool \<Rightarrow> 'w \<Rightarrow> 'p service \<Rightarrow> nat list \<Rightarrow> bool" where
  "accept_started i opn w svc ap ok w' svc' ap' \<longleftrightarrow>
     (if ok then \<exists>a. svc' = svc\<lparr>sv_accept_socket := Some a, sv_pending_work := sv_pending_work svc + 1\<rparr>
          \<and> ap' = i # ap \<and> a \<notin> opn w \<and> opn w' = insert a (opn w)
      else (\<exists>a. svc' = svc\<lparr>sv_accept_socket := a\<rparr>) \<and> ap' = ap \<and> opn w' = opn w)"

lemma start_accept_change:
  assumes i: "i < length (services (mgr m))" and law: "socket_law env so opn"
  shows "\<exists>ok w' svc' ap'. service_start_async_accept env so i (svc_change i svc w ap m)
      = (ok, svc_change i svc' w' ap' m) \<and> accept_started i opn w svc ap ok w' svc' ap'"
proof -
  obtain r w1 where c: "internal_create_iocp_socket env so w = (r, w1)" by fastforce
  note led = create_socket_ledger [OF law c]
  show ?thesis
  proof (cases r)
    case None
    then have "service_start_async_accept env so i (svc_change i svc w ap m) = (False, svc_change i svc w1 ap m)"
      using i c by (simp add: service_start_async_accept_def)
    moreover have "accept_started i opn w svc ap False w1 svc ap"
      using led None by (simp add: accept_started_def exI [of _ "sv_accept_socket svc"])
    ultimately show ?thesis by blast
  next
    case (Some a)
    obtain ok w2 where e: "accept_ex so (sv_s svc) a w1 = (ok, w2)" by fastforce
    let ?svc = "svc\<lparr>sv_accept_socket := Some a\<rparr>"
    have "service_start_async_accept env so i (svc_change i svc w ap m) =
        (if ok then (True, svc_change i (?svc\<lparr>sv_pending_work := sv_pending_work svc + 1\<rparr>) w2 (i # ap) m)
         else (False, svc_change i ?svc (closesocket (os env) a w2) ap m))"
      using i c Some e by (simp add: service_start_async_accept_def)
    moreover have "accept_started i opn w svc ap True w2 (?svc\<lparr>sv_pending_work := sv_pending_work svc + 1\<rparr>) (i # ap)"
        "accept_started i opn w svc ap False (closesocket (os env) a w2) ?svc ap"
      using led Some socket_lawD(7) [OF law e] socket_lawD(3) [OF law, of a w2]
      unfolding accept_started_def by auto
    ultimately show ?thesis by (cases ok) auto
  qed
qed

lemma accept_tries_change:
  assumes i: "i < length (services (mgr m))" and law: "socket_law env so opn"
  shows "\<exists>ok w' svc' ap'. accept_tries env so n i (svc_change i svc w ap m)
      = (ok, svc_change i svc' w' ap' m) \<and> accept_started i opn w svc ap ok w' svc' ap'"
proof (induction n arbitrary: svc w)
  case 0
  have "accept_started i opn w svc ap False w svc ap"
    by (simp add: accept_started_def exI [of _ "sv_accept_socket svc"])
  then show ?case by auto
next
  case (Suc n)
  obtain ok w1 svc1 ap1 where s: "service_start_async_accept env so i (svc_change i svc w ap m)
      = (ok, svc_change i svc1 w1 ap1 m)" "accept_started i opn w svc ap ok w1 svc1 ap1"
    using start_accept_change [OF i law] by blast
  show ?case
  proof (cases ok)
    case True
    then show ?thesis using s by auto
  next
    case False
    then obtain a where svc1: "svc1 = svc\<lparr>sv_accept_socket := a\<rparr>" "ap1 = ap" "opn w1 = opn w"
      using s(2) by (auto simp: accept_started_def)
    obtain ok2 w2 svc2 ap2 where r: "accept_tries env so n i (svc_change i svc1 w1 ap m)
        = (ok2, svc_change i svc2 w2 ap2 m)" "accept_started i opn w1 svc1 ap ok2 w2 svc2 ap2"
      using Suc.IH by blast
    then have "accept_started i opn w svc ap ok2 w2 svc2 ap2"
      using svc1 by (auto simp: accept_started_def split: if_splits)
    then show ?thesis using s(1) False svc1 r(1) by auto
  qed
qed

text \<open>Opening a closed service: it listens and has an accept outstanding, or nothing has changed but a
  stale \<^verbatim>\<open>accept_socket\<close>.  No socket is lost on the way.\<close>

definition service_opened ::
  "nat \<Rightarrow> nat set \<Rightarrow> nat set \<Rightarrow> 'p service \<Rightarrow> nat list \<Rightarrow> bool \<Rightarrow> 'p service \<Rightarrow> nat list \<Rightarrow> bool" where
  "service_opened i before after svc ap ok svc' ap' \<longleftrightarrow>
     (if ok then \<exists>l a. svc' = svc\<lparr>sv_s := Some l, sv_accept_socket := Some a,
            sv_pending_work := sv_pending_work svc + 1\<rparr>
          \<and> ap' = i # ap \<and> l \<notin> before \<and> a \<notin> before \<and> l \<noteq> a \<and> after = {l, a} \<union> before
      else (\<exists>a. svc' = svc\<lparr>sv_accept_socket := a\<rparr>) \<and> ap' = ap \<and> after = before)"

lemma open_change:
  assumes i: "i < length (services (mgr m))" and law: "socket_law env so opn" and closed: "sv_s svc = None"
  shows "\<exists>ok w' svc' ap'. service_open env so i (svc_change i svc w ap m) = (ok, svc_change i svc' w' ap' m)
    \<and> service_opened i (opn w) (opn w') svc ap ok svc' ap'"
proof -
  obtain r w1 where c: "internal_create_iocp_socket env so w = (r, w1)" by fastforce
  note led = create_socket_ledger [OF law c]
  have stay: "service_opened i (opn w) (opn w') svc ap False (svc\<lparr>sv_accept_socket := a\<rparr>) ap"
    if "opn w' = opn w" for w' a using that by (auto simp: service_opened_def)
  have same: "svc\<lparr>sv_accept_socket := sv_accept_socket svc\<rparr> = svc" "svc\<lparr>sv_s := None\<rparr> = svc"
    using closed by (cases svc, simp)+
  show ?thesis
  proof (cases r)
    case None
    then have "service_open env so i (svc_change i svc w ap m) = (False, svc_change i svc w1 ap m)"
      using i c closed by (simp add: service_open_def)
    moreover have "service_opened i (opn w) (opn w1) svc ap False svc ap"
      using stay [of w1 "sv_accept_socket svc"] led None same(1) by simp
    ultimately show ?thesis by blast
  next
    case (Some s)
    obtain bound w2 where b: "sock_bind so s (sv_port svc) w1 = (bound, w2)" by fastforce
    obtain lis w3 where l: "sock_listen so s w2 = (lis, w3)" by fastforce
    have w: "opn w1 = insert s (opn w)" "s \<notin> opn w" "opn w2 = opn w1" "opn w3 = opn w2"
      using led Some socket_lawD(5) [OF law b] socket_lawD(6) [OF law l] by simp_all
    obtain ok w4 svc4 ap4 where a: "service_start_async_accept env so i
          (svc_change i (svc\<lparr>sv_s := Some s\<rparr>) w3 ap m) = (ok, svc_change i svc4 w4 ap4 m)"
        "accept_started i opn w3 (svc\<lparr>sv_s := Some s\<rparr>) ap ok w4 svc4 ap4"
      using start_accept_change [OF i law] by blast
    let ?close = "closesocket (os env) s"
    have e: "service_open env so i (svc_change i svc w ap m) =
       (if \<not> bound then (False, svc_change i svc (?close w2) ap m)
        else if \<not> lis then (False, svc_change i svc (?close w3) ap m)
        else if \<not> ok then (False, svc_change i (svc4\<lparr>sv_s := None\<rparr>) (?close w4) ap4 m)
        else (True, svc_change i svc4 w4 ap4 m))"
      using i c closed Some b l a(1) by (simp add: service_open_def)
    show ?thesis
    proof (cases "bound \<and> lis")
      case False
      define w' where "w' = (if bound then ?close w3 else ?close w2)"
      have "opn w' = opn w" using w socket_lawD(3) [OF law, of s] by (simp add: w'_def)
      moreover have "service_open env so i (svc_change i svc w ap m) = (False, svc_change i svc w' ap m)"
        using e False by (simp add: w'_def)
      moreover have "service_opened i (opn w) (opn w') svc ap False svc ap"
        using stay [of w' "sv_accept_socket svc"] \<open>opn w' = opn w\<close> same(1) by simp
      ultimately show ?thesis by blast
    next
      case listening: True
      show ?thesis
      proof (cases ok)
        case True
        then obtain q where q: "svc4 = (svc\<lparr>sv_s := Some s\<rparr>)\<lparr>sv_accept_socket := Some q,
              sv_pending_work := sv_pending_work svc + 1\<rparr>" "ap4 = i # ap" "q \<notin> opn w3" "opn w4 = insert q (opn w3)"
          using a(2) by (auto simp: accept_started_def)
        then have "service_opened i (opn w) (opn w4) svc ap True svc4 ap4"
          using w by (auto simp: service_opened_def)
        moreover have "service_open env so i (svc_change i svc w ap m) = (True, svc_change i svc4 w4 ap4 m)"
          using e listening True by simp
        ultimately show ?thesis by blast
      next
        case False
        then obtain q where q: "svc4 = (svc\<lparr>sv_s := Some s\<rparr>)\<lparr>sv_accept_socket := q\<rparr>" "ap4 = ap" "opn w4 = opn w3"
          using a(2) by (auto simp: accept_started_def)
        have "svc4\<lparr>sv_s := None\<rparr> = svc\<lparr>sv_accept_socket := q\<rparr>" using closed q(1) by (cases svc) simp
        moreover have "opn (?close w4) = opn w" using socket_lawD(3) [OF law, of s w4] q(3) w by simp
        moreover have "service_open env so i (svc_change i svc w ap m) =
            (False, svc_change i (svc4\<lparr>sv_s := None\<rparr>) (?close w4) ap m)"
          using e listening False q(2) by simp
        ultimately show ?thesis using stay [of "?close w4" q] by metis
      qed
    qed
  qed
qed

text \<open>Chaining the next accept of an open service without one: it ends up accepting, on the same or a
  new listening socket, or closed.\<close>

definition accept_chained ::
  "nat \<Rightarrow> nat \<Rightarrow> nat set \<Rightarrow> nat set \<Rightarrow> 'p service \<Rightarrow> nat list \<Rightarrow> 'p service \<Rightarrow> nat list \<Rightarrow> bool" where
  "accept_chained i l before after svc ap svc' ap' \<longleftrightarrow>
     (\<exists>l' a. svc' = svc\<lparr>sv_s := Some l', sv_accept_socket := Some a, sv_pending_work := 1\<rparr>
        \<and> ap' = i # ap \<and> (l \<in> before \<longrightarrow> l' \<notin> before - {l} \<and> a \<notin> before - {l} \<and> l' \<noteq> a
             \<and> after = {l', a} \<union> (before - {l})))
     \<or> (\<exists>a. svc' = svc\<lparr>sv_s := None, sv_accept_socket := a\<rparr>) \<and> ap' = ap
        \<and> (l \<in> before \<longrightarrow> after = before - {l})"

lemma accept_chained_service:
  assumes "accept_chained i l before after svc ap svc' ap'"
  shows "(\<exists>l' a. svc' = svc\<lparr>sv_s := Some l', sv_accept_socket := Some a, sv_pending_work := 1\<rparr> \<and> ap' = i # ap)
    \<or> (\<exists>a. svc' = svc\<lparr>sv_s := None, sv_accept_socket := a\<rparr> \<and> ap' = ap)"
  using assms unfolding accept_chained_def by blast

lemma async_accept_change:
  assumes i: "i < length (services (mgr m))" and law: "socket_law env so opn"
    and svc: "sv_s svc = Some l" "sv_pending_work svc = 0" "\<not> sv_closing svc"
  shows "\<exists>w' svc' ap'. service_async_accept env so i (svc_change i svc w ap m) = svc_change i svc' w' ap' m
    \<and> accept_chained i l (opn w) (opn w') svc ap svc' ap'"
proof -
  obtain ok w1 svc1 ap1 where t: "accept_tries env so MAX_TRIES_BEFORE_REOPEN i (svc_change i svc w ap m)
      = (ok, svc_change i svc1 w1 ap1 m)" "accept_started i opn w svc ap ok w1 svc1 ap1"
    using accept_tries_change [OF i law] by blast
  show ?thesis
  proof (cases ok)
    case True
    then obtain a where a: "svc1 = svc\<lparr>sv_accept_socket := Some a, sv_pending_work := 1\<rparr>"
        "ap1 = i # ap" "a \<notin> opn w" "opn w1 = insert a (opn w)"
      using t(2) svc(2) by (auto simp: accept_started_def)
    then have "svc1 = svc\<lparr>sv_s := Some l, sv_accept_socket := Some a, sv_pending_work := 1\<rparr>"
      using svc(1) by (cases svc) simp
    then have "accept_chained i l (opn w) (opn w1) svc ap svc1 ap1"
      using a by (auto simp: accept_chained_def)
    then show ?thesis using t(1) True by (auto simp: service_async_accept_def)
  next
    case False
    then obtain q where q: "svc1 = svc\<lparr>sv_accept_socket := q\<rparr>" "ap1 = ap" "opn w1 = opn w"
      using t(2) by (auto simp: accept_started_def)
    let ?svc2 = "svc\<lparr>sv_accept_socket := q, sv_s := None\<rparr>" and ?w2 = "closesocket (os env) l w1"
    have s2: "svc1\<lparr>sv_s := None, sv_closing := False\<rparr> = ?svc2" using q(1) svc(3) by (cases svc) simp
    have closed: "sv_s ?svc2 = None" by simp
    obtain ok3 w3 svc3 ap3 where o: "service_open env so i (svc_change i ?svc2 ?w2 ap m)
        = (ok3, svc_change i svc3 w3 ap3 m)"
        "service_opened i (opn ?w2) (opn w3) ?svc2 ap ok3 svc3 ap3"
      using open_change [OF i law closed, of ?w2 ap] by blast
    have w2: "opn ?w2 = opn w - {l}" using socket_lawD(3) [OF law, of l w1] q(3) by simp
    have "accept_chained i l (opn w) (opn w3) svc ap svc3 ap3"
    proof (cases ok3)
      case True
      then obtain l' a where la: "svc3 = ?svc2\<lparr>sv_s := Some l', sv_accept_socket := Some a,
            sv_pending_work := sv_pending_work ?svc2 + 1\<rparr>" "ap3 = i # ap" "l' \<notin> opn ?w2" "a \<notin> opn ?w2"
          "l' \<noteq> a" "opn w3 = {l', a} \<union> opn ?w2"
        using o(2) by (auto simp: service_opened_def)
      have "svc3 = svc\<lparr>sv_s := Some l', sv_accept_socket := Some a, sv_pending_work := 1\<rparr>"
        using la(1) svc(2) by (cases svc) simp
      then show ?thesis using la(2-6) w2 unfolding accept_chained_def by blast
    next
      case False
      then obtain a where a: "svc3 = ?svc2\<lparr>sv_accept_socket := a\<rparr>" "ap3 = ap" "opn w3 = opn ?w2"
        using o(2) by (auto simp: service_opened_def)
      have "svc3 = svc\<lparr>sv_s := None, sv_accept_socket := a\<rparr>" using a(1) by (cases svc) simp
      then show ?thesis using a(2,3) w2 unfolding accept_chained_def by blast
    qed
    moreover have "service_async_accept env so i (svc_change i svc w ap m) = svc_change i svc3 w3 ap3 m"
      using i t(1) False q svc(1,2) o(1) s2 by (simp add: service_async_accept_def)
    ultimately show ?thesis by blast
  qed
qed

subsection \<open>The invariant of the accept loop\<close>

text \<open>An open service has exactly one accept outstanding, which it counts; a closed one has none.\<close>

definition svc_ok :: "('p, 'd, 'w) server \<Rightarrow> nat \<Rightarrow> bool" where
  "svc_ok m i \<longleftrightarrow>
     (let svc = svc_at m i; n = count_list (accept_pending m) i
      in sv_pending_work svc = int n
         \<and> (case sv_s svc of
              None \<Rightarrow> n = 0 \<and> \<not> sv_closing svc
            | Some l \<Rightarrow> n = 1 \<and> sv_accept_socket svc \<noteq> None))"

definition svr_inv :: "('p, 'd, 'w) conn_env \<Rightarrow> ('p, 'd, 'w) server \<Rightarrow> bool" where
  "svr_inv env m \<longleftrightarrow> cm_inv env {} (mgr m) \<and> (\<forall>i < length (services (mgr m)). svc_ok m i)
     \<and> (\<forall>i \<in> set (accept_pending m). i < length (services (mgr m)))"

text \<open>What can happen to a running server.  It starts when every service could be opened.\<close>

inductive svr_step ::
  "('p, 'd, 'w) conn_env \<Rightarrow> 'w svc_os \<Rightarrow> ('p, 'd, 'w) server \<Rightarrow> ('p, 'd, 'w) server option \<Rightarrow> bool" for env so where
  sv_conn: "cm_step env (mgr m) r \<Longrightarrow> svr_step env so m (map_option (\<lambda>c. m\<lparr>mgr := c\<rparr>) r)"
| sv_accept: "i \<in> set (accept_pending m) \<Longrightarrow> svr_step env so m (accept_complete env so i err m)"
| sv_close: "i < length (services (mgr m)) \<Longrightarrow> sv_s (svc_at m i) \<noteq> None \<Longrightarrow>
    svr_step env so m (Some (service_start_closing env so i m))"

definition svr_start :: "'p service list \<Rightarrow> 'w \<Rightarrow> 'd \<Rightarrow> ('p, 'd, 'w) server" where
  "svr_start svcs w null = \<lparr>mgr = cm_init svcs w null, accept_pending = []\<rparr>"

inductive svr_reach ::
  "('p, 'd, 'w) conn_env \<Rightarrow> 'w svc_os \<Rightarrow> 'p service list \<Rightarrow> ('p, 'd, 'w) server \<Rightarrow> bool" for env so svcs where
  sv_started: "svcmgr_init env so (svr_start svcs w null) = (True, m) \<Longrightarrow> svr_reach env so svcs m"
| sv_next: "svr_reach env so svcs m \<Longrightarrow> svr_step env so m (Some m') \<Longrightarrow> svr_reach env so svcs m'"

text \<open>Services as \<^verbatim>\<open>svcmgr_add_protocol\<close> leaves them.\<close>

definition fresh_services :: "'p service list \<Rightarrow> bool" where
  "fresh_services svcs \<longleftrightarrow> (\<forall>svc \<in> set svcs. sv_s svc = None \<and> \<not> sv_closing svc \<and> sv_pending_work svc = 0)"

lemma services_ok_update:
  assumes "sv_port svc = sv_port (svcs ! i)" "sv_protocols svc = sv_protocols (svcs ! i)" "i < length svcs"
  shows "services_ok pr (svcs[i := svc]) = services_ok pr svcs"
proof -
  have "map sv_port (svcs[i := svc]) = map sv_port svcs"
    using assms by (auto simp: map_update intro: list_update_same_conv [THEN iffD2])
  have "(\<forall>s \<in> set (svcs[i := svc]). P (sv_protocols s)) \<longleftrightarrow> (\<forall>s \<in> set svcs. P (sv_protocols s))" for P
    using assms by (simp add: all_set_conv_all_nth nth_list_update) metis
  from this [of "\<lambda>ps. ps \<noteq> [] \<and> length ps \<le> MAX_SERVICE_PROTOCOLS
      \<and> (\<forall>p \<in> set ps. sends_first pr p \<longrightarrow> ps = [p])"]
  show ?thesis using \<open>map sv_port (svcs[i := svc]) = map sv_port svcs\<close> by (simp add: services_ok_def)
qed

lemma cm_inv_svc:
  assumes "sv_port svc = sv_port (services m ! i)" "sv_protocols svc = sv_protocols (services m ! i)"
    "i < length (services m)"
  shows "cm_inv env X (m\<lparr>services := (services m)[i := svc]\<rparr>) = cm_inv env X m"
  using services_ok_update [OF assms, of "proto_info env"]
  by (simp add: cm_inv_def cm_base_def conn_ok_def conn_flag_def ops_on_def reads_on_def writes_on_def)

text \<open>Changing one service keeps the invariant if that service is in order afterwards.\<close>

lemma svc_change_inv:
  assumes inv: "cm_inv env {} (mgr m)" and i: "i < length (services (mgr m))"
    and others: "\<And>j. j < length (services (mgr m)) \<Longrightarrow> j \<noteq> i \<Longrightarrow> svc_ok m j"
    and bound: "\<forall>j \<in> set (accept_pending m). j < length (services (mgr m))"
    and svc: "sv_port svc = sv_port (svc_at m i)" "sv_protocols svc = sv_protocols (svc_at m i)"
    and ap: "ap = accept_pending m \<or> ap = i # accept_pending m"
    and ok: "svc_ok (svc_change i svc w ap m) i"
  shows "svr_inv env (svc_change i svc w ap m)"
proof -
  have "svc_ok (svc_change i svc w ap m) j" if "j < length (services (mgr m))" for j
    using ok others [OF that] ap by (cases "j = i") (auto simp: svc_ok_def svc_change_def svc_at_def)
  moreover have "cm_inv env {} (mgr (svc_change i svc w ap m))"
    using inv svc i by (simp add: svc_change_def svc_at_def cm_inv_svc)
  ultimately show ?thesis using bound ap i by (auto simp: svr_inv_def svc_change_def)
qed

lemma svc_okI:
  "sv_pending_work svc = int (count_list ap i) \<Longrightarrow>
   (case sv_s svc of None \<Rightarrow> count_list ap i = 0 \<and> \<not> sv_closing svc
     | Some l \<Rightarrow> count_list ap i = 1 \<and> sv_accept_socket svc \<noteq> None) \<Longrightarrow>
   i < length (services (mgr m)) \<Longrightarrow> svc_ok (svc_change i svc w ap m) i"
  by (simp add: svc_ok_def Let_def)

lemma open_inv:
  assumes inv: "svr_inv env m" and law: "socket_law env so opn" and i: "i < length (services (mgr m))"
    and o: "service_open env so i m = (ok, m')"
  shows "svr_inv env m' \<and> length (services (mgr m')) = length (services (mgr m))
    \<and> (ok \<longrightarrow> sv_s (svc_at m' i) \<noteq> None)
    \<and> (\<forall>j < length (services (mgr m)). j \<noteq> i \<longrightarrow> svc_at m' j = svc_at m j)"
proof (cases "sv_s (svc_at m i)")
  case (Some l)
  then show ?thesis using inv o by (simp add: service_open_def)
next
  case None
  let ?svc = "svc_at m i" and ?ap = "accept_pending m"
  have inv': "cm_inv env {} (mgr m)" "\<forall>j < length (services (mgr m)). svc_ok m j"
      "\<forall>j \<in> set ?ap. j < length (services (mgr m))" using inv by (simp_all add: svr_inv_def)
  have ok_i: "sv_pending_work ?svc = 0" "count_list ?ap i = 0" "\<not> sv_closing ?svc"
    using inv'(2) i None by (auto simp: svc_ok_def Let_def)
  obtain ok1 w' svc' ap' where c: "service_open env so i (svc_change i ?svc (world (mgr m)) ?ap m)
        = (ok1, svc_change i svc' w' ap' m)"
      "service_opened i (opn (world (mgr m))) (opn w') ?svc ?ap ok1 svc' ap'"
    using open_change [OF i law None] by blast
  have m': "ok1 = ok" "m' = svc_change i svc' w' ap' m"
    using c(1) o by (simp_all add: svc_change_id [OF i])
  have "svr_inv env m'" unfolding m'(2)
  proof (rule svc_change_inv [OF inv'(1) i _ inv'(3)])
    show "svc_ok m j" if "j < length (services (mgr m))" "j \<noteq> i" for j using inv'(2) that by simp
    show "sv_port svc' = sv_port ?svc" "sv_protocols svc' = sv_protocols ?svc" "ap' = ?ap \<or> ap' = i # ?ap"
      using c(2) by (auto simp: service_opened_def split: if_splits)
    show "svc_ok (svc_change i svc' w' ap' m) i"
      using c(2) ok_i None i by (intro svc_okI) (auto simp: service_opened_def split: if_splits)
  qed
  moreover have "sv_s svc' \<noteq> None" if ok using c(2) that m'(1) by (auto simp: service_opened_def)
  ultimately show ?thesis using i m'(2) by (auto simp: svc_change_def svc_at_def)
qed

lemma init_inv:
  assumes "svr_inv env m" "socket_law env so opn" "\<forall>i \<in> set is. i < length (services (mgr m))"
    "svcmgr_init_from env so opened is m = (True, m')" "distinct is"
  shows "svr_inv env m' \<and> length (services (mgr m')) = length (services (mgr m))
    \<and> (\<forall>i \<in> set is. sv_s (svc_at m' i) \<noteq> None)
    \<and> (\<forall>j < length (services (mgr m)). j \<notin> set is \<longrightarrow> svc_at m' j = svc_at m j)"
  using assms
proof (induction "is" arbitrary: m opened)
  case Nil
  then show ?case by simp
next
  case (Cons i "is")
  obtain ok m1 where o: "service_open env so i m = (ok, m1)" by fastforce
  have i: "i < length (services (mgr m))" using Cons.prems(3) by simp
  note m1 = open_inv [OF Cons.prems(1,2) i o]
  have ok: ok "svcmgr_init_from env so (i # opened) is m1 = (True, m')"
    using Cons.prems(4) o by (auto split: if_splits)
  have "svr_inv env m' \<and> length (services (mgr m')) = length (services (mgr m1))
    \<and> (\<forall>i \<in> set is. sv_s (svc_at m' i) \<noteq> None)
    \<and> (\<forall>j < length (services (mgr m1)). j \<notin> set is \<longrightarrow> svc_at m' j = svc_at m1 j)"
    using m1 Cons.prems(3,5) by (intro Cons.IH [OF _ Cons.prems(2) _ ok(2)]) auto
  then show ?case using m1 ok(1) i Cons.prems(5) by auto
qed

lemma svr_start_services: "services (mgr (svr_start svcs w null)) = svcs"
  by (simp add: svr_start_def cm_init_def)

lemma start_inv:
  assumes "services_ok (proto_info env) svcs" "fresh_services svcs"
  shows "svr_inv env (svr_start svcs w null)"
proof -
  have "services (cm_init svcs w null) = svcs" by (simp add: cm_init_def)
  then show ?thesis
    using cm_init_inv [OF assms(1), of w null] assms(2) nth_mem
    by (fastforce simp: svr_inv_def svr_start_def svc_ok_def svc_at_def fresh_services_def)
qed

lemma async_accept_inv:
  assumes inv: "cm_inv env {} (mgr m)" and law: "socket_law env so opn" and i: "i < length (services (mgr m))"
    and others: "\<And>j. j < length (services (mgr m)) \<Longrightarrow> j \<noteq> i \<Longrightarrow> svc_ok m j"
    and bound: "\<forall>j \<in> set (accept_pending m). j < length (services (mgr m))"
    and idle: "sv_s (svc_at m i) = Some l" "sv_pending_work (svc_at m i) = 0" "\<not> sv_closing (svc_at m i)"
      "count_list (accept_pending m) i = 0"
  shows "svr_inv env (service_async_accept env so i m)"
proof -
  let ?svc = "svc_at m i" and ?ap = "accept_pending m"
  obtain w' svc' ap' where c: "service_async_accept env so i (svc_change i ?svc (world (mgr m)) ?ap m)
        = svc_change i svc' w' ap' m"
      "accept_chained i l (opn (world (mgr m))) (opn w') ?svc ?ap svc' ap'"
    using async_accept_change [OF i law idle(1-3)] by blast
  have "service_async_accept env so i m = svc_change i svc' w' ap' m"
    using c(1) by (simp add: svc_change_id [OF i])
  moreover have "svr_inv env (svc_change i svc' w' ap' m)"
  proof (rule svc_change_inv [OF inv i others bound])
    show "sv_port svc' = sv_port ?svc" "sv_protocols svc' = sv_protocols ?svc" "ap' = ?ap \<or> ap' = i # ?ap"
      using accept_chained_service [OF c(2)] by auto
    show "svc_ok (svc_change i svc' w' ap' m) i"
      using accept_chained_service [OF c(2)]
    proof (elim disjE exE conjE)
      fix l' a assume "svc' = ?svc\<lparr>sv_s := Some l', sv_accept_socket := Some a, sv_pending_work := 1\<rparr>" "ap' = i # ?ap"
      then show ?thesis using idle(4) i by (intro svc_okI) simp_all
    next
      fix a assume "svc' = ?svc\<lparr>sv_s := None, sv_accept_socket := a\<rparr>" "ap' = ?ap"
      then show ?thesis using idle i by (intro svc_okI) simp_all
    qed
  qed
  ultimately show ?thesis by simp
qed

lemma count_list_remove1: "count_list (remove1 x xs) y = count_list xs y - (if x = y \<and> x \<in> set xs then 1 else 0)"
  by (induction xs) (auto simp: count_list_0_iff Suc_diff_Suc)

text \<open>The state in which \<^verbatim>\<open>service_on_accept\<close> does its work.\<close>

definition accept_taken :: "nat \<Rightarrow> ('p, 'd, 'w) server \<Rightarrow> ('p, 'd, 'w) server" where
  "accept_taken i m = svc_change i ((svc_at m i)\<lparr>sv_pending_work := sv_pending_work (svc_at m i) - 1\<rparr>)
     (world (mgr m)) (remove1 i (accept_pending m)) m"

lemma accept_taken_state:
  assumes inv: "svr_inv env m" and i: "i \<in> set (accept_pending m)"
  obtains l a where "i < length (services (mgr m))" "sv_s (svc_at m i) = Some l"
    "sv_accept_socket (svc_at m i) = Some a" "sv_pending_work (svc_at m i) = 1"
    "count_list (remove1 i (accept_pending m)) i = 0"
    "cm_inv env {} (mgr (accept_taken i m))"
    "length (services (mgr (accept_taken i m))) = length (services (mgr m))"
    "\<And>j. j < length (services (mgr m)) \<Longrightarrow> j \<noteq> i \<Longrightarrow> svc_ok (accept_taken i m) j"
    "\<forall>j \<in> set (accept_pending (accept_taken i m)). j < length (services (mgr m))"
proof -
  have i': "i < length (services (mgr m))" and ok: "\<And>j. j < length (services (mgr m)) \<Longrightarrow> svc_ok m j"
    and cm: "cm_inv env {} (mgr m)" and bound: "\<forall>j \<in> set (accept_pending m). j < length (services (mgr m))"
    using inv i by (auto simp: svr_inv_def)
  have "count_list (accept_pending m) i \<noteq> 0" using i by (simp add: count_list_0_iff)
  moreover have "svc_ok m i" by (rule ok [OF i'])
  ultimately obtain l where "sv_s (svc_at m i) = Some l"
    by (cases "sv_s (svc_at m i)") (simp_all add: svc_ok_def Let_def)
  moreover from this \<open>svc_ok m i\<close> obtain a where "sv_accept_socket (svc_at m i) = Some a"
      "sv_pending_work (svc_at m i) = 1" "count_list (accept_pending m) i = 1"
    by (auto simp: svc_ok_def Let_def)
  ultimately have la: "sv_s (svc_at m i) = Some l" "sv_accept_socket (svc_at m i) = Some a"
      "sv_pending_work (svc_at m i) = 1" "count_list (accept_pending m) i = 1" by simp_all
  have "svc_ok (accept_taken i m) j" if "j < length (services (mgr m))" "j \<noteq> i" for j
    using ok [OF that(1)] that(2)
    by (simp add: svc_ok_def accept_taken_def svc_change_def svc_at_def count_list_remove1)
  moreover have "cm_inv env {} (mgr (accept_taken i m))"
    using cm i' by (simp add: accept_taken_def svc_change_def svc_at_def cm_inv_svc)
  moreover have "\<forall>j \<in> set (accept_pending (accept_taken i m)). j < length (services (mgr m))"
    using bound i' by (auto simp: accept_taken_def dest: notin_set_remove1)
  ultimately show thesis using that [of l a] i' la i
    by (simp add: accept_taken_def count_list_remove1) (simp add: svc_change_def)
qed

context conn_protocols
begin

lemma on_accept_inv:
  assumes inv: "svr_inv env m" and i: "i \<in> set (accept_pending m)" and law: "socket_law env so opn"
  shows "case accept_complete env so i err m of
      Some m' \<Rightarrow> svr_inv env m' | None \<Rightarrow> \<forall>j < MAX_CONNECTIONS. inuse (mgr m) j"
proof -
  obtain l a where t: "i < length (services (mgr m))" "sv_s (svc_at m i) = Some l"
      "sv_accept_socket (svc_at m i) = Some a" "sv_pending_work (svc_at m i) = 1"
      "count_list (remove1 i (accept_pending m)) i = 0"
      "cm_inv env {} (mgr (accept_taken i m))"
      "length (services (mgr (accept_taken i m))) = length (services (mgr m))"
      "\<And>j. j < length (services (mgr m)) \<Longrightarrow> j \<noteq> i \<Longrightarrow> svc_ok (accept_taken i m) j"
      "\<forall>j \<in> set (accept_pending (accept_taken i m)). j < length (services (mgr m))"
    using accept_taken_state [OF inv i] by blast
  let ?t = "accept_taken i m" and ?svc = "(svc_at m i)\<lparr>sv_pending_work := 0\<rparr>"
  have at: "svc_at ?t i = ?svc" "count_list (accept_pending ?t) i = 0" "world (mgr ?t) = world (mgr m)"
    using t(1,4,5) by (simp_all add: accept_taken_def)
  have start: "upd_svc i (\<lambda>svc. svc\<lparr>sv_pending_work := sv_pending_work svc - 1\<rparr>)
      (m\<lparr>accept_pending := remove1 i (accept_pending m)\<rparr>) = ?t"
    by (simp add: upd_svc_def accept_taken_def svc_change_def svc_at_def)
  have sock: "sv_accept_socket (svc_at (m\<lparr>accept_pending := remove1 i (accept_pending m)\<rparr>) i) = Some a"
    using t(3) by (simp add: svc_at_def)
  have e: "accept_complete env so i err m =
     (if sv_closing (svc_at m i) then Some (internal_service_close env i (close_opt env (Some a) ?t))
      else if err then Some (service_async_accept env so i (close_opt env (Some a) ?t))
      else map_option (\<lambda>c. service_async_accept env so i (?t\<lparr>mgr := c\<rparr>)) (connmgr_start_connection env a i (mgr ?t)))"
    unfolding accept_complete_def service_on_accept_def start sock
    using t(1,7) at(1)
    by (cases "connmgr_start_connection env a i (mgr ?t)")
      (auto simp: Let_def close_opt_def set_world_def svc_at_def)
  have inu: "inuse (mgr ?t) j = inuse (mgr m) j" for j
    by (simp add: accept_taken_def svc_change_def conn_flag_def)
  show ?thesis
  proof (cases "sv_closing (svc_at m i)")
    case True
    let ?c = "closesocket (os env)"
    have "internal_service_close env i (close_opt env (Some a) ?t) =
        svc_change i (?svc\<lparr>sv_s := None, sv_closing := False\<rparr>) (?c l (?c a (world (mgr m))))
          (accept_pending ?t) ?t"
      using t(1,2,4) by (simp add: accept_taken_def) (simp add: svc_change_def)
    moreover have "svr_inv env \<dots>"
      using t(5,7,8,9) at t(1) by (intro svc_change_inv [OF t(6)] svc_okI) auto
    ultimately show ?thesis using e True by simp
  next
    case open': False
    show ?thesis
    proof (cases err)
      case True
      let ?m = "close_opt env (Some a) ?t"
      have "svr_inv env (service_async_accept env so i ?m)"
        using t at open'
        by (intro async_accept_inv [OF _ law, where l = l])
          (auto simp: close_opt_def set_world_def svc_ok_def svc_at_def)
      then show ?thesis using e open' True by simp
    next
      case False
      show ?thesis
      proof (cases "\<exists>j < MAX_CONNECTIONS. \<not> inuse (mgr ?t) j")
        case room: True
        obtain c where c: "connmgr_start_connection env a i (mgr ?t) = Some c" "cm_inv env {} c"
            "services c = services (mgr ?t)"
          using start_connection_inv [OF t(6) _ room, of i a] t(1,7) by auto
        have "svr_inv env (service_async_accept env so i (?t\<lparr>mgr := c\<rparr>))"
          using t at open' c
          by (intro async_accept_inv [OF _ law, where l = l]) (auto simp: svc_ok_def svc_at_def)
        then show ?thesis using e open' False c(1) by simp
      next
        case full: False
        then have "connmgr_start_connection env a i (mgr ?t) = None"
          using alloc_None [OF cm_inv_simps(3) [OF t(6)]] by (auto simp: connmgr_start_connection_def)
        then show ?thesis using e open' False full inu by simp
      qed
    qed
  qed
qed

lemma start_closing_inv:
  assumes inv: "svr_inv env m" and i: "i < length (services (mgr m))" "sv_s (svc_at m i) \<noteq> None"
  shows "svr_inv env (service_start_closing env so i m)"
proof -
  let ?svc = "svc_at m i" and ?ap = "accept_pending m"
  have ok: "svc_ok m i" "cm_inv env {} (mgr m)" "\<forall>j \<in> set ?ap. j < length (services (mgr m))"
    "\<And>j. j < length (services (mgr m)) \<Longrightarrow> svc_ok m j"
    using inv i by (simp_all add: svr_inv_def)
  obtain l where l: "sv_s ?svc = Some l" using i(2) by auto
  then have one: "sv_pending_work ?svc = 1" "count_list ?ap i = 1" "sv_accept_socket ?svc \<noteq> None"
    using ok(1) by (simp_all add: svc_ok_def Let_def)
  have "service_start_closing env so i (svc_change i ?svc (world (mgr m)) ?ap m) =
      svc_change i (?svc\<lparr>sv_closing := True\<rparr>) (cancel_accept so (Some l) (world (mgr m))) ?ap m"
    using i(1) one(1) l by (simp add: service_start_closing_def)
  then have "service_start_closing env so i m =
      svc_change i (?svc\<lparr>sv_closing := True\<rparr>) (cancel_accept so (Some l) (world (mgr m))) ?ap m"
    by (simp add: svc_change_id [OF i(1)])
  moreover have "svr_inv env \<dots>"
    using ok i(1) one l by (intro svc_change_inv [OF ok(2) i(1)] svc_okI) auto
  ultimately show ?thesis by simp
qed

lemma svr_step_inv:
  assumes "svr_step env so m r" "svr_inv env m" "socket_law env so opn"
  shows "case r of Some m' \<Rightarrow> svr_inv env m' | None \<Rightarrow> \<forall>i < MAX_CONNECTIONS. inuse (mgr m) i"
  using assms
proof (induction rule: svr_step.induct)
  case (sv_conn m r)
  have "cm_inv env {} (mgr m)" using sv_conn by (simp add: svr_inv_def)
  then have "case r of Some c \<Rightarrow> cm_inv env {} c \<and> services c = services (mgr m)
      | None \<Rightarrow> \<forall>i < MAX_CONNECTIONS. inuse (mgr m) i"
    using step_inv sv_conn.hyps by blast
  then show ?case using sv_conn.prems(1)
    by (cases r) (auto simp: svr_inv_def svc_ok_def svc_at_def)
next
  case (sv_accept i m err)
  then show ?case using on_accept_inv by blast
next
  case (sv_close i m)
  then show ?case using start_closing_inv by auto
qed

lemma svr_reach_inv:
  assumes "svr_reach env so svcs m" "services_ok (proto_info env) svcs" "fresh_services svcs"
    "socket_law env so opn"
  shows "svr_inv env m"
  using assms
proof (induction rule: svr_reach.induct)
  case (sv_started w null m)
  then have init: "svcmgr_init_from env so [] [0..<length svcs] (svr_start svcs w null) = (True, m)"
    by (simp add: svcmgr_init_def svr_start_services)
  have "\<forall>i \<in> set [0..<length svcs]. i < length (services (mgr (svr_start svcs w null)))"
    by (simp add: svr_start_services)
  from init_inv [OF start_inv [OF sv_started.prems(1,2)] sv_started.prems(3) this init]
  show ?case by simp
next
  case (sv_next m m')
  then show ?case using svr_step_inv [of so m "Some m'"] by simp
qed

end

subsection \<open>Opening all services\<close>

lemma open_fails:
  assumes "socket_law env so opn" "i < length (services (mgr m))" "service_open env so i m = (False, m')"
  shows "\<exists>w a. m' = svc_change i ((svc_at m i)\<lparr>sv_accept_socket := a\<rparr>) w (accept_pending m) m
    \<and> sv_s (svc_at m i) = None"
proof (cases "sv_s (svc_at m i)")
  case (Some l)
  then show ?thesis using assms(3) by (simp add: service_open_def)
next
  case None
  obtain ok w' svc' ap' where c: "service_open env so i (svc_change i (svc_at m i) (world (mgr m)) (accept_pending m) m)
        = (ok, svc_change i svc' w' ap' m)"
      "service_opened i (opn (world (mgr m))) (opn w') (svc_at m i) (accept_pending m) ok svc' ap'"
    using open_change [OF assms(2,1) None] by blast
  have m': "\<not> ok" "m' = svc_change i svc' w' ap' m"
    using c(1) assms(3) by (simp_all add: svc_change_id [OF assms(2)])
  then show ?thesis using c(2) None by (auto simp: service_opened_def)
qed

lemma close_all:
  "\<forall>i \<in> set is. i < length (services (mgr m)) \<Longrightarrow> j < length (services (mgr m)) \<Longrightarrow>
   length (services (mgr (fold (internal_service_close env) is m))) = length (services (mgr m))
   \<and> sv_s (svc_at (fold (internal_service_close env) is m) j) = (if j \<in> set is then None else sv_s (svc_at m j))"
proof (induction "is" arbitrary: m)
  case Nil
  then show ?case by simp
next
  case (Cons i "is")
  have len: "length (services (mgr (internal_service_close env i m))) = length (services (mgr m))"
    by (simp add: internal_service_close_def close_opt_def upd_svc_def set_world_def split: option.split)
  have "sv_s (svc_at (internal_service_close env i m) j) = (if j = i then None else sv_s (svc_at m j))"
    using Cons.prems
    by (simp add: internal_service_close_def close_opt_def upd_svc_def set_world_def svc_at_def split: option.split)
  then show ?case using Cons.IH [of "internal_service_close env i m"] Cons.prems len by auto
qed

lemma init_fails:
  assumes "socket_law env so opn" "\<forall>i \<in> set is \<union> set opened. i < length (services (mgr m))"
    "\<forall>j < length (services (mgr m)). j \<notin> set opened \<longrightarrow> sv_s (svc_at m j) = None"
    "svcmgr_init_from env so opened is m = (False, m')" "j < length (services (mgr m))"
  shows "sv_s (svc_at m' j) = None"
  using assms
proof (induction "is" arbitrary: opened m)
  case Nil
  then show ?case by simp
next
  case (Cons i "is")
  obtain ok m1 where o: "service_open env so i m = (ok, m1)" by fastforce
  have i: "i < length (services (mgr m))" using Cons.prems(2) by simp
  show ?case
  proof (cases ok)
    case True
    have "length (services (mgr m1)) = length (services (mgr m))
        \<and> (\<forall>k < length (services (mgr m)). k \<noteq> i \<longrightarrow> svc_at m1 k = svc_at m k)"
    proof (cases "sv_s (svc_at m i)")
      case None
      obtain ok w' svc' ap' where "service_open env so i
            (svc_change i (svc_at m i) (world (mgr m)) (accept_pending m) m) = (ok, svc_change i svc' w' ap' m)"
        using open_change [OF i Cons.prems(1) None] by blast
      then have "m1 = svc_change i svc' w' ap' m" using o by (simp add: svc_change_id [OF i])
      then show ?thesis by (simp add: svc_change_def svc_at_def)
    qed (use o in \<open>simp add: service_open_def\<close>)
    then show ?thesis using Cons.prems(2-5) o True
      by (intro Cons.IH [of "i # opened" m1, OF Cons.prems(1)]) auto
  next
    case False
    then obtain w a where m1: "m1 = svc_change i ((svc_at m i)\<lparr>sv_accept_socket := a\<rparr>) w (accept_pending m) m"
        "sv_s (svc_at m i) = None"
      using open_fails [OF Cons.prems(1) i] o by auto
    then have m1': "length (services (mgr m1)) = length (services (mgr m))"
        "sv_s (svc_at m1 k) = sv_s (svc_at m k)" if "k < length (services (mgr m))" for k
      using i that by (cases "k = i", simp_all add: svc_change_def svc_at_def)+
    have "m' = fold (internal_service_close env) opened m1" using Cons.prems(4) o False by simp
    then show ?thesis using close_all [of opened m1 j env] Cons.prems(2,3,5) m1' i by auto
  qed
qed

subsection \<open>Properties\<close>

text \<open>C6: While the server runs, a service either has a listening socket and exactly one accept
  outstanding, which it counts in \<^verbatim>\<open>pending_work\<close>, or it is out: no socket and nothing outstanding.
  It never listens without accepting, whatever fails.\<close>

theorem svcmgr_accepting:
  assumes "conn_protocols env" "services_ok (proto_info env) svcs" "fresh_services svcs"
    and "socket_law env so opn" "svr_reach env so svcs m" "i < length (services (mgr m))"
  shows "case sv_s (svc_at m i) of
      None \<Rightarrow> sv_pending_work (svc_at m i) = 0 \<and> i \<notin> set (accept_pending m)
    | Some l \<Rightarrow> sv_pending_work (svc_at m i) = 1 \<and> count_list (accept_pending m) i = 1
        \<and> sv_accept_socket (svc_at m i) \<noteq> None"
  using conn_protocols.svr_reach_inv [OF assms(1,5,2,3,4)] assms(6)
  by (auto simp: svr_inv_def svc_ok_def Let_def count_list_0_iff split: option.splits)

text \<open>A completed accept, with or without an error, is handled without undefined behaviour, as is
  every event of the connections, unless all 4096 slots are in use.\<close>

theorem svcmgr_accept_safe:
  assumes "conn_protocols env" "services_ok (proto_info env) svcs" "fresh_services svcs"
    and "socket_law env so opn" "svr_reach env so svcs m" "svr_step env so m r"
  shows "r \<noteq> None \<or> (\<forall>i < MAX_CONNECTIONS. inuse (mgr m) i)"
  using conn_protocols.svr_step_inv [OF assms(1,6) conn_protocols.svr_reach_inv [OF assms(1,5,2,3,4)] assms(4)]
  by (cases r) auto

text \<open>\<^verbatim>\<open>svcmgr_init\<close> is all or nothing: if it succeeds every service listens, and if opening one
  fails no service is left with a socket.\<close>

theorem svcmgr_init_all_or_nothing:
  assumes "services_ok (proto_info env) svcs" "fresh_services svcs" "socket_law env so opn"
    and "svcmgr_init env so (svr_start svcs w null) = (ok, m)" "i < length svcs"
  shows "sv_s (svc_at m i) \<noteq> None \<longleftrightarrow> ok"
proof -
  let ?s = "svr_start svcs w null"
  have init: "svcmgr_init_from env so [] [0..<length svcs] ?s = (ok, m)"
    using assms(4) by (simp add: svcmgr_init_def svr_start_services)
  show ?thesis
  proof (cases ok)
    case True
    have "\<forall>i \<in> set [0..<length svcs]. i < length (services (mgr ?s))" by (simp add: svr_start_services)
    from init_inv [OF start_inv [OF assms(1,2)] assms(3) this] init True assms(5)
    show ?thesis by (simp add: svr_start_services)
  next
    case False
    have "sv_s (svc_at ?s j) = None" if "j < length svcs" for j
      using assms(2) that by (simp add: svc_at_def svr_start_services fresh_services_def)
    then have "sv_s (svc_at m i) = None"
      using init False assms(5) by (intro init_fails [OF assms(3), of "[0..<length svcs]" "[]" ?s m i])
        (simp_all add: svr_start_services)
    then show ?thesis using False by simp
  qed
qed

text \<open>The sockets a service holds.\<close>

definition svc_sockets :: "('p, 'd, 'w) server \<Rightarrow> nat \<Rightarrow> nat set" where
  "svc_sockets m i = set_option (sv_s (svc_at m i))
     \<union> (if sv_pending_work (svc_at m i) = 0 then {} else set_option (sv_accept_socket (svc_at m i)))"

text \<open>C7: Opening a service and chaining an accept, with all their error paths, neither leak a socket
  nor close a foreign one: apart from the sockets the service holds, the same sockets are open as
  before, and the sockets it holds are open.\<close>

theorem svcmgr_socket_ledger:
  assumes "socket_law env so opn" "i < length (services (mgr m))"
    and "sv_pending_work (svc_at m i) = 0" "\<not> sv_closing (svc_at m i)"
    and "svc_sockets m i \<subseteq> opn (world (mgr m))"
    and "m' = (if sv_s (svc_at m i) = None then snd (service_open env so i m) else service_async_accept env so i m)"
  shows "opn (world (mgr m')) - svc_sockets m' i = opn (world (mgr m)) - svc_sockets m i
    \<and> svc_sockets m' i \<subseteq> opn (world (mgr m'))"
proof (cases "sv_s (svc_at m i)")
  case None
  obtain ok w' svc' ap' where c: "service_open env so i (svc_change i (svc_at m i) (world (mgr m)) (accept_pending m) m)
        = (ok, svc_change i svc' w' ap' m)"
      "service_opened i (opn (world (mgr m))) (opn w') (svc_at m i) (accept_pending m) ok svc' ap'"
    using open_change [OF assms(2,1) None] by blast
  have "m' = svc_change i svc' w' ap' m"
    using c(1) assms(6) None by (simp add: svc_change_id [OF assms(2)])
  then have m': "svc_at m' i = svc'" "world (mgr m') = w'" using assms(2) by simp_all
  have none: "svc_sockets m i = {}" using None assms(3) by (simp add: svc_sockets_def)
  show ?thesis
  proof (cases ok)
    case True
    then obtain l a where la: "svc' = (svc_at m i)\<lparr>sv_s := Some l, sv_accept_socket := Some a,
            sv_pending_work := sv_pending_work (svc_at m i) + 1\<rparr>"
        "l \<notin> opn (world (mgr m))" "a \<notin> opn (world (mgr m))" "opn w' = {l, a} \<union> opn (world (mgr m))"
      using c(2) unfolding service_opened_def if_P [OF True] by blast
    then have "svc_sockets m' i = {l, a}" using assms(3) by (simp add: svc_sockets_def m' insert_commute)
    then show ?thesis using la none m'(2) by auto
  next
    case False
    then obtain a where a: "svc' = (svc_at m i)\<lparr>sv_accept_socket := a\<rparr>" "opn w' = opn (world (mgr m))"
      using c(2) unfolding service_opened_def if_not_P [OF False] by blast
    then have "svc_sockets m' i = {}" using assms(3) None by (simp add: svc_sockets_def m')
    then show ?thesis using a none m'(2) by simp
  qed
next
  case (Some l)
  obtain w' svc' ap' where c: "service_async_accept env so i
        (svc_change i (svc_at m i) (world (mgr m)) (accept_pending m) m) = svc_change i svc' w' ap' m"
      "accept_chained i l (opn (world (mgr m))) (opn w') (svc_at m i) (accept_pending m) svc' ap'"
    using async_accept_change [OF assms(2,1) Some assms(3,4)] by blast
  have "m' = svc_change i svc' w' ap' m"
    using c(1) assms(6) Some by (simp add: svc_change_id [OF assms(2)])
  then have m': "svc_at m' i = svc'" "world (mgr m') = w'" using assms(2) by simp_all
  have one: "svc_sockets m i = {l}" using Some assms(3) by (simp add: svc_sockets_def)
  then have l: "l \<in> opn (world (mgr m))" using assms(5) by simp
  show ?thesis using c(2) unfolding accept_chained_def
  proof (elim disjE exE conjE)
    fix l' a
    assume r: "svc' = (svc_at m i)\<lparr>sv_s := Some l', sv_accept_socket := Some a, sv_pending_work := 1\<rparr>"
      "l \<in> opn (world (mgr m)) \<longrightarrow> l' \<notin> opn (world (mgr m)) - {l} \<and> a \<notin> opn (world (mgr m)) - {l}
         \<and> l' \<noteq> a \<and> opn w' = {l', a} \<union> (opn (world (mgr m)) - {l})"
    then have "svc_sockets m' i = {l', a}" by (simp add: svc_sockets_def m' insert_commute)
    then show ?thesis using r(2) l one m'(2) by auto
  next
    fix a
    assume r: "svc' = (svc_at m i)\<lparr>sv_s := None, sv_accept_socket := a\<rparr>"
      "l \<in> opn (world (mgr m)) \<longrightarrow> opn w' = opn (world (mgr m)) - {l}"
    then have "svc_sockets m' i = {}" using assms(3) by (simp add: svc_sockets_def m')
    then show ?thesis using r(2) l one m'(2) by simp
  qed
qed

end
