(* ===== verification/Server.thy ===== *)
theory Server
  imports Svcmgr "HOL-Library.Sublist"
begin

text \<open>
  Start, stop and work loop of the server, \<^verbatim>\<open>src/src/server/iocp_server.c\<close>, and the server thread
  with its one-task mailbox, \<^verbatim>\<open>src/src/server/server.c\<close>.
\<close>

subsection \<open>Starting and stopping\<close>

text \<open>Further winsock and kernel calls.  \<open>wsa_ioctl\<close> is \<^verbatim>\<open>WSAIoctl\<close> for one of the two extension
  functions.\<close>

datatype wsa_extension = AcceptEx | GetAcceptExSockAddrs

record 'w iocp_os =
  wsa_startup :: "'w \<Rightarrow> bool \<times> 'w"
  wsa_cleanup :: "'w \<Rightarrow> 'w"
  wsa_ioctl :: "nat \<Rightarrow> wsa_extension \<Rightarrow> 'w \<Rightarrow> bool \<times> 'w"
  plain_socket :: "'w \<Rightarrow> nat option \<times> 'w"
  create_port :: "'w \<Rightarrow> nat option \<times> 'w"
  close_handle :: "nat \<Rightarrow> 'w \<Rightarrow> 'w"

record ('p, 'd, 'w) iocp_server =
  srv :: "('p, 'd, 'w) server"
  iocp :: "nat option"
  initialized :: bool

definition iocp_world :: "('p, 'd, 'w) iocp_server \<Rightarrow> 'w" where
  "iocp_world m = world (mgr (srv m))"

definition set_iocp_world :: "'w \<Rightarrow> ('p, 'd, 'w) iocp_server \<Rightarrow> ('p, 'd, 'w) iocp_server" where
  "set_iocp_world w m = m\<lparr>srv := set_world w (srv m)\<rparr>"

definition server_create_iocp :: "'w iocp_os \<Rightarrow> ('p, 'd, 'w) iocp_server \<Rightarrow> bool \<times> ('p, 'd, 'w) iocp_server" where
  "server_create_iocp io m =
     (if iocp m \<noteq> None then (True, m)
      else
        let (h, w) = create_port io (iocp_world m);
            m1 = (set_iocp_world w m)\<lparr>iocp := h\<rparr>
        in (h \<noteq> None, m1))"

definition server_close_iocp :: "'w iocp_os \<Rightarrow> ('p, 'd, 'w) iocp_server \<Rightarrow> ('p, 'd, 'w) iocp_server" where
  "server_close_iocp io m =
     (case iocp m of
        None \<Rightarrow> m
      | Some h \<Rightarrow> (set_iocp_world (close_handle io h (iocp_world m)) m)\<lparr>iocp := None\<rparr>)"

definition server_load_winsock_extensions ::
  "('p, 'd, 'w) conn_env \<Rightarrow> 'w iocp_os \<Rightarrow> 'w \<Rightarrow> bool \<times> 'w" where
  "server_load_winsock_extensions env io w =
     (case plain_socket io w of
        (None, w1) \<Rightarrow> (False, w1)
      | (Some s, w1) \<Rightarrow>
          let (ok1, w2) = wsa_ioctl io s AcceptEx w1
          in if \<not> ok1 then (False, closesocket (os env) s w2)
             else
               let (ok2, w3) = wsa_ioctl io s GetAcceptExSockAddrs w2
               in if \<not> ok2 then (False, closesocket (os env) s w3)
                  else (True, closesocket (os env) s w3))"

definition server_init_winsock ::
  "('p, 'd, 'w) conn_env \<Rightarrow> 'w iocp_os \<Rightarrow> ('p, 'd, 'w) iocp_server \<Rightarrow> bool \<times> ('p, 'd, 'w) iocp_server" where
  "server_init_winsock env io m =
     (let (ok, w1) = wsa_startup io (iocp_world m)
      in if \<not> ok then (False, set_iocp_world w1 m)
         else
           let (ok2, w2) = server_load_winsock_extensions env io w1
           in if \<not> ok2 then (False, set_iocp_world (wsa_cleanup io w2) m)
              else (True, set_iocp_world w2 m))"

definition server_cleanup_winsock :: "'w iocp_os \<Rightarrow> ('p, 'd, 'w) iocp_server \<Rightarrow> ('p, 'd, 'w) iocp_server" where
  "server_cleanup_winsock io m = set_iocp_world (wsa_cleanup io (iocp_world m)) m"

definition connmgr_init :: "('p, 'd, 'w) connmgr \<Rightarrow> bool \<times> ('p, 'd, 'w) connmgr" where
  "connmgr_init m = (True, m)"

definition server_internal_init ::
  "('p, 'd, 'w) conn_env \<Rightarrow> 'w svc_os \<Rightarrow> 'w iocp_os \<Rightarrow> ('p, 'd, 'w) iocp_server
    \<Rightarrow> bool \<times> ('p, 'd, 'w) iocp_server" where
  "server_internal_init env so io m =
     (if initialized m then (True, m)
      else
        let fail1 = (\<lambda>m. (False, server_cleanup_winsock io m));
            fail2 = (\<lambda>m. fail1 (server_close_iocp io m));
            fail3 = (\<lambda>m. fail2 (m\<lparr>srv := (srv m)\<lparr>mgr := connmgr_shutdown env (mgr (srv m))\<rparr>\<rparr>));
            (ok, m1) = server_init_winsock env io m
        in if \<not> ok then (False, m1)
           else
             let (ok, m2) = server_create_iocp io m1
             in if \<not> ok then fail1 m2
                else
                  let (ok, c) = connmgr_init (mgr (srv m2)); m3 = m2\<lparr>srv := (srv m2)\<lparr>mgr := c\<rparr>\<rparr>
                  in if \<not> ok then fail2 m3
                     else
                       let (ok, s) = svcmgr_init env so (srv m3); m4 = m3\<lparr>srv := s\<rparr>
                       in if \<not> ok then fail3 m4 else (True, m4\<lparr>initialized := True\<rparr>))"

definition server_internal_shutdown ::
  "('p, 'd, 'w) conn_env \<Rightarrow> 'w iocp_os \<Rightarrow> ('p, 'd, 'w) iocp_server \<Rightarrow> ('p, 'd, 'w) iocp_server" where
  "server_internal_shutdown env io m =
     (if \<not> initialized m then m
      else
        let s1 = svcmgr_shutdown env (srv m);
            s2 = s1\<lparr>mgr := connmgr_shutdown env (mgr s1)\<rparr>
        in server_cleanup_winsock io (server_close_iocp io (m\<lparr>srv := s2\<rparr>)))"

subsection \<open>The work loop\<close>

definition TIMEOUT_INTERVAL :: int where
  "TIMEOUT_INTERVAL = 5000"

text \<open>An entry that \<^verbatim>\<open>GetQueuedCompletionStatusEx\<close> returns: an operation of a connection or an accept
  with its result, or the empty entry that \<^verbatim>\<open>server_internal_interrupt\<close> posts.\<close>

datatype completion =
    Conn_op nat conn_op bool nat bytes
  | Accept nat bool
  | Interrupt

definition handle_completion ::
  "('p, 'd, 'w) conn_env \<Rightarrow> 'w svc_os \<Rightarrow> completion \<Rightarrow> bool \<times> ('p, 'd, 'w) server
    \<Rightarrow> (bool \<times> ('p, 'd, 'w) server) option" where
  "handle_completion env so ev st =
     (let (interrupt, m) = st
      in case ev of
           Interrupt \<Rightarrow> Some (True, m)
         | Conn_op i op err transferred data \<Rightarrow>
             map_option (\<lambda>c. (interrupt, m\<lparr>mgr := c\<rparr>)) (io_complete env i op err transferred data (mgr m))
         | Accept i err \<Rightarrow> map_option (\<lambda>m'. (interrupt, m')) (accept_complete env so i err m))"

fun handle_batch ::
  "('p, 'd, 'w) conn_env \<Rightarrow> 'w svc_os \<Rightarrow> completion list \<Rightarrow> bool \<times> ('p, 'd, 'w) server
    \<Rightarrow> (bool \<times> ('p, 'd, 'w) server) option" where
  "handle_batch env so [] st = Some st"
| "handle_batch env so (ev # evs) st = do {
     st1 \<leftarrow> handle_completion env so ev st;
     handle_batch env so evs st1
   }"

text \<open>One pass of the loop for each entry of \<open>polls\<close>: the clock, and what the poll returned (\<^theory_text>\<open>None\<close>
  if it failed, which a timeout does too).  The result tells whether the loop was left, with the
  next time of a timeout check.  The loop goes on as long as the polls return no interrupt, so a
  list that is used up leaves it running.\<close>

fun server_internal_work ::
  "('p, 'd, 'w) conn_env \<Rightarrow> 'w svc_os \<Rightarrow> (int \<times> completion list option) list \<Rightarrow> int
    \<Rightarrow> ('p, 'd, 'w) server \<Rightarrow> (bool \<times> int \<times> ('p, 'd, 'w) server) option" where
  "server_internal_work env so [] next m = Some (False, next, m)"
| "server_internal_work env so ((now, ret) # polls) next m =
     (let (next1, m1) = (if next \<le> now
            then (now + TIMEOUT_INTERVAL, m\<lparr>mgr := connmgr_timeout_check env (mgr m)\<rparr>) else (next, m))
      in case ret of
           None \<Rightarrow> Some (True, next1, m1)
         | Some evs \<Rightarrow> do {
             (interrupt, m2) \<leftarrow> handle_batch env so evs (False, m1);
             (if interrupt then Some (True, next1, m2) else server_internal_work env so polls next1 m2)
           })"

subsection \<open>The server thread\<close>

text \<open>\<^verbatim>\<open>task_fp\<close> with its argument is the mailbox.  \<open>interrupts\<close> counts the entries that
  \<^verbatim>\<open>server_internal_interrupt\<close> posted and the work loop has not taken; \<open>executed\<close> are the tasks the
  thread has called.  The thread is at the top of its loop, about to call what it took, in
  \<^verbatim>\<open>server_internal_work\<close>, or has returned.\<close>

datatype 't server_pc = Top | Call "'t option" | Working | Returned

record 't server_ctl =
  running :: bool
  task_fp :: "'t option"
  interrupts :: nat
  server_pc :: "'t server_pc"
  executed :: "'t list"

definition server_init :: "'t server_ctl" where
  "server_init = \<lparr>running = True, task_fp = None, interrupts = 0, server_pc = Top, executed = []\<rparr>"

definition server_exec :: "'t \<Rightarrow> 't server_ctl \<Rightarrow> 't server_ctl" where
  "server_exec t s =
     (if \<not> running s then s else s\<lparr>task_fp := Some t, interrupts := interrupts s + 1\<rparr>)"

text \<open>The part of \<^verbatim>\<open>server_shutdown\<close> before it joins the thread.\<close>

definition server_stop :: "'t server_ctl \<Rightarrow> 't server_ctl" where
  "server_stop s = s\<lparr>running := False, interrupts := interrupts s + 1\<rparr>"

text \<open>One step of \<^verbatim>\<open>server_thread\<close>; the work loop returns when it takes interrupts, \<open>taken\<close> of them,
  or when its poll fails (\<open>taken\<close> is 0).\<close>

definition server_thread_step :: "nat \<Rightarrow> 't server_ctl \<Rightarrow> 't server_ctl" where
  "server_thread_step taken s =
     (case server_pc s of
        Top \<Rightarrow> if \<not> running s then s\<lparr>server_pc := Returned\<rparr>
               else s\<lparr>task_fp := None, server_pc := Call (task_fp s)\<rparr>
      | Call None \<Rightarrow> s\<lparr>server_pc := Working\<rparr>
      | Call (Some t) \<Rightarrow> s\<lparr>executed := executed s @ [t], server_pc := Working\<rparr>
      | Working \<Rightarrow> s\<lparr>interrupts := interrupts s - taken, server_pc := Top\<rparr>
      | Returned \<Rightarrow> s)"

subsection \<open>Runs of the server thread\<close>

text \<open>\<open>given\<close> are the tasks handed over while the server was running, in order.  The work loop returns
  when it has taken an interrupt; that a failing poll makes it return too only adds wake-ups.\<close>

inductive thread_reach :: "'t list \<Rightarrow> 't server_ctl \<Rightarrow> bool" where
  tr_init: "thread_reach [] server_init"
| tr_exec: "thread_reach given s \<Longrightarrow>
    thread_reach (if running s then given @ [t] else given) (server_exec t s)"
| tr_stop: "thread_reach given s \<Longrightarrow> thread_reach given (server_stop s)"
| tr_thread: "thread_reach given s \<Longrightarrow> taken \<le> interrupts s \<Longrightarrow>
    thread_reach given (server_thread_step taken s)"

definition opt_list :: "'a option \<Rightarrow> 'a list" where
  "opt_list x = (case x of None \<Rightarrow> [] | Some a \<Rightarrow> [a])"

lemma opt_list_simps [simp]: "opt_list None = []" "opt_list (Some a) = [a]"
  by (simp_all add: opt_list_def)

definition thread_inv :: "'t list \<Rightarrow> 't server_ctl \<Rightarrow> bool" where
  "thread_inv given s \<longleftrightarrow>
     (\<exists>gone. subseq (executed s @ (case server_pc s of Call x \<Rightarrow> opt_list x | _ \<Rightarrow> [])) gone
        \<and> given = gone @ opt_list (task_fp s))
     \<and> (server_pc s = Returned \<longrightarrow> \<not> running s)"

text \<open>Sleeping: in the work loop with no interrupt to take.\<close>

definition sleeping :: "'t server_ctl \<Rightarrow> bool" where
  "sleeping s \<longleftrightarrow> server_pc s = Working \<and> interrupts s = 0"

lemma subseq_weaken: "subseq xs ys \<Longrightarrow> subseq xs (ys @ zs)"
  using list_emb_append_mono [of "(=)" xs ys "[]" zs] by simp

lemma thread_inv_exec:
  assumes "thread_inv given s"
  shows "thread_inv (if running s then given @ [t] else given) (server_exec t s)"
proof -
  let ?in = "executed s @ (case server_pc s of Call x \<Rightarrow> opt_list x | _ \<Rightarrow> [])"
  obtain gone where g: "subseq ?in gone" "given = gone @ opt_list (task_fp s)"
    using assms by (auto simp: thread_inv_def)
  have "subseq ?in given" unfolding g(2) by (rule subseq_weaken [OF g(1)])
  then show ?thesis using assms
    by (cases "running s") (simp_all add: thread_inv_def server_exec_def)
qed

lemma thread_inv_step:
  assumes "thread_inv given s"
  shows "thread_inv given (server_thread_step n s)"
proof (cases "server_pc s")
  case Top
  obtain gone where g: "subseq (executed s) gone" "given = gone @ opt_list (task_fp s)"
    using assms Top by (auto simp: thread_inv_def)
  then have "subseq (executed s @ opt_list (task_fp s)) given" by simp
  then show ?thesis using assms Top
    by (cases "running s") (simp_all add: thread_inv_def server_thread_step_def)
next
  case (Call x)
  then show ?thesis using assms
    by (cases x) (simp_all add: thread_inv_def server_thread_step_def)
qed (use assms in \<open>simp_all add: thread_inv_def server_thread_step_def\<close>)

lemma thread_reach_inv: "thread_reach given s \<Longrightarrow> thread_inv given s"
proof (induction rule: thread_reach.induct)
  case tr_init
  show ?case by (simp add: thread_inv_def server_init_def)
next
  case (tr_exec given s t)
  show ?case by (rule thread_inv_exec [OF tr_exec.IH])
next
  case (tr_stop given s)
  then show ?case by (simp add: thread_inv_def server_stop_def)
next
  case (tr_thread given s n)
  show ?case by (rule thread_inv_step [OF tr_thread.IH])
qed

text \<open>Interrupts are taken only by the work loop, which returns to the top: a task or a stop request is
  seen before the thread can sleep.\<close>

lemma thread_wakes:
  "thread_reach given s \<Longrightarrow> task_fp s \<noteq> None \<or> \<not> running s \<Longrightarrow> server_pc s = Working \<Longrightarrow> 0 < interrupts s"
proof -
  have "thread_reach given s \<Longrightarrow>
      ((task_fp s \<noteq> None \<or> \<not> running s) \<longrightarrow> server_pc s \<noteq> Top \<longrightarrow> server_pc s \<noteq> Returned \<longrightarrow> 0 < interrupts s)"
  proof (induction rule: thread_reach.induct)
    case (tr_thread given s n)
    then show ?case
      by (cases "server_pc s") (auto simp: server_thread_step_def split: option.split)
  qed (auto simp: server_init_def server_exec_def server_stop_def)
  then show "thread_reach given s \<Longrightarrow> task_fp s \<noteq> None \<or> \<not> running s \<Longrightarrow> server_pc s = Working \<Longrightarrow> 0 < interrupts s"
    by auto
qed

definition thread_steps :: "nat list \<Rightarrow> 't server_ctl \<Rightarrow> 't server_ctl" where
  "thread_steps ns s = fold server_thread_step ns s"

text \<open>C34: The server thread calls tasks in the order they were given, each at most once (one that is
  overwritten in the mailbox is not called), and never sleeps while a task or a stop request waits.\<close>

theorem server_tasks_in_order:
  assumes "thread_reach given s"
  shows "subseq (executed s) given \<and> (task_fp s \<noteq> None \<or> \<not> running s \<longrightarrow> \<not> sleeping s)"
proof -
  obtain gone where "subseq (executed s @ (case server_pc s of Call x \<Rightarrow> opt_list x | _ \<Rightarrow> [])) gone"
      "given = gone @ opt_list (task_fp s)"
    using thread_reach_inv [OF assms] by (auto simp: thread_inv_def)
  then have "subseq (executed s) given"
    using subseq_weaken subseq_order.trans [of "executed s"] by (metis subseq_order.refl)
  then show ?thesis using thread_wakes [OF assms] by (auto simp: sleeping_def)
qed


subsection \<open>The work loop takes steps of the server\<close>

text \<open>The entries of a poll that the OS can deliver: completions of operations that are outstanding.\<close>

definition outstanding :: "completion \<Rightarrow> ('p, 'd, 'w) server \<Rightarrow> bool" where
  "outstanding ev m \<longleftrightarrow>
     (case ev of
        Interrupt \<Rightarrow> True
      | Conn_op i op err transferred data \<Rightarrow>
          (i, op) \<in> set (io_pending (mgr m)) \<and> length data \<le> unat CONN_INPUT_BUFFER_SIZE
      | Accept i err \<Rightarrow> i \<in> set (accept_pending m))"

fun batch_ok :: "('p, 'd, 'w) conn_env \<Rightarrow> 'w svc_os \<Rightarrow> completion list \<Rightarrow> ('p, 'd, 'w) server \<Rightarrow> bool" where
  "batch_ok env so [] m \<longleftrightarrow> True"
| "batch_ok env so (ev # evs) m \<longleftrightarrow> outstanding ev m
     \<and> (case handle_completion env so ev (False, m) of None \<Rightarrow> True | Some (b, m') \<Rightarrow> batch_ok env so evs m')"

fun polls_ok ::
  "('p, 'd, 'w) conn_env \<Rightarrow> 'w svc_os \<Rightarrow> (int \<times> completion list option) list \<Rightarrow> int
    \<Rightarrow> ('p, 'd, 'w) server \<Rightarrow> bool" where
  "polls_ok env so [] next m \<longleftrightarrow> True"
| "polls_ok env so ((now, ret) # polls) next m \<longleftrightarrow>
     (let (next1, m1) = (if next \<le> now
            then (now + TIMEOUT_INTERVAL, m\<lparr>mgr := connmgr_timeout_check env (mgr m)\<rparr>) else (next, m))
      in case ret of
           None \<Rightarrow> True
         | Some evs \<Rightarrow> batch_ok env so evs m1
             \<and> (case handle_batch env so evs (False, m1) of
                  None \<Rightarrow> True | Some (b, m2) \<Rightarrow> polls_ok env so polls next1 m2))"

lemma handle_completion_flag:
  "handle_completion env so ev (b, m) =
     map_option (\<lambda>(c, m'). (b \<or> c, m')) (handle_completion env so ev (False, m))"
  by (cases ev) (simp_all add: handle_completion_def option.map_comp comp_def)

lemma handle_completion_interrupt:
  "handle_completion env so ev (False, m) = Some (c, m') \<Longrightarrow> c \<longleftrightarrow> ev = Interrupt"
  by (cases ev) (auto simp: handle_completion_def)

text \<open>Handling one entry is a step of the server.\<close>

lemma handle_completion_step:
  assumes "outstanding ev m"
  shows "ev \<noteq> Interrupt \<Longrightarrow> svr_step env so m (map_option snd (handle_completion env so ev (False, m)))"
    and "ev = Interrupt \<Longrightarrow> handle_completion env so ev (False, m) = Some (True, m)"
proof -
  show "svr_step env so m (map_option snd (handle_completion env so ev (False, m)))" if "ev \<noteq> Interrupt"
  proof (cases ev)
    case (Conn_op i op err transferred data)
    then have "cm_step env (mgr m) (io_complete env i op err transferred data (mgr m))"
      using assms by (intro cm_complete) (simp_all add: outstanding_def)
    from sv_conn [OF this] show ?thesis
      by (simp add: Conn_op handle_completion_def option.map_comp comp_def)
  next
    case (Accept i err)
    then show ?thesis using sv_accept [of i m env so err] assms
      by (simp add: outstanding_def handle_completion_def option.map_comp comp_def option.map_ident)
  qed (use that in simp)
qed (simp add: handle_completion_def)

context conn_protocols
begin

lemma batch_inv:
  assumes "svr_inv env m" "batch_ok env so evs m" "socket_law env so opn"
  shows "case handle_batch env so evs (b, m) of
      Some (c, m') \<Rightarrow> svr_inv env m' \<and> (c \<longleftrightarrow> b \<or> Interrupt \<in> set evs)
        \<and> (\<lambda>m m'. svr_step env so m (Some m'))\<^sup>*\<^sup>* m m'
    | None \<Rightarrow> \<exists>m'. (\<lambda>m m'. svr_step env so m (Some m'))\<^sup>*\<^sup>* m m'
        \<and> (\<forall>i < MAX_CONNECTIONS. inuse (mgr m') i)"
  using assms
proof (induction evs arbitrary: b m)
  case Nil
  then show ?case by simp
next
  case (Cons ev evs)
  let ?r = "handle_completion env so ev (False, m)" and ?S = "\<lambda>m m'. svr_step env so m (Some m')"
  have out: "outstanding ev m" using Cons.prems(2) by simp
  have one: "case ?r of Some (c, m') \<Rightarrow> svr_inv env m' \<and> ?S\<^sup>*\<^sup>* m m'
      | None \<Rightarrow> \<forall>i < MAX_CONNECTIONS. inuse (mgr m) i"
  proof (cases "ev = Interrupt")
    case True
    then show ?thesis using handle_completion_step(2) [OF out] Cons.prems(1) by simp
  next
    case False
    note step = handle_completion_step(1) [OF out False, of env so]
    show ?thesis using svr_step_inv [OF step Cons.prems(1,3)] step
      by (cases ?r) (auto simp: split_def)
  qed
  show ?case
  proof (cases ?r)
    case None
    then have "handle_batch env so (ev # evs) (b, m) = None" by (simp add: handle_completion_flag [of _ _ _ b])
    then show ?thesis using one None by auto
  next
    case (Some cm)
    obtain c m1 where cm: "cm = (c, m1)" by (cases cm)
    have r: "handle_batch env so (ev # evs) (b, m) = handle_batch env so evs (b \<or> c, m1)"
      using Some cm by (simp add: handle_completion_flag [of _ _ _ b])
    have "batch_ok env so evs m1" using Cons.prems(2) Some cm by simp
    then have "case handle_batch env so evs (b \<or> c, m1) of
      Some (d, m') \<Rightarrow> svr_inv env m' \<and> (d \<longleftrightarrow> (b \<or> c) \<or> Interrupt \<in> set evs) \<and> ?S\<^sup>*\<^sup>* m1 m'
    | None \<Rightarrow> \<exists>m'. ?S\<^sup>*\<^sup>* m1 m' \<and> (\<forall>i < MAX_CONNECTIONS. inuse (mgr m') i)"
      using one Some cm Cons.prems(3) by (intro Cons.IH) auto
    moreover have "?S\<^sup>*\<^sup>* m m1" using one Some cm by simp
    moreover have "c \<longleftrightarrow> ev = Interrupt" using handle_completion_interrupt Some cm by blast
    ultimately show ?thesis unfolding r
      by (auto split: option.splits intro: rtranclp_trans)
  qed
qed

lemma work_inv:
  assumes "svr_inv env m" "polls_ok env so polls next m" "socket_law env so opn"
  shows "case server_internal_work env so polls next m of
      Some (left, next', m') \<Rightarrow> (left \<longleftrightarrow> (\<exists>(now, ret) \<in> set polls. case ret of None \<Rightarrow> True | Some evs \<Rightarrow> Interrupt \<in> set evs))
        \<and> (\<lambda>m m'. svr_step env so m (Some m'))\<^sup>*\<^sup>* m m'
    | None \<Rightarrow> \<exists>m'. (\<lambda>m m'. svr_step env so m (Some m'))\<^sup>*\<^sup>* m m'
        \<and> (\<forall>i < MAX_CONNECTIONS. inuse (mgr m') i)"
  using assms
proof (induction polls arbitrary: "next" m)
  case Nil
  then show ?case by simp
next
  case (Cons poll polls)
  let ?S = "\<lambda>m m'. svr_step env so m (Some m')"
  obtain now ret where poll: "poll = (now, ret)" by (cases poll)
  define m1 where "m1 = (if next \<le> now then m\<lparr>mgr := connmgr_timeout_check env (mgr m)\<rparr> else m)"
  define next1 where "next1 = (if next \<le> now then now + TIMEOUT_INTERVAL else next)"
  have t: "svr_step env so m (Some (m\<lparr>mgr := connmgr_timeout_check env (mgr m)\<rparr>))"
    using sv_conn [OF cm_timeout [of env "mgr m"], of so] by simp
  then have m1: "?S\<^sup>*\<^sup>* m m1" "svr_inv env m1"
    using svr_step_inv [OF t Cons.prems(1,3)] t Cons.prems(1) by (auto simp: m1_def)
  have e: "server_internal_work env so (poll # polls) next m = (case ret of
         None \<Rightarrow> Some (True, next1, m1)
       | Some evs \<Rightarrow> do {
           (interrupt, m2) \<leftarrow> handle_batch env so evs (False, m1);
           (if interrupt then Some (True, next1, m2) else server_internal_work env so polls next1 m2)
         })"
    unfolding poll m1_def next1_def by (cases ret; cases "next \<le> now") simp_all
  show ?case
  proof (cases ret)
    case None
    then show ?thesis unfolding e using m1 by (simp add: poll)
  next
    case (Some evs)
    have ok: "batch_ok env so evs m1" "case handle_batch env so evs (False, m1) of
        None \<Rightarrow> True | Some (b, m2) \<Rightarrow> polls_ok env so polls next1 m2"
      using Cons.prems(2) Some unfolding poll m1_def next1_def by (cases "next \<le> now"; simp)+
    note b = batch_inv [OF m1(2) ok(1) Cons.prems(3), of False]
    show ?thesis
    proof (cases "handle_batch env so evs (False, m1)")
      case None
      then show ?thesis unfolding e using b m1(1) \<open>ret = Some evs\<close> by (auto intro: rtranclp_trans)
    next
      case (Some bm)
      obtain c m2 where bm: "bm = (c, m2)" by (cases bm)
      have m2: "svr_inv env m2" "c \<longleftrightarrow> Interrupt \<in> set evs" "?S\<^sup>*\<^sup>* m m2"
        using b Some bm m1(1) by (auto intro: rtranclp_trans)
      show ?thesis
      proof (cases c)
        case True
        then show ?thesis unfolding e using Some bm m2 \<open>ret = Some evs\<close> by (simp add: poll)
      next
        case False
        have "polls_ok env so polls next1 m2" using ok(2) Some bm by simp
        from Cons.IH [OF m2(1) this Cons.prems(3)]
        show ?thesis unfolding e using Some bm m2 False \<open>ret = Some evs\<close>
          by (auto simp: poll split: option.splits intro: rtranclp_trans)
      qed
    qed
  qed
qed

end

subsection \<open>Failing to start\<close>

text \<open>What the calls of the service manager leave alone: everything of the world that only the
  functions of \<^verbatim>\<open>iocp_server.c\<close> change.\<close>

definition keeps_world :: "('p, 'd, 'w) conn_env \<Rightarrow> 'w svc_os \<Rightarrow> ('w \<Rightarrow> 'r) \<Rightarrow> bool" where
  "keeps_world env so f \<longleftrightarrow> (\<forall>w. f (snd (wsa_socket so w)) = f w)
     \<and> (\<forall>s w. f (closesocket (os env) s w) = f w) \<and> (\<forall>s w. f (snd (bind_iocp so s w)) = f w)
     \<and> (\<forall>s p w. f (snd (sock_bind so s p w)) = f w) \<and> (\<forall>s w. f (snd (sock_listen so s w)) = f w)
     \<and> (\<forall>l s w. f (snd (accept_ex so l s w)) = f w)"

lemma keeps_worldD:
  assumes "keeps_world env so f"
  shows "wsa_socket so w = (r, w') \<Longrightarrow> f w' = f w" "f (closesocket (os env) s w) = f w"
    "bind_iocp so s w = (ok, w') \<Longrightarrow> f w' = f w" "sock_bind so s p w = (ok, w') \<Longrightarrow> f w' = f w"
    "sock_listen so s w = (ok, w') \<Longrightarrow> f w' = f w" "accept_ex so l s w = (ok, w') \<Longrightarrow> f w' = f w"
proof -
  have *: "f (snd (wsa_socket so w)) = f w" "f (closesocket (os env) s w) = f w"
    "f (snd (bind_iocp so s w)) = f w" "f (snd (sock_bind so s p w)) = f w"
    "f (snd (sock_listen so s w)) = f w" "f (snd (accept_ex so l s w)) = f w"
    using assms by (simp_all add: keeps_world_def)
  then show "wsa_socket so w = (r, w') \<Longrightarrow> f w' = f w" "f (closesocket (os env) s w) = f w"
    "bind_iocp so s w = (ok, w') \<Longrightarrow> f w' = f w" "sock_bind so s p w = (ok, w') \<Longrightarrow> f w' = f w"
    "sock_listen so s w = (ok, w') \<Longrightarrow> f w' = f w" "accept_ex so l s w = (ok, w') \<Longrightarrow> f w' = f w"
    by simp_all
qed

lemma keeps_create:
  assumes "keeps_world env so f" "internal_create_iocp_socket env so w = (r, w')"
  shows "f w' = f w"
proof -
  obtain r1 w1 where s: "wsa_socket so w = (r1, w1)" by fastforce
  note s' = keeps_worldD(1) [OF assms(1) s]
  show ?thesis
  proof (cases r1)
    case None
    then show ?thesis using assms(2) s s' by (simp add: internal_create_iocp_socket_def)
  next
    case (Some n)
    obtain ok w2 where b: "bind_iocp so n w1 = (ok, w2)" by fastforce
    have "w' = (if ok then w2 else closesocket (os env) n w2)"
      using assms(2) s Some b by (simp add: internal_create_iocp_socket_def split: if_splits)
    then show ?thesis
      using s' keeps_worldD(3) [OF assms(1) b] keeps_worldD(2) [OF assms(1), of n w2] by simp
  qed
qed

lemma world_simps [simp]:
  "world (mgr (set_world w m)) = w" "world (mgr (upd_svc i g m)) = world (mgr m)"
  "world (mgr (m\<lparr>accept_pending := ap\<rparr>)) = world (mgr m)"
  by (simp_all add: set_world_def upd_svc_def)

lemma keeps_close:
  "keeps_world env so f \<Longrightarrow> f (world (mgr (close_opt env s m))) = f (world (mgr m))"
  "keeps_world env so f \<Longrightarrow> f (world (mgr (internal_service_close env i m))) = f (world (mgr m))"
  by (auto simp: close_opt_def internal_service_close_def keeps_worldD(2) split: option.splits)

lemma keeps_accept:
  assumes "keeps_world env so f" "service_start_async_accept env so i m = (ok, m')"
  shows "f (world (mgr m')) = f (world (mgr m))"
proof -
  obtain r w1 where c: "internal_create_iocp_socket env so (world (mgr m)) = (r, w1)" by fastforce
  show ?thesis
  proof (cases r)
    case None
    then show ?thesis using assms(2) c keeps_create [OF assms(1) c]
      by (auto simp: service_start_async_accept_def)
  next
    case (Some s)
    let ?m = "upd_svc i (\<lambda>svc. svc\<lparr>sv_accept_socket := Some s\<rparr>) (set_world w1 m)"
    obtain ok2 w2 where a: "accept_ex so (sv_s (svc_at ?m i)) s w1 = (ok2, w2)" by fastforce
    show ?thesis
      using assms(2) c Some a keeps_create [OF assms(1) c] keeps_worldD(6) [OF assms(1) a]
        keeps_close(1) [OF assms(1)]
      by (auto simp: service_start_async_accept_def Let_def split: if_splits)
  qed
qed

lemma keeps_open:
  assumes "keeps_world env so f" "service_open env so i m = (ok, m')"
  shows "f (world (mgr m')) = f (world (mgr m))"
proof -
  obtain r w1 where c: "internal_create_iocp_socket env so (world (mgr m)) = (r, w1)" by fastforce
  note c' = keeps_create [OF assms(1) c]
  show ?thesis
  proof (cases "sv_s (svc_at m i) = None \<and> r \<noteq> None")
    case False
    then show ?thesis using assms(2) c c' by (cases r) (auto simp: service_open_def split: if_splits)
  next
    case True
    then obtain s where s: "sv_s (svc_at m i) = None" "r = Some s" by auto
    obtain bound w2 where b: "sock_bind so s (sv_port (svc_at m i)) w1 = (bound, w2)" by fastforce
    obtain lis w3 where l: "sock_listen so s w2 = (lis, w3)" by fastforce
    let ?m3 = "upd_svc i (\<lambda>svc. svc\<lparr>sv_s := Some s\<rparr>) (set_world w3 (set_world w2 (set_world w1 m)))"
    obtain ok2 m4 where a: "service_start_async_accept env so i ?m3 = (ok2, m4)" by fastforce
    have "f w2 = f w1" "f w3 = f w2" "f (world (mgr m4)) = f w3"
      using keeps_worldD(4) [OF assms(1) b] keeps_worldD(5) [OF assms(1) l] keeps_accept [OF assms(1) a]
      by simp_all
    then show ?thesis
      using assms(2) c c' s b l a keeps_close(1) [OF assms(1)]
      by (auto simp: service_open_def Let_def split: if_splits)
  qed
qed

lemma keeps_init:
  assumes "keeps_world env so f"
  shows "svcmgr_init_from env so opened is m = (ok, m') \<Longrightarrow> f (world (mgr m')) = f (world (mgr m))"
proof (induction "is" arbitrary: opened m)
  case Nil
  then show ?case by simp
next
  case (Cons i "is")
  obtain ok1 m1 where o: "service_open env so i m = (ok1, m1)" by fastforce
  note o' = keeps_open [OF assms o]
  have "f (world (mgr (fold (internal_service_close env) js m2))) = f (world (mgr m2))" for js m2
    by (induction js arbitrary: m2) (simp_all add: keeps_close(2) [OF assms])
  then show ?case using Cons o o' by (auto split: if_splits)
qed

lemma open_slots:
  assumes law: "socket_law env so opn" and i: "i < length (services (mgr m))"
    and o: "service_open env so i m = (ok, m')"
  shows "next_unused_slot (mgr m') = next_unused_slot (mgr m)
    \<and> length (services (mgr m')) = length (services (mgr m))"
proof (cases "sv_s (svc_at m i)")
  case None
  obtain ok w' svc' ap' where "service_open env so i
        (svc_change i (svc_at m i) (world (mgr m)) (accept_pending m) m) = (ok, svc_change i svc' w' ap' m)"
    using open_change [OF i law None] by blast
  then have "m' = svc_change i svc' w' ap' m" using o by (simp add: svc_change_id [OF i])
  then show ?thesis by (simp add: svc_change_def)
qed (use o in \<open>simp add: service_open_def\<close>)

lemma init_slots:
  assumes law: "socket_law env so opn"
  shows "svcmgr_init_from env so opened is m = (ok, m') \<Longrightarrow> \<forall>i \<in> set is. i < length (services (mgr m)) \<Longrightarrow>
    next_unused_slot (mgr m') = next_unused_slot (mgr m)"
proof (induction "is" arbitrary: opened m)
  case Nil
  then show ?case by simp
next
  case (Cons i "is")
  obtain ok1 m1 where o: "service_open env so i m = (ok1, m1)" by fastforce
  have "next_unused_slot (mgr (internal_service_close env j m2)) = next_unused_slot (mgr m2)" for j m2
    by (simp add: internal_service_close_def upd_svc_def close_opt_def set_world_def split: option.split)
  then have "next_unused_slot (mgr (fold (internal_service_close env) js m2)) = next_unused_slot (mgr m2)" for js m2
    by (induction js arbitrary: m2) simp_all
  moreover note open_slots [OF law _ o]
  ultimately show ?case using Cons o by (auto split: if_splits)
qed

text \<open>Winsock's start-up count and the open completion ports, and what the calls do to them.\<close>

definition io_law :: "('p, 'd, 'w) conn_env \<Rightarrow> 'w iocp_os \<Rightarrow> ('w \<Rightarrow> nat \<times> nat set) \<Rightarrow> bool" where
  "io_law env io net \<longleftrightarrow>
     (\<forall>w ok w'. wsa_startup io w = (ok, w') \<longrightarrow> net w' = (if ok then (fst (net w) + 1, snd (net w)) else net w))
     \<and> (\<forall>w. net (wsa_cleanup io w) = (fst (net w) - 1, snd (net w)))
     \<and> (\<forall>s x w. net (snd (wsa_ioctl io s x w)) = net w)
     \<and> (\<forall>w. net (snd (plain_socket io w)) = net w)
     \<and> (\<forall>w r w'. create_port io w = (r, w') \<longrightarrow> (case r of None \<Rightarrow> net w' = net w
          | Some h \<Rightarrow> h \<notin> snd (net w) \<and> net w' = (fst (net w), insert h (snd (net w)))))
     \<and> (\<forall>h w. net (close_handle io h w) = (fst (net w), snd (net w) - {h}))"

lemma load_extensions_net:
  assumes "io_law env io net" "keeps_world env so net" "server_load_winsock_extensions env io w = (ok, w')"
  shows "net w' = net w"
proof -
  have law: "net (snd (wsa_ioctl io s x w)) = net w" "net (snd (plain_socket io w)) = net w" for s x w
    using assms(1) by (simp_all add: io_law_def)
  obtain r w1 where s: "plain_socket io w = (r, w1)" by fastforce
  have w1: "net w1 = net w" using law(2) [of w] s by simp
  show ?thesis
  proof (cases r)
    case None
    then show ?thesis using assms(3) s w1 by (simp add: server_load_winsock_extensions_def)
  next
    case (Some n)
    obtain ok1 w2 where a: "wsa_ioctl io n AcceptEx w1 = (ok1, w2)" by fastforce
    obtain ok2 w3 where b: "wsa_ioctl io n GetAcceptExSockAddrs w2 = (ok2, w3)" by fastforce
    have "net w2 = net w1" "net w3 = net w2"
      using law(1) [of n AcceptEx w1] law(1) [of n GetAcceptExSockAddrs w2] a b by simp_all
    then show ?thesis using assms(3) s Some a b w1 keeps_worldD(2) [OF assms(2)]
      by (auto simp: server_load_winsock_extensions_def split: if_splits)
  qed
qed

lemma init_winsock_net:
  assumes "io_law env io net" "keeps_world env so net" "server_init_winsock env io m = (ok, m')"
  shows "\<exists>w. m' = set_iocp_world w m \<and> net w = (if ok then (fst (net (iocp_world m)) + 1, snd (net (iocp_world m)))
    else net (iocp_world m))"
proof -
  have law: "wsa_startup io w = (ok, w') \<Longrightarrow> net w' = (if ok then (fst (net w) + 1, snd (net w)) else net w)"
    "net (wsa_cleanup io w) = (fst (net w) - 1, snd (net w))" for w w' ok
    using assms(1) by (simp_all add: io_law_def)
  obtain ok1 w1 where s: "wsa_startup io (iocp_world m) = (ok1, w1)" by fastforce
  obtain ok2 w2 where l: "server_load_winsock_extensions env io w1 = (ok2, w2)" by fastforce
  have "m' = set_iocp_world (if \<not> ok1 then w1 else if \<not> ok2 then wsa_cleanup io w2 else w2) m \<and> ok = (ok1 \<and> ok2)"
    using assms(3) s l by (auto simp: server_init_winsock_def split: if_splits)
  then show ?thesis
    using law(1) [OF s] law(2) [of w2] load_extensions_net [OF assms(1,2) l] by auto
qed

definition server_boot :: "'p service list \<Rightarrow> 'w \<Rightarrow> 'd \<Rightarrow> ('p, 'd, 'w) iocp_server" where
  "server_boot svcs w null = \<lparr>srv = svr_start svcs w null, iocp = None, initialized = False\<rparr>"


text \<open>C9: The work loop refines the steps of the server: whatever the polls deliver, it goes through
  states of the accept loop and the connections, and is undefined only after a step that found all
  slots in use.  It returns exactly if a poll fails or delivers an interrupt.\<close>

theorem server_work_refines_steps:
  assumes "conn_protocols env" "services_ok (proto_info env) svcs" "fresh_services svcs"
    and "socket_law env so opn" "svr_reach env so svcs m" "polls_ok env so polls next m"
  shows "case server_internal_work env so polls next m of
      Some (left, next', m') \<Rightarrow> svr_reach env so svcs m'
        \<and> (left \<longleftrightarrow> (\<exists>(now, ret) \<in> set polls. case ret of None \<Rightarrow> True | Some evs \<Rightarrow> Interrupt \<in> set evs))
    | None \<Rightarrow> \<exists>m'. svr_reach env so svcs m' \<and> (\<forall>i < MAX_CONNECTIONS. inuse (mgr m') i)"
proof -
  have "svr_reach env so svcs m'" if "(\<lambda>m m'. svr_step env so m (Some m'))\<^sup>*\<^sup>* m m'" for m'
    using that by (induction rule: rtranclp_induct) (auto intro: assms(5) sv_next)
  then show ?thesis
    using conn_protocols.work_inv [OF assms(1) conn_protocols.svr_reach_inv [OF assms(1,5,2,3,4)] assms(6,4)]
    by (auto split: option.splits)
qed

end
