(* ===== verification/Echo_Server.thy ===== *)
theory Echo_Server
  imports Protocol_Echo Server
begin

text \<open>
  The whole server run with the echo protocol on one port, over a winsock whose state is the list of
  its open sockets, its start-up count and its completion ports: instances of the theorems of
  \<^verbatim>\<open>Svcmgr\<close> and \<^verbatim>\<open>Server\<close>.
\<close>

type_synonym net_world = "nat list \<times> nat \<times> nat list"

definition fresh_number :: "nat list \<Rightarrow> nat" where
  "fresh_number xs = Suc (foldr max xs 0)"

lemma foldr_max_bound: "x \<in> set xs \<Longrightarrow> x \<le> foldr max xs (0 :: nat)"
  by (induction xs) auto

lemma fresh_number: "fresh_number xs \<notin> set xs"
  using foldr_max_bound [of "fresh_number xs" xs] by (auto simp: fresh_number_def)

definition net_os :: "net_world conn_os" where
  "net_os = \<lparr>wsa_recv = (\<lambda>s n w. (True, w)), wsa_send = (\<lambda>s n d w. (True, w)), cancel_io = (\<lambda>s a w. w),
     closesocket = (\<lambda>s (ss, r). (removeAll s ss, r))\<rparr>"

definition net_svc :: "net_world svc_os" where
  "net_svc = \<lparr>wsa_socket = (\<lambda>(ss, r). (Some (fresh_number ss), (fresh_number ss # ss, r))),
     bind_iocp = (\<lambda>s w. (True, w)), sock_bind = (\<lambda>s p w. (True, w)), sock_listen = (\<lambda>s w. (True, w)),
     accept_ex = (\<lambda>l s w. (True, w)), cancel_accept = (\<lambda>l w. w)\<rparr>"

definition net_io :: "net_world iocp_os" where
  "net_io = \<lparr>wsa_startup = (\<lambda>(ss, n, ps). (True, (ss, n + 1, ps))), wsa_cleanup = (\<lambda>(ss, n, ps). (ss, n - 1, ps)),
     wsa_ioctl = (\<lambda>s x w. (x = AcceptEx, w)),
     plain_socket = (\<lambda>(ss, r). (Some (fresh_number ss), (fresh_number ss # ss, r))),
     create_port = (\<lambda>(ss, n, ps). (Some (fresh_number ps), (ss, n, fresh_number ps # ps))),
     close_handle = (\<lambda>h (ss, n, ps). (ss, n, removeAll h ps))\<rparr>"

abbreviation net_env :: "(unit, echo_handle, net_world) conn_env" where
  "net_env \<equiv> echo_env net_os (replicate ECHO_BUFFER_SIZE 0)"

definition net_count :: "net_world \<Rightarrow> nat \<times> nat set" where
  "net_count = (\<lambda>(ss, n, ps). (n, set ps))"

lemma net_socket_law: "socket_law net_env net_svc (\<lambda>w. set (fst w))"
  using fresh_number by (auto simp: socket_law_def net_svc_def echo_env_def net_os_def)

lemma net_io_law: "io_law net_env net_io net_count"
  using fresh_number by (auto simp: io_law_def net_io_def net_count_def)

lemma net_keeps: "keeps_world net_env net_svc net_count"
  by (auto simp: keeps_world_def net_svc_def echo_env_def net_os_def net_count_def)

lemma net_services: "services_ok (proto_info net_env) [new_service () 7171]" "fresh_services [new_service () 7171]"
  by (simp_all add: services_ok_def new_service_def MAX_SERVER_SERVICES_def MAX_SERVICE_PROTOCOLS_def
      echo_env_def fresh_services_def)

text \<open>The server after a successful start: it listens on socket 1 and accepts into socket 2.\<close>

abbreviation net_null :: echo_handle where
  "net_null \<equiv> \<lparr>output_ready = False, output_buffer = []\<rparr>"

abbreviation net_at :: "nat list \<Rightarrow> (unit, echo_handle, net_world) server" where
  "net_at ss \<equiv> svr_start [new_service () 7171] (ss, 0, []) net_null"

definition net_started :: "(unit, echo_handle, net_world) server" where
  "net_started = svc_change 0 ((new_service () 7171)\<lparr>sv_s := Some 1, sv_accept_socket := Some 2, sv_pending_work := 1\<rparr>)
     ([2, 1], 0, []) [0] (net_at [])"

lemma net_open:
  assumes "0 < length (services (mgr m))" "sv_s svc = None"
    "a = fresh_number ss" "b = fresh_number (a # ss)"
  shows "service_open net_env net_svc 0 (svc_change 0 svc (ss, r) ap m) = (True, svc_change 0
    (svc\<lparr>sv_s := Some a, sv_accept_socket := Some b, sv_pending_work := sv_pending_work svc + 1\<rparr>) (b # a # ss, r)
    (0 # ap) m)"
  using assms
  by (simp add: service_open_def service_start_async_accept_def internal_create_iocp_socket_def net_svc_def)

lemma net_at_open:
  "service_open net_env net_svc 0 (net_at ss) = (True, svc_change 0 ((new_service () 7171)\<lparr>sv_s := Some (fresh_number ss),
     sv_accept_socket := Some (fresh_number (fresh_number ss # ss)), sv_pending_work := 1\<rparr>)
     (fresh_number (fresh_number ss # ss) # fresh_number ss # ss, 0, []) [0] (net_at ss))"
proof -
  have len: "0 < length (services (mgr (net_at ss)))" by (simp add: svr_start_services)
  have "svc_at (net_at ss) 0 = new_service () 7171" "world (mgr (net_at ss)) = (ss, 0, [])"
    "accept_pending (net_at ss) = []" by (simp_all add: svc_at_def svr_start_def cm_init_def)
  then show ?thesis
    using net_open [OF len, of "new_service () 7171" _ ss _ "(0, [])" "[]"] svc_change_id [OF len]
    by (simp add: new_service_def)
qed

lemma net_start: "svcmgr_init net_env net_svc (net_at []) = (True, net_started)"
  using net_at_open [of "[]"]
  by (simp add: svcmgr_init_def svr_start_services net_started_def fresh_number_def numeral_2_eq_2)

lemma net_reach: "svr_reach net_env net_svc [new_service () 7171] net_started"
  using net_start by (rule sv_started)

lemma net_started_state:
  "length (services (mgr net_started)) = 1" "sv_s (svc_at net_started 0) = Some 1"
  "accept_pending net_started = [0]" "\<not> inuse (mgr net_started) 0"
  by (simp_all add: net_started_def svc_change_def svr_start_def cm_init_def svc_at_def conn_flag_def
      MAX_CONNECTIONS_def)

theorem svcmgr_accepting_witness:
  "count_list (accept_pending net_started) 0 = 1 \<and> sv_pending_work (svc_at net_started 0) = 1"
  using svcmgr_accepting [OF echo.conn_protocols_axioms net_services net_socket_law net_reach, of 0]
  by (simp add: net_started_state)

theorem svcmgr_accept_safe_witness:
  "accept_complete net_env net_svc 0 True net_started \<noteq> None \<and> accept_complete net_env net_svc 0 False net_started \<noteq> None"
proof -
  have "accept_complete net_env net_svc 0 e net_started \<noteq> None" for e
    using svcmgr_accept_safe [OF echo.conn_protocols_axioms net_services net_socket_law net_reach sv_accept, of 0 e]
      net_started_state(3,4) by (auto simp: MAX_CONNECTIONS_def)
  then show ?thesis by blast
qed

theorem svcmgr_init_all_or_nothing_witness: "sv_s (svc_at net_started 0) \<noteq> None"
  using svcmgr_init_all_or_nothing [OF net_services net_socket_law net_start, of 0] by simp

theorem svcmgr_socket_ledger_witness:
  "set (fst (world (mgr (snd (service_open net_env net_svc 0 (net_at [7]))))))
     - svc_sockets (snd (service_open net_env net_svc 0 (net_at [7]))) 0 = {7}"
proof -
  have s: "0 < length (services (mgr (net_at [7])))" "sv_s (svc_at (net_at [7]) 0) = None"
    "sv_pending_work (svc_at (net_at [7]) 0) = 0"
    "\<not> sv_closing (svc_at (net_at [7]) 0)" "svc_sockets (net_at [7]) 0 = {}" "world (mgr (net_at [7])) = ([7], 0, [])"
    by (simp_all add: svr_start_def cm_init_def svc_at_def new_service_def svc_sockets_def)
  then show ?thesis
    using svcmgr_socket_ledger [OF net_socket_law s(1,3,4), of "snd (service_open net_env net_svc 0 (net_at [7]))"]
    by simp
qed


theorem server_work_refines_steps_witness:
  "\<exists>t m. server_internal_work net_env net_svc [(0, Some [Interrupt, Accept 0 True])] 0 net_started = Some (True, t, m)
     \<and> svr_reach net_env net_svc [new_service () 7171] m"
proof -
  let ?p = "[(0 :: int, Some [Interrupt, Accept 0 True])]"
  have "polls_ok net_env net_svc ?p 0 net_started"
    by (auto simp: outstanding_def net_started_state handle_completion_def split: option.splits)
  note w = server_work_refines_steps [OF echo.conn_protocols_axioms net_services net_socket_law net_reach this]
  let ?m = "net_started\<lparr>mgr := connmgr_timeout_check net_env (mgr net_started)\<rparr>"
  have "next_unused_slot (mgr net_started) = 0" by (simp add: net_started_def svc_change_def svr_start_def cm_init_def)
  then have "?m = net_started" by (simp add: connmgr_timeout_check_def)
  then have "server_internal_work net_env net_svc ?p 0 net_started \<noteq> None"
    using svcmgr_accept_safe_witness by (auto simp: handle_completion_def)
  then show ?thesis using w by (cases "server_internal_work net_env net_svc ?p 0 net_started") auto
qed

text \<open>The thread after a task was given and the thread has looked.\<close>

theorem server_tasks_in_order_witness:
  "subseq (executed (server_thread_step 1 (server_exec 7 (server_init :: nat server_ctl)))) [7]"
proof -
  have "thread_reach [7] (server_thread_step 1 (server_exec (7 :: nat) server_init))"
    using tr_thread [OF tr_exec [OF tr_init, of "7 :: nat"], of 1] by (simp add: server_init_def server_exec_def)
  then show ?thesis using server_tasks_in_order by blast
qed


end
