(* ===== verification/Config.thy ===== *)
theory Config
  imports Checksums C_String "HOL-Library.Sublist"
begin

text \<open>
  \<^verbatim>\<open>src/src/config.c\<close>: the configuration variables, in a hash table with at most two probes, set
  from the defaults, the command line and a Lua file.  A \<^verbatim>\<open>struct config_var *\<close> is the index of the
  variable in the table; \<^theory_text>\<open>None\<close> is an access outside an object.
\<close>

subsection \<open>Variables and defaults\<close>

definition MAX_KEY_LENGTH :: nat where "MAX_KEY_LENGTH = 128"
definition MAX_VALUE_LENGTH :: nat where "MAX_VALUE_LENGTH = 128"
definition MAX_COLLISIONS :: nat where "MAX_COLLISIONS = 2"
definition MAX_CONFIG_VARS :: nat where "MAX_CONFIG_VARS = 256"

record config_var =
  cv_key :: bytes
  cv_value :: bytes

type_synonym config_table = "config_var list"

text \<open>\<open>str s\<close> are the characters of a string literal, \<open>char_array\<close> an array initialised with it.\<close>

definition str :: "string \<Rightarrow> bytes" where "str = map of_char"

definition char_array :: "nat \<Rightarrow> bytes \<Rightarrow> bytes" where
  "char_array n s = s @ replicate (n - length s) 0"

definition default_vars :: "(bytes \<times> bytes) list" where
  "default_vars = map (\<lambda>(k, v). (str k, str v)) [
     (''config'', ''config.lua''),
     (''sv_name'', ''Kaplar''),
     (''sv_addr'', ''127.0.0.1''),
     (''sv_echo_port'', ''7777''),
     (''sv_login_port'', ''7171''),
     (''sv_info_port'', ''7171''),
     (''sv_game_port'', ''7172''),
     (''tick_interval'', ''50''),
     (''pgsql_host'', ''localhost''),
     (''pgsql_port'', ''5432''),
     (''pgsql_dbname'', ''kaplar''),
     (''pgsql_user'', ''admin''),
     (''pgsql_password'', ''admin''),
     (''pgsql_connect_timeout'', ''5''),
     (''pgsql_client_encoding'', ''UTF8''),
     (''pgsql_application_name'', ''kaplarc''),
     (''motd'', ''1'' @ [CHR 0x0A] @ ''Kaplar!'')]"

definition config_defaults :: "config_var list" where
  "config_defaults = map (\<lambda>(k, v). \<lparr>cv_key = char_array MAX_KEY_LENGTH k,
     cv_value = char_array MAX_VALUE_LENGTH v\<rparr>) default_vars"

subsection \<open>The table\<close>

definition config_var_idx :: "bytes \<Rightarrow> nat \<Rightarrow> nat option" where
  "config_var_idx key len = do {
     k \<leftarrow> mem_read 0 len key;
     Some (unat (murmur2_32 k 0xC2EDF02D) mod MAX_CONFIG_VARS)
   }"

text \<open>\<^verbatim>\<open>strncmp(s, t, n) == 0\<close> and \<^verbatim>\<open>strcmp(s, t) == 0\<close>.\<close>

fun strncmp_eq :: "bytes \<Rightarrow> bytes \<Rightarrow> nat \<Rightarrow> bool option" where
  "strncmp_eq s t 0 = Some True"
| "strncmp_eq (a # s) (b # t) (Suc n) =
     (if a \<noteq> b then Some False else if a = 0 then Some True else strncmp_eq s t n)"
| "strncmp_eq _ _ (Suc n) = None"

fun strcmp_eq :: "bytes \<Rightarrow> bytes \<Rightarrow> bool option" where
  "strcmp_eq (a # s) (b # t) =
     (if a \<noteq> b then Some False else if a = 0 then Some True else strcmp_eq s t)"
| "strcmp_eq _ _ = None"

definition next_slot :: "nat \<Rightarrow> nat" where
  "next_slot idx = (if idx + 1 \<ge> MAX_CONFIG_VARS then 0 else idx + 1)"

text \<open>The probe loops, on the number of tries left.\<close>

fun find_probe :: "nat \<Rightarrow> config_table \<Rightarrow> bytes \<Rightarrow> nat \<Rightarrow> nat \<Rightarrow> nat option option" where
  "find_probe 0 tab key keylen idx = Some None"
| "find_probe (Suc n) tab key keylen idx = do {
     same \<leftarrow> strncmp_eq (cv_key (tab ! idx)) key keylen;
     if same then Some (Some idx) else find_probe n tab key keylen (next_slot idx)
   }"

definition config_var_find :: "config_table \<Rightarrow> bytes \<Rightarrow> nat \<Rightarrow> nat option option" where
  "config_var_find tab key keylen = do {
     idx \<leftarrow> config_var_idx key keylen;
     find_probe MAX_COLLISIONS tab key keylen idx
   }"

fun insert_probe :: "nat \<Rightarrow> config_table \<Rightarrow> nat \<Rightarrow> nat option" where
  "insert_probe 0 tab idx = None"
| "insert_probe (Suc n) tab idx =
     (if cv_key (tab ! idx) ! 0 = 0 then Some idx else insert_probe n tab (next_slot idx))"

definition config_var_insert :: "config_table \<Rightarrow> bytes \<Rightarrow> nat \<Rightarrow> nat option option" where
  "config_var_insert tab key keylen = do {
     idx \<leftarrow> config_var_idx key keylen;
     Some (insert_probe MAX_COLLISIONS tab idx)
   }"

definition config_var_set_value :: "config_var \<Rightarrow> bytes \<Rightarrow> nat \<Rightarrow> config_var option" where
  "config_var_set_value var val vallen = do {
     let vallen = (if vallen \<ge> MAX_VALUE_LENGTH then MAX_VALUE_LENGTH - 1 else vallen);
     bs \<leftarrow> mem_read 0 vallen val;
     value1 \<leftarrow> mem_write 0 bs (cv_value var);
     value2 \<leftarrow> mem_write vallen [0] value1;
     Some (var\<lparr>cv_value := value2\<rparr>)
   }"

definition set_slot :: "config_table \<Rightarrow> nat \<Rightarrow> bytes \<Rightarrow> nat \<Rightarrow> config_table option" where
  "set_slot tab i val vallen = do {
     var \<leftarrow> config_var_set_value (tab ! i) val vallen;
     Some (tab[i := var])
   }"

subsection \<open>The command line\<close>

text \<open>The result of \<^verbatim>\<open>parse_argv\<close>: the length of the key, the value as an offset, and its length.\<close>

fun argv_key_end :: "bytes \<Rightarrow> nat option" where
  "argv_key_end [] = None"
| "argv_key_end (c # p) = (if c \<noteq> 0 \<and> c \<noteq> 0x3D then map_option Suc (argv_key_end p) else Some 0)"

definition parse_argv :: "bytes \<Rightarrow> (nat \<times> nat \<times> nat) option" where
  "parse_argv argv = do {
     keylen \<leftarrow> argv_key_end argv;
     if argv ! keylen = 0 then Some (keylen, keylen, 0)
     else do {
       vallen \<leftarrow> cstrlen (drop (keylen + 1) argv);
       Some (keylen, keylen + 1, vallen)
     }
   }"

fun config_load_defaults :: "config_var list \<Rightarrow> config_table \<Rightarrow> config_table option" where
  "config_load_defaults [] tab = Some tab"
| "config_load_defaults (d # ds) tab = do {
     keylen \<leftarrow> cstrlen (cv_key d);
     var \<leftarrow> config_var_insert tab (cv_key d) keylen;
     case var of
       None \<Rightarrow> config_load_defaults ds tab
     | Some i \<Rightarrow> config_load_defaults ds (tab[i := d])
   }"

definition config_arg :: "bytes \<Rightarrow> config_table \<Rightarrow> config_table option" where
  "config_arg arg tab = do {
     (keylen, val, vallen) \<leftarrow> parse_argv arg;
     if keylen = 0 then Some tab
     else do {
       var \<leftarrow> config_var_find tab arg keylen;
       case var of
         None \<Rightarrow> Some tab
       | Some i \<Rightarrow> if vallen = 0 then set_slot tab i (str ''true'' @ [0]) 4
                   else set_slot tab i (drop val arg) vallen
     }
   }"

fun config_args :: "bytes list \<Rightarrow> config_table \<Rightarrow> config_table option" where
  "config_args [] tab = Some tab"
| "config_args (arg # args) tab = do {
     tab' \<leftarrow> config_arg arg tab;
     config_args args tab'
   }"

definition empty_table :: config_table where
  "empty_table = replicate MAX_CONFIG_VARS
     \<lparr>cv_key = replicate MAX_KEY_LENGTH 0, cv_value = replicate MAX_VALUE_LENGTH 0\<rparr>"

definition config_init :: "bytes list \<Rightarrow> config_table option" where
  "config_init argv = do {
     tab \<leftarrow> config_load_defaults config_defaults empty_table;
     config_args (tl argv) tab
   }"

subsection \<open>The Lua file and the lookups\<close>

text \<open>What the calls of Lua return: a state, the outcome of loading and of running the file at a path,
  and the bytes of each global that is a string, which Lua ends with a NUL.\<close>

record lua_env =
  luaL_newstate :: bool
  luaL_loadfile :: "bytes \<Rightarrow> bool"
  lua_pcall :: "bytes \<Rightarrow> bool"
  lua_getglobal :: "bytes \<Rightarrow> bytes option"

fun config_globals :: "lua_env \<Rightarrow> config_var list \<Rightarrow> config_table \<Rightarrow> config_table option" where
  "config_globals L [] tab = Some tab"
| "config_globals L (d # ds) tab = do {
     keylen \<leftarrow> cstrlen (cv_key d);
     var \<leftarrow> config_var_find tab (cv_key d) keylen;
     tab' \<leftarrow> (case var of
         None \<Rightarrow> Some tab
       | Some i \<Rightarrow> (case lua_getglobal L (take keylen (cv_key d)) of
             None \<Rightarrow> Some tab
           | Some v \<Rightarrow> set_slot tab i (v @ [0]) (length v)));
     config_globals L ds tab'
   }"

definition config_load_from_path :: "lua_env \<Rightarrow> bytes \<Rightarrow> config_table \<Rightarrow> (bool \<times> config_table) option" where
  "config_load_from_path L path tab =
     (if \<not> luaL_newstate L then Some (False, tab)
      else if \<not> luaL_loadfile L path then Some (False, tab)
      else if \<not> lua_pcall L path then Some (False, tab)
      else do {
        tab' \<leftarrow> config_globals L config_defaults tab;
        Some (True, tab')
      })"

definition config_get :: "config_table \<Rightarrow> bytes \<Rightarrow> bytes option" where
  "config_get tab key = do {
     keylen \<leftarrow> cstrlen key;
     var \<leftarrow> config_var_find tab key keylen;
     case var of
       Some i \<Rightarrow> Some (cv_value (tab ! i))
     | None \<Rightarrow> Some [0]
   }"

definition config_load :: "lua_env \<Rightarrow> config_table \<Rightarrow> (bool \<times> config_table) option" where
  "config_load L tab = do {
     config \<leftarrow> config_get tab (str ''config'' @ [0]);
     if config ! 0 = 0 then Some (False, tab)
     else config_load_from_path L config tab
   }"

definition config_getb :: "config_table \<Rightarrow> bytes \<Rightarrow> bool option" where
  "config_getb tab key = do {
     val \<leftarrow> config_get tab key;
     same \<leftarrow> strcmp_eq val (str ''false'' @ [0]);
     Some (\<not> same)
   }"

text \<open>\<^verbatim>\<open>strtol(value, NULL, 10)\<close>: leading white space, a sign and digits, the result limited to a
  \<^verbatim>\<open>long\<close> of \<open>bits\<close> bits; the conversion to \<^verbatim>\<open>int\<close> keeps the low 32 bits.\<close>

definition isspace :: "u8 \<Rightarrow> bool" where
  "isspace c \<longleftrightarrow> c = 0x20 \<or> (0x09 \<le> c \<and> c \<le> 0x0D)"

definition isdigit :: "u8 \<Rightarrow> bool" where
  "isdigit c \<longleftrightarrow> 0x30 \<le> c \<and> c \<le> 0x39"

fun strtol_digits :: "int \<Rightarrow> bytes \<Rightarrow> int option" where
  "strtol_digits n [] = None"
| "strtol_digits n (c # s) =
     (if isdigit c then strtol_digits (10 * n + uint (c - 0x30)) s else Some n)"

fun strtol_sign :: "bytes \<Rightarrow> int option" where
  "strtol_sign [] = None"
| "strtol_sign (c # s) =
     (if isspace c then strtol_sign s
      else if c = 0x2D then map_option uminus (strtol_digits 0 s)
      else if c = 0x2B then strtol_digits 0 s
      else strtol_digits 0 (c # s))"

definition strtol10 :: "nat \<Rightarrow> bytes \<Rightarrow> int option" where
  "strtol10 bits s = map_option (\<lambda>n. max (- (2 ^ (bits - 1))) (min (2 ^ (bits - 1) - 1) n)) (strtol_sign s)"

definition config_geti :: "nat \<Rightarrow> config_table \<Rightarrow> bytes \<Rightarrow> u32 option" where
  "config_geti long_bits tab key = do {
     val \<leftarrow> config_get tab key;
     n \<leftarrow> strtol10 long_bits val;
     Some (word_of_int n)
   }"

subsection \<open>Keys and values of a table\<close>

definition c_string :: "bytes \<Rightarrow> bytes" where "c_string = takeWhile (\<lambda>c. c \<noteq> 0)"

definition key_at :: "config_table \<Rightarrow> nat \<Rightarrow> bytes" where "key_at tab i = c_string (cv_key (tab ! i))"
definition value_at :: "config_table \<Rightarrow> nat \<Rightarrow> bytes" where "value_at tab i = c_string (cv_value (tab ! i))"

text \<open>The type of a table: its size, and the sizes and terminators of the arrays.\<close>

definition var_ok :: "config_var \<Rightarrow> bool" where
  "var_ok v \<longleftrightarrow> length (cv_key v) = MAX_KEY_LENGTH \<and> length (cv_value v) = MAX_VALUE_LENGTH
     \<and> 0 \<in> set (cv_key v) \<and> 0 \<in> set (cv_value v)"

definition table_ok :: "config_table \<Rightarrow> bool" where
  "table_ok tab \<longleftrightarrow> length tab = MAX_CONFIG_VARS \<and> (\<forall>v \<in> set tab. var_ok v)"

definition key_hash :: "bytes \<Rightarrow> nat" where
  "key_hash k = unat (murmur2_32 k 0xC2EDF02D) mod MAX_CONFIG_VARS"

definition slot_of :: "(nat \<Rightarrow> bytes) \<Rightarrow> bytes \<Rightarrow> nat option" where
  "slot_of K a = (let i = key_hash a; j = next_slot i
     in if prefix a (K i) then Some i else if prefix a (K j) then Some j else None)"

lemma slot_less: "key_hash k < MAX_CONFIG_VARS" "next_slot i < MAX_CONFIG_VARS"
  by (simp_all add: key_hash_def next_slot_def MAX_CONFIG_VARS_def)

lemma slot_of_less: "slot_of K a = Some i \<Longrightarrow> i < MAX_CONFIG_VARS"
  using slot_less by (auto simp: slot_of_def Let_def split: if_splits)

lemma table_ok_nth: "table_ok tab \<Longrightarrow> i < MAX_CONFIG_VARS \<Longrightarrow> var_ok (tab ! i)"
  by (auto simp: table_ok_def)

lemma table_ok_update: "table_ok tab \<Longrightarrow> var_ok v \<Longrightarrow> table_ok (tab[i := v])"
  by (auto simp: table_ok_def dest: set_update_subset_insert [THEN subsetD])

lemma c_string_cstr: "0 \<in> set m \<Longrightarrow> cstr m (c_string m)"
proof (induction m)
  case (Cons c m)
  then show ?case by (auto simp: cstr_def c_string_def)
qed simp

lemma c_string_append: "c_string (xs @ 0 # ys) = c_string xs"
  by (induction xs) (auto simp: c_string_def)

lemma c_string_append0: "0 \<notin> set s \<Longrightarrow> c_string (s @ 0 # rest) = s"
  by (induction s) (auto simp: c_string_def)

lemma cstr_c_string: "cstr m s \<Longrightarrow> c_string m = s" "cstr m s \<Longrightarrow> 0 \<in> set m"
  by (auto simp: cstr_def c_string_append0)

lemma strncmp_eq_prefix:
  "0 \<in> set k \<Longrightarrow> 0 \<notin> set a \<Longrightarrow> strncmp_eq k (a @ rest) (length a) = Some (prefix a (c_string k))"
proof (induction a arbitrary: k)
  case (Cons c a)
  then show ?case by (cases k) (auto simp: c_string_def)
qed simp

lemma config_var_idx_key: "config_var_idx (a @ rest) (length a) = Some (key_hash a)"
  by (simp add: config_var_idx_def mem_read_def key_hash_def)

lemma config_var_find_slot:
  assumes "table_ok tab" "0 \<notin> set a"
  shows "config_var_find tab (a @ rest) (length a) = Some (slot_of (key_at tab) a)"
proof -
  have "strncmp_eq (cv_key (tab ! i)) (a @ rest) (length a) = Some (prefix a (key_at tab i))"
    if "i < MAX_CONFIG_VARS" for i
    using strncmp_eq_prefix assms(2) table_ok_nth [OF assms(1) that] by (auto simp: key_at_def var_ok_def)
  then show ?thesis using slot_less
    by (simp add: config_var_find_def config_var_idx_key MAX_COLLISIONS_def numeral_2_eq_2 slot_of_def Let_def)
qed

lemma cstr_split: "cstr m s \<Longrightarrow> \<exists>rest. m = s @ 0 # rest \<and> 0 \<notin> set s"
  by (auto simp: cstr_def)

lemma config_var_find_cstr:
  assumes "table_ok tab" "cstr key k"
  shows "config_var_find tab key (length k) = Some (slot_of (key_at tab) k)"
  using config_var_find_slot [OF assms(1), of k] cstr_split [OF assms(2)] by metis

text \<open>A new value: at most 127 bytes of it, up to the first NUL.\<close>

lemma set_slot_value:
  assumes "table_ok tab" "i < MAX_CONFIG_VARS"
  shows "\<exists>tab'. set_slot tab i (v @ rest) (length v) = Some tab' \<and> table_ok tab'
    \<and> key_at tab' = key_at tab
    \<and> value_at tab' = (value_at tab)(i := c_string (take (MAX_VALUE_LENGTH - 1) v))"
proof -
  define n where "n = (if length v \<ge> MAX_VALUE_LENGTH then MAX_VALUE_LENGTH - 1 else length v)"
  let ?old = "cv_value (tab ! i)" and ?v = "take (MAX_VALUE_LENGTH - 1) v"
  have ok: "length ?old = MAX_VALUE_LENGTH" "var_ok (tab ! i)" "i < length tab"
    using table_ok_nth [OF assms] assms by (auto simp: var_ok_def table_ok_def)
  have n: "n \<le> length v" "n < MAX_VALUE_LENGTH" "take n v = ?v" "length ?v = n"
    by (auto simp: n_def MAX_VALUE_LENGTH_def)
  define new where "new = ?v @ 0 # drop (Suc n) ?old"
  have new: "length new = MAX_VALUE_LENGTH" "0 \<in> set new" "c_string new = c_string ?v"
    using n ok(1) by (simp_all add: new_def c_string_append)
  have "mem_read 0 n (v @ rest) = Some ?v" using n by (simp add: mem_read_def)
  moreover have "mem_write 0 ?v ?old = Some (?v @ drop n ?old)"
    using n ok(1) by (simp add: mem_write_def)
  moreover have "mem_write n [0] (?v @ drop n ?old) = Some new"
    using n ok(1) by (simp add: mem_write_def new_def)
  ultimately have w: "set_slot tab i (v @ rest) (length v) = Some (tab[i := (tab ! i)\<lparr>cv_value := new\<rparr>])"
    by (simp add: set_slot_def config_var_set_value_def Let_def flip: n_def)
  have "table_ok (tab[i := (tab ! i)\<lparr>cv_value := new\<rparr>])"
    using ok(2) new by (intro table_ok_update assms(1)) (simp add: var_ok_def)
  moreover have "key_at (tab[i := (tab ! i)\<lparr>cv_value := new\<rparr>]) j = key_at tab j"
    "value_at (tab[i := (tab ! i)\<lparr>cv_value := new\<rparr>]) j =
      ((value_at tab)(i := c_string (take (MAX_VALUE_LENGTH - 1) v))) j" for j
    using ok(3) new(3) by (cases "j = i"; simp add: key_at_def value_at_def)+
  ultimately show ?thesis unfolding w by blast
qed

subsection \<open>Evaluating the hash\<close>

text \<open>The hash on integers, with a reduction after each product, so that it evaluates quickly.\<close>

definition mul_m :: "int \<Rightarrow> int" where "mul_m x = (x * 0x5bd1e995) mod 0x100000000"

definition murmur_word_int :: "int \<Rightarrow> int" where
  "murmur_word_int k = (let k1 = mul_m k in mul_m (k1 XOR drop_bit 24 k1))"

fun murmur_loop_int :: "bytes \<Rightarrow> int \<Rightarrow> int" where
  "murmur_loop_int (d0 # d1 # d2 # d3 # data) h =
     murmur_loop_int data (mul_m h XOR murmur_word_int (uint d0 OR uint d1 * 0x100 OR uint d2 * 0x10000 OR uint d3 * 0x1000000))"
| "murmur_loop_int [d0, d1, d2] h = mul_m (((h XOR uint d2 * 0x10000) XOR uint d1 * 0x100) XOR uint d0)"
| "murmur_loop_int [d0, d1] h = mul_m ((h XOR uint d1 * 0x100) XOR uint d0)"
| "murmur_loop_int [d0] h = mul_m (h XOR uint d0)"
| "murmur_loop_int [] h = h"

definition murmur_int :: "bytes \<Rightarrow> int" where
  "murmur_int d = (let h0 = murmur_loop_int d (int (length d) XOR 0xC2EDF02D);
  h1 = mul_m (h0 XOR drop_bit 13 h0) in (h1 XOR drop_bit 15 h1) mod 0x100)"

lemma uint_mul_m: "uint (x * MURMUR2_M) = mul_m (uint (x :: u32))"
  by (simp add: mul_m_def MURMUR2_M_def uint_word_ariths)

lemma take_bit_mul_m [simp]: "take_bit 32 (mul_m x) = mul_m x"
  by (simp add: mul_m_def take_bit_eq_mod)

lemma uint_push: "uint (push_bit n (ucast (d :: u8)) :: u32) = uint d * 2 ^ n" if "n \<le> 24"
proof -
  have "uint d < 2 ^ 8" using uint_lt2p [of d] by simp
  then have "uint d * 2 ^ n < 2 ^ 8 * 2 ^ n" by simp
  also have "(2 ^ 8 * 2 ^ n :: int) = 2 ^ (8 + n)" by (simp add: power_add)
  also have "(2 ^ (8 + n) :: int) \<le> 2 ^ 32" using that by (intro power_increasing) auto
  finally have "take_bit 32 (uint d * 2 ^ n) = uint d * 2 ^ n" by (simp add: take_bit_int_eq_self)
  moreover have "take_bit 32 (uint d) = uint d"
    using \<open>uint d < 2 ^ 8\<close> by (simp add: take_bit_int_eq_self)
  ultimately show ?thesis
    unfolding unsigned_push_bit_eq unsigned_ucast_eq by (simp add: push_bit_eq_mult)
qed

lemma uint_ucast: "uint (ucast (d :: u8) :: u32) = uint d"
  using uint_push [of 0 d] by simp

lemma uint_drop_u32: "uint (drop_bit n (w :: u32)) = drop_bit n (uint w)"
  by (rule bit_eqI) (simp add: bit_simps)

lemma uint_murmur_word: "uint (murmur_word k) = murmur_word_int (uint k)"
  by (simp add: murmur_word_def murmur_word_int_def Let_def uint_mul_m unsigned_xor_eq uint_drop_u32)

lemma uint_murmur_loop: "uint (murmur_loop d h) = murmur_loop_int d (uint h)"
  by (induction d h rule: murmur_loop.induct)
   (simp_all add: uint_mul_m unsigned_xor_eq unsigned_or_eq uint_push uint_ucast uint_murmur_word)

lemma unat_mod_256: "unat x mod 256 = nat (uint (x :: u32) mod 256)"
  by (simp add: nat_mod_distrib)

lemma murmur_hash_int: "unat (murmur2_32 d 0xC2EDF02D) mod 256 = nat (murmur_int d)" if "length d < 2 ^ 32"
proof -
  have "uint (of_nat (length d) :: u32) = int (length d)" using that by (simp add: uint_nat unat_of_nat)
  moreover have "murmur_int d = uint (murmur2_32 d 0xC2EDF02D) mod 256" 
  using calculation 
  by (simp add: murmur2_32_def murmur_final_def murmur_int_def Let_def uint_murmur_loop uint_mul_m unsigned_xor_eq uint_drop_u32)
  ultimately show ?thesis unfolding unat_mod_256 by simp
qed

lemma key_hash_int: "length k < 2 ^ 32 \<Longrightarrow> key_hash k = nat (murmur_int k)"
  by (simp add: key_hash_def MAX_CONFIG_VARS_def murmur_hash_int)

lemma murmur_int_range: "0 \<le> murmur_int k" "murmur_int k < 256"
  by (simp_all add: murmur_int_def Let_def)

subsection \<open>The defaults\<close>

definition default_keys :: "bytes list" where "default_keys = map fst default_vars"

definition make_var :: "bytes \<times> bytes \<Rightarrow> config_var" where
  "make_var d = \<lparr>cv_key = char_array MAX_KEY_LENGTH (fst d), cv_value = char_array MAX_VALUE_LENGTH (snd d)\<rparr>"

definition fits :: "bytes \<Rightarrow> bool" where "fits s \<longleftrightarrow> 0 \<notin> set s \<and> length s < 128"

lemma char_array_cstr: "fits s \<Longrightarrow> cstr (char_array 128 s) s"
  unfolding char_array_def fits_def
  by (cases "128 - length s") (auto simp: cstr_def)

lemma make_var_ok: "fits k \<Longrightarrow> fits v \<Longrightarrow> var_ok (make_var (k, v))"
  using char_array_cstr [of k] char_array_cstr [of v]
  by (auto simp: make_var_def var_ok_def MAX_KEY_LENGTH_def MAX_VALUE_LENGTH_def
      dest: cstr_c_string(2)) (auto simp: char_array_def fits_def)

lemma config_defaults_make_var: "config_defaults = map make_var default_vars"
  by (simp add: config_defaults_def make_var_def case_prod_beta)

lemma config_load_defaults_slots:
  assumes "table_ok tab" "distinct (map (key_hash \<circ> fst) ds)"
    "\<forall>d \<in> set ds. fits (fst d) \<and> fits (snd d) \<and> fst d \<noteq> [] \<and> cv_key (tab ! key_hash (fst d)) ! 0 = 0"
  shows "\<exists>tab'. config_load_defaults (map make_var ds) tab = Some tab' \<and> table_ok tab'
    \<and> (\<forall>d \<in> set ds. tab' ! key_hash (fst d) = make_var d)
    \<and> (\<forall>i. i \<notin> (key_hash \<circ> fst) ` set ds \<longrightarrow> tab' ! i = tab ! i)"
  using assms
proof (induction ds arbitrary: tab)
  case (Cons d ds)
  let ?h = "key_hash (fst d)"
  have d: "fits (fst d)" "fits (snd d)" "fst d \<noteq> []" "cv_key (tab ! ?h) ! 0 = 0"
    using Cons.prems(3) by auto
  let ?t = "tab[?h := make_var d]"
  have len: "length tab = MAX_CONFIG_VARS" using Cons.prems(1) by (simp add: table_ok_def)
  have k: "cstr (cv_key (make_var d)) (fst d)"
    using char_array_cstr [OF d(1)] by (simp add: make_var_def MAX_KEY_LENGTH_def)
  have "config_var_insert tab (cv_key (make_var d)) (length (fst d)) = Some (Some ?h)"
    using config_var_idx_key [of "fst d"] cstr_split [OF k] d(4)
    by (auto simp: config_var_insert_def MAX_COLLISIONS_def numeral_2_eq_2)
  then have step: "config_load_defaults (map make_var (d # ds)) tab = config_load_defaults (map make_var ds) ?t"
    by (simp add: cstrlen_cstr [OF k])
  have "table_ok ?t" using Cons.prems(1) make_var_ok [OF d(1,2)] by (simp add: table_ok_update)
  moreover have "\<forall>e \<in> set ds. ?t ! key_hash (fst e) = tab ! key_hash (fst e)"
    using Cons.prems(2) by (auto simp: nth_list_update image_iff)
  ultimately obtain tab' where tab': "config_load_defaults (map make_var ds) ?t = Some tab'" "table_ok tab'"
    "\<forall>d \<in> set ds. tab' ! key_hash (fst d) = make_var d"
    "\<forall>i. i \<notin> (key_hash \<circ> fst) ` set ds \<longrightarrow> tab' ! i = ?t ! i"
    using Cons.IH [of ?t] Cons.prems(2,3) by auto
  have "tab' ! ?h = make_var d"
    using tab'(4) Cons.prems(2) slot_less(1) len by (auto simp: image_iff)
  moreover have "\<forall>i. i \<notin> (key_hash \<circ> fst) ` set (d # ds) \<longrightarrow> tab' ! i = tab ! i"
    using tab'(4) by auto
  ultimately show ?case unfolding step using tab'(1,2,3) by (intro exI [of _ tab']) simp
qed simp

definition default_key :: "nat \<Rightarrow> bytes" where
  "default_key i = (case map_of (map (\<lambda>k. (key_hash k, k)) default_keys) i of Some k \<Rightarrow> k | None \<Rightarrow> [])"

lemma default_keys_short: "\<forall>k \<in> set default_keys. k \<noteq> [] \<and> 0 \<notin> set k \<and> length k < 2 ^ 32"
  by (simp add: default_keys_def default_vars_def str_def)

lemma default_hashes_int: "map murmur_int default_keys =
  [77, 88, 70, 193, 0, 32, 67, 254, 136, 179, 44, 124, 160, 23, 37, 244, 237]"
  by code_simp

lemma default_hashes: "map key_hash default_keys =
  [77, 88, 70, 193, 0, 32, 67, 254, 136, 179, 44, 124, 160, 23, 37, 244, 237]"
proof -
  have "map key_hash default_keys = map nat (map murmur_int default_keys)"
    using default_keys_short by (simp add: key_hash_int)
  then show ?thesis unfolding default_hashes_int by simp
qed

lemma default_vars_fit: "\<forall>d \<in> set default_vars. fits (fst d) \<and> fits (snd d) \<and> fst d \<noteq> []"
  by (simp add: default_vars_def str_def fits_def)

lemma distinct_default_hashes: "distinct (map (key_hash \<circ> fst) default_vars)"
  using default_hashes by (simp add: default_keys_def)

lemma empty_table_ok: "table_ok empty_table"
  by (simp add: table_ok_def empty_table_def var_ok_def MAX_KEY_LENGTH_def MAX_VALUE_LENGTH_def)

lemma empty_table_nth: "i < MAX_CONFIG_VARS \<Longrightarrow> cv_key (empty_table ! i) = replicate MAX_KEY_LENGTH 0"
  by (simp add: empty_table_def)

lemma config_load_defaults_ok:
  "\<exists>tab. config_load_defaults config_defaults empty_table = Some tab \<and> table_ok tab
    \<and> (\<forall>i < MAX_CONFIG_VARS. key_at tab i = default_key i)
    \<and> (\<forall>(k, v) \<in> set default_vars. value_at tab (key_hash k) = v)"
proof -
  have e: "\<forall>d \<in> set default_vars. fits (fst d) \<and> fits (snd d) \<and> fst d \<noteq> []
      \<and> cv_key (empty_table ! key_hash (fst d)) ! 0 = 0"
    using default_vars_fit slot_less(1) by (simp add: empty_table_nth MAX_KEY_LENGTH_def)
  obtain tab where tab: "config_load_defaults config_defaults empty_table = Some tab" "table_ok tab"
    "\<forall>d \<in> set default_vars. tab ! key_hash (fst d) = make_var d"
    "\<forall>i. i \<notin> (key_hash \<circ> fst) ` set default_vars \<longrightarrow> tab ! i = empty_table ! i"
    using config_load_defaults_slots [OF empty_table_ok distinct_default_hashes e]
    by (auto simp: config_defaults_make_var)
  have var: "key_at tab (key_hash k) = k" "value_at tab (key_hash k) = v" if "(k, v) \<in> set default_vars" for k v
    using that tab(3) default_vars_fit cstr_c_string(1) [OF char_array_cstr]
    by (force simp: key_at_def value_at_def make_var_def MAX_KEY_LENGTH_def MAX_VALUE_LENGTH_def)+
  have "key_at tab i = default_key i" if i: "i < MAX_CONFIG_VARS" for i
  proof (cases "map_of (map (\<lambda>k. (key_hash k, k)) default_keys) i")
    case None
    then have "i \<notin> (key_hash \<circ> fst) ` set default_vars"
      by (auto simp: map_of_eq_None_iff default_keys_def image_iff)
    then have "tab ! i = empty_table ! i" using tab(4) by blast
    then show ?thesis using None i
      by (simp add: key_at_def default_key_def empty_table_nth c_string_def MAX_KEY_LENGTH_def)
  next
    case (Some k)
    then have "i = key_hash k" "k \<in> fst ` set default_vars"
      by (auto dest!: map_of_SomeD simp: default_keys_def)
    then show ?thesis using Some var(1) by (auto simp: default_key_def)
  qed
  then show ?thesis using tab(1,2) var(2) by blast
qed

subsection \<open>Which variable a name finds\<close>

text \<open>A variable is found by any prefix of its key that hashes to one of its two slots.  Among the
  prefixes of the default keys this is only \<^verbatim>\<open>pgsq\<close>, which finds \<^verbatim>\<open>pgsql_password\<close>.\<close>

definition config_alias :: "bytes \<Rightarrow> bytes" where
  "config_alias a = (if a = str ''pgsq'' then str ''pgsql_password'' else a)"

definition probe_ok :: "bytes \<Rightarrow> int \<Rightarrow> bool" where
  "probe_ok k hk = list_all (\<lambda>a. a = [] \<or> (let h = murmur_int a
     in (hk = h \<or> hk = (if h = 255 then 0 else h + 1)) = (k = config_alias a))) (prefixes k)"

lemma probe_sv: "list_all2 probe_ok (take 7 default_keys) [77, 88, 70, 193, 0, 32, 67]"
  by code_simp

lemma probe_pgsql: "list_all2 probe_ok (take 6 (drop 7 default_keys)) [254, 136, 179, 44, 124, 160]"
  by code_simp

lemma probe_rest: "list_all2 probe_ok (drop 13 default_keys) [23, 37, 244, 237]"
  by code_simp

lemma probe_default_keys: "list_all2 probe_ok default_keys
  [77, 88, 70, 193, 0, 32, 67, 254, 136, 179, 44, 124, 160, 23, 37, 244, 237]"
proof -
  have "drop 13 default_keys = drop 6 (drop 7 default_keys)" by simp
  then show ?thesis
    using list_all2_appendI [OF probe_sv list_all2_appendI [OF probe_pgsql probe_rest]]
    by (simp only: append_take_drop_id append.simps)
qed

lemma probe_default_key:
  assumes "k \<in> set default_keys" "prefix a k" "a \<noteq> []"
  shows "(key_hash k = key_hash a \<or> key_hash k = next_slot (key_hash a)) \<longleftrightarrow> k = config_alias a"
proof -
  have "list_all2 probe_ok default_keys (map murmur_int default_keys)"
    unfolding default_hashes_int by (rule probe_default_keys)
  then have "probe_ok k (murmur_int k)" using assms(1) by (auto simp: list_all2_map2 list_all2_same)
  then have p: "(murmur_int k = murmur_int a \<or> murmur_int k = (if murmur_int a = 255 then 0 else murmur_int a + 1))
      \<longleftrightarrow> k = config_alias a"
    using assms(2,3) by (auto simp: probe_ok_def list_all_iff Let_def in_set_prefixes)
  have "length k < 2 ^ 32" using assms(1) default_keys_short by blast
  then have h: "key_hash k = nat (murmur_int k)" "key_hash a = nat (murmur_int a)"
    using prefix_length_le [OF assms(2)] by (simp_all add: key_hash_int)
  show ?thesis unfolding p [symmetric] h next_slot_def MAX_CONFIG_VARS_def
    using murmur_int_range [of k] murmur_int_range [of a] by (auto simp: nat_eq_iff2)
qed

lemma default_key_hash: "k \<in> set default_keys \<Longrightarrow> default_key (key_hash k) = k"
proof -
  assume k: "k \<in> set default_keys"
  have "distinct (map fst (map (\<lambda>k. (key_hash k, k)) default_keys))"
    using default_hashes by (simp add: comp_def)
  then have "map_of (map (\<lambda>k. (key_hash k, k)) default_keys) (key_hash k) = Some k"
    using k by (intro map_of_is_SomeI) auto
  then show ?thesis by (simp add: default_key_def)
qed

lemma prefix_default_key:
  assumes "a \<noteq> []"
  shows "prefix a (default_key i) \<longleftrightarrow> (\<exists>k \<in> set default_keys. key_hash k = i \<and> prefix a k)"
proof (cases "map_of (map (\<lambda>k. (key_hash k, k)) default_keys) i")
  case None
  then have "\<not> (\<exists>k \<in> set default_keys. key_hash k = i)" by (auto simp: map_of_eq_None_iff image_iff)
  then show ?thesis using None assms by (auto simp: default_key_def)
next
  case (Some k)
  then have k: "k \<in> set default_keys" "key_hash k = i" by (auto dest!: map_of_SomeD)
  then show ?thesis using default_key_hash by (metis)
qed

lemma slot_of_default:
  assumes "a \<noteq> []"
  shows "slot_of default_key a =
    (if config_alias a \<in> set default_keys then Some (key_hash (config_alias a)) else None)"
proof -
  let ?i = "key_hash a" and ?j = "next_slot (key_hash a)"
  have found: "config_alias a \<in> set default_keys \<and> key_hash (config_alias a) = i"
    if "prefix a (default_key i)" "i = ?i \<or> i = ?j" for i
    using that probe_default_key assms by (auto simp: prefix_default_key [OF assms])
  have "prefix a (config_alias a)" by (simp add: config_alias_def str_def)
  then have "prefix a (default_key ?i) \<or> prefix a (default_key ?j)" if "config_alias a \<in> set default_keys"
    using that probe_default_key [OF that _ assms] by (auto simp: prefix_default_key [OF assms])
  then show ?thesis using found [of ?i] found [of ?j] by (auto simp: slot_of_def Let_def)
qed

subsection \<open>The table as a map from names to strings\<close>

text \<open>\<open>config_holds tab f\<close>: the default keys are in their slots, with the values that \<open>f\<close> gives them.\<close>

definition config_holds :: "config_table \<Rightarrow> (bytes \<Rightarrow> bytes) \<Rightarrow> bool" where
  "config_holds tab f \<longleftrightarrow> table_ok tab \<and> (\<forall>i < MAX_CONFIG_VARS. key_at tab i = default_key i)
     \<and> (\<forall>k \<in> set default_keys. value_at tab (key_hash k) = f k)"

definition default_value :: "bytes \<Rightarrow> bytes" where
  "default_value k = (case map_of default_vars k of Some v \<Rightarrow> v | None \<Rightarrow> [])"

text \<open>What is stored of a value: 127 bytes, up to the first NUL.\<close>

definition stored :: "bytes \<Rightarrow> bytes" where "stored v = c_string (take 127 v)"

definition arg_key :: "bytes \<Rightarrow> bytes" where "arg_key s = takeWhile (\<lambda>c. c \<noteq> 0x3D) s"
definition arg_tail :: "bytes \<Rightarrow> bytes" where "arg_tail s = tl (dropWhile (\<lambda>c. c \<noteq> 0x3D) s)"
definition arg_value :: "bytes \<Rightarrow> bytes" where
  "arg_value s = (if arg_tail s = [] then str ''true'' else arg_tail s)"

definition arg_update :: "bytes \<Rightarrow> (bytes \<Rightarrow> bytes) \<Rightarrow> bytes \<Rightarrow> bytes" where
  "arg_update s f = (if arg_key s = [] then f else f(config_alias (arg_key s) := stored (arg_value s)))"

definition lua_update :: "lua_env \<Rightarrow> (bytes \<Rightarrow> bytes) \<Rightarrow> bytes \<Rightarrow> bytes" where
  "lua_update L f k = (case lua_getglobal L k of Some v \<Rightarrow> stored v | None \<Rightarrow> f k)"

lemma config_holds_find:
  assumes "config_holds tab f" "0 \<notin> set a" "a \<noteq> []"
  shows "config_var_find tab (a @ rest) (length a) =
    Some (if config_alias a \<in> set default_keys then Some (key_hash (config_alias a)) else None)"
proof -
  have K: "key_at tab i = default_key i" if "i < MAX_CONFIG_VARS" for i
    using assms(1) that by (simp add: config_holds_def)
  have "slot_of (key_at tab) a = slot_of default_key a" by (simp add: slot_of_def Let_def K slot_less)
  then show ?thesis
    using config_var_find_slot [of tab a rest] assms slot_of_default [OF assms(3)] by (simp add: config_holds_def)
qed

lemma config_holds_set_slot:
  assumes "config_holds tab f" "k \<in> set default_keys"
  shows "\<exists>tab'. set_slot tab (key_hash k) (v @ rest) (length v) = Some tab'
    \<and> config_holds tab' (f(k := stored v))"
proof -
  obtain tab' where tab': "set_slot tab (key_hash k) (v @ rest) (length v) = Some tab'" "table_ok tab'"
    "key_at tab' = key_at tab" "value_at tab' = (value_at tab)(key_hash k := stored v)"
    using set_slot_value [of tab "key_hash k" v rest] assms(1) slot_less(1)
    by (auto simp: config_holds_def stored_def MAX_VALUE_LENGTH_def)
  have "distinct (map key_hash default_keys)" unfolding default_hashes by simp
  then have "inj_on key_hash (set default_keys)" unfolding distinct_map by blast
  then have "key_hash k' \<noteq> key_hash k" if "k' \<in> set default_keys" "k' \<noteq> k" for k'
    using that assms(2) by (auto dest: inj_onD)
  then show ?thesis using tab' assms(1) by (auto simp: config_holds_def)
qed

lemma config_holds_get:
  assumes "config_holds tab f" "cstr key k" "k \<noteq> []"
  shows "\<exists>v. config_get tab key = Some v
    \<and> cstr v (if config_alias k \<in> set default_keys then f (config_alias k) else [])"
proof -
  obtain rest where key: "key = k @ 0 # rest" "0 \<notin> set k" using cstr_split [OF assms(2)] by blast
  let ?a = "config_alias k"
  have "cstr (cv_value (tab ! key_hash ?a)) (value_at tab (key_hash ?a))"
    using assms(1) table_ok_nth slot_less(1) by (auto simp: config_holds_def value_at_def var_ok_def intro!: c_string_cstr)
  moreover have "cstr [0] []" by (simp add: cstr_def)
  ultimately show ?thesis
    using config_holds_find [OF assms(1) key(2) assms(3)] assms(1)
    by (auto simp: config_get_def cstrlen_append key config_holds_def)
qed

lemma argv_key_end_cstr: "0 \<notin> set s \<Longrightarrow> argv_key_end (s @ 0 # rest) = Some (length (arg_key s))"
  by (induction s) (auto simp: arg_key_def)

lemma parse_argv_cstr:
  assumes "0 \<notin> set s"
  shows "\<exists>val rest'. parse_argv (s @ 0 # rest) = Some (length (arg_key s), val, length (arg_tail s))
    \<and> drop val (s @ 0 # rest) = arg_tail s @ 0 # rest'"
proof (cases "dropWhile (\<lambda>c. c \<noteq> 0x3D) s")
  case Nil
  then have "arg_key s = s" by (auto simp: arg_key_def takeWhile_eq_all_conv)
  moreover have "arg_tail s = []" unfolding arg_tail_def Nil by simp
  ultimately show ?thesis using argv_key_end_cstr [OF assms] by (simp add: parse_argv_def)
next
  case (Cons e w)
  have s: "s = arg_key s @ e # w" unfolding arg_key_def Cons [symmetric] by simp
  have e: "e \<noteq> 0" "0 \<notin> set w" using assms by (subst (asm) s, simp)+
  have m: "s @ 0 # rest = arg_key s @ e # w @ 0 # rest" by (subst s) simp
  have "arg_tail s = w" using Cons by (simp add: arg_tail_def)
  then show ?thesis using argv_key_end_cstr [OF assms, of rest] e
    unfolding m by (simp add: parse_argv_def cstrlen_append)
qed

lemma config_arg_update:
  assumes "config_holds tab f" "cstr arg s"
  shows "\<exists>tab'. config_arg arg tab = Some tab' \<and> config_holds tab' (arg_update s f)"
proof -
  obtain rest where arg: "arg = s @ 0 # rest" "0 \<notin> set s" using cstr_split [OF assms(2)] by blast
  let ?v = "arg_tail s" and ?k = "arg_key s"
  obtain val rest' where parse: "parse_argv arg = Some (length ?k, val, length ?v)" "drop val arg = ?v @ 0 # rest'"
    using parse_argv_cstr [OF arg(2)] arg(1) by blast
  have k: "0 \<notin> set ?k" "\<exists>r. arg = ?k @ r"
    using arg by (auto simp: arg_key_def dest: set_takeWhileD) (metis append.assoc takeWhile_dropWhile_id)
  show ?thesis
  proof (cases "?k = []")
    case True
    then show ?thesis using parse assms(1) by (simp add: config_arg_def arg_update_def)
  next
    case False
    have find: "config_var_find tab arg (length ?k) =
        Some (if config_alias ?k \<in> set default_keys then Some (key_hash (config_alias ?k)) else None)"
      using config_holds_find [OF assms(1) k(1) False] k(2) by metis
    have true: "length (str ''true'') = 4" by (simp add: str_def)
    show ?thesis
    proof (cases "config_alias ?k \<in> set default_keys")
      case True
      note set = config_holds_set_slot [OF assms(1) True]
      show ?thesis
      proof (cases "?v = []")
        case v: True
        obtain tab' where "set_slot tab (key_hash (config_alias ?k)) (str ''true'' @ [0]) 4 = Some tab'"
          "config_holds tab' (f(config_alias ?k := stored (str ''true'')))"
          using set [of "str ''true''" "[0]"] true by auto
        then show ?thesis using find False parse True v
          by (simp add: config_arg_def arg_update_def arg_value_def)
      next
        case v: False
        then show ?thesis using find False parse True set [of ?v "0 # rest'"]
          by (auto simp: config_arg_def arg_update_def arg_value_def)
      qed
    next
      case no: False
      then have "config_holds tab (arg_update s f)"
        using assms(1) by (auto simp: arg_update_def config_holds_def)
      then show ?thesis using find False parse no by (simp add: config_arg_def)
    qed
  qed
qed

lemma config_args_update:
  "list_all2 cstr args ss \<Longrightarrow> config_holds tab f \<Longrightarrow>
    \<exists>tab'. config_args args tab = Some tab' \<and> config_holds tab' (fold arg_update ss f)"
proof (induction args ss arbitrary: tab f rule: list_all2_induct)
  case (Cons arg args s ss)
  then obtain tab1 where "config_arg arg tab = Some tab1" "config_holds tab1 (arg_update s f)"
    using config_arg_update by blast
  then show ?case using Cons.IH [of tab1 "arg_update s f"] by simp
qed simp

lemma config_init_holds:
  assumes "list_all2 cstr argv ss"
  shows "\<exists>tab. config_init argv = Some tab \<and> config_holds tab (fold arg_update (tl ss) default_value)"
proof -
  obtain tab where tab: "config_load_defaults config_defaults empty_table = Some tab" "table_ok tab"
    "\<forall>i < MAX_CONFIG_VARS. key_at tab i = default_key i"
    "\<forall>(k, v) \<in> set default_vars. value_at tab (key_hash k) = v"
    using config_load_defaults_ok by blast
  have "distinct (map key_hash (map fst default_vars))" using distinct_default_hashes by simp
  then have "distinct (map fst default_vars)" unfolding distinct_map by blast
  then have "map_of default_vars k = Some v" if "(k, v) \<in> set default_vars" for k v
    using that by simp
  then have "config_holds tab default_value"
    using tab(2,3,4) by (auto simp: config_holds_def default_keys_def default_value_def)
  moreover have "list_all2 cstr (tl argv) (tl ss)" using assms by (cases argv; cases ss) auto
  ultimately show ?thesis using config_args_update tab(1) by (simp add: config_init_def)
qed

lemma config_globals_update:
  assumes "config_holds tab f" "set vs \<subseteq> set default_vars"
  shows "\<exists>tab'. config_globals L (map make_var vs) tab = Some tab'
    \<and> config_holds tab' (fold (\<lambda>d f. f(fst d := lua_update L f (fst d))) vs f)"
  using assms
proof (induction vs arbitrary: tab f)
  case (Cons d vs)
  let ?k = "fst d"
  have d: "fits ?k" "?k \<noteq> []" "?k \<in> set default_keys"
    using Cons.prems(2) default_vars_fit by (auto simp: default_keys_def)
  have key: "cstr (cv_key (make_var d)) ?k"
    using char_array_cstr [OF d(1)] by (simp add: make_var_def MAX_KEY_LENGTH_def)
  have "str ''pgsq'' \<notin> set default_keys" by (simp add: default_keys_def default_vars_def str_def)
  then have al: "config_alias ?k = ?k" using d(3) by (auto simp: config_alias_def)
  have find: "config_var_find tab (cv_key (make_var d)) (length ?k) = Some (Some (key_hash ?k))"
    using config_holds_find [OF Cons.prems(1) _ d(2)] cstr_split [OF key] d(3) al by auto
  have "\<exists>tab1. (case lua_getglobal L ?k of None \<Rightarrow> Some tab
        | Some v \<Rightarrow> set_slot tab (key_hash ?k) (v @ [0]) (length v)) = Some tab1
      \<and> config_holds tab1 (f(?k := lua_update L f ?k))"
    using config_holds_set_slot [OF Cons.prems(1) d(3)] Cons.prems(1)
    by (cases "lua_getglobal L ?k") (simp_all add: lua_update_def)
  then obtain tab1 where step: "config_globals L (map make_var (d # vs)) tab = config_globals L (map make_var vs) tab1"
    and holds: "config_holds tab1 (f(?k := lua_update L f ?k))"
    using find by (auto simp: cstrlen_cstr [OF key] cstr_take(1) [OF key])
  have "set vs \<subseteq> set default_vars" using Cons.prems(2) by simp
  from Cons.IH [OF holds this] show ?case unfolding step by (simp only: fold_simps)
qed simp

lemma fold_lua_update:
  "distinct (map fst vs) \<Longrightarrow> fold (\<lambda>d f. f(fst d := lua_update L f (fst d))) vs f k =
     (if k \<in> fst ` set vs then lua_update L f k else f k)"
proof (induction vs arbitrary: f)
  case (Cons d vs)
  then show ?case by (auto simp: lua_update_def split: option.splits)
qed simp

lemma config_load_holds:
  assumes "config_holds tab f"
  shows "\<exists>ok tab'. config_load_from_path L path tab = Some (ok, tab')
    \<and> (ok \<longleftrightarrow> luaL_newstate L \<and> luaL_loadfile L path \<and> lua_pcall L path)
    \<and> config_holds tab' (if ok then lua_update L f else f)"
proof (cases "luaL_newstate L \<and> luaL_loadfile L path \<and> lua_pcall L path")
  case True
  obtain tab' where tab': "config_globals L config_defaults tab = Some tab'"
    "config_holds tab' (fold (\<lambda>d f. f(fst d := lua_update L f (fst d))) default_vars f)"
    using config_globals_update [OF assms, of default_vars] by (auto simp: config_defaults_make_var)
  have "distinct (map key_hash (map fst default_vars))" using distinct_default_hashes by simp
  then have d: "distinct (map fst default_vars)" unfolding distinct_map by blast
  then have "config_holds tab' (lua_update L f)"
    using tab'(2) by (auto simp: config_holds_def fold_lua_update default_keys_def)
  then show ?thesis using True tab'(1)
    by (intro exI [of _ True] exI [of _ tab']) (simp add: config_load_from_path_def)
next
  case False
  then show ?thesis using assms by (auto simp: config_load_from_path_def)
qed

lemma config_arg_type:
  assumes "table_ok tab" "cstr arg s"
  shows "\<exists>tab'. config_arg arg tab = Some tab' \<and> table_ok tab' \<and> key_at tab' = key_at tab"
proof -
  obtain rest where arg: "arg = s @ 0 # rest" "0 \<notin> set s" using cstr_split [OF assms(2)] by blast
  let ?k = "arg_key s"
  obtain val rest' where parse: "parse_argv arg = Some (length ?k, val, length (arg_tail s))"
    "drop val arg = arg_tail s @ 0 # rest'"
    using parse_argv_cstr [OF arg(2)] arg(1) by blast
  have k: "0 \<notin> set ?k" "\<exists>r. arg = ?k @ r"
    using arg by (auto simp: arg_key_def dest: set_takeWhileD) (metis append.assoc takeWhile_dropWhile_id)
  have find: "config_var_find tab arg (length ?k) = Some (slot_of (key_at tab) ?k)"
    using config_var_find_slot [OF assms(1) k(1)] k(2) by metis
  show ?thesis
  proof (cases "?k = [] \<or> slot_of (key_at tab) ?k = None")
    case True
    then show ?thesis using parse find assms(1) by (auto simp: config_arg_def)
  next
    case False
    then obtain i where i: "slot_of (key_at tab) ?k = Some i" "i < MAX_CONFIG_VARS"
      using slot_of_less by blast
    have "length (str ''true'') = 4" by (simp add: str_def)
    then show ?thesis
      using set_slot_value [OF assms(1) i(2), of "str ''true''" "[0]"]
        set_slot_value [OF assms(1) i(2), of "arg_tail s" "0 # rest'"] parse find i(1) False
      by (cases "arg_tail s = []") (auto simp: config_arg_def)
  qed
qed

lemma config_args_type:
  "list_all2 cstr args ss \<Longrightarrow> table_ok tab \<Longrightarrow>
    \<exists>tab'. config_args args tab = Some tab' \<and> table_ok tab' \<and> key_at tab' = key_at tab"
proof (induction args ss arbitrary: tab rule: list_all2_induct)
  case (Cons arg args s ss)
  then obtain tab1 where "config_arg arg tab = Some tab1" "table_ok tab1" "key_at tab1 = key_at tab"
    using config_arg_type by blast
  then show ?case using Cons.IH [of tab1] by simp
qed simp

lemma config_get_type:
  assumes "table_ok tab" "cstr key k"
  shows "\<exists>v. config_get tab key = Some v \<and> 0 \<in> set v \<and> length v \<le> MAX_VALUE_LENGTH"
  using config_var_find_cstr [OF assms] table_ok_nth [OF assms(1)] slot_of_less [of "key_at tab" k]
  by (cases "slot_of (key_at tab) k")
    (auto simp: config_get_def cstrlen_cstr [OF assms(2)] var_ok_def MAX_VALUE_LENGTH_def)

definition decimal :: "nat list \<Rightarrow> int" where "decimal ds = foldl (\<lambda>n d. 10 * n + int d) 0 ds"

lemma decimal_nonneg: "0 \<le> decimal ds"
proof -
  have "0 \<le> n \<Longrightarrow> 0 \<le> foldl (\<lambda>n d. 10 * n + int d) n ds" for n by (induction ds arbitrary: n) auto
  then show ?thesis by (simp add: decimal_def)
qed

lemma isdigit_digit: "d < 10 \<Longrightarrow> isdigit (of_nat (48 + d)) \<and> uint (of_nat (48 + d) - 0x30 :: u8) = int d"
proof -
  assume "d < 10"
  then have "d \<in> {0, 1, 2, 3, 4, 5, 6, 7, 8, 9}" by auto
  then show ?thesis by (auto simp: isdigit_def)
qed

lemma strtol_digits_decimal:
  "\<forall>d \<in> set ds. d < 10 \<Longrightarrow> strtol_digits n (map (\<lambda>d. of_nat (48 + d)) ds @ 0 # rest) =
    Some (foldl (\<lambda>n d. 10 * n + int d) n ds)"
proof (induction ds arbitrary: n)
  case (Cons d ds)
  then show ?case using isdigit_digit [of d] by (simp del: of_nat_add)
qed (simp add: isdigit_def)

lemma strtol_sign_decimal:
  assumes "\<forall>d \<in> set ds. d < 10" "ds \<noteq> []"
  shows "strtol_sign (map (\<lambda>d. of_nat (48 + d)) ds @ 0 # rest) = Some (decimal ds)"
proof -
  obtain d ds' where ds: "ds = d # ds'" using assms(2) by (cases ds) auto
  let ?c = "of_nat (48 + d) :: u8"
  have "d \<in> {0, 1, 2, 3, 4, 5, 6, 7, 8, 9}" using assms(1) ds by auto
  then have "\<not> isspace ?c \<and> ?c \<noteq> 0x2D \<and> ?c \<noteq> 0x2B" by (auto simp: isspace_def)
  then show ?thesis
    using strtol_digits_decimal [OF assms(1), of 0 rest] by (simp add: ds decimal_def del: of_nat_add)
qed

subsection \<open>Properties\<close>


text \<open>Loading a file fails without a change to the table, or gives every variable that the file sets to
  a string this string, over the default and over the command line, and leaves the others.\<close>

theorem config_load_functional:
  assumes "list_all2 cstr argv ss" "config_init argv = Some tab"
  shows "\<exists>ok tab'. config_load_from_path L path tab = Some (ok, tab')
    \<and> (ok \<longleftrightarrow> luaL_newstate L \<and> luaL_loadfile L path \<and> lua_pcall L path) \<and> (\<not> ok \<longrightarrow> tab' = tab)
    \<and> (ok \<longrightarrow> (\<forall>k \<in> set default_keys. \<exists>v. config_get tab' (k @ [0]) = Some v
         \<and> cstr v (case lua_getglobal L k of Some s \<Rightarrow> stored s
                   | None \<Rightarrow> fold arg_update (tl ss) default_value k)))"
proof -
  have "config_holds tab (fold arg_update (tl ss) default_value)"
    using config_init_holds [OF assms(1)] assms(2) by auto
  then obtain ok tab' where l: "config_load_from_path L path tab = Some (ok, tab')"
    "ok \<longleftrightarrow> luaL_newstate L \<and> luaL_loadfile L path \<and> lua_pcall L path"
    "config_holds tab' (if ok then lua_update L (fold arg_update (tl ss) default_value)
       else fold arg_update (tl ss) default_value)"
    using config_load_holds by blast
  have "tab' = tab" if "\<not> ok" using l(1,2) that by (auto simp: config_load_from_path_def split: if_splits)
  moreover have "\<exists>v. config_get tab' (k @ [0]) = Some v \<and> cstr v (lua_update L (fold arg_update (tl ss) default_value) k)"
    if "ok" "k \<in> set default_keys" for k
  proof -
    have k: "cstr (k @ [0]) k" "k \<noteq> []" using that(2) default_keys_short by auto
    have "str ''pgsq'' \<notin> set default_keys" by (simp add: default_keys_def default_vars_def str_def)
    then have "config_alias k = k" using that(2) by (auto simp: config_alias_def)
    then show ?thesis using config_holds_get [OF l(3) k] that by simp
  qed
  ultimately show ?thesis using l(1,2) by (auto simp: lua_update_def)
qed

text \<open>A name on the command line, or asked for, may be a mere prefix of a key: \<^verbatim>\<open>pgsq=x\<close> sets
  \<^verbatim>\<open>pgsql_password\<close>, and the variable \<^verbatim>\<open>pgsq\<close> reads as the password.\<close>

theorem config_prefix_finds_password:
  "\<exists>tab. config_init [str ''kaplar'' @ [0], str ''pgsq=x'' @ [0]] = Some tab
    \<and> (\<exists>v. config_get tab (str ''pgsql_password'' @ [0]) = Some v \<and> cstr v (str ''x''))
    \<and> (\<exists>v. config_get tab (str ''pgsq'' @ [0]) = Some v \<and> cstr v (str ''x''))"
proof -
  let ?ss = "[str ''kaplar'', str ''pgsq=x'']" and ?p = "str ''pgsql_password''"
  have c: "cstr (str s @ [0]) (str s)" if "0 \<notin> set (str s)" for s using that by auto
  have "list_all2 cstr [str ''kaplar'' @ [0], str ''pgsq=x'' @ [0]] ?ss"
    using c [of "''kaplar''"] c [of "''pgsq=x''"] by (simp add: str_def)
  then obtain tab where tab: "config_init [str ''kaplar'' @ [0], str ''pgsq=x'' @ [0]] = Some tab"
    "config_holds tab (fold arg_update (tl ?ss) default_value)"
    using config_init_holds by blast
  have f: "fold arg_update (tl ?ss) default_value ?p = str ''x''"
    by (simp add: arg_update_def arg_key_def arg_value_def arg_tail_def config_alias_def stored_def c_string_def str_def)
  have a: "config_alias ?p = ?p" "config_alias (str ''pgsq'') = ?p" by (auto simp: config_alias_def)
  have d: "?p \<in> set default_keys" by (simp add: default_keys_def default_vars_def)
  have n: "?p \<noteq> []" "str ''pgsq'' \<noteq> []" "0 \<notin> set ?p" "0 \<notin> set (str ''pgsq'')" by (simp_all add: str_def)
  show ?thesis
    using tab(1) config_holds_get [OF tab(2) c [OF n(3)] n(1)] config_holds_get [OF tab(2) c [OF n(4)] n(2)] f a d
    by simp
qed

text \<open>C40: The type of a table, whatever its keys and values are: it stays one of 256 variables, each of two
  terminated arrays of 128 bytes, under any arguments, which never change a key; and a lookup, also of
  the empty name, returns a terminated string of at most 128 bytes.\<close>

theorem config_table_type:
  assumes "table_ok tab" "list_all2 cstr args ss"
  shows "\<exists>tab'. config_args args tab = Some tab' \<and> table_ok tab' \<and> key_at tab' = key_at tab
    \<and> (\<forall>key k. cstr key k \<longrightarrow> (\<exists>v. config_get tab' key = Some v \<and> 0 \<in> set v \<and> length v \<le> MAX_VALUE_LENGTH))"
  using config_args_type [OF assms(2,1)] config_get_type by blast

text \<open>\<^verbatim>\<open>config_geti\<close> reads a decimal number, limits it to a \<^verbatim>\<open>long\<close> and keeps its low 32 bits: a value
  that does not fit is cut without a warning, for instance 4294967297 to 1 where a \<^verbatim>\<open>long\<close> has 64 bits,
  and to the largest \<^verbatim>\<open>int\<close> where it has 32.\<close>

theorem config_geti_decimal:
  assumes "config_get tab key = Some (map (\<lambda>d. of_nat (48 + d)) ds @ 0 # rest)"
    "ds \<noteq> []" "\<forall>d \<in> set ds. d < 10"
  shows "config_geti bits tab key = Some (word_of_int (min (2 ^ (bits - 1) - 1) (decimal ds)))"
proof -
  have "(0 :: int) \<le> 2 ^ (bits - 1) - 1" by simp
  then have "- (2 ^ (bits - 1)) \<le> min (2 ^ (bits - 1) - 1) (decimal ds)"
    using decimal_nonneg [of ds] by linarith
  then show ?thesis
    using strtol_sign_decimal [OF assms(3,2)] assms(1) by (simp add: config_geti_def strtol10_def max_def)
qed

subsection \<open>Examples\<close>

definition example_args :: "bytes list" where
  "example_args = [str ''kaplar'', str ''sv_name=Test'', str ''sv_game_port=4294967297'', str ''motd'']"

definition example_argv :: "bytes list" where "example_argv = map (\<lambda>s. s @ [0]) example_args"

lemma example_argv_cstr: "list_all2 cstr example_argv example_args"
proof -
  have "\<forall>s \<in> set example_args. 0 \<notin> set s" by (simp add: example_args_def str_def)
  then show ?thesis unfolding example_argv_def list_all2_map1 list_all2_same by auto
qed

lemma example_values:
  "fold arg_update (tl example_args) default_value (str ''sv_name'') = str ''Test''"
  "fold arg_update (tl example_args) default_value (str ''sv_game_port'') = str ''4294967297''"
  "fold arg_update (tl example_args) default_value (str ''motd'') = str ''true''"
  "fold arg_update (tl example_args) default_value (str ''sv_addr'') = str ''127.0.0.1''"
  by (simp_all add: example_args_def arg_update_def arg_key_def arg_value_def arg_tail_def config_alias_def
      stored_def c_string_def str_def default_value_def default_vars_def)

lemma example_names:
  "str ''sv_name'' \<in> set default_keys" "str ''sv_game_port'' \<in> set default_keys"
  "str ''motd'' \<in> set default_keys" "str ''sv_addr'' \<in> set default_keys" "str ''port'' \<notin> set default_keys"
  "config_alias (str ''sv_name'') = str ''sv_name''" "config_alias (str ''motd'') = str ''motd''"
  "config_alias (str ''sv_game_port'') = str ''sv_game_port''" "config_alias (str ''port'') = str ''port''"
  by (simp_all add: default_keys_def default_vars_def config_alias_def str_def)

lemma str_cstr: "s \<in> set [''sv_name'', ''sv_game_port'', ''motd'', ''sv_addr'', ''port''] \<Longrightarrow>
    cstr (str s @ [0]) (str s) \<and> str s \<noteq> []"
  by (auto simp: str_def intro!: cstr_append0)


definition example_lua :: lua_env where
  "example_lua = \<lparr>luaL_newstate = True, luaL_loadfile = (\<lambda>_. True), lua_pcall = (\<lambda>_. True),
     lua_getglobal = (\<lambda>k. if k = str ''motd'' then Some (str ''Hello'') else None)\<rparr>"

theorem config_load_functional_witness:
  "\<exists>tab tab' v w. config_init example_argv = Some tab \<and> config_load_from_path example_lua [0] tab = Some (True, tab')
    \<and> config_get tab' (str ''motd'' @ [0]) = Some v \<and> cstr v (str ''Hello'')
    \<and> config_get tab' (str ''sv_name'' @ [0]) = Some w \<and> cstr w (str ''Test'')"
proof -
  obtain tab where tab: "config_init example_argv = Some tab"
    using config_init_holds [OF example_argv_cstr] by blast
  obtain ok tab' where l: "config_load_from_path example_lua [0] tab = Some (ok, tab')" "ok"
    "\<forall>k \<in> set default_keys. \<exists>v. config_get tab' (k @ [0]) = Some v
         \<and> cstr v (case lua_getglobal example_lua k of Some s \<Rightarrow> stored s
                   | None \<Rightarrow> fold arg_update (tl example_args) default_value k)"
    using config_load_functional [OF example_argv_cstr tab, of example_lua "[0]"] by (auto simp: example_lua_def)
  have g: "lua_getglobal example_lua (str ''motd'') = Some (str ''Hello'')"
    "lua_getglobal example_lua (str ''sv_name'') = None" "stored (str ''Hello'') = str ''Hello''"
    by (simp_all add: example_lua_def stored_def c_string_def str_def)
  from l(3) [rule_format, OF example_names(3)] l(3) [rule_format, OF example_names(1)]
  show ?thesis using tab l(1,2) by (auto simp: g example_values)
qed

theorem config_table_type_witness:
  "\<exists>tab v. config_args (tl example_argv) empty_table = Some tab \<and> table_ok tab
    \<and> config_get tab (str ''sv_name'' @ [0]) = Some v \<and> 0 \<in> set v"
proof -
  have "list_all2 cstr (tl example_argv) (tl example_args)"
    using example_argv_cstr by (simp add: example_argv_def example_args_def)
  from config_table_type [OF empty_table_ok this] str_cstr [of "''sv_name''"]
  show ?thesis by auto
qed

theorem config_geti_decimal_witness:
  "\<exists>tab. config_init example_argv = Some tab
    \<and> config_geti 64 tab (str ''sv_game_port'' @ [0]) = Some 1
    \<and> config_geti 32 tab (str ''sv_game_port'' @ [0]) = Some 0x7FFFFFFF"
proof -
  let ?key = "str ''sv_game_port'' @ [0]" and ?ds = "[4, 2, 9, 4, 9, 6, 7, 2, 9, 7] :: nat list"
  obtain tab where tab: "config_init example_argv = Some tab"
    "config_holds tab (fold arg_update (tl example_args) default_value)"
    using config_init_holds [OF example_argv_cstr] by blast
  have "str ''4294967297'' = map (\<lambda>d. of_nat (48 + d)) ?ds" by (simp add: str_def)
  moreover obtain v where "config_get tab ?key = Some v" "cstr v (str ''4294967297'')"
    using config_holds_get [OF tab(2), of ?key "str ''sv_game_port''"] str_cstr [of "''sv_game_port''"]
    by (auto simp: example_names example_values)
  ultimately obtain rest where "config_get tab ?key = Some (map (\<lambda>d. of_nat (48 + d)) ?ds @ 0 # rest)"
    using cstr_split by metis
  from config_geti_decimal [OF this, of 64] config_geti_decimal [OF this, of 32]
  show ?thesis using tab(1) by (simp add: decimal_def)
qed

end
