(* ===== verification/Tibia_Message.thy ===== *)
theory Tibia_Message
  imports Outbuf Checksums Xtea
begin

text \<open>
  The message format of \<^verbatim>\<open>src/src/protocol_login.c\<close>: a length, the Adler-32 checksum of the rest, and
  the rest, which is XTEA encoded and starts with the length of the text before it was padded.
\<close>

definition outbuf_prepare :: "outbuf \<Rightarrow> outbuf" where
  "outbuf_prepare buf = buf\<lparr>ob_ptr := 8\<rparr>"

primrec write_padding :: "nat \<Rightarrow> outbuf \<Rightarrow> outbuf option" where
  "write_padding 0 buf = Some buf"
| "write_padding (Suc padding) buf = outbuf_write_byte buf 0x33 \<bind> write_padding padding"

definition outbuf_wrap :: "outbuf \<Rightarrow> u32 list \<Rightarrow> outbuf option" where
  "outbuf_wrap buf xtea = do {
     let datalen = (of_nat (ob_ptr buf - 6) :: u32);
     let padding = unat ((8 - (datalen AND 7)) AND 7);
     m1 \<leftarrow> mem_write 6 (encode_u16_le (ucast (datalen - 2))) (ob_base buf);
     let datalen = datalen + of_nat padding;
     buf1 \<leftarrow> write_padding padding (buf\<lparr>ob_base := m1\<rparr>);
     data \<leftarrow> mem_read 6 (unat datalen) (ob_base buf1);
     cipher \<leftarrow> xtea_encode xtea data;
     m2 \<leftarrow> mem_write 6 cipher (ob_base buf1);
     body \<leftarrow> mem_read 6 (unat datalen) m2;
     m3 \<leftarrow> mem_write 0 (encode_u16_le (ucast (datalen + 4))) m2;
     m4 \<leftarrow> mem_write 2 (encode_u32_le (adler32 body)) m3;
     Some (buf1\<lparr>ob_base := m4\<rparr>)
   }"

lemma unat_padding: "unat ((8 - (x AND 7)) AND 7 :: u32) = (8 - unat x mod 8) mod 8"
proof -
  have m: "(7 :: u32) = mask 3" by (simp add: mask_eq_exp_minus_1)
  have x: "unat (x AND 7) = unat x mod 8" unfolding m unat_and_mask by simp
  then have "unat (8 - (x AND 7)) = 8 - unat x mod 8"
    by (subst unat_sub) (simp_all add: word_le_nat_alt)
  then show ?thesis unfolding m unat_and_mask by (simp flip: m)
qed

lemma pad_dvd: "8 dvd n + (8 - n mod 8) mod (8 :: nat)"
proof -
  have "n mod 8 \<le> 8" by (simp add: less_imp_le)
  then have "(n mod 8 + (8 - n mod 8)) mod 8 = 0" by simp
  then show ?thesis by (simp only: dvd_eq_mod_eq_0 mod_add_right_eq mod_add_left_eq)
qed

lemma write_padding_append:
  assumes "outbuf_ok buf" "n \<le> outbuf_room buf"
  shows "write_padding n buf = Some (outbuf_append (replicate n 0x33) buf)"
  using assms
proof (induction n arbitrary: buf)
  case 0
  then show ?case by (simp add: outbuf_append_def)
next
  case (Suc n)
  have w: "outbuf_write_byte buf 0x33 = Some (outbuf_append [0x33] buf)"
    using w_byte.write_append Suc.prems by (simp add: encode_u8_def)
  have "outbuf_ok (outbuf_append [0x33] buf)" "n \<le> outbuf_room (outbuf_append [0x33] buf)"
    using Suc.prems by (auto simp: outbuf_ok_def outbuf_append_def outbuf_room_def)
  then have "write_padding n (outbuf_append [0x33] buf) =
      Some (outbuf_append (replicate n 0x33) (outbuf_append [0x33] buf))"
    by (rule Suc.IH)
  moreover have "outbuf_append (replicate n 0x33) (outbuf_append [0x33] buf) =
      outbuf_append (replicate (Suc n) 0x33) buf"
    using Suc.prems by (simp add: outbuf_append_def outbuf_ok_def outbuf_room_def add.commute)
  ultimately show ?case by (simp add: w)
qed

text \<open>The bytes before, at and after a stored piece.\<close>

lemma mem_write_mid:
  "length a = off \<Longrightarrow> length b = length bs \<Longrightarrow> mem_write off bs (a @ b @ c) = Some (a @ bs @ c)"
  by (simp add: mem_write_def)

lemma mem_read_mid: "length a = off \<Longrightarrow> length b = n \<Longrightarrow> mem_read off n (a @ b @ c) = Some b"
  by (simp add: mem_read_def)

lemma outbuf_wrap_parts:
  fixes payload rest :: bytes
  defines "pad \<equiv> (8 - (length payload + 2) mod 8) mod 8"
  assumes buf: "ob_base buf = h @ l @ payload @ rest" "length h = 6" "length l = 2"
      "ob_ptr buf = 8 + length payload"
    and room: "pad \<le> length rest" "length (ob_base buf) < 2 ^ 16"
  shows "\<exists>body buf'. outbuf_wrap buf k = Some buf'
    \<and> xtea_decode k body = Some (encode_u16_le (of_nat (length payload)) @ payload @ replicate pad 0x33)
    \<and> ob_base buf' = (encode_u16_le (of_nat (length body + 4)) @ encode_u32_le (adler32 body)) @ body @ drop pad rest
    \<and> length body = length payload + 2 + pad \<and> ob_ptr buf' = 6 + length body"
proof -
  define n where "n = length payload + 2"
  define plain where "plain = encode_u16_le (of_nat (length payload)) @ payload @ replicate pad 0x33"
  have n: "n + pad < 2 ^ 16" "ob_ptr buf - 6 = n" "n < 2 ^ 16"
    using room buf by (simp_all add: n_def)
  have un: "unat (of_nat n :: u32) = n" using n(3) by (simp add: unat_of_nat)
  have padding: "unat ((8 - (of_nat n AND 7)) AND 7 :: u32) = pad"
    unfolding unat_padding un by (simp add: pad_def n_def)
  have "(of_nat n - 2 :: u32) = of_nat (length payload)" by (simp add: n_def)
  then have len16: "(ucast (of_nat n - 2 :: u32) :: u16) = of_nat (length payload)"
    using n(3) by (simp add: n_def unsigned_of_nat take_bit_nat_eq_self)
  have total: "unat (of_nat n + of_nat pad :: u32) = n + pad"
  proof -
    have "(of_nat n + of_nat pad :: u32) = of_nat (n + pad)" by simp
    then show ?thesis using n(1) by (simp only: unat_of_nat) simp
  qed
  have len16': "(ucast (of_nat n + of_nat pad + 4 :: u32) :: u16) = of_nat (n + pad + 4)"
  proof -
    have "(of_nat n + of_nat pad + 4 :: u32) = of_nat (n + pad + 4)" by simp
    then show ?thesis using n(1) by (simp only: unsigned_of_nat) (simp add: take_bit_nat_eq_self)
  qed
  have plen: "length plain = n + pad" by (simp add: plain_def n_def)
  have "8 dvd length plain" unfolding plen pad_def n_def by (rule pad_dvd)
  then obtain cipher where c: "xtea_encode k plain = Some cipher" "length cipher = n + pad"
    "xtea_decode k cipher = Some plain"
    using xtea_ecb.run_result [of plain k] plen by auto
  have w1: "mem_write 6 (encode_u16_le (of_nat (length payload))) (ob_base buf) =
      Some (h @ encode_u16_le (of_nat (length payload)) @ payload @ rest)"
    using buf by (simp add: mem_write_mid)
  let ?b1 = "buf\<lparr>ob_base := h @ encode_u16_le (of_nat (length payload)) @ payload @ rest\<rparr>"
  have "outbuf_ok ?b1" "pad \<le> outbuf_room ?b1"
    using buf room by (simp_all add: outbuf_ok_def outbuf_room_def)
  then have p: "write_padding pad ?b1 = Some (?b1\<lparr>ob_base := h @ plain @ drop pad rest, ob_ptr := 6 + n + pad\<rparr>)"
    using buf by (simp add: write_padding_append outbuf_append_def plain_def n_def add.commute)
  have r: "mem_read 6 (n + pad) (h @ plain @ drop pad rest) = Some plain"
    "mem_read 6 (n + pad) (h @ cipher @ drop pad rest) = Some cipher"
    "mem_write 6 cipher (h @ plain @ drop pad rest) = Some (h @ cipher @ drop pad rest)"
    using buf(2) plen c(2) by (simp_all add: mem_read_mid mem_write_mid)
  have h: "h = take 2 h @ drop 2 h" by simp
  have w2: "mem_write 0 e2 (h @ r) = Some (e2 @ drop 2 h @ r)" if "length e2 = 2" for e2 r :: bytes
    using that buf(2) by (simp add: mem_write_def numeral_2_eq_2)
  have w3: "mem_write 2 e4 (e2 @ drop 2 h @ r) = Some (e2 @ e4 @ r)"
    if "length e2 = 2" "length e4 = 4" for e2 e4 r :: bytes
    using that buf(2) by (simp add: mem_write_mid)
  let ?e2 = "encode_u16_le (of_nat (n + pad + 4))" and ?e4 = "encode_u32_le (adler32 cipher)"
  have "outbuf_wrap buf k = Some (?b1\<lparr>ob_base := (?e2 @ ?e4) @ cipher @ drop pad rest, ob_ptr := 6 + n + pad\<rparr>)"
    unfolding outbuf_wrap_def n(2) Let_def padding total len16 len16'
    by (simp add: w1 p r c(1) w2 w3)
  then show ?thesis using c plen by (intro exI [of _ cipher] exI) (auto simp: plain_def n_def)
qed

lemma outbuf_wrap_message:
  assumes "8 \<le> ob_ptr buf" "ob_ptr buf + 7 \<le> length (ob_base buf)" "length (ob_base buf) = MAX_OUTBUF_LEN"
  defines "payload \<equiv> drop 8 (outbuf_content buf)"
  shows "\<exists>buf' body pad. outbuf_wrap buf k = Some buf' \<and> length (ob_base buf') = MAX_OUTBUF_LEN
    \<and> outbuf_content buf' = encode_u16_le (of_nat (length body + 4)) @ encode_u32_le (adler32 body) @ body
    \<and> xtea_decode k body = Some (encode_u16_le (of_nat (length payload)) @ payload @ replicate pad 0x33)
    \<and> pad < 8 \<and> 8 dvd length body \<and> length body = 2 + length payload + pad"
proof -
  define h where "h = take 6 (ob_base buf)"
  define l where "l = take 2 (drop 6 (ob_base buf))"
  define rest where "rest = drop (ob_ptr buf) (ob_base buf)"
  have pay: "length payload = ob_ptr buf - 8" using assms(2) by (simp add: payload_def outbuf_content_def)
  have "payload = take (ob_ptr buf - 8) (drop 8 (ob_base buf))"
    by (simp add: payload_def outbuf_content_def drop_take)
  then have "payload @ rest = drop 8 (ob_base buf)"
    using append_take_drop_id [of "ob_ptr buf - 8" "drop 8 (ob_base buf)"] assms(1) by (simp add: rest_def)
  then have "l @ payload @ rest = drop 6 (ob_base buf)"
    using append_take_drop_id [of 2 "drop 6 (ob_base buf)"] by (simp add: l_def)
  then have base: "ob_base buf = h @ l @ payload @ rest" by (simp add: h_def)
  let ?pad = "(8 - (length payload + 2) mod 8) mod 8"
  have pad: "?pad < 8" by simp
  then have "?pad \<le> length rest" using assms(2) by (simp add: rest_def)
  moreover have "length h = 6" "length l = 2" "ob_ptr buf = 8 + length payload"
    using assms(1,2) pay by (simp_all add: h_def l_def)
  moreover have "length (ob_base buf) < 2 ^ 16" using assms(3) by (simp add: MAX_OUTBUF_LEN_def)
  ultimately obtain body buf' where b: "outbuf_wrap buf k = Some buf'"
    "xtea_decode k body = Some (encode_u16_le (of_nat (length payload)) @ payload @ replicate ?pad 0x33)"
    "ob_base buf' = (encode_u16_le (of_nat (length body + 4)) @ encode_u32_le (adler32 body)) @ body @ drop ?pad rest"
    "length body = length payload + 2 + ?pad" "ob_ptr buf' = 6 + length body"
    using outbuf_wrap_parts [OF base, of k] by blast
  have "length (ob_base buf') = MAX_OUTBUF_LEN"
    using b(3,4) assms(3) base pad \<open>?pad \<le> length rest\<close> \<open>length h = 6\<close> \<open>length l = 2\<close> by simp
  moreover have "8 dvd length body" unfolding b(4) by (rule pad_dvd)
  moreover have "outbuf_content buf' = encode_u16_le (of_nat (length body + 4)) @ encode_u32_le (adler32 body) @ body"
    using b(3,5) by (simp add: outbuf_content_def)
  ultimately show ?thesis using b(1,2,4) pad by (intro exI [of _ buf'] exI [of _ body] exI [of _ ?pad]) simp
qed

text \<open>C30: \<^verbatim>\<open>outbuf_wrap\<close> makes of any text in a prepared buffer, with room for the padding, a message that its
  receiver can check and decode: the length of what follows, the Adler-32 checksum of the body, and a
  body of whole 8-byte blocks that XTEA decodes to the length of the text, the text and the padding.\<close>

theorem outbuf_wrap_roundtrip:
  assumes "8 \<le> ob_ptr buf" "ob_ptr buf + 7 \<le> length (ob_base buf)" "length (ob_base buf) = MAX_OUTBUF_LEN"
  defines "payload \<equiv> drop 8 (outbuf_content buf)"
  shows "\<exists>buf' body pad. outbuf_wrap buf k = Some buf' \<and> length (ob_base buf') = MAX_OUTBUF_LEN
    \<and> outbuf_content buf' = encode_u16_le (of_nat (length body + 4)) @ encode_u32_le (adler32 body) @ body
    \<and> xtea_decode k body = Some (encode_u16_le (of_nat (length payload)) @ payload @ replicate pad 0x33)
    \<and> pad < 8 \<and> 8 dvd length body \<and> length body = 2 + length payload + pad"
  unfolding payload_def using outbuf_wrap_message [OF assms(1-3)] by blast

theorem outbuf_wrap_roundtrip_witness:
  "\<exists>buf' body pad. outbuf_wrap \<lparr>ob_ptr = 9, ob_base = replicate MAX_OUTBUF_LEN 0x0A\<rparr> [1, 2, 3, 4] = Some buf'
    \<and> outbuf_content buf' = encode_u16_le (of_nat (length body + 4)) @ encode_u32_le (adler32 body) @ body
    \<and> xtea_decode [1, 2, 3, 4] body = Some ([1, 0] @ [0x0A] @ replicate pad 0x33)"
proof -
  let ?buf = "\<lparr>ob_ptr = 9, ob_base = replicate MAX_OUTBUF_LEN 0x0A\<rparr>"
  have "outbuf_content ?buf = replicate 9 0x0A" by (simp add: outbuf_content_def MAX_OUTBUF_LEN_def)
  then have p: "drop 8 (outbuf_content ?buf) = [0x0A]" by simp
  have "encode_u16_le (of_nat (length [0x0A :: u8])) = [1, 0]" by (simp add: encode_u16_le_def)
  then show ?thesis
    using outbuf_wrap_roundtrip [of ?buf "[1, 2, 3, 4]"] unfolding p by (auto simp: MAX_OUTBUF_LEN_def)
qed

end
