(* ===== verification/Protocol_Login.thy ===== *)
theory Protocol_Login
  imports Tibia_Message Config Connmgr
begin

text \<open>
  The login protocol \<^verbatim>\<open>src/src/protocol_login.c\<close>: a request is parsed on the server thread, resolved on
  the database thread, and its answer is sent on the server thread.  The model is at the interface of
  \<^verbatim>\<open>protocol.h\<close>: \<open>ls_conns\<close> are the connections that have this protocol, with what
  \<^verbatim>\<open>*connection_userdata(c)\<close> points to and whether a write is outstanding; a uid without entry is one
  for which \<^verbatim>\<open>connection_userdata\<close> returns \<^verbatim>\<open>NULL\<close>.  \<^theory_text>\<open>None\<close> as a result is undefined behaviour.
\<close>

subsection \<open>State\<close>

record login_info =
  li_output :: "nat option"
  li_connection :: u32
  li_xtea :: "u32 list"
  li_accname :: bytes
  li_password :: bytes

record login_conn =
  lc_udata :: "nat option"
  lc_writing :: bool
  lc_first_msg :: bool

text \<open>Output buffers and login infos are named by addresses: \<open>ls_bufs\<close> are the contents of the
  buffers, \<open>ls_logins\<close> the login infos allocated and not freed, \<open>ls_fresh\<close> the address of the next
  one.  The tasks waiting on the database thread and on the server thread are given by their arguments.\<close>

record login_sys =
  ls_conns :: "u32 \<Rightarrow> login_conn option"
  ls_pool :: outbuf_pool
  ls_bufs :: "nat \<Rightarrow> outbuf"
  ls_logins :: "nat \<Rightarrow> login_info option"
  ls_fresh :: nat
  ls_db_tasks :: "nat list"
  ls_server_tasks :: "nat list"
  ls_sent :: "(u32 \<times> bytes) list"

text \<open>\<open>le_rsa\<close> is \<^verbatim>\<open>tibia_rsa_decode\<close> on the 128 bytes: \<^verbatim>\<open>false\<close>, or these bytes after the call and the
  length it gives.  A query gives no result (\<^verbatim>\<open>NULL\<close>) or its rows: id and password, or name, as C
  strings.  \<open>le_junk\<close> is what \<^verbatim>\<open>kpl_malloc\<close> leaves in an array of 32 characters.\<close>

record login_env =
  le_rsa :: "bytes \<Rightarrow> (bytes \<times> nat) option"
  le_account_info :: "bytes \<Rightarrow> (u32 \<times> bytes) list option"
  le_account_charlist :: "u32 \<Rightarrow> bytes list option"
  le_config :: config_table
  le_long_bits :: nat
  le_junk :: bytes

definition TIBIA_CLIENT_VERSION_MIN :: u16 where "TIBIA_CLIENT_VERSION_MIN = 860"
definition TIBIA_CLIENT_VERSION_MAX :: u16 where "TIBIA_CLIENT_VERSION_MAX = 860"
definition TIBIA_CLIENT_VERSION_STR :: bytes where "TIBIA_CLIENT_VERSION_STR = str ''8.60''"

text \<open>\<^verbatim>\<open>*connection_userdata(c) = buf\<close>, and \<^verbatim>\<open>connection_send\<close>; \<open>started\<close> is whether the OS takes the
  write.\<close>

definition set_udata :: "u32 \<Rightarrow> nat option \<Rightarrow> login_sys \<Rightarrow> login_sys option" where
  "set_udata c b s = do {
     k \<leftarrow> ls_conns s c;
     Some (s\<lparr>ls_conns := (ls_conns s)(c \<mapsto> k\<lparr>lc_udata := b\<rparr>)\<rparr>)
   }"

definition login_send :: "bool \<Rightarrow> u32 \<Rightarrow> bytes \<Rightarrow> nat \<Rightarrow> login_sys \<Rightarrow> login_sys" where
  "login_send started c data len s =
     (case ls_conns s c of
        None \<Rightarrow> s
      | Some k \<Rightarrow>
          if lc_writing k \<or> \<not> started then s
          else s\<lparr>ls_conns := (ls_conns s)(c \<mapsto> k\<lparr>lc_writing := True\<rparr>),
                 ls_sent := ls_sent s @ [(c, take len data)]\<rparr>)"

definition game_add_server_task :: "bool \<Rightarrow> nat \<Rightarrow> login_sys \<Rightarrow> login_sys" where
  "game_add_server_task accepted p s =
     (if accepted then s\<lparr>ls_server_tasks := ls_server_tasks s @ [p]\<rparr> else s)"

definition release_buf :: "nat \<Rightarrow> login_sys \<Rightarrow> login_sys" where
  "release_buf b s = s\<lparr>ls_pool := outbuf_release b (ls_pool s)\<rparr>"

subsection \<open>Answers\<close>

definition internal_resolve_login :: "bool \<Rightarrow> nat \<Rightarrow> login_sys \<Rightarrow> login_sys option" where
  "internal_resolve_login started p s = do {
     login \<leftarrow> ls_logins s p;
     let c = li_connection login;
     s1 \<leftarrow> (case li_output login of
         None \<Rightarrow> Some s
       | Some b \<Rightarrow>
           if ls_conns s c \<noteq> None then do {
             s1 \<leftarrow> set_udata c (Some b) s;
             Some (login_send started c (outbuf_data (ls_bufs s b)) (outbuf_len (ls_bufs s b)) s1)
           }
           else Some (release_buf b s));
     Some (s1\<lparr>ls_logins := (ls_logins s1)(p := None)\<rparr>)
   }"

text \<open>\<^verbatim>\<open>login->output = outbuf_acquire()\<close>, and the end of every answer.\<close>

definition acquire_output :: "nat \<Rightarrow> login_info \<Rightarrow> login_sys \<Rightarrow> nat \<times> login_sys" where
  "acquire_output p login s =
     (let (b, pool') = outbuf_acquire (ls_pool s)
      in (b, s\<lparr>ls_pool := pool', ls_logins := (ls_logins s)(p \<mapsto> login\<lparr>li_output := Some b\<rparr>)\<rparr>))"

definition put_buf :: "nat \<Rightarrow> outbuf \<Rightarrow> login_sys \<Rightarrow> login_sys" where
  "put_buf b buf s = s\<lparr>ls_bufs := (ls_bufs s)(b := buf)\<rparr>"

definition disconnect_text :: "bytes \<Rightarrow> outbuf \<Rightarrow> outbuf option" where
  "disconnect_text message buf = do {
     buf1 \<leftarrow> outbuf_write_byte buf 0x0A;
     outbuf_write_str buf1 message
   }"

definition build_disconnect_message :: "nat \<Rightarrow> bytes \<Rightarrow> login_sys \<Rightarrow> login_sys option" where
  "build_disconnect_message p message s = do {
     login \<leftarrow> ls_logins s p;
     let (b, s1) = acquire_output p login s;
     buf \<leftarrow> disconnect_text message (outbuf_prepare (ls_bufs s1 b));
     buf' \<leftarrow> outbuf_wrap buf (li_xtea login);
     Some (put_buf b buf' s1)
   }"

definition internal_send_disconnect :: "bool \<Rightarrow> nat \<Rightarrow> bytes \<Rightarrow> login_sys \<Rightarrow> login_sys option" where
  "internal_send_disconnect started p message s = do {
     s1 \<leftarrow> build_disconnect_message p message s;
     internal_resolve_login started p s1
   }"

definition send_disconnect :: "bool \<Rightarrow> nat \<Rightarrow> bytes \<Rightarrow> login_sys \<Rightarrow> login_sys option" where
  "send_disconnect accepted p message s = do {
     s1 \<leftarrow> build_disconnect_message p message s;
     Some (game_add_server_task accepted p s1)
   }"

primrec charlist_rows :: "login_env \<Rightarrow> bytes list \<Rightarrow> outbuf \<Rightarrow> outbuf option" where
  "charlist_rows env [] buf = Some buf"
| "charlist_rows env (name # names) buf = do {
     buf1 \<leftarrow> outbuf_write_str buf name;
     sv_name \<leftarrow> config_get (le_config env) (str ''sv_name'' @ [0]);
     buf2 \<leftarrow> outbuf_write_str buf1 sv_name;
     buf3 \<leftarrow> outbuf_write_u32 buf2 16777343;
     port \<leftarrow> config_geti (le_long_bits env) (le_config env) (str ''sv_game_port'' @ [0]);
     buf4 \<leftarrow> outbuf_write_u16 buf3 (ucast port);
     charlist_rows env names buf4
   }"

definition charlist_text :: "login_env \<Rightarrow> bytes list \<Rightarrow> outbuf \<Rightarrow> outbuf option" where
  "charlist_text env names buf = do {
     buf1 \<leftarrow> outbuf_write_byte buf 0x14;
     motd \<leftarrow> config_get (le_config env) (str ''motd'' @ [0]);
     buf2 \<leftarrow> outbuf_write_str buf1 motd;
     buf3 \<leftarrow> outbuf_write_byte buf2 0x64;
     buf4 \<leftarrow> outbuf_write_byte buf3 (of_nat (length names));
     buf5 \<leftarrow> charlist_rows env names buf4;
     outbuf_write_u16 buf5 1
   }"

definition msg_bad_name :: bytes where "msg_bad_name = str ''Invalid account name.'' @ [0]"
definition msg_not_correct :: bytes where "msg_not_correct = str ''Account name or password is not correct.'' @ [0]"
definition msg_internal :: bytes where "msg_internal = str ''Internal error. Contact an admin.'' @ [0]"

definition database_resolve_login :: "login_env \<Rightarrow> bool \<Rightarrow> nat \<Rightarrow> login_sys \<Rightarrow> login_sys option" where
  "database_resolve_login env accepted p s = do {
     login \<leftarrow> ls_logins s p;
     if li_accname login ! 0 = 0 then send_disconnect accepted p msg_bad_name s
     else (case le_account_info env (li_accname login) of
       None \<Rightarrow> send_disconnect accepted p msg_not_correct s
     | Some [] \<Rightarrow> send_disconnect accepted p msg_not_correct s
     | Some ((accid, pwd) # _) \<Rightarrow> do {
         same \<leftarrow> strcmp_eq pwd (li_password login);
         if \<not> same then send_disconnect accepted p msg_not_correct s
         else (case le_account_charlist env accid of
           None \<Rightarrow> send_disconnect accepted p msg_internal s
         | Some names \<Rightarrow> do {
             let (b, s1) = acquire_output p login s;
             buf \<leftarrow> charlist_text env names (outbuf_prepare (ls_bufs s1 b));
             buf' \<leftarrow> outbuf_wrap buf (li_xtea login);
             Some (game_add_server_task accepted p (put_buf b buf' s1))
           })
       })
   }"

subsection \<open>The callbacks\<close>

definition login_identify :: "bytes \<Rightarrow> bool" where
  "login_identify data \<longleftrightarrow> length data \<ge> 5
     \<and> Some (adler32 (drop 4 data)) = decode_u32_le data \<and> data ! 4 = 0x01"

definition login_on_assign_protocol :: "u32 \<Rightarrow> login_sys \<Rightarrow> (bool \<times> login_sys) option" where
  "login_on_assign_protocol c s = map_option (Pair True) (set_udata c None s)"

definition login_on_close :: "u32 \<Rightarrow> login_sys \<Rightarrow> login_sys option" where
  "login_on_close c s = do {
     k \<leftarrow> ls_conns s c;
     case lc_udata k of
       None \<Rightarrow> Some s
     | Some b \<Rightarrow> set_udata c None (release_buf b s)
   }"

definition login_on_write :: "u32 \<Rightarrow> login_sys \<Rightarrow> (protocol_status \<times> login_sys) option" where
  "login_on_write c s = do {
     k \<leftarrow> ls_conns s c;
     b \<leftarrow> lc_udata k;
     s1 \<leftarrow> set_udata c None (release_buf b s);
     Some (PROTO_CLOSE, s1)
   }"

definition login_on_recv_message :: "u32 \<Rightarrow> bytes \<Rightarrow> login_sys \<Rightarrow> (protocol_status \<times> login_sys) option" where
  "login_on_recv_message c data s = Some (PROTO_ABORT, s)"

text \<open>The end of \<^verbatim>\<open>on_recv_first_message\<close>: the two strings, of which the second is only read if the
  first is not too long.\<close>

definition decode_credentials :: "bytes \<Rightarrow> bytes \<Rightarrow> (u16 \<times> u16 \<times> bytes \<times> bytes) option" where
  "decode_credentials junk decoded = do {
     (A, accname) \<leftarrow> decode_tibia_string (drop 16 decoded) (Some junk) 32;
     (B, password) \<leftarrow> (if A > 32 then Some (0, Some junk)
        else decode_tibia_string (drop (16 + unat A) decoded) (Some junk) 32);
     case (accname, password) of
       (Some a, Some w) \<Rightarrow> Some (A, B, a, w)
     | _ \<Rightarrow> None
   }"

definition decode_xtea_key :: "bytes \<Rightarrow> u32 list option" where
  "decode_xtea_key decoded = do {
     x0 \<leftarrow> decode_u32_le decoded;
     x1 \<leftarrow> decode_u32_le (drop 4 decoded);
     x2 \<leftarrow> decode_u32_le (drop 8 decoded);
     x3 \<leftarrow> decode_u32_le (drop 12 decoded);
     Some [x0, x1, x2, x3]
   }"

definition login_on_recv_first_message ::
  "login_env \<Rightarrow> bool \<Rightarrow> bool \<Rightarrow> u32 \<Rightarrow> bytes \<Rightarrow> login_sys \<Rightarrow> (protocol_status \<times> login_sys) option" where
  "login_on_recv_first_message env queued started c data s =
     (if length data \<noteq> 149 then Some (PROTO_CLOSE, s)
      else do {
        version \<leftarrow> decode_u16_le (drop 7 data);
        if version < 830 then Some (PROTO_CLOSE, s)
        else (case le_rsa env (drop 21 data) of
          None \<Rightarrow> Some (PROTO_CLOSE, s)
        | Some (decoded, decoded_len) \<Rightarrow>
            if decoded_len \<noteq> 127 then Some (PROTO_CLOSE, s)
            else do {
              xtea \<leftarrow> decode_xtea_key decoded;
              let p = ls_fresh s;
              let login = \<lparr>li_output = None, li_connection = c, li_xtea = xtea,
                 li_accname = le_junk env, li_password = le_junk env\<rparr>;
              let s1 = s\<lparr>ls_fresh := p + 1, ls_logins := (ls_logins s)(p \<mapsto> login)\<rparr>;
              if version < TIBIA_CLIENT_VERSION_MIN \<or> version > TIBIA_CLIENT_VERSION_MAX then do {
                s2 \<leftarrow> internal_send_disconnect started p
                  (str ''This server requires client version '' @ TIBIA_CLIENT_VERSION_STR @ str ''.'' @ [0]) s1;
                Some (PROTO_CLOSE, s2)
              }
              else do {
                (A, B, accname, password) \<leftarrow> decode_credentials (le_junk env) decoded;
                let s2 = s1\<lparr>ls_logins := (ls_logins s1)(p \<mapsto> login\<lparr>li_accname := accname, li_password := password\<rparr>)\<rparr>;
                if A > 32 \<or> B > 32 then do {
                  s3 \<leftarrow> internal_send_disconnect started p (str ''Your account has been banned.'' @ [0]) s2;
                  Some (PROTO_CLOSE, s3)
                }
                else if \<not> queued then do {
                  s3 \<leftarrow> internal_send_disconnect started p (str ''Internal error. Try again later.'' @ [0]) s2;
                  Some (PROTO_CLOSE, s3)
                }
                else Some (PROTO_STOP_READING, s2\<lparr>ls_db_tasks := ls_db_tasks s2 @ [p]\<rparr>)
              }
            })
      })"

end
