(* ===== verification/Login_Ownership.thy ===== *)
theory Login_Ownership
  imports Protocol_Login
begin

text \<open>
  Who owns what during a login: the steps of the three threads at the boundary of the login protocol,
  and the invariant that each output buffer in use has one owner (the user data of a connection or a
  login info) and each login info is in one task queue.
\<close>

subsection \<open>Steps\<close>

text \<open>What the connection manager and the task queues promise.  A connection is given to the protocol
  under a uid that no login in flight has; its first message comes once; \<^verbatim>\<open>on_write\<close> follows a write; a
  connection closes when it has no write outstanding, after \<^verbatim>\<open>on_close\<close>.  Tasks run in order.\<close>

inductive login_step :: "login_env \<Rightarrow> login_sys \<Rightarrow> login_sys option \<Rightarrow> bool" for env where
  ls_assign: "ls_conns s c = None \<Longrightarrow> (\<And>p l. ls_logins s p = Some l \<Longrightarrow> li_connection l \<noteq> c) \<Longrightarrow>
    login_step env s (map_option snd (login_on_assign_protocol c
      (s\<lparr>ls_conns := (ls_conns s)(c \<mapsto> \<lparr>lc_udata = None, lc_writing = False, lc_first_msg = False\<rparr>)\<rparr>)))"
| ls_first: "ls_conns s c = Some k \<Longrightarrow> \<not> lc_first_msg k \<Longrightarrow>
    login_step env s (map_option snd (login_on_recv_first_message env queued started c data
      (s\<lparr>ls_conns := (ls_conns s)(c \<mapsto> k\<lparr>lc_first_msg := True\<rparr>)\<rparr>)))"
| ls_recv: "ls_conns s c = Some k \<Longrightarrow>
    login_step env s (map_option snd (login_on_recv_message c data s))"
| ls_written: "ls_conns s c = Some k \<Longrightarrow> lc_writing k \<Longrightarrow>
    login_step env s (map_option snd (login_on_write c
      (s\<lparr>ls_conns := (ls_conns s)(c \<mapsto> k\<lparr>lc_writing := False\<rparr>)\<rparr>)))"
| ls_write_dropped: "ls_conns s c = Some k \<Longrightarrow> lc_writing k \<Longrightarrow>
    login_step env s (Some (s\<lparr>ls_conns := (ls_conns s)(c \<mapsto> k\<lparr>lc_writing := False\<rparr>)\<rparr>))"
| ls_close: "ls_conns s c = Some k \<Longrightarrow> \<not> lc_writing k \<Longrightarrow>
    login_step env s (map_option (\<lambda>s'. s'\<lparr>ls_conns := (ls_conns s')(c := None)\<rparr>) (login_on_close c s))"
| ls_db_task: "ls_db_tasks s = p # ps \<Longrightarrow>
    login_step env s (database_resolve_login env True p (s\<lparr>ls_db_tasks := ps\<rparr>))"
| ls_server_task: "ls_server_tasks s = p # ps \<Longrightarrow>
    login_step env s (internal_resolve_login started p (s\<lparr>ls_server_tasks := ps\<rparr>))"

definition login_start :: "(nat \<Rightarrow> outbuf) \<Rightarrow> login_sys" where
  "login_start mem = \<lparr>ls_conns = (\<lambda>_. None), ls_pool = outbuf_init, ls_bufs = mem, ls_logins = (\<lambda>_. None),
     ls_fresh = 0, ls_db_tasks = [], ls_server_tasks = [], ls_sent = []\<rparr>"

inductive login_reach :: "login_env \<Rightarrow> (nat \<Rightarrow> outbuf) \<Rightarrow> login_sys \<Rightarrow> bool" for env mem where
  lr_start: "login_reach env mem (login_start mem)"
| lr_step: "login_reach env mem s \<Longrightarrow> login_step env s (Some s') \<Longrightarrow> login_reach env mem s'"

subsection \<open>Owners of buffers\<close>

datatype owner = Conn u32 | Login nat

definition owners :: "login_sys \<Rightarrow> owner \<Rightarrow> nat option" where
  "owners s r = (case r of Conn c \<Rightarrow> ls_conns s c \<bind> lc_udata | Login p \<Rightarrow> ls_logins s p \<bind> li_output)"

text \<open>Every buffer in use has exactly one owner.\<close>

definition own :: "outbuf_pool \<Rightarrow> (owner \<Rightarrow> nat option) \<Rightarrow> bool" where
  "own pool D \<longleftrightarrow> inj_on D (dom D) \<and> (\<exists>held. outbuf.owned pool held \<and> set held = ran D)"

lemma own_acquire:
  assumes "own pool D" "D r = None" "outbuf_acquire pool = (b, pool')"
  shows "own pool' (D(r \<mapsto> b))"
proof -
  obtain held where h: "inj_on D (dom D)" "outbuf.owned pool held" "set held = ran D"
    using assms(1) by (auto simp: own_def)
  have a: "outbuf.owned pool' (b # held)" "b \<notin> ran D"
    using outbuf.owned_acquire [OF h(2)] assms(3) h(3) by simp_all
  have "inj_on (D(r \<mapsto> b)) (dom (D(r \<mapsto> b)))"
    using h(1) a(2) by (auto simp: inj_on_def ran_def)
  moreover have "set (b # held) = ran (D(r \<mapsto> b))" using h(3) assms(2) by simp
  ultimately show ?thesis unfolding own_def using a(1) by blast
qed

lemma owned_distinct: "outbuf.owned pool held \<Longrightarrow> distinct held"
  by (auto simp: outbuf.owned_def)

lemma ran_remove: "inj_on D (dom D) \<Longrightarrow> D r = Some b \<Longrightarrow> ran (D(r := None)) = ran D - {b}"
  by (auto simp: ran_def inj_on_def dom_def split: if_splits) (metis option.inject)

lemma own_release:
  assumes "own pool D" "D r = Some b"
  shows "own (outbuf_release b pool) (D(r := None))"
proof -
  obtain held where h: "inj_on D (dom D)" "outbuf.owned pool held" "set held = ran D"
    using assms(1) by (auto simp: own_def)
  then have "b \<in> set held" using assms(2) by (auto simp: ran_def)
  then have "outbuf.owned (outbuf_release b pool) (remove1 b held)" by (rule outbuf.owned_release [OF h(2)])
  moreover have "set (remove1 b held) = ran (D(r := None))"
    using ran_remove [OF h(1) assms(2)] owned_distinct [OF h(2)] h(3) by simp
  moreover have "inj_on (D(r := None)) (dom (D(r := None)))" using h(1) by (auto simp: inj_on_def)
  ultimately show ?thesis unfolding own_def by blast
qed

lemma own_move:
  assumes "own pool D" "D r = Some b" "D r' = None"
  shows "own pool (D(r := None, r' \<mapsto> b))"
proof -
  obtain held where h: "inj_on D (dom D)" "outbuf.owned pool held" "set held = ran D"
    using assms(1) by (auto simp: own_def)
  have b: "b \<in> ran D" using assms(2) by (auto simp: ran_def)
  have "(D(r := None)) r' = None" using assms(3) by simp
  then have "ran (D(r := None, r' \<mapsto> b)) = ran D"
    using ran_remove [OF h(1) assms(2)] b by auto
  moreover have "inj_on (D(r := None, r' \<mapsto> b)) (dom (D(r := None, r' \<mapsto> b)))"
  proof -
    have "D x \<noteq> Some b" if "x \<noteq> r" for x
      using h(1) assms(2) that by (metis domI inj_onD)
    then show ?thesis using h(1) by (auto simp: inj_on_def)
  qed
  ultimately show ?thesis unfolding own_def using h(2,3) by auto
qed

subsection \<open>The invariant\<close>

text \<open>The login infos in flight, those of \<open>R\<close> apart, are in one queue each, without an
  answer and with terminated strings in the queue of the database thread, and with an answer in that of
  the server.\<close>

definition li_strings :: "login_info \<Rightarrow> bool" where
  "li_strings l \<longleftrightarrow> 0 \<in> set (li_password l) \<and> 0 \<in> set (li_accname l)"

definition login_inv :: "nat set \<Rightarrow> login_sys \<Rightarrow> bool" where
  "login_inv R s \<longleftrightarrow> own (ls_pool s) (owners s)
     \<and> (\<forall>b. length (ob_base (ls_bufs s b)) = MAX_OUTBUF_LEN)
     \<and> distinct (ls_db_tasks s @ ls_server_tasks s)
     \<and> set (ls_db_tasks s @ ls_server_tasks s) \<union> R = dom (ls_logins s)
     \<and> set (ls_db_tasks s @ ls_server_tasks s) \<inter> R = {}
     \<and> (\<forall>p \<in> set (ls_db_tasks s). \<forall>l. ls_logins s p = Some l \<longrightarrow> li_output l = None \<and> li_strings l)
     \<and> (\<forall>p \<in> set (ls_server_tasks s). \<forall>l. ls_logins s p = Some l \<longrightarrow> li_output l \<noteq> None)
     \<and> (\<forall>p l. ls_logins s p = Some l \<longrightarrow> p < ls_fresh s
          \<and> (\<forall>k. ls_conns s (li_connection l) = Some k \<longrightarrow>
               lc_first_msg k \<and> lc_udata k = None \<and> \<not> lc_writing k))
     \<and> (\<forall>p q l l'. ls_logins s p = Some l \<longrightarrow> ls_logins s q = Some l' \<longrightarrow>
          li_connection l = li_connection l' \<longrightarrow> p = q)
     \<and> (\<forall>c k. ls_conns s c = Some k \<longrightarrow> (lc_writing k \<longrightarrow> lc_udata k \<noteq> None)
          \<and> (lc_udata k \<noteq> None \<longrightarrow> lc_first_msg k))"

lemma login_inv_start:
  "\<forall>b. length (ob_base (mem b)) = MAX_OUTBUF_LEN \<Longrightarrow> login_inv {} (login_start mem)"
proof -
  have "owners (login_start mem) = (\<lambda>_. None)"
    by (auto simp: owners_def login_start_def fun_eq_iff split: owner.splits)
  moreover have "outbuf.owned outbuf_init []" by (rule outbuf_reach_owned [OF reach_init])
  ultimately have "own outbuf_init (owners (login_start mem))"
    by (auto simp: own_def intro: exI [of _ "[]"])
  then show "\<forall>b. length (ob_base (mem b)) = MAX_OUTBUF_LEN \<Longrightarrow> login_inv {} (login_start mem)"
    by (simp add: login_inv_def login_start_def)
qed

lemma login_inv_own: "login_inv R s \<Longrightarrow> own (ls_pool s) (owners s)"
  by (simp add: login_inv_def)

lemma login_inv_login:
  assumes "login_inv R s" "ls_logins s p = Some l"
  shows "p < ls_fresh s" "\<And>k. ls_conns s (li_connection l) = Some k \<Longrightarrow> lc_first_msg k \<and> lc_udata k = None \<and> \<not> lc_writing k"
  using assms unfolding login_inv_def by blast+

lemma login_inv_outputs:
  assumes "login_inv R s" "ls_logins s p = Some l"
  shows "p \<in> set (ls_db_tasks s) \<Longrightarrow> li_output l = None \<and> li_strings l"
    and "p \<in> set (ls_server_tasks s) \<Longrightarrow> li_output l \<noteq> None"
proof -
  have "\<forall>p \<in> set (ls_db_tasks s). \<forall>l. ls_logins s p = Some l \<longrightarrow> li_output l = None \<and> li_strings l"
    "\<forall>p \<in> set (ls_server_tasks s). \<forall>l. ls_logins s p = Some l \<longrightarrow> li_output l \<noteq> None"
    using assms(1) unfolding login_inv_def by - (elim conjE, assumption)+
  then show "p \<in> set (ls_db_tasks s) \<Longrightarrow> li_output l = None \<and> li_strings l"
    "p \<in> set (ls_server_tasks s) \<Longrightarrow> li_output l \<noteq> None"
    using assms(2) by blast+
qed

lemma login_inv_unique:
  "login_inv R s \<Longrightarrow> ls_logins s p = Some l \<Longrightarrow> ls_logins s q = Some l' \<Longrightarrow>
    li_connection l = li_connection l' \<Longrightarrow> p = q"
  unfolding login_inv_def by blast

text \<open>The answer is passed on to the connection, or given back; the login info is freed.\<close>

lemma internal_resolve_login_inv:
  assumes inv: "login_inv {p} s" and l: "ls_logins s p = Some l" "li_output l = Some b"
  shows "\<exists>s'. internal_resolve_login started p s = Some s' \<and> login_inv {} s'"
proof -
  let ?c = "li_connection l"
  have own: "own (ls_pool s) (owners s)" "owners s (Login p) = Some b"
    using login_inv_own [OF inv] l by (simp_all add: owners_def)
  have other: "li_connection l' \<noteq> ?c" if "ls_logins s q = Some l'" "q \<noteq> p" for q l'
    using login_inv_unique [OF inv that(1) l(1)] that(2) by blast
  have dom: "p \<notin> set (ls_db_tasks s @ ls_server_tasks s)" using inv by (auto simp: login_inv_def)
  have d: "set (ls_db_tasks s @ ls_server_tasks s) = dom ((ls_logins s)(p := None))"
    using inv dom by (auto simp: login_inv_def)
  show ?thesis
  proof (cases "ls_conns s ?c")
    case None
    define s' where "s' = (release_buf b s)\<lparr>ls_logins := (ls_logins s)(p := None)\<rparr>"
    have r: "internal_resolve_login started p s = Some s'"
      using l None by (simp add: internal_resolve_login_def s'_def release_buf_def Let_def)
    have o: "owners s' = (owners s)(Login p := None)"
      by (auto simp: owners_def s'_def release_buf_def fun_eq_iff split: owner.splits)
    have "own (ls_pool s') (owners s')"
      unfolding o using own_release [OF own] by (simp add: s'_def release_buf_def)
    then have "login_inv {} s'"
      using inv d unfolding login_inv_def by (simp add: s'_def release_buf_def)
    then show ?thesis using r by blast
  next
    case (Some k)
    have k: "lc_first_msg k" "lc_udata k = None" "\<not> lc_writing k"
      using login_inv_login(2) [OF inv l(1) Some] by simp_all
    define k' where "k' = k\<lparr>lc_udata := Some b, lc_writing := started\<rparr>"
    define s' where "s' = s\<lparr>ls_conns := (ls_conns s)(?c \<mapsto> k'),
      ls_sent := (if started then ls_sent s @ [(?c, take (outbuf_len (ls_bufs s b)) (outbuf_data (ls_bufs s b)))]
        else ls_sent s), ls_logins := (ls_logins s)(p := None)\<rparr>"
    have kk: "k = \<lparr>lc_udata = None, lc_writing = False, lc_first_msg = True\<rparr>" using k by (cases k) simp
    have r: "internal_resolve_login started p s = Some s'"
      using l Some
      by (simp add: internal_resolve_login_def set_udata_def login_send_def Let_def s'_def k'_def kk)
    have o: "owners s' = (owners s)(Login p := None, Conn ?c \<mapsto> b)"
      by (auto simp: owners_def s'_def k'_def fun_eq_iff split: owner.splits)
    have "owners s (Conn ?c) = None" using Some k by (simp add: owners_def)
    then have "own (ls_pool s') (owners s')"
      unfolding o using own_move [OF own] by (simp add: s'_def)
    moreover have "lc_first_msg k'" "lc_udata k' = Some b" using k by (simp_all add: k'_def)
    ultimately have "login_inv {} s'"
      using inv d other unfolding login_inv_def by (simp add: s'_def)
    then show ?thesis using r by blast
  qed
qed

text \<open>An answer is acquired and written.\<close>

lemma acquire_output_inv:
  assumes inv: "login_inv R s" and l: "ls_logins s p = Some l" "li_output l = None" "p \<in> R"
    and a: "acquire_output p l s = (b, s1)" and len: "length (ob_base buf) = MAX_OUTBUF_LEN"
  shows "login_inv R (put_buf b buf s1)"
    "ls_logins (put_buf b buf s1) p = Some (l\<lparr>li_output := Some b\<rparr>)"
proof -
  obtain pool' where pool': "outbuf_acquire (ls_pool s) = (b, pool')"
    "s1 = s\<lparr>ls_pool := pool', ls_logins := (ls_logins s)(p \<mapsto> l\<lparr>li_output := Some b\<rparr>)\<rparr>"
    using a by (auto simp: acquire_output_def split: prod.splits)
  let ?s = "put_buf b buf s1"
  have o: "owners ?s = (owners s)(Login p \<mapsto> b)"
    by (auto simp: owners_def put_buf_def pool'(2) fun_eq_iff split: owner.splits)
  have "owners s (Login p) = None" using l by (simp add: owners_def)
  then have "own (ls_pool ?s) (owners ?s)"
    unfolding o using own_acquire [OF login_inv_own [OF inv] _ pool'(1)] by (simp add: put_buf_def pool'(2))
  moreover have dom: "dom (ls_logins ?s) = dom (ls_logins s)" using l by (auto simp: put_buf_def pool'(2))
  moreover have old: "\<exists>l0. ls_logins s q = Some l0 \<and> li_connection l0 = li_connection l' \<and> (q \<noteq> p \<longrightarrow> l0 = l')"
    if "ls_logins ?s q = Some l'" for q l'
    using that l by (auto simp: put_buf_def pool'(2) split: if_splits)
  moreover have "p \<notin> set (ls_db_tasks s @ ls_server_tasks s)" using inv l(3) by (auto simp: login_inv_def)
  ultimately have parts: "own (ls_pool ?s) (owners ?s)" "dom (ls_logins ?s) = dom (ls_logins s)"
    "p \<notin> set (ls_db_tasks s @ ls_server_tasks s)" by blast+
  have same: "ls_conns ?s = ls_conns s" "ls_db_tasks ?s = ls_db_tasks s" "ls_server_tasks ?s = ls_server_tasks s"
    "ls_fresh ?s = ls_fresh s" "\<forall>b. length (ob_base (ls_bufs ?s b)) = MAX_OUTBUF_LEN"
    using inv len by (simp_all add: put_buf_def pool'(2) login_inv_def)
  show "login_inv R ?s"
    unfolding login_inv_def same(1-4) parts(2)
  proof (intro conjI)
    show "\<forall>q l'. ls_logins ?s q = Some l' \<longrightarrow> q < ls_fresh s
          \<and> (\<forall>k. ls_conns s (li_connection l') = Some k \<longrightarrow> lc_first_msg k \<and> lc_udata k = None \<and> \<not> lc_writing k)"
      using old login_inv_login [OF inv] by metis
    show "\<forall>q r l1 l2. ls_logins ?s q = Some l1 \<longrightarrow> ls_logins ?s r = Some l2 \<longrightarrow>
          li_connection l1 = li_connection l2 \<longrightarrow> q = r"
      using old login_inv_unique [OF inv] by metis
    show "\<forall>q \<in> set (ls_db_tasks s). \<forall>l'. ls_logins ?s q = Some l' \<longrightarrow> li_output l' = None \<and> li_strings l'"
      "\<forall>q \<in> set (ls_server_tasks s). \<forall>l'. ls_logins ?s q = Some l' \<longrightarrow> li_output l' \<noteq> None"
      using old parts(3) inv by (fastforce simp: login_inv_def)+
  qed (use inv parts(1) same(5) in \<open>simp_all add: login_inv_def\<close>)
  show "ls_logins ?s p = Some (l\<lparr>li_output := Some b\<rparr>)" by (simp add: put_buf_def pool'(2))
qed

lemma game_add_server_task_inv:
  assumes "login_inv {p} s" "ls_logins s p = Some l" "li_output l \<noteq> None"
  shows "login_inv {} (game_add_server_task True p s)"
proof -
  have "p \<notin> set (ls_db_tasks s @ ls_server_tasks s)" using assms(1) by (auto simp: login_inv_def)
  moreover have "owners (game_add_server_task True p s) = owners s"
    by (auto simp: owners_def game_add_server_task_def fun_eq_iff split: owner.splits)
  ultimately show ?thesis using assms unfolding login_inv_def
    by (simp add: game_add_server_task_def)
qed

subsection \<open>Answers fit\<close>

lemma outbuf_append_simps [simp]:
  "ob_ptr (outbuf_append bs buf) = ob_ptr buf + length bs"
  "outbuf_ok buf \<Longrightarrow> length bs \<le> outbuf_room buf \<Longrightarrow> length (ob_base (outbuf_append bs buf)) = length (ob_base buf)"
  by (auto simp: outbuf_append_def outbuf_ok_def outbuf_room_def)

lemma disconnect_text_ok:
  assumes "0 \<notin> set m" "length m < 128" "length (ob_base buf) = MAX_OUTBUF_LEN"
  shows "\<exists>buf'. disconnect_text (m @ [0]) (outbuf_prepare buf) = Some buf'
    \<and> ob_ptr buf' = 8 + (3 + length m) \<and> length (ob_base buf') = MAX_OUTBUF_LEN
    \<and> drop 8 (outbuf_content buf') = 0x0A # str_image m"
proof -
  let ?b0 = "outbuf_prepare buf"
  have b0: "outbuf_ok ?b0" "ob_ptr ?b0 = 8" "length (ob_base ?b0) = MAX_OUTBUF_LEN"
    using assms(3) by (simp_all add: outbuf_prepare_def outbuf_ok_def MAX_OUTBUF_LEN_def)
  obtain b1 where w1: "outbuf_write_byte ?b0 0x0A = Some b1"
    using w_byte.write_append [OF TrueI b0(1), of "0x0A"] b0
    by (auto simp: encode_u8_def outbuf_room_def MAX_OUTBUF_LEN_def)
  then have b1: "outbuf_write_byte ?b0 0x0A = Some b1" "outbuf_ok b1"
    "outbuf_content b1 = outbuf_content ?b0 @ [0x0A]" "ob_ptr b1 = 9" "length (ob_base b1) = MAX_OUTBUF_LEN"
    using w_byte.write_content(2) [OF TrueI b0(1) w1] b0 by (simp_all add: encode_u8_def outbuf_len_def)
  have w: "0 \<notin> set m \<and> length m < 2 ^ 31 - 2" using assms(1,2) by simp
  have l: "length (str_image m) = length m + 2" by (simp add: str_image_def)
  then obtain b2 where b2: "outbuf_write_str b1 (m @ [0]) = Some b2"
    using w_str.write_append [OF w b1(2)] b1 assms(2) by (auto simp: outbuf_room_def MAX_OUTBUF_LEN_def)
  then have "outbuf_content b2 = outbuf_content ?b0 @ [0x0A] @ str_image m"
    "ob_ptr b2 = 11 + length m" "length (ob_base b2) = MAX_OUTBUF_LEN"
    using w_str.write_content(2) [OF w b1(2) b2] b1 l by (simp_all add: outbuf_len_def)
  moreover have "length (outbuf_content ?b0) = 8"
    using b0 by (simp add: outbuf_content_def MAX_OUTBUF_LEN_def)
  ultimately show ?thesis using b1(1) b2 by (simp add: disconnect_text_def)
qed

lemma build_disconnect_message_inv:
  assumes inv: "login_inv R s" and l: "ls_logins s p = Some l" "li_output l = None" "p \<in> R"
    and m: "0 \<notin> set m" "length m < 128"
  shows "\<exists>s' b. build_disconnect_message p (m @ [0]) s = Some s' \<and> login_inv R s'
    \<and> ls_logins s' p = Some (l\<lparr>li_output := Some b\<rparr>)"
proof -
  obtain b s1 where a: "acquire_output p l s = (b, s1)" by fastforce
  have "length (ob_base (ls_bufs s1 b)) = MAX_OUTBUF_LEN"
    using a inv by (auto simp: acquire_output_def login_inv_def split: prod.splits)
  then obtain buf where buf: "disconnect_text (m @ [0]) (outbuf_prepare (ls_bufs s1 b)) = Some buf"
    "ob_ptr buf = 8 + (3 + length m)" "length (ob_base buf) = MAX_OUTBUF_LEN"
    using disconnect_text_ok [OF m] by blast
  then have "8 \<le> ob_ptr buf" "ob_ptr buf + 7 \<le> length (ob_base buf)" using m(2) by (simp_all add: MAX_OUTBUF_LEN_def)
  then obtain buf' where buf': "outbuf_wrap buf (li_xtea l) = Some buf'" "length (ob_base buf') = MAX_OUTBUF_LEN"
    using outbuf_wrap_message [OF _ _ buf(3), of "li_xtea l"] by blast
  then have "build_disconnect_message p (m @ [0]) s = Some (put_buf b buf' s1)"
    using l(1) a buf(1) by (simp add: build_disconnect_message_def)
  then show ?thesis using acquire_output_inv [OF inv l a buf'(2)] by blast
qed

lemma internal_send_disconnect_inv:
  assumes "login_inv {p} s" "ls_logins s p = Some l" "li_output l = None" "0 \<notin> set m" "length m < 128"
  shows "\<exists>s'. internal_send_disconnect started p (m @ [0]) s = Some s' \<and> login_inv {} s'"
proof -
  obtain s1 b where "build_disconnect_message p (m @ [0]) s = Some s1" "login_inv {p} s1"
    "ls_logins s1 p = Some (l\<lparr>li_output := Some b\<rparr>)"
    using build_disconnect_message_inv [OF assms(1-3) _ assms(4,5)] by blast
  then show ?thesis using internal_resolve_login_inv [of p s1] by (simp add: internal_send_disconnect_def)
qed

lemma send_disconnect_inv:
  assumes "login_inv {p} s" "ls_logins s p = Some l" "li_output l = None" "0 \<notin> set m" "length m < 128"
  shows "\<exists>s'. send_disconnect True p (m @ [0]) s = Some s' \<and> login_inv {} s'"
proof -
  obtain s1 b where "build_disconnect_message p (m @ [0]) s = Some s1" "login_inv {p} s1"
    "ls_logins s1 p = Some (l\<lparr>li_output := Some b\<rparr>)"
    using build_disconnect_message_inv [OF assms(1-3) _ assms(4,5)] by blast
  then show ?thesis using game_add_server_task_inv [of p s1] by (simp add: send_disconnect_def)
qed

subsection \<open>Requests are parsed inside the message\<close>

text \<open>What the queries and the RSA routine give: C strings, and 128 bytes.\<close>

definition env_ok :: "login_env \<Rightarrow> bool" where
  "env_ok env \<longleftrightarrow> length (le_junk env) = 32
     \<and> (\<forall>d d' n. length d = 128 \<longrightarrow> le_rsa env d = Some (d', n) \<longrightarrow> length d' = 128)
     \<and> (\<forall>name rows. le_account_info env name = Some rows \<longrightarrow> (\<forall>(i, pwd) \<in> set rows. 0 \<in> set pwd))"

lemma decode_u16_le_total: "2 \<le> length d \<Longrightarrow> \<exists>v. decode_u16_le d = Some v"
  using u16_le.dec_total by fastforce

lemma decode_u32_le_total: "4 \<le> length d \<Longrightarrow> \<exists>v. decode_u32_le d = Some v"
  using u32_le.dec_total by fastforce

lemma decode_xtea_key_total: "16 \<le> length d \<Longrightarrow> \<exists>k. decode_xtea_key d = Some k \<and> length k = 4"
proof -
  assume "16 \<le> length d"
  then have "4 \<le> length d" "4 \<le> length (drop 4 d)" "4 \<le> length (drop 8 d)" "4 \<le> length (drop 12 d)"
    by simp_all
  then show ?thesis
    using decode_u32_le_total [of d] decode_u32_le_total [of "drop 4 d"] decode_u32_le_total [of "drop 8 d"]
      decode_u32_le_total [of "drop 12 d"]
    by (auto simp: decode_xtea_key_def)
qed

text \<open>A string is read into an array of 32 characters: at most 31 of its bytes, and a NUL.\<close>

lemma decode_tibia_string_32:
  assumes "33 \<le> length d" "length out = 32"
  shows "\<exists>A s. decode_tibia_string d (Some out) 32 = Some (A, Some s) \<and> length s = 32 \<and> 0 \<in> set s"
proof -
  obtain len where len: "decode_u16_le d = Some len" using decode_u16_le_total [of d] assms(1) by fastforce
  show ?thesis
  proof (cases "len = 0")
    case True
    then show ?thesis using len assms(2) by (auto simp: decode_tibia_string_def mem_write_def)
  next
    case False
    define c where "c = unat (if len \<ge> 32 then 32 - 1 else len)"
    have c: "c < 32" by (auto simp: c_def word_le_nat_alt)
    have "mem_read 2 c d = Some (take c (drop 2 d))" using c assms(1) by (simp add: mem_read_def)
    moreover have "mem_write 0 (take c (drop 2 d)) out = Some (take c (drop 2 d) @ drop c out)"
      using c assms by (simp add: mem_write_def)
    moreover have "mem_write c [0] (take c (drop 2 d) @ drop c out) = Some (take c (drop 2 d) @ 0 # drop (Suc c) out)"
      using c assms by (simp add: mem_write_def)
    ultimately have "decode_tibia_string d (Some out) 32 = Some (len + 2, Some (take c (drop 2 d) @ 0 # drop (Suc c) out))"
      using len False by (simp add: decode_tibia_string_def Let_def word_neq_0_conv flip: c_def)
    moreover have "length (take c (drop 2 d) @ 0 # drop (Suc c) out) = 32" using c assms by simp
    ultimately show ?thesis by fastforce
  qed
qed

lemma decode_credentials_total:
  assumes "length d = 128" "length junk = 32"
  shows "\<exists>A B a w. decode_credentials junk d = Some (A, B, a, w) \<and> length a = 32 \<and> 0 \<in> set a
    \<and> length w = 32 \<and> (A \<le> 32 \<longrightarrow> 0 \<in> set w)"
proof -
  obtain A a where a: "decode_tibia_string (drop 16 d) (Some junk) 32 = Some (A, Some a)" "length a = 32" "0 \<in> set a"
    using decode_tibia_string_32 [of "drop 16 d" junk] assms by auto
  show ?thesis
  proof (cases "A > 32")
    case True
    then show ?thesis using a assms(2) by (auto simp: decode_credentials_def)
  next
    case False
    then have "unat A \<le> 32" by (simp add: word_le_nat_alt not_less)
    then have "33 \<le> length (drop (16 + unat A) d)" using assms(1) by simp
    then obtain B w where "decode_tibia_string (drop (16 + unat A) d) (Some junk) 32 = Some (B, Some w)"
      "length w = 32" "0 \<in> set w"
      using decode_tibia_string_32 [OF _ assms(2)] by blast
    then show ?thesis using a False by (auto simp: decode_credentials_def)
  qed
qed

text \<open>A new login info, before it is in a queue.\<close>

lemma new_login_inv:
  assumes inv: "login_inv {} s" and k: "ls_conns s c = Some k" "\<not> lc_first_msg k"
    and l: "li_output l = None" "li_connection l = c"
  shows "login_inv {ls_fresh s} (s\<lparr>ls_conns := (ls_conns s)(c \<mapsto> k\<lparr>lc_first_msg := True\<rparr>),
    ls_fresh := ls_fresh s + 1, ls_logins := (ls_logins s)(ls_fresh s \<mapsto> l)\<rparr>)"
    (is "login_inv _ ?s")
proof -
  have new: "ls_logins s (ls_fresh s) = None"
    using login_inv_login(1) [OF inv] by (metis less_irrefl not_None_eq)
  have other: "li_connection l' \<noteq> c" if "ls_logins s q = Some l'" for q l'
    using login_inv_login(2) [OF inv that, of k] k by auto
  have kk: "lc_udata k = None" "\<not> lc_writing k" using inv k by (auto simp: login_inv_def)
  have o: "owners ?s = owners s"
    using new l(1) k(1) by (auto simp: owners_def fun_eq_iff split: owner.splits)
  have fresh: "ls_fresh s \<notin> set (ls_db_tasks s @ ls_server_tasks s)"
    using inv new by (auto simp: login_inv_def)
  show ?thesis
    unfolding login_inv_def o
  proof (intro conjI)
    show "own (ls_pool ?s) (owners s)" using login_inv_own [OF inv] by simp
    show "set (ls_db_tasks ?s @ ls_server_tasks ?s) \<union> {ls_fresh s} = dom (ls_logins ?s)"
      using inv by (simp add: login_inv_def)
    show "\<forall>q \<in> set (ls_db_tasks ?s). \<forall>l'. ls_logins ?s q = Some l' \<longrightarrow> li_output l' = None \<and> li_strings l'"
      "\<forall>q \<in> set (ls_server_tasks ?s). \<forall>l'. ls_logins ?s q = Some l' \<longrightarrow> li_output l' \<noteq> None"
      using inv fresh l(1) by (auto simp: login_inv_def)
    show "\<forall>q l'. ls_logins ?s q = Some l' \<longrightarrow> q < ls_fresh ?s
          \<and> (\<forall>k. ls_conns ?s (li_connection l') = Some k \<longrightarrow> lc_first_msg k \<and> lc_udata k = None \<and> \<not> lc_writing k)"
      using login_inv_login [OF inv] other kk l(2) by (auto simp: less_Suc_eq)
    show "\<forall>q r l1 l2. ls_logins ?s q = Some l1 \<longrightarrow> ls_logins ?s r = Some l2 \<longrightarrow>
          li_connection l1 = li_connection l2 \<longrightarrow> q = r"
      using login_inv_unique [OF inv] other l(2) by (auto split: if_splits) metis+
    show "\<forall>c' k'. ls_conns ?s c' = Some k' \<longrightarrow> (lc_writing k' \<longrightarrow> lc_udata k' \<noteq> None)
          \<and> (lc_udata k' \<noteq> None \<longrightarrow> lc_first_msg k')"
      using inv kk by (auto simp: login_inv_def)
  qed (use inv fresh in \<open>simp_all add: login_inv_def\<close>)
qed

lemma touch_conn_inv:
  assumes inv: "login_inv R s" and k: "ls_conns s c = Some k" "lc_udata k' = lc_udata k"
    "lc_writing k' \<longrightarrow> lc_writing k" "lc_first_msg k \<longrightarrow> lc_first_msg k'"
  shows "login_inv R (s\<lparr>ls_conns := (ls_conns s)(c \<mapsto> k')\<rparr>)" (is "login_inv R ?s")
proof -
  have o: "owners ?s = owners s"
    using k(1,2) by (auto simp: owners_def fun_eq_iff split: owner.splits)
  have ck: "(lc_writing k \<longrightarrow> lc_udata k \<noteq> None) \<and> (lc_udata k \<noteq> None \<longrightarrow> lc_first_msg k)"
    using inv k(1) unfolding login_inv_def by blast
  show ?thesis
    unfolding login_inv_def o
  proof (intro conjI)
    show "\<forall>q l'. ls_logins ?s q = Some l' \<longrightarrow> q < ls_fresh ?s
          \<and> (\<forall>k. ls_conns ?s (li_connection l') = Some k \<longrightarrow> lc_first_msg k \<and> lc_udata k = None \<and> \<not> lc_writing k)"
      using login_inv_login [OF inv] k by (auto split: if_splits)
    show "\<forall>q r l1 l2. ls_logins ?s q = Some l1 \<longrightarrow> ls_logins ?s r = Some l2 \<longrightarrow>
          li_connection l1 = li_connection l2 \<longrightarrow> q = r"
      using login_inv_unique [OF inv] by (simp; blast)
    show "\<forall>c' k''. ls_conns ?s c' = Some k'' \<longrightarrow> (lc_writing k'' \<longrightarrow> lc_udata k'' \<noteq> None)
          \<and> (lc_udata k'' \<noteq> None \<longrightarrow> lc_first_msg k'')"
    proof (intro allI impI)
      fix c' k'' assume a: "ls_conns ?s c' = Some k''"
      show "(lc_writing k'' \<longrightarrow> lc_udata k'' \<noteq> None) \<and> (lc_udata k'' \<noteq> None \<longrightarrow> lc_first_msg k'')"
      proof (cases "c' = c")
        case True
        then show ?thesis using a ck k by auto
      next
        case False
        then show ?thesis using a inv unfolding login_inv_def by simp
      qed
    qed
  qed (use inv in \<open>simp_all add: login_inv_def\<close>)
qed

lemma login_on_recv_first_message_inv:
  assumes inv: "login_inv {} s" and env: "env_ok env" and k: "ls_conns s c = Some k" "\<not> lc_first_msg k"
  shows "\<exists>st s'. login_on_recv_first_message env queued started c data
      (s\<lparr>ls_conns := (ls_conns s)(c \<mapsto> k\<lparr>lc_first_msg := True\<rparr>)\<rparr>) = Some (st, s') \<and> login_inv {} s'"
    (is "\<exists>st s'. ?f = Some (st, s') \<and> _")
proof -
  let ?s = "s\<lparr>ls_conns := (ls_conns s)(c \<mapsto> k\<lparr>lc_first_msg := True\<rparr>)\<rparr>" and ?p = "ls_fresh s"
  have same: "login_inv {} ?s" using touch_conn_inv [OF inv k(1)] by simp
  show ?thesis
  proof (cases "length data = 149")
    case False
    then show ?thesis using same by (simp add: login_on_recv_first_message_def)
  next
    case True
    then obtain version where v: "decode_u16_le (drop 7 data) = Some version"
      using decode_u16_le_total [of "drop 7 data"] by auto
    show ?thesis
    proof (cases "version < 830 \<or> (\<forall>d. le_rsa env (drop 21 data) \<noteq> Some (d, 127))")
      case no: True
      then show ?thesis using True v same
        by (auto simp: login_on_recv_first_message_def split: option.splits)
    next
      case False
      then obtain d where d: "\<not> version < 830" "le_rsa env (drop 21 data) = Some (d, 127)" by blast
      have "length (drop 21 data) = 128" using True by simp
      then have "length d = 128" using env d(2) unfolding env_ok_def by blast
      moreover have junk: "length (le_junk env) = 32" using env by (simp add: env_ok_def)
      ultimately obtain A B a w where cred: "decode_credentials (le_junk env) d = Some (A, B, a, w)"
          "A \<le> 32 \<longrightarrow> 0 \<in> set w" "0 \<in> set a"
        using decode_credentials_total by blast
      obtain x where x: "decode_xtea_key d = Some x"
        using decode_xtea_key_total [of d] \<open>length d = 128\<close> by auto
      define mk where "mk a w = (?s\<lparr>ls_fresh := ?p + 1, ls_logins := (ls_logins s)(?p \<mapsto>
        \<lparr>li_output = None, li_connection = c, li_xtea = x, li_accname = a, li_password = w\<rparr>)\<rparr>)" for a w
      have mk: "login_inv {?p} (mk a w)" "ls_logins (mk a w) ?p =
          Some \<lparr>li_output = None, li_connection = c, li_xtea = x, li_accname = a, li_password = w\<rparr>" for a w
        unfolding mk_def using new_login_inv [OF inv k] by simp_all
      have send: "\<exists>s'. internal_send_disconnect started ?p (m @ [0]) (mk a w) = Some s' \<and> login_inv {} s'"
        if "0 \<notin> set m" "length m < 128" for m a w
        using internal_send_disconnect_inv [OF mk(1,2) _ that] by simp
      let ?m1 = "str ''This server requires client version '' @ TIBIA_CLIENT_VERSION_STR @ str ''.''"
      obtain s1 s2 s3 where send1: "internal_send_disconnect started ?p (?m1 @ [0]) (mk (le_junk env) (le_junk env)) = Some s1"
          "login_inv {} s1"
        and send2: "internal_send_disconnect started ?p (str ''Your account has been banned.'' @ [0]) (mk a w) = Some s2"
          "login_inv {} s2"
        and send3: "internal_send_disconnect started ?p (str ''Internal error. Try again later.'' @ [0]) (mk a w) = Some s3"
          "login_inv {} s3"
        using send [of ?m1 "le_junk env" "le_junk env"] send [of "str ''Your account has been banned.''" a w]
          send [of "str ''Internal error. Try again later.''" a w]
        by (auto simp: str_def TIBIA_CLIENT_VERSION_STR_def)
      have queue: "login_inv {} ((mk a w)\<lparr>ls_db_tasks := ls_db_tasks (mk a w) @ [?p]\<rparr>)" if "A \<le> 32"
      proof -
        have "owners ((mk a w)\<lparr>ls_db_tasks := ls_db_tasks (mk a w) @ [?p]\<rparr>) = owners (mk a w)"
          by (auto simp: owners_def fun_eq_iff split: owner.splits)
        moreover have "?p \<notin> set (ls_db_tasks (mk a w) @ ls_server_tasks (mk a w))"
          using mk(1) [of a w] by (auto simp: login_inv_def)
        ultimately show ?thesis using mk [of a w] cred(2,3) that unfolding login_inv_def by (simp add: li_strings_def)
      qed
      note eq = login_on_recv_first_message_def True v d x cred(1) Let_def
      have f: "?f = (if version < TIBIA_CLIENT_VERSION_MIN \<or> version > TIBIA_CLIENT_VERSION_MAX then Some (PROTO_CLOSE, s1)
          else if A > 32 \<or> B > 32 then Some (PROTO_CLOSE, s2)
          else if \<not> queued then Some (PROTO_CLOSE, s3)
          else Some (PROTO_STOP_READING, (mk a w)\<lparr>ls_db_tasks := ls_db_tasks (mk a w) @ [?p]\<rparr>))"
        using send1(1) send2(1) send3(1) unfolding mk_def by (simp add: eq)
      show ?thesis unfolding f using send1(2) send2(2) send3(2) queue by (simp add: not_less)
    qed
  qed
qed

subsection \<open>The other steps\<close>

lemma mem_write_length_eq: "mem_write off bs m = Some m' \<Longrightarrow> length m' = length m"
  by (auto simp: kpl_mem)

lemma write_lengths:
  "outbuf_write_byte buf v = Some buf' \<Longrightarrow> length (ob_base buf') = length (ob_base buf) \<and> ob_ptr buf \<le> ob_ptr buf'"
  "outbuf_write_u16 buf w = Some buf' \<Longrightarrow> length (ob_base buf') = length (ob_base buf) \<and> ob_ptr buf \<le> ob_ptr buf'"
  "outbuf_write_u32 buf x = Some buf' \<Longrightarrow> length (ob_base buf') = length (ob_base buf) \<and> ob_ptr buf \<le> ob_ptr buf'"
  "outbuf_write_str buf y = Some buf' \<Longrightarrow> length (ob_base buf') = length (ob_base buf) \<and> ob_ptr buf \<le> ob_ptr buf'"
  by (auto simp: outbuf_write_byte_def outbuf_write_u16_def outbuf_write_u32_def outbuf_write_str_def
      outbuf_write_lstr_def Let_def bind_eq_Some_conv mem_write_length_eq split: if_splits)

lemma charlist_rows_length:
  "charlist_rows env names buf = Some buf' \<Longrightarrow> length (ob_base buf') = length (ob_base buf)"
proof (induction names arbitrary: buf)
  case (Cons name names)
  then show ?case by (auto simp: bind_eq_Some_conv dest!: write_lengths Cons.IH)
qed simp

lemma charlist_text_length:
  "charlist_text env names buf = Some buf' \<Longrightarrow> length (ob_base buf') = length (ob_base buf)"
  by (auto simp: charlist_text_def bind_eq_Some_conv dest!: write_lengths charlist_rows_length)

lemma write_padding_length:
  "write_padding n buf = Some buf' \<Longrightarrow> length (ob_base buf') = length (ob_base buf)"
proof (induction n arbitrary: buf)
  case (Suc n)
  then show ?case by (auto simp: bind_eq_Some_conv dest!: write_lengths Suc.IH)
qed simp

lemma outbuf_wrap_length: "outbuf_wrap buf k = Some buf' \<Longrightarrow> length (ob_base buf') = length (ob_base buf)"
  by (auto simp: outbuf_wrap_def Let_def bind_eq_Some_conv mem_write_length_eq
      dest!: write_padding_length)

lemma database_resolve_login_inv:
  assumes inv: "login_inv {p} s" and l: "ls_logins s p = Some l" "li_output l = None"
    and ok: "database_resolve_login env True p s = Some s'"
  shows "login_inv {} s'"
proof -
  have send: "login_inv {} s''" if "send_disconnect True p (m @ [0]) s = Some s''" "0 \<notin> set m" "length m < 128" for m s''
    using send_disconnect_inv [OF inv l that(2,3)] that(1) by auto
  have msgs: "login_inv {} s''" if "send_disconnect True p m s = Some s''" "m \<in> {msg_bad_name, msg_not_correct, msg_internal}" for m s''
    using that send [of "str ''Invalid account name.''" s''] send [of "str ''Account name or password is not correct.''" s'']
      send [of "str ''Internal error. Contact an admin.''" s'']
    by (auto simp: msg_bad_name_def msg_not_correct_def msg_internal_def str_def)
  obtain b s1 where a: "acquire_output p l s = (b, s1)" by fastforce
  have chars: "login_inv {} s''"
    if buf: "charlist_text env names (outbuf_prepare (ls_bufs s1 b)) = Some buf" "outbuf_wrap buf (li_xtea l) = Some buf'"
      "s'' = game_add_server_task True p (put_buf b buf' s1)" for names buf buf' s''
  proof -
    have "length (ob_base (ls_bufs s1 b)) = MAX_OUTBUF_LEN"
      using a inv by (auto simp: acquire_output_def login_inv_def split: prod.splits)
    then have "length (ob_base buf') = MAX_OUTBUF_LEN"
      using charlist_text_length [OF buf(1)] outbuf_wrap_length [OF buf(2)] by (simp add: outbuf_prepare_def)
    then show ?thesis
      using acquire_output_inv [OF inv l _ a] game_add_server_task_inv unfolding buf(3) by fastforce
  qed
  show ?thesis
    using ok l(1) msgs chars a
    by (auto simp: database_resolve_login_def bind_eq_Some_conv split: if_splits option.splits list.splits)
qed

text \<open>A charlist that its buffer does not hold, or whose strings are not C strings.\<close>

definition charlist_fails :: "login_env \<Rightarrow> bytes list \<Rightarrow> bool" where
  "charlist_fails env names \<longleftrightarrow> (\<exists>buf k. length (ob_base buf) = MAX_OUTBUF_LEN
     \<and> (charlist_text env names (outbuf_prepare buf) \<bind> (\<lambda>b. outbuf_wrap b k)) = None)"

lemma strcmp_eq_total: "0 \<in> set s \<Longrightarrow> 0 \<in> set t \<Longrightarrow> strcmp_eq s t \<noteq> None"
  by (induction s t rule: strcmp_eq.induct) auto

lemma database_resolve_login_total:
  assumes inv: "login_inv {p} s" and l: "ls_logins s p = Some l" "li_output l = None" "0 \<in> set (li_password l)"
    and env: "env_ok env" and none: "database_resolve_login env True p s = None"
  shows "\<exists>id names. le_account_charlist env id = Some names \<and> charlist_fails env names"
proof -
  have send: "send_disconnect True p (m @ [0]) s \<noteq> None" if "0 \<notin> set m" "length m < 128" for m
    using send_disconnect_inv [OF inv l(1,2) that] by auto
  have msgs: "send_disconnect True p m s \<noteq> None" if "m \<in> {msg_bad_name, msg_not_correct, msg_internal}" for m
    using that send [of "str ''Invalid account name.''"] send [of "str ''Account name or password is not correct.''"]
      send [of "str ''Internal error. Contact an admin.''"]
    by (auto simp: msg_bad_name_def msg_not_correct_def msg_internal_def str_def)
  obtain b s1 where a: "acquire_output p l s = (b, s1)" by fastforce
  have len: "length (ob_base (ls_bufs s1 b)) = MAX_OUTBUF_LEN"
    using a inv by (auto simp: acquire_output_def login_inv_def split: prod.splits)
  have pwd: "strcmp_eq pwd (li_password l) \<noteq> None" if "le_account_info env name = Some ((id, pwd) # rows)" for name id pwd rows
  proof -
    have "0 \<in> set pwd" using env that by (fastforce simp: env_ok_def)
    then show ?thesis using l(3) by (rule strcmp_eq_total)
  qed
  have n: "li_accname l ! 0 \<noteq> 0"
    using none l(1) msgs [of msg_bad_name] by (auto simp: database_resolve_login_def)
  have "le_account_info env (li_accname l) \<noteq> None \<and> le_account_info env (li_accname l) \<noteq> Some []"
  proof (rule ccontr)
    assume "\<not> ?thesis"
    then have "database_resolve_login env True p s = send_disconnect True p msg_not_correct s"
      using l(1) n by (auto simp: database_resolve_login_def)
    then show False using none msgs [of msg_not_correct] by simp
  qed
  then obtain id pwd rows where r: "le_account_info env (li_accname l) = Some ((id, pwd) # rows)"
    by (metis list.exhaust option.exhaust surj_pair)
  obtain same where same: "strcmp_eq pwd (li_password l) = Some same" using pwd [OF r] by blast
  have "same"
  proof (rule ccontr)
    assume "\<not> same"
    then have "database_resolve_login env True p s = send_disconnect True p msg_not_correct s"
      using l(1) n r same by (simp add: database_resolve_login_def)
    then show False using none msgs [of msg_not_correct] by simp
  qed
  moreover have "le_account_charlist env id \<noteq> None"
  proof
    assume "le_account_charlist env id = None"
    then have "database_resolve_login env True p s = send_disconnect True p msg_internal s"
      using l(1) n r same \<open>same\<close> by (simp add: database_resolve_login_def)
    then show False using none msgs [of msg_internal] by simp
  qed
  ultimately obtain names where names: "same" "le_account_charlist env id = Some names" by blast
  have "(charlist_text env names (outbuf_prepare (ls_bufs s1 b)) \<bind> (\<lambda>b. outbuf_wrap b (li_xtea l))) = None"
    using none l(1) r n same names a by (auto simp: database_resolve_login_def bind_eq_None_conv)
  then show ?thesis unfolding charlist_fails_def using names(2) len by blast
qed

lemma release_udata_inv:
  assumes inv: "login_inv R s" and k: "ls_conns s c = Some k" "lc_udata k = Some b" "\<not> lc_writing k"
  shows "login_inv R ((release_buf b s)\<lparr>ls_conns := (ls_conns s)(c \<mapsto> k\<lparr>lc_udata := None\<rparr>)\<rparr>)" (is "login_inv R ?s")
proof -
  have o: "owners ?s = (owners s)(Conn c := None)"
    using k by (auto simp: owners_def release_buf_def fun_eq_iff split: owner.splits)
  have "owners s (Conn c) = Some b" using k by (simp add: owners_def)
  then have own: "own (ls_pool ?s) (owners ?s)"
    unfolding o using own_release [OF login_inv_own [OF inv]] by (simp add: release_buf_def)
  have f: "lc_first_msg k" using inv k unfolding login_inv_def by blast
  show ?thesis
    unfolding login_inv_def
  proof (intro conjI)
    show "\<forall>q l'. ls_logins ?s q = Some l' \<longrightarrow> q < ls_fresh ?s
          \<and> (\<forall>k. ls_conns ?s (li_connection l') = Some k \<longrightarrow> lc_first_msg k \<and> lc_udata k = None \<and> \<not> lc_writing k)"
      using login_inv_login [OF inv] k f by (auto simp: release_buf_def split: if_splits)
    show "\<forall>q r l1 l2. ls_logins ?s q = Some l1 \<longrightarrow> ls_logins ?s r = Some l2 \<longrightarrow>
          li_connection l1 = li_connection l2 \<longrightarrow> q = r"
      using login_inv_unique [OF inv] by (simp add: release_buf_def; blast)
    show "\<forall>c' k'. ls_conns ?s c' = Some k' \<longrightarrow> (lc_writing k' \<longrightarrow> lc_udata k' \<noteq> None)
          \<and> (lc_udata k' \<noteq> None \<longrightarrow> lc_first_msg k')"
      using inv k unfolding login_inv_def by (auto split: if_splits)
  qed (use inv own in \<open>simp_all add: login_inv_def release_buf_def\<close>)
qed

lemma drop_conn_inv:
  assumes inv: "login_inv R s" and k: "ls_conns s c = Some k" "lc_udata k = None"
  shows "login_inv R (s\<lparr>ls_conns := (ls_conns s)(c := None)\<rparr>)" (is "login_inv R ?s")
proof -
  have o: "owners ?s = owners s"
    using k by (auto simp: owners_def fun_eq_iff split: owner.splits)
  show ?thesis
    unfolding login_inv_def o
  proof (intro conjI)
    show "\<forall>q l'. ls_logins ?s q = Some l' \<longrightarrow> q < ls_fresh ?s
          \<and> (\<forall>k. ls_conns ?s (li_connection l') = Some k \<longrightarrow> lc_first_msg k \<and> lc_udata k = None \<and> \<not> lc_writing k)"
      using login_inv_login [OF inv] by simp
    show "\<forall>c' k'. ls_conns ?s c' = Some k' \<longrightarrow> (lc_writing k' \<longrightarrow> lc_udata k' \<noteq> None)
          \<and> (lc_udata k' \<noteq> None \<longrightarrow> lc_first_msg k')"
      using inv unfolding login_inv_def by (auto split: if_splits)
  qed (use inv in \<open>simp_all add: login_inv_def\<close>)
qed

lemma new_conn_inv:
  assumes inv: "login_inv R s" and c: "ls_conns s c = None" "\<And>p l. ls_logins s p = Some l \<Longrightarrow> li_connection l \<noteq> c"
  shows "login_inv R (s\<lparr>ls_conns := (ls_conns s)(c \<mapsto> \<lparr>lc_udata = None, lc_writing = False, lc_first_msg = False\<rparr>)\<rparr>)"
    (is "login_inv R ?s")
proof -
  have o: "owners ?s = owners s"
    using c(1) by (auto simp: owners_def fun_eq_iff split: owner.splits)
  show ?thesis
    unfolding login_inv_def o
  proof (intro conjI)
    show "\<forall>q l'. ls_logins ?s q = Some l' \<longrightarrow> q < ls_fresh ?s
          \<and> (\<forall>k. ls_conns ?s (li_connection l') = Some k \<longrightarrow> lc_first_msg k \<and> lc_udata k = None \<and> \<not> lc_writing k)"
      using login_inv_login [OF inv] c(2) by simp
    show "\<forall>c' k'. ls_conns ?s c' = Some k' \<longrightarrow> (lc_writing k' \<longrightarrow> lc_udata k' \<noteq> None)
          \<and> (lc_udata k' \<noteq> None \<longrightarrow> lc_first_msg k')"
      using inv unfolding login_inv_def by (auto split: if_splits)
  qed (use inv in \<open>simp_all add: login_inv_def\<close>)
qed

lemma take_task_inv:
  assumes inv: "login_inv {} s" and q: "ls_db_tasks s = p # ps \<and> s' = s\<lparr>ls_db_tasks := ps\<rparr>
    \<or> ls_server_tasks s = p # ps \<and> s' = s\<lparr>ls_server_tasks := ps\<rparr>"
  shows "login_inv {p} s'" "\<exists>l. ls_logins s' p = Some l \<and> (li_output l = None \<longleftrightarrow> p \<in> set (ls_db_tasks s))
      \<and> (p \<in> set (ls_db_tasks s) \<longrightarrow> li_strings l)"
proof -
  have o: "owners s' = owners s" using q by (auto simp: owners_def fun_eq_iff split: owner.splits)
  have p: "p \<in> set (ls_db_tasks s @ ls_server_tasks s)" using q by auto
  show "login_inv {p} s'"
    using q
  proof
    assume a: "ls_db_tasks s = p # ps \<and> s' = s\<lparr>ls_db_tasks := ps\<rparr>"
    then show ?thesis using inv unfolding login_inv_def o by simp
  next
    assume a: "ls_server_tasks s = p # ps \<and> s' = s\<lparr>ls_server_tasks := ps\<rparr>"
    then show ?thesis using inv unfolding login_inv_def o by simp
  qed
  have "dom (ls_logins s) = set (ls_db_tasks s @ ls_server_tasks s)" using inv by (simp add: login_inv_def)
  then have "p \<in> dom (ls_logins s)" using p by simp
  then obtain l where l: "ls_logins s p = Some l" by auto
  have d: "set (ls_db_tasks s) \<inter> set (ls_server_tasks s) = {}" using inv by (simp add: login_inv_def)
  have out: "p \<in> set (ls_db_tasks s) \<Longrightarrow> li_output l = None \<and> li_strings l" "p \<in> set (ls_server_tasks s) \<Longrightarrow> li_output l \<noteq> None"
    by (erule login_inv_outputs [OF inv l])+
  then have o: "li_output l = None \<longleftrightarrow> p \<in> set (ls_db_tasks s)" "p \<in> set (ls_db_tasks s) \<longrightarrow> li_strings l"
    using p by auto
  have "ls_logins s' p = Some l" using q l by auto
  then show "\<exists>l. ls_logins s' p = Some l \<and> (li_output l = None \<longleftrightarrow> p \<in> set (ls_db_tasks s))
      \<and> (p \<in> set (ls_db_tasks s) \<longrightarrow> li_strings l)"
    using o by (intro exI [of _ l] conjI)
qed

text \<open>The only step without a defined result is a charlist that its buffer or its strings do not hold.\<close>

lemma login_step_inv:
  assumes "login_step env s r" "login_inv {} s" "env_ok env"
  shows "case r of Some s' \<Rightarrow> login_inv {} s'
    | None \<Rightarrow> \<exists>id names. le_account_charlist env id = Some names \<and> charlist_fails env names"
  using assms
proof (induction rule: login_step.induct)
  case (ls_assign s c)
  have "login_inv {} (s\<lparr>ls_conns := (ls_conns s)(c \<mapsto> \<lparr>lc_udata = None, lc_writing = False, lc_first_msg = False\<rparr>)\<rparr>)"
    by (rule new_conn_inv [OF ls_assign.prems(1) ls_assign.hyps(1)]) (rule ls_assign.hyps(2))
  then show ?case by (simp add: login_on_assign_protocol_def set_udata_def)
next
  case (ls_first s c k queued started data)
  then show ?case using login_on_recv_first_message_inv [of s env c k queued started data] by auto
next
  case (ls_recv s c k data)
  then show ?case by (simp add: login_on_recv_message_def)
next
  case (ls_written s c k)
  define s1 where "s1 = s\<lparr>ls_conns := (ls_conns s)(c \<mapsto> k\<lparr>lc_writing := False\<rparr>)\<rparr>"
  have inv: "login_inv {} s1" unfolding s1_def by (rule touch_conn_inv [OF ls_written.prems(1) ls_written.hyps(1)]) simp_all
  obtain b where b: "lc_udata k = Some b" using ls_written unfolding login_inv_def by blast
  have k: "ls_conns s1 c = Some (k\<lparr>lc_writing := False\<rparr>)" by (simp add: s1_def)
  have "login_inv {} ((release_buf b s1)\<lparr>ls_conns := (ls_conns s1)(c \<mapsto> (k\<lparr>lc_writing := False\<rparr>)\<lparr>lc_udata := None\<rparr>)\<rparr>)"
    by (rule release_udata_inv [OF inv k]) (simp_all add: b)
  moreover have "login_on_write c s1 = Some (PROTO_CLOSE,
      (release_buf b s1)\<lparr>ls_conns := (ls_conns s1)(c \<mapsto> (k\<lparr>lc_writing := False\<rparr>)\<lparr>lc_udata := None\<rparr>)\<rparr>)"
    using b k by (simp add: login_on_write_def set_udata_def release_buf_def)
  ultimately show ?case unfolding s1_def [symmetric] by simp
next
  case (ls_write_dropped s c k)
  then show ?case using touch_conn_inv [of "{}" s c k] by simp
next
  case (ls_close s c k)
  show ?case
  proof (cases "lc_udata k")
    case None
    then show ?thesis using ls_close drop_conn_inv [of "{}" s c k] by (simp add: login_on_close_def)
  next
    case (Some b)
    define s1 where "s1 = (release_buf b s)\<lparr>ls_conns := (ls_conns s)(c \<mapsto> k\<lparr>lc_udata := None\<rparr>)\<rparr>"
    have "login_inv {} s1"
      unfolding s1_def by (rule release_udata_inv [OF ls_close.prems(1) ls_close.hyps(1) Some ls_close.hyps(2)])
    moreover have "ls_conns s1 c = Some (k\<lparr>lc_udata := None\<rparr>)" by (simp add: s1_def)
    ultimately have "login_inv {} (s1\<lparr>ls_conns := (ls_conns s1)(c := None)\<rparr>)" using drop_conn_inv by fastforce
    moreover have "login_on_close c s = Some s1"
      using ls_close.hyps(1) Some by (simp add: login_on_close_def set_udata_def release_buf_def s1_def)
    ultimately show ?thesis by simp
  qed
next
  case (ls_db_task s p ps)
  have t: "login_inv {p} (s\<lparr>ls_db_tasks := ps\<rparr>)"
    "\<exists>l. ls_logins (s\<lparr>ls_db_tasks := ps\<rparr>) p = Some l \<and> (li_output l = None \<longleftrightarrow> p \<in> set (ls_db_tasks s))
      \<and> (p \<in> set (ls_db_tasks s) \<longrightarrow> li_strings l)"
    using take_task_inv [OF ls_db_task.prems(1), of p ps] ls_db_task.hyps by blast+
  then obtain l where l: "ls_logins (s\<lparr>ls_db_tasks := ps\<rparr>) p = Some l" "li_output l = None" "0 \<in> set (li_password l)"
    using ls_db_task.hyps by (auto simp: li_strings_def)
  then show ?case
    using database_resolve_login_inv [OF t(1)] database_resolve_login_total [OF t(1) l ls_db_task.prems(2)]
    by (auto split: option.splits)
next
  case (ls_server_task s p ps started)
  have t: "login_inv {p} (s\<lparr>ls_server_tasks := ps\<rparr>)"
    "\<exists>l. ls_logins (s\<lparr>ls_server_tasks := ps\<rparr>) p = Some l \<and> (li_output l = None \<longleftrightarrow> p \<in> set (ls_db_tasks s))
      \<and> (p \<in> set (ls_db_tasks s) \<longrightarrow> li_strings l)"
    using take_task_inv [OF ls_server_task.prems(1), of p ps] ls_server_task.hyps by blast+
  have "p \<notin> set (ls_db_tasks s)" using ls_server_task by (auto simp: login_inv_def)
  then obtain l b where "ls_logins (s\<lparr>ls_server_tasks := ps\<rparr>) p = Some l" "li_output l = Some b"
    using t(2) by auto
  then show ?case using internal_resolve_login_inv [OF t(1), of l b started] by auto
qed

lemma login_reach_inv:
  assumes "login_reach env mem s" "env_ok env" "\<forall>b. length (ob_base (mem b)) = MAX_OUTBUF_LEN"
  shows "login_inv {} s"
  using assms
proof (induction rule: login_reach.induct)
  case lr_start
  then show ?case using login_inv_start by blast
next
  case (lr_step s s')
  then show ?case using login_step_inv [of env s "Some s'"] by simp
qed

end
