(* ===== verification/Login_Properties.thy ===== *)
theory Login_Properties
  imports Login_Ownership
begin

text \<open>
  What the login protocol answers: the text of every answer as a function of the request and of what the
  queries return, the bound on the list of characters, and the properties of the protocol.
\<close>

subsection \<open>Sequences of writes\<close>

text \<open>\<open>app bs buf\<close>: the bytes are appended if there is room.\<close>

definition app :: "bytes \<Rightarrow> outbuf \<Rightarrow> outbuf option" where
  "app bs buf = (if length bs \<le> outbuf_room buf then Some (outbuf_append bs buf) else None)"

lemma outbuf_append_ok:
  "outbuf_ok buf \<Longrightarrow> length bs \<le> outbuf_room buf \<Longrightarrow> outbuf_ok (outbuf_append bs buf)"
  "outbuf_ok buf \<Longrightarrow> length bs \<le> outbuf_room buf \<Longrightarrow> outbuf_room (outbuf_append bs buf) = outbuf_room buf - length bs"
  by (auto simp: outbuf_append_def outbuf_ok_def outbuf_room_def)

lemma outbuf_append_append:
  "outbuf_ok buf \<Longrightarrow> length a \<le> outbuf_room buf \<Longrightarrow>
    outbuf_append b (outbuf_append a buf) = outbuf_append (a @ b) buf"
  by (simp add: outbuf_append_def outbuf_ok_def outbuf_room_def ac_simps)

lemma app_app: "outbuf_ok buf \<Longrightarrow> app a buf \<bind> app b = app (a @ b) buf"
  by (auto simp: app_def outbuf_append_ok outbuf_append_append)

lemma app_bind:
  "outbuf_ok buf \<Longrightarrow> (\<And>b. outbuf_ok b \<Longrightarrow> f b = app bs b) \<Longrightarrow> app a buf \<bind> f = app (a @ bs) buf"
  by (auto simp: app_def outbuf_append_ok outbuf_append_append)

lemma write_app:
  "outbuf_ok buf \<Longrightarrow> outbuf_write_byte buf v = app [v] buf"
  "outbuf_ok buf \<Longrightarrow> outbuf_write_u16 buf w = app (encode_u16_le w) buf"
  "outbuf_ok buf \<Longrightarrow> outbuf_write_u32 buf x = app (encode_u32_le x) buf"
  using w_byte.write_append w_byte.write_overflow w_u16.write_append w_u16.write_overflow
    w_u32.write_append w_u32.write_overflow
  by (auto simp: app_def encode_u8_def not_le)

lemma outbuf_write_str_cstr:
  assumes "cstr y s" "length s < 2 ^ 31 - 2"
  shows "outbuf_write_str buf y = outbuf_write_str buf (s @ [0])"
proof -
  have s: "sint (of_nat (length s) :: u32) = int (length s)"
    using assms(2) by (intro sint_of_nat_small) simp
  have c: "0 \<notin> set s" "cstrlen y = Some (length s)" using assms(1) by (simp_all add: cstr_def cstrlen_cstr)
  have "mem_read 0 (length s) y = mem_read 0 (length s) (s @ [0])"
    using assms(1) by (auto simp: cstr_def mem_read_def)
  then show ?thesis
    using cstrlen_append [OF c(1), of "[]"]
    unfolding outbuf_write_str_def c(2) outbuf_write_lstr_def Let_def by (simp only: bind.bind_lunit s nat_int)
qed

lemma write_str_app:
  assumes "outbuf_ok buf" "cstr y s" "length s < 2 ^ 31 - 2"
  shows "outbuf_write_str buf y = app (str_image s) buf"
proof -
  have "0 \<notin> set s \<and> length s < 2 ^ 31 - 2" using assms(2,3) by (simp add: cstr_def)
  then show ?thesis
    using w_str.write_append [of s buf] w_str.write_overflow [of s buf] assms(1)
    unfolding outbuf_write_str_cstr [OF assms(2,3)] by (auto simp: app_def not_le)
qed

subsection \<open>The list of characters\<close>

text \<open>The settings hold strings and the names are C strings of less than 2^16 characters.\<close>

definition env_strings :: "login_env \<Rightarrow> (bytes \<Rightarrow> bytes) \<Rightarrow> bool" where
  "env_strings env f \<longleftrightarrow> config_holds (le_config env) f
     \<and> (\<forall>id names. le_account_charlist env id = Some names \<longrightarrow>
          (\<forall>n \<in> set names. 0 \<in> set n \<and> length (c_string n) < 2 ^ 16))"

definition game_port :: "login_env \<Rightarrow> u16" where
  "game_port env = (case config_geti (le_long_bits env) (le_config env) (str ''sv_game_port'' @ [0]) of
     Some port \<Rightarrow> ucast port | None \<Rightarrow> 0)"

definition charlist_row :: "login_env \<Rightarrow> (bytes \<Rightarrow> bytes) \<Rightarrow> bytes \<Rightarrow> bytes" where
  "charlist_row env f name = str_image (c_string name) @ str_image (f (str ''sv_name''))
     @ encode_u32_le 16777343 @ encode_u16_le (game_port env)"

definition charlist_image :: "login_env \<Rightarrow> (bytes \<Rightarrow> bytes) \<Rightarrow> bytes list \<Rightarrow> bytes" where
  "charlist_image env f names = [0x14] @ str_image (f (str ''motd'')) @ [0x64] @ [of_nat (length names)]
     @ concat (map (charlist_row env f) names) @ encode_u16_le 1"

lemma strtol_total: "0 \<in> set s \<Longrightarrow> strtol_sign s \<noteq> None"
proof (induction s)
  case (Cons c s)
  have d: "strtol_digits n t \<noteq> None" if "0 \<in> set t" for n t
    using that by (induction n t rule: strtol_digits.induct) (auto simp: isdigit_def)
  show ?case
  proof (cases "isspace c \<or> c = 0x2D \<or> c = 0x2B")
    case True
    then have "0 \<in> set s" using Cons.prems by (auto simp: isspace_def)
    then show ?thesis using Cons.IH d [of s 0] True by auto
  next
    case False
    then show ?thesis using d [OF Cons.prems, of 0] by simp
  qed
qed simp

lemma setting:
  assumes "config_holds tab f" "k \<in> {str ''motd'', str ''sv_name'', str ''sv_game_port''}"
  shows "\<exists>v. config_get tab (k @ [0]) = Some v \<and> cstr v (f k) \<and> length (f k) < 128"
proof -
  have k: "cstr (k @ [0]) k" "k \<noteq> []" "config_alias k = k" "k \<in> set default_keys"
    using assms(2) str_cstr [of "''motd''"] str_cstr [of "''sv_name''"] str_cstr [of "''sv_game_port''"]
    by (auto simp: example_names)
  obtain v where v: "config_get tab (k @ [0]) = Some v" "cstr v (f k)"
    using config_holds_get [OF assms(1) k(1,2)] k(3,4) by auto
  obtain w where "config_get tab (k @ [0]) = Some w" "length w \<le> MAX_VALUE_LENGTH"
    using config_get_type [OF _ k(1), of tab] assms(1) unfolding config_holds_def by blast
  then have "length v \<le> 128" using v(1) by (simp add: MAX_VALUE_LENGTH_def)
  then show ?thesis using v cstr_take(2) [OF v(2)] by auto
qed

lemma game_port_read:
  assumes "config_holds tab f"
  shows "config_geti bits tab (str ''sv_game_port'' @ [0]) \<noteq> None"
proof -
  obtain v where "config_get tab (str ''sv_game_port'' @ [0]) = Some v" "cstr v (f (str ''sv_game_port''))"
    using setting [OF assms, of "str ''sv_game_port''"] by auto
  moreover then have "strtol_sign v \<noteq> None" using strtol_total cstr_c_string(2) by blast
  ultimately show ?thesis by (auto simp: config_geti_def strtol10_def)
qed

lemma charlist_rows_app:
  assumes "config_holds (le_config env) f" "\<forall>n \<in> set names. 0 \<in> set n \<and> length (c_string n) < 2 ^ 16"
    and "outbuf_ok buf"
  shows "charlist_rows env names buf = app (concat (map (charlist_row env f) names)) buf"
  using assms(2,3)
proof (induction names arbitrary: buf)
  case Nil
  then show ?case by (simp add: app_def outbuf_append_def)
next
  case (Cons name names)
  have name: "cstr name (c_string name)" "length (c_string name) < 2 ^ 31 - 2"
    using Cons.prems(1) c_string_cstr by auto
  obtain v where v: "config_get (le_config env) (str ''sv_name'' @ [0]) = Some v" "cstr v (f (str ''sv_name''))"
    "length (f (str ''sv_name'')) < 2 ^ 31 - 2"
    using setting [OF assms(1), of "str ''sv_name''"] by auto
  obtain port where port: "config_geti (le_long_bits env) (le_config env) (str ''sv_game_port'' @ [0]) = Some port"
    "ucast port = game_port env"
    using game_port_read [OF assms(1)] by (auto simp: game_port_def)
  have rows: "outbuf_ok b \<Longrightarrow> charlist_rows env names b = app (concat (map (charlist_row env f) names)) b" for b
    using Cons.IH Cons.prems(1) by simp
  have "charlist_rows env (name # names) buf = app (str_image (c_string name)) buf \<bind> (\<lambda>b1.
      outbuf_write_str b1 v \<bind> (\<lambda>b2. outbuf_write_u32 b2 16777343 \<bind> (\<lambda>b3.
      outbuf_write_u16 b3 (game_port env) \<bind> charlist_rows env names)))"
    using write_str_app [OF Cons.prems(2) name] by (simp add: v(1) port)
  also have "\<dots> = app (str_image (c_string name) @ str_image (f (str ''sv_name'')) @ encode_u32_le 16777343
      @ encode_u16_le (game_port env) @ concat (map (charlist_row env f) names)) buf"
    by (intro app_bind Cons.prems(2))
      (simp add: write_str_app [OF _ v(2,3)] write_app app_bind rows)
  finally show ?case by (simp only: list.map concat.simps charlist_row_def [of env f name] append_assoc)
qed

lemma charlist_text_app:
  assumes "config_holds (le_config env) f" "\<forall>n \<in> set names. 0 \<in> set n \<and> length (c_string n) < 2 ^ 16"
    and "outbuf_ok buf"
  shows "charlist_text env names buf = app (charlist_image env f names) buf"
proof -
  obtain v where v: "config_get (le_config env) (str ''motd'' @ [0]) = Some v" "cstr v (f (str ''motd''))"
    "length (f (str ''motd'')) < 2 ^ 31 - 2"
    using setting [OF assms(1), of "str ''motd''"] by auto
  have "charlist_text env names buf = app [0x14] buf \<bind> (\<lambda>b1. outbuf_write_str b1 v \<bind> (\<lambda>b2.
      outbuf_write_byte b2 0x64 \<bind> (\<lambda>b3. outbuf_write_byte b3 (of_nat (length names)) \<bind> (\<lambda>b4.
      charlist_rows env names b4 \<bind> (\<lambda>b5. outbuf_write_u16 b5 1)))))"
    using write_app(1) [OF assms(3)] by (simp add: charlist_text_def v(1))
  also have "\<dots> = app (charlist_image env f names) buf"
    unfolding charlist_image_def
    by (intro app_bind assms(3))
      (simp add: write_str_app [OF _ v(2,3)] write_app app_bind charlist_rows_app [OF assms(1,2)])
  finally show ?thesis .
qed

text \<open>The room that a text of \<open>n\<close> bytes takes in a message: after 6 bytes, whole blocks of 8 for it and its
  length.\<close>

definition message_size :: "nat \<Rightarrow> nat" where
  "message_size n = 6 + (n + 2 + (8 - (n + 2) mod 8) mod 8)"

lemma write_padding_overflow:
  "outbuf_ok buf \<Longrightarrow> outbuf_room buf < n \<Longrightarrow> write_padding n buf = None"
proof (induction n arbitrary: buf)
  case (Suc n)
  then show ?case
    by (auto simp: write_app app_def outbuf_append_ok)
qed simp

lemma outbuf_wrap_overflow:
  assumes "8 \<le> ob_ptr buf" "outbuf_ok buf" "length (ob_base buf) = MAX_OUTBUF_LEN"
    "MAX_OUTBUF_LEN < message_size (ob_ptr buf - 8)"
  shows "outbuf_wrap buf k = None"
proof -
  define n where "n = ob_ptr buf - 6"
  have n: "n < 2 ^ 32" "ob_ptr buf - 8 + 2 = n" using assms(1,2,3) by (auto simp: n_def outbuf_ok_def MAX_OUTBUF_LEN_def)
  define pad where "pad = (8 - n mod 8) mod 8"
  have "unat (of_nat n :: u32) = n" using n(1) by (simp add: unat_of_nat)
  then have p: "unat ((8 - (of_nat n AND 7)) AND 7 :: u32) = pad" unfolding unat_padding by (simp add: pad_def)
  have "message_size (ob_ptr buf - 8) = 6 + (n + pad)" unfolding message_size_def n(2) pad_def by (rule refl)
  then have "outbuf_room buf < pad"
    using assms by (simp add: outbuf_room_def outbuf_ok_def n_def)
  then have "write_padding pad (buf\<lparr>ob_base := m\<rparr>) = None" if "length m = length (ob_base buf)" for m
    using that assms(2) by (intro write_padding_overflow) (simp_all add: outbuf_ok_def outbuf_room_def)
  then show ?thesis
    by (auto simp: outbuf_wrap_def Let_def p bind_eq_None_conv mem_write_length_eq simp flip: n_def)
qed

lemma outbuf_wrap_fits:
  assumes "8 \<le> ob_ptr buf" "length (ob_base buf) = MAX_OUTBUF_LEN"
    "message_size (ob_ptr buf - 8) \<le> MAX_OUTBUF_LEN"
  shows "\<exists>buf' body pad. outbuf_wrap buf k = Some buf' \<and> length (ob_base buf') = MAX_OUTBUF_LEN
    \<and> outbuf_content buf' = encode_u16_le (of_nat (length body + 4)) @ encode_u32_le (adler32 body) @ body
    \<and> xtea_decode k body = Some (encode_u16_le (of_nat (ob_ptr buf - 8)) @ drop 8 (outbuf_content buf) @ replicate pad 0x33)"
proof -
  define h where "h = take 6 (ob_base buf)"
  define l where "l = take 2 (drop 6 (ob_base buf))"
  define payload where "payload = drop 8 (outbuf_content buf)"
  define rest where "rest = drop (ob_ptr buf) (ob_base buf)"
  have ptr: "ob_ptr buf \<le> length (ob_base buf)" using assms by (simp add: message_size_def)
  have pay: "length payload = ob_ptr buf - 8" using ptr by (simp add: payload_def outbuf_content_def)
  have "payload = take (ob_ptr buf - 8) (drop 8 (ob_base buf))"
    by (simp add: payload_def outbuf_content_def drop_take)
  then have "payload @ rest = drop 8 (ob_base buf)"
    using append_take_drop_id [of "ob_ptr buf - 8" "drop 8 (ob_base buf)"] assms(1) by (simp add: rest_def)
  then have "l @ payload @ rest = drop 6 (ob_base buf)"
    using append_take_drop_id [of 2 "drop 6 (ob_base buf)"] by (simp add: l_def)
  then have base: "ob_base buf = h @ l @ payload @ rest" by (simp add: h_def)
  let ?pad = "(8 - (length payload + 2) mod 8) mod 8"
  have "message_size (ob_ptr buf - 8) = 6 + (length payload + 2 + ?pad)"
    unfolding message_size_def pay by (rule refl)
  moreover have "length payload + 8 = ob_ptr buf" "length rest + ob_ptr buf = MAX_OUTBUF_LEN"
    using assms(1,2) ptr pay by (simp_all add: rest_def)
  ultimately have "?pad \<le> length rest" using assms(3) by linarith
  moreover have "length h = 6" "length l = 2" "ob_ptr buf = 8 + length payload"
    using assms(1) ptr pay by (simp_all add: h_def l_def)
  moreover have "length (ob_base buf) < 2 ^ 16" using assms(2) by (simp add: MAX_OUTBUF_LEN_def)
  ultimately obtain body buf' where b: "outbuf_wrap buf k = Some buf'"
    "xtea_decode k body = Some (encode_u16_le (of_nat (length payload)) @ payload @ replicate ?pad 0x33)"
    "ob_base buf' = (encode_u16_le (of_nat (length body + 4)) @ encode_u32_le (adler32 body)) @ body @ drop ?pad rest"
    "length body = length payload + 2 + ?pad" "ob_ptr buf' = 6 + length body"
    using outbuf_wrap_parts [OF base, of k] by blast
  have "length (ob_base buf') = MAX_OUTBUF_LEN" using outbuf_wrap_length [OF b(1)] assms(2) by simp
  moreover have "outbuf_content buf' = encode_u16_le (of_nat (length body + 4)) @ encode_u32_le (adler32 body) @ body"
    using b(3,5) by (simp add: outbuf_content_def)
  ultimately show ?thesis using b(1,2) pay
    by (intro exI [of _ buf'] exI [of _ body] exI [of _ ?pad]) (simp add: payload_def)
qed

text \<open>Writing a text into a fresh buffer and wrapping it.\<close>

lemma app_prepared:
  assumes "length (ob_base buf) = MAX_OUTBUF_LEN"
  shows "(app msg (outbuf_prepare buf) \<bind> (\<lambda>b. outbuf_wrap b k)) = None \<longleftrightarrow> MAX_OUTBUF_LEN < message_size (length msg)"
    and "app msg (outbuf_prepare buf) = Some b \<Longrightarrow> outbuf_wrap b k = Some buf' \<Longrightarrow>
      \<exists>body pad. outbuf_content buf' = encode_u16_le (of_nat (length body + 4)) @ encode_u32_le (adler32 body) @ body
        \<and> xtea_decode k body = Some (encode_u16_le (of_nat (length msg)) @ msg @ replicate pad 0x33)"
proof -
  let ?b = "outbuf_append msg (outbuf_prepare buf)"
  have b0: "outbuf_ok (outbuf_prepare buf)" "outbuf_room (outbuf_prepare buf) = MAX_OUTBUF_LEN - 8"
    "length (outbuf_content (outbuf_prepare buf)) = 8"
    using assms by (simp_all add: outbuf_prepare_def outbuf_ok_def outbuf_room_def outbuf_content_def MAX_OUTBUF_LEN_def)
  have room: "length msg \<le> MAX_OUTBUF_LEN - 8" if "message_size (length msg) \<le> MAX_OUTBUF_LEN"
    using that by (simp add: message_size_def)
  have b: "outbuf_ok ?b" "ob_ptr ?b = 8 + length msg" "length (ob_base ?b) = MAX_OUTBUF_LEN"
    "drop 8 (outbuf_content ?b) = msg" if "length msg \<le> MAX_OUTBUF_LEN - 8"
    using b0 that assms outbuf_append_ok(1) [OF b0(1), of msg]
    by (auto simp: outbuf_prepare_def outbuf_content_def outbuf_append_def MAX_OUTBUF_LEN_def)
  have wrap: "outbuf_wrap ?b k = None \<longleftrightarrow> MAX_OUTBUF_LEN < message_size (length msg)"
    if l: "length msg \<le> MAX_OUTBUF_LEN - 8"
  proof -
    note b = b [OF l]
    show ?thesis
    proof (cases "message_size (length msg) \<le> MAX_OUTBUF_LEN")
      case True
      then show ?thesis using outbuf_wrap_fits [of ?b k] b(1-3) by auto
    next
      case False
      then show ?thesis using outbuf_wrap_overflow [of ?b k] b(1-3) by simp
    qed
  qed
  show "(app msg (outbuf_prepare buf) \<bind> (\<lambda>b. outbuf_wrap b k)) = None \<longleftrightarrow> MAX_OUTBUF_LEN < message_size (length msg)"
    using b0 room wrap by (cases "length msg \<le> MAX_OUTBUF_LEN - 8") (auto simp: app_def simp flip: not_le)
  assume a: "app msg (outbuf_prepare buf) = Some b" and w: "outbuf_wrap b k = Some buf'"
  then have l: "length msg \<le> MAX_OUTBUF_LEN - 8" "b = ?b" using b0(2) by (auto simp: app_def split: if_splits)
  then have "message_size (length msg) \<le> MAX_OUTBUF_LEN" using wrap w by (auto simp: not_less)
  then show "\<exists>body pad. outbuf_content buf' = encode_u16_le (of_nat (length body + 4)) @ encode_u32_le (adler32 body) @ body
        \<and> xtea_decode k body = Some (encode_u16_le (of_nat (length msg)) @ msg @ replicate pad 0x33)"
    using outbuf_wrap_fits [of b k] b [OF l(1)] w unfolding l(2) by auto
qed

text \<open>The list of characters does not fit exactly when its text is too long for a message.\<close>

lemma charlist_fails_size:
  assumes "config_holds (le_config env) f" "\<forall>n \<in> set names. 0 \<in> set n \<and> length (c_string n) < 2 ^ 16"
  shows "charlist_fails env names \<longleftrightarrow> MAX_OUTBUF_LEN < message_size (length (charlist_image env f names))"
proof -
  have ok: "outbuf_ok (outbuf_prepare buf)" if "length (ob_base buf) = MAX_OUTBUF_LEN" for buf
    using that by (simp add: outbuf_prepare_def outbuf_ok_def MAX_OUTBUF_LEN_def)
  let ?buf = "\<lparr>ob_ptr = 0, ob_base = replicate MAX_OUTBUF_LEN 0\<rparr>"
  have "length (ob_base ?buf) = MAX_OUTBUF_LEN" by simp
  then show ?thesis
    unfolding charlist_fails_def using charlist_text_app [OF assms ok] app_prepared(1) by metis
qed

lemma charlist_image_length:
  "length (charlist_image env f names) = 8 + length (f (str ''motd'')) - 1
     + (\<Sum>n \<leftarrow> names. 10 + length (c_string n) + length (f (str ''sv_name'')))"
proof -
  have "length (concat (map (charlist_row env f) names)) =
      (\<Sum>n \<leftarrow> names. 10 + length (c_string n) + length (f (str ''sv_name'')))"
    by (induction names) (simp_all add: charlist_row_def str_image_def)
  then show ?thesis by (simp add: charlist_image_def str_image_def)
qed

subsection \<open>The answer to a request\<close>

definition disconnect_image :: "bytes \<Rightarrow> bytes" where "disconnect_image m = 0x0A # str_image m"

text \<open>What a request is answered, as a function of the strings of its name and password.\<close>

definition login_answer :: "login_env \<Rightarrow> (bytes \<Rightarrow> bytes) \<Rightarrow> login_info \<Rightarrow> bytes" where
  "login_answer env f l =
     (if c_string (li_accname l) = [] then disconnect_image (str ''Invalid account name.'')
      else case le_account_info env (li_accname l) of
        Some ((accid, pwd) # _) \<Rightarrow>
          if c_string pwd = c_string (li_password l) then
            (case le_account_charlist env accid of
               Some names \<Rightarrow> charlist_image env f names
             | None \<Rightarrow> disconnect_image (str ''Internal error. Contact an admin.''))
          else disconnect_image (str ''Account name or password is not correct.'')
      | _ \<Rightarrow> disconnect_image (str ''Account name or password is not correct.''))"

lemma strcmp_eq_strings: "0 \<in> set s \<Longrightarrow> 0 \<in> set t \<Longrightarrow> strcmp_eq s t = Some (c_string s = c_string t)"
  by (induction s t rule: strcmp_eq.induct) (auto simp: c_string_def)

definition answered :: "nat \<Rightarrow> u32 list \<Rightarrow> bytes \<Rightarrow> login_sys \<Rightarrow> bool" where
  "answered p k msg s \<longleftrightarrow> (\<exists>l b body pad. ls_logins s p = Some l \<and> li_output l = Some b
     \<and> outbuf_content (ls_bufs s b) = encode_u16_le (of_nat (length body + 4)) @ encode_u32_le (adler32 body) @ body
     \<and> xtea_decode k body = Some (encode_u16_le (of_nat (length msg)) @ msg @ replicate pad 0x33))"

lemma answered_put:
  assumes a: "acquire_output p l s = (b, s1)" and len: "length (ob_base (ls_bufs s b)) = MAX_OUTBUF_LEN"
    and buf: "app msg (outbuf_prepare (ls_bufs s1 b)) = Some buf" "outbuf_wrap buf k = Some buf'"
  shows "answered p k msg (game_add_server_task True p (put_buf b buf' s1))"
proof -
  have s1: "ls_bufs s1 = ls_bufs s" "ls_logins s1 p = Some (l\<lparr>li_output := Some b\<rparr>)"
    using a by (auto simp: acquire_output_def split: prod.splits)
  have "length (ob_base (ls_bufs s1 b)) = MAX_OUTBUF_LEN" using len s1(1) by simp
  from app_prepared(2) [OF this buf]
  obtain body pad where w: "outbuf_content buf' = encode_u16_le (of_nat (length body + 4)) @ encode_u32_le (adler32 body) @ body"
    "xtea_decode k body = Some (encode_u16_le (of_nat (length msg)) @ msg @ replicate pad 0x33)"
    by blast
  show ?thesis
    unfolding answered_def
    by (intro exI [of _ "l\<lparr>li_output := Some b\<rparr>"] exI [of _ b] exI [of _ body] exI [of _ pad])
      (simp add: game_add_server_task_def put_buf_def s1 w)
qed

lemma disconnect_text_app:
  assumes "outbuf_ok buf" "0 \<notin> set m" "length m < 128"
  shows "disconnect_text (m @ [0]) buf = app (disconnect_image m) buf"
proof -
  have "cstr (m @ [0]) m" using assms(2) by auto
  then have "outbuf_ok b \<Longrightarrow> outbuf_write_str b (m @ [0]) = app (str_image m) b" for b
    using write_str_app [of b "m @ [0]" m] assms(3) by simp
  then show ?thesis
    using app_bind [OF assms(1), of "\<lambda>b. outbuf_write_str b (m @ [0])" "str_image m" "[0x0A]"]
    by (simp add: disconnect_text_def write_app(1) [OF assms(1)] disconnect_image_def)
qed

lemma send_disconnect_answered:
  assumes "send_disconnect True p (m @ [0]) s = Some s'" "ls_logins s p = Some l"
    "\<forall>b. length (ob_base (ls_bufs s b)) = MAX_OUTBUF_LEN" "0 \<notin> set m" "length m < 128"
  shows "answered p (li_xtea l) (disconnect_image m) s'"
proof -
  obtain b s1 where a: "acquire_output p l s = (b, s1)" by fastforce
  have "ls_bufs s1 = ls_bufs s" using a by (auto simp: acquire_output_def split: prod.splits)
  then have "outbuf_ok (outbuf_prepare (ls_bufs s1 b))"
    using assms(3) by (simp add: outbuf_prepare_def outbuf_ok_def MAX_OUTBUF_LEN_def)
  then obtain buf buf' where "app (disconnect_image m) (outbuf_prepare (ls_bufs s1 b)) = Some buf"
    "outbuf_wrap buf (li_xtea l) = Some buf'" "s' = game_add_server_task True p (put_buf b buf' s1)"
    using assms(1,2) a disconnect_text_app [OF _ assms(4,5)]
    by (auto simp: send_disconnect_def build_disconnect_message_def bind_eq_Some_conv)
  then show ?thesis using answered_put [OF a] assms(3) by simp
qed

lemma login_accname_empty: "0 \<in> set m \<Longrightarrow> m ! 0 = 0 \<longleftrightarrow> c_string m = []"
  by (cases m) (auto simp: c_string_def)

lemma database_resolve_login_answer:
  assumes inv: "login_inv {p} s" and l: "ls_logins s p = Some l" "0 \<in> set (li_password l)" "0 \<in> set (li_accname l)"
    and env: "env_ok env" "env_strings env f" and s': "database_resolve_login env True p s = Some s'"
  shows "answered p (li_xtea l) (login_answer env f l) s'"
proof -
  have bufs: "\<forall>b. length (ob_base (ls_bufs s b)) = MAX_OUTBUF_LEN" using inv by (simp add: login_inv_def)
  have msg: "answered p (li_xtea l) (disconnect_image m) s'"
    if "database_resolve_login env True p s = send_disconnect True p (m @ [0]) s" "0 \<notin> set m" "length m < 128" for m
    using send_disconnect_answered [OF _ l(1) bufs that(2,3)] that(1) s' by simp
  have strs: "0 \<notin> set (str ''Invalid account name.'') \<and> length (str ''Invalid account name.'') < 128"
    "0 \<notin> set (str ''Account name or password is not correct.'') \<and> length (str ''Account name or password is not correct.'') < 128"
    "0 \<notin> set (str ''Internal error. Contact an admin.'') \<and> length (str ''Internal error. Contact an admin.'') < 128"
    by (simp_all add: str_def)
  have wrong: "answered p (li_xtea l) (disconnect_image (str ''Account name or password is not correct.'')) s'"
    if "database_resolve_login env True p s = send_disconnect True p msg_not_correct s"
    using msg strs(2) that by (simp add: msg_not_correct_def)
  note def = database_resolve_login_def login_answer_def l(1)
  show ?thesis
  proof (cases "c_string (li_accname l) = []")
    case True
    then have "database_resolve_login env True p s = send_disconnect True p msg_bad_name s"
      using l by (simp add: def login_accname_empty)
    then show ?thesis using msg strs(1) True by (simp add: msg_bad_name_def login_answer_def)
  next
    case False
    then have n: "li_accname l ! 0 \<noteq> 0" using login_accname_empty [OF l(3)] by simp
    show ?thesis
    proof (cases "le_account_info env (li_accname l) \<in> {None, Some []}")
      case True
      then have "database_resolve_login env True p s = send_disconnect True p msg_not_correct s"
        using n by (auto simp: def)
      then show ?thesis using wrong True False by (auto simp: login_answer_def)
    next
      case found: False
      then obtain accid pwd rows where r: "le_account_info env (li_accname l) = Some ((accid, pwd) # rows)"
        by (cases "le_account_info env (li_accname l)") (auto simp: neq_Nil_conv)
      have "0 \<in> set pwd" using env(1) r by (fastforce simp: env_ok_def)
      then have same: "strcmp_eq pwd (li_password l) = Some (c_string pwd = c_string (li_password l))"
        using strcmp_eq_strings l(2) by blast
      show ?thesis
      proof (cases "c_string pwd = c_string (li_password l)")
        case no: False
        then have "database_resolve_login env True p s = send_disconnect True p msg_not_correct s"
          using n r same by (simp add: def)
        then show ?thesis using wrong r no False by (simp add: login_answer_def)
      next
        case yes: True
        show ?thesis
        proof (cases "le_account_charlist env accid")
          case None
          then have "database_resolve_login env True p s = send_disconnect True p msg_internal s"
            using n r same yes by (simp add: def)
          then show ?thesis using msg strs(3) r yes False None by (simp add: msg_internal_def login_answer_def)
        next
          case (Some names)
          obtain b s1 where a: "acquire_output p l s = (b, s1)" by fastforce
          have "ls_bufs s1 = ls_bufs s" using a by (auto simp: acquire_output_def split: prod.splits)
          then have "outbuf_ok (outbuf_prepare (ls_bufs s1 b))"
            using bufs by (simp add: outbuf_prepare_def outbuf_ok_def MAX_OUTBUF_LEN_def)
          moreover have "config_holds (le_config env) f" "\<forall>n \<in> set names. 0 \<in> set n \<and> length (c_string n) < 2 ^ 16"
            using env(2) Some by (auto simp: env_strings_def)
          ultimately obtain buf buf' where "app (charlist_image env f names) (outbuf_prepare (ls_bufs s1 b)) = Some buf"
            "outbuf_wrap buf (li_xtea l) = Some buf'" "s' = game_add_server_task True p (put_buf b buf' s1)"
            using s' n r same yes Some a charlist_text_app [of env f names] by (auto simp: def bind_eq_Some_conv)
          then have "answered p (li_xtea l) (charlist_image env f names) s'" using answered_put [OF a] bufs by simp
          then show ?thesis using r yes False Some by (simp add: login_answer_def)
        qed
      qed
    qed
  qed
qed

subsection \<open>A request as the client writes it\<close>

lemma decode_u16_le_append: "decode_u16_le d = Some v \<Longrightarrow> decode_u16_le (d @ r) = Some v"
  by (cases d rule: decode_u16_le.cases) auto

lemma decode_str_32:
  assumes "length m \<le> 30" "0 \<notin> set m" "length out = 32"
  shows "\<exists>m'. decode_tibia_string (str_image m @ r) (Some out) 32 = Some (of_nat (length m) + 2, Some m') \<and> cstr m' m"
proof -
  have "min (length m) (unat (32 :: u16) - 1) = length m" using assms(1) by simp
  moreover have "unat (32 :: u16) \<le> length out" using assms(3) by simp
  ultimately have "decode_tibia_string (str_image m @ r) (Some out) 32 =
      Some (of_nat (length m) + 2, Some (m @ [0] @ drop (length m + 1) out))"
    using decode_tibia_encoded [of 32 out m r] assms(1) by (simp add: str_image_def)
  then show ?thesis using assms(2) by fastforce
qed

lemma decode_credentials_request:
  assumes "length name \<le> 30" "length pwd \<le> 30" "0 \<notin> set name" "0 \<notin> set pwd" "length junk = 32" "length keys = 16"
  shows "\<exists>a w. decode_credentials junk (keys @ str_image name @ str_image pwd @ r) =
      Some (of_nat (length name) + 2, of_nat (length pwd) + 2, a, w) \<and> cstr a name \<and> cstr w pwd"
proof -
  obtain a where a: "decode_tibia_string (str_image name @ str_image pwd @ r) (Some junk) 32 =
      Some (of_nat (length name) + 2, Some a)" "cstr a name"
    using decode_str_32 [OF assms(1,3,5)] by blast
  obtain w where w: "decode_tibia_string (str_image pwd @ r) (Some junk) 32 = Some (of_nat (length pwd) + 2, Some w)" "cstr w pwd"
    using decode_str_32 [OF assms(2,4,5)] by blast
  have n: "unat (of_nat (length name) + 2 :: u16) = length name + 2"
  proof -
    have "(of_nat (length name) + 2 :: u16) = of_nat (length name + 2)" by simp
    then show ?thesis using assms(1) by (simp only: unat_of_nat) simp
  qed
  then have le: "\<not> (of_nat (length name) + 2 :: u16) > 32" using assms(1) by (simp add: word_less_nat_alt)
  have d: "drop 16 (keys @ str_image name @ str_image pwd @ r) = str_image name @ str_image pwd @ r"
    "drop (16 + (length name + 2)) (keys @ str_image name @ str_image pwd @ r) = str_image pwd @ r"
    using assms(6) by (simp_all add: str_image_def)
  show ?thesis unfolding decode_credentials_def d(1) using a w le n d(2) by simp
qed

lemma decode_xtea_key_request:
  "decode_xtea_key ((encode_u32_le k0 @ encode_u32_le k1 @ encode_u32_le k2 @ encode_u32_le k3) @ r) = Some [k0, k1, k2, k3]"
  by (simp add: decode_xtea_key_def)

lemma login_request_accepted:
  fixes name pwd r :: bytes and k0 k1 k2 k3 :: u32
  defines "decoded \<equiv> (encode_u32_le k0 @ encode_u32_le k1 @ encode_u32_le k2 @ encode_u32_le k3)
     @ str_image name @ str_image pwd @ r"
  assumes "length data = 149" "decode_u16_le (drop 7 data) = Some 860" "le_rsa env (drop 21 data) = Some (decoded, 127)"
    "length name \<le> 30" "length pwd \<le> 30" "0 \<notin> set name" "0 \<notin> set pwd" "length (le_junk env) = 32"
  shows "\<exists>s' l. login_on_recv_first_message env True started c data s = Some (PROTO_STOP_READING, s')
    \<and> ls_db_tasks s' = ls_db_tasks s @ [ls_fresh s] \<and> ls_logins s' = (ls_logins s)(ls_fresh s \<mapsto> l)
    \<and> li_output l = None \<and> li_connection l = c \<and> li_xtea l = [k0, k1, k2, k3]
    \<and> cstr (li_accname l) name \<and> cstr (li_password l) pwd \<and> ls_conns s' = ls_conns s"
proof -
  have "length (encode_u32_le k0 @ encode_u32_le k1 @ encode_u32_le k2 @ encode_u32_le k3) = 16" by simp
  from decode_credentials_request [OF assms(5-9) this]
  obtain a w where c: "decode_credentials (le_junk env) decoded =
      Some (of_nat (length name) + 2, of_nat (length pwd) + 2, a, w)" "cstr a name" "cstr w pwd"
    unfolding decoded_def by blast
  have short: "\<not> (of_nat (length m) + 2 :: u16) > 32" if "length m \<le> 30" for m :: bytes
  proof -
    have "(of_nat (length m) + 2 :: u16) = of_nat (length m + 2)" by simp
    then have "unat (of_nat (length m) + 2 :: u16) = length m + 2" using that by (simp only: unat_of_nat) simp
    then show ?thesis using that by (simp add: word_less_nat_alt)
  qed
  have key: "decode_xtea_key decoded = Some [k0, k1, k2, k3]"
    unfolding decoded_def by (rule decode_xtea_key_request)
  let ?l = "\<lparr>li_output = None, li_connection = c, li_xtea = [k0, k1, k2, k3], li_accname = a, li_password = w\<rparr>"
  let ?s = "s\<lparr>ls_fresh := ls_fresh s + 1, ls_logins := (ls_logins s)(ls_fresh s \<mapsto> ?l),
    ls_db_tasks := ls_db_tasks s @ [ls_fresh s]\<rparr>"
  have "login_on_recv_first_message env True started c data s = Some (PROTO_STOP_READING, ?s)"
    using short [OF assms(5)] short [OF assms(6)]
    by (simp add: login_on_recv_first_message_def assms(2-4) key c(1) TIBIA_CLIENT_VERSION_MIN_def
        TIBIA_CLIENT_VERSION_MAX_def Let_def)
  then show ?thesis using c(2,3) by (intro exI [of _ ?s] exI [of _ ?l]) simp
qed

subsection \<open>Properties\<close>

text \<open>A request that a client of version 8.60 writes, its key, a name and a password of at most 30
  characters each, is parsed to these, queued for the database thread, and the connection stops
  reading.\<close>

theorem login_request_roundtrip:
  fixes name pwd :: bytes
  assumes "length data = 149" "decode_u16_le (drop 7 data) = Some 860"
    "le_rsa env (drop 21 data) = Some ((encode_u32_le k0 @ encode_u32_le k1 @ encode_u32_le k2 @ encode_u32_le k3)
       @ str_image name @ str_image pwd @ r, 127)"
    "length name \<le> 30" "length pwd \<le> 30" "0 \<notin> set name" "0 \<notin> set pwd" "length (le_junk env) = 32"
  shows "\<exists>s' l. login_on_recv_first_message env True started c data s = Some (PROTO_STOP_READING, s')
    \<and> ls_db_tasks s' = ls_db_tasks s @ [ls_fresh s] \<and> ls_logins s' = (ls_logins s)(ls_fresh s \<mapsto> l)
    \<and> li_output l = None \<and> li_connection l = c \<and> li_xtea l = [k0, k1, k2, k3]
    \<and> cstr (li_accname l) name \<and> cstr (li_password l) pwd \<and> ls_conns s' = ls_conns s"
  by (rule login_request_accepted [OF assms])

text \<open>C3: Whatever the three threads do, in any order, every output buffer in use has exactly one owner, a
  connection or a login info; the others are idle in the pool; every login info that was allocated and
  not freed is in exactly one task queue; and a connection whose write is outstanding owns its buffer.\<close>

theorem login_ownership:
  assumes "login_reach env mem s" "env_ok env" "\<forall>b. length (ob_base (mem b)) = MAX_OUTBUF_LEN"
  shows "inj_on (owners s) (dom (owners s))
    \<and> (\<exists>idle. idle_chain (outbuf_next (ls_pool s)) (outbuf_head (ls_pool s)) idle
         \<and> ran (owners s) \<inter> set idle = {} \<and> ran (owners s) \<union> set idle = outbuf_heap (ls_pool s))
    \<and> distinct (ls_db_tasks s @ ls_server_tasks s)
    \<and> set (ls_db_tasks s @ ls_server_tasks s) = dom (ls_logins s)
    \<and> (\<forall>c k. ls_conns s c = Some k \<and> lc_writing k \<longrightarrow> lc_udata k \<noteq> None)"
proof -
  have inv: "login_inv {} s" using login_reach_inv assms by blast
  then have "own (ls_pool s) (owners s)" by (rule login_inv_own)
  then have "inj_on (owners s) (dom (owners s))" "\<exists>idle. idle_chain (outbuf_next (ls_pool s)) (outbuf_head (ls_pool s)) idle
         \<and> ran (owners s) \<inter> set idle = {} \<and> ran (owners s) \<union> set idle = outbuf_heap (ls_pool s)"
    by (auto simp: own_def outbuf.owned_def pool_rel_def)
  moreover have "distinct (ls_db_tasks s @ ls_server_tasks s)"
    "set (ls_db_tasks s @ ls_server_tasks s) = dom (ls_logins s)"
    using inv by (simp_all add: login_inv_def)
  moreover have "\<forall>c k. ls_conns s c = Some k \<and> lc_writing k \<longrightarrow> lc_udata k \<noteq> None"
    using inv unfolding login_inv_def by - (elim conjE, blast)
  ultimately show ?thesis by blast
qed

text \<open>C18: No step of a login runs into undefined behaviour, whatever a client sends, but one: the list of
  the characters of an account is written without a check, and goes past the output buffer exactly when
  it is too long, at more than 16368 bytes with its header and padding.\<close>

theorem login_charlist_overflow:
  assumes "login_reach env mem s" "env_ok env" "\<forall>b. length (ob_base (mem b)) = MAX_OUTBUF_LEN" "env_strings env f"
  shows "(login_step env s None \<longrightarrow> (\<exists>accid names. le_account_charlist env accid = Some names \<and> charlist_fails env names))
    \<and> (\<forall>accid names. le_account_charlist env accid = Some names \<longrightarrow>
         (charlist_fails env names \<longleftrightarrow> MAX_OUTBUF_LEN < message_size (7 + length (f (str ''motd''))
            + (\<Sum>n \<leftarrow> names. 10 + length (c_string n) + length (f (str ''sv_name''))))))"
proof (intro conjI allI impI)
  assume "login_step env s None"
  then show "\<exists>accid names. le_account_charlist env accid = Some names \<and> charlist_fails env names"
    using login_step_inv [of env s None] login_reach_inv [OF assms(1-3)] assms(2) by simp
next
  fix accid names assume n: "le_account_charlist env accid = Some names"
  have "config_holds (le_config env) f" "\<forall>n \<in> set names. 0 \<in> set n \<and> length (c_string n) < 2 ^ 16"
    using assms(4) n by (auto simp: env_strings_def)
  from charlist_fails_size [OF this]
  show "charlist_fails env names \<longleftrightarrow> MAX_OUTBUF_LEN < message_size (7 + length (f (str ''motd''))
            + (\<Sum>n \<leftarrow> names. 10 + length (c_string n) + length (f (str ''sv_name''))))"
    by (simp add: charlist_image_length)
qed

text \<open>C17: The answer to a queued request is the one its name and password call for: the list of characters
  only to a name with an account whose password is equal, else a message why not.  It is wrapped with
  the key of the request.\<close>

theorem login_answer_functional:
  assumes "login_reach env mem s" "env_ok env" "\<forall>b. length (ob_base (mem b)) = MAX_OUTBUF_LEN" "env_strings env f"
    "ls_db_tasks s = p # ps" "ls_logins s p = Some l"
    "database_resolve_login env True p (s\<lparr>ls_db_tasks := ps\<rparr>) = Some s'"
  shows "answered p (li_xtea l) (login_answer env f l) s'"
proof -
  let ?s = "s\<lparr>ls_db_tasks := ps\<rparr>"
  have inv: "login_inv {} s" using login_reach_inv assms(1-3) by blast
  have t: "login_inv {p} ?s" "\<exists>l. ls_logins ?s p = Some l \<and> (li_output l = None \<longleftrightarrow> p \<in> set (ls_db_tasks s))
      \<and> (p \<in> set (ls_db_tasks s) \<longrightarrow> li_strings l)"
    using take_task_inv [OF inv, of p ps ?s] assms(5) by blast+
  then have "li_strings l" "ls_logins ?s p = Some l" using assms(5,6) by auto
  then show ?thesis
    using database_resolve_login_answer [OF t(1) _ _ _ assms(2,4,7)] by (simp add: li_strings_def)
qed

subsection \<open>Example\<close>

text \<open>Account \<^verbatim>\<open>bob\<close> with password \<^verbatim>\<open>pw\<close> and one character, and a request for it.\<close>

definition example_request :: bytes where
  "example_request = replicate 7 0 @ [0x5C, 0x03] @ replicate 140 0"

definition example_decoded :: bytes where
  "example_decoded = (encode_u32_le 1 @ encode_u32_le 2 @ encode_u32_le 3 @ encode_u32_le 4)
     @ str_image (str ''bob'') @ str_image (str ''pw'') @ replicate 103 0"

definition example_env :: login_env where
  "example_env = \<lparr>le_rsa = (\<lambda>d. Some (example_decoded, 127)),
     le_account_info = (\<lambda>name. if c_string name = str ''bob'' then Some [(1, str ''pw'' @ [0])] else Some []),
     le_account_charlist = (\<lambda>accid. Some [str ''Hero'' @ [0]]),
     le_config = the (config_init example_argv), le_long_bits = 64, le_junk = replicate 32 0\<rparr>"

abbreviation example_settings :: "bytes \<Rightarrow> bytes" where
  "example_settings \<equiv> fold arg_update (tl example_args) default_value"

definition example_mem :: "nat \<Rightarrow> outbuf" where
  "example_mem b = \<lparr>ob_ptr = 0, ob_base = replicate MAX_OUTBUF_LEN 0\<rparr>"

lemma example_mem_length: "\<forall>b. length (ob_base (example_mem b)) = MAX_OUTBUF_LEN"
  by (simp add: example_mem_def)

lemma example_strs: "0 \<notin> set (str ''bob'')" "0 \<notin> set (str ''pw'')" "length (str ''bob'') = 3"
  "length (str ''pw'') = 2" "c_string (str ''Hero'' @ [0]) = str ''Hero''" "length (str ''Hero'') = 4"
  by (simp_all add: str_def c_string_def)

lemma example_env_ok: "env_ok example_env"
proof -
  have "length example_decoded = 128" by (simp add: example_decoded_def str_image_def example_strs)
  then show ?thesis by (auto simp: env_ok_def example_env_def)
qed

lemma example_env_strings: "env_strings example_env example_settings"
proof -
  obtain tab where "config_init example_argv = Some tab" "config_holds tab example_settings"
    using config_init_holds [OF example_argv_cstr] by blast
  then show ?thesis by (simp add: env_strings_def example_env_def example_strs)
qed

lemma example_request_fits:
  "length example_request = 149" "decode_u16_le (drop 7 example_request) = Some 860"
  "le_rsa example_env (drop 21 example_request) = Some ((encode_u32_le 1 @ encode_u32_le 2 @ encode_u32_le 3 @ encode_u32_le 4)
     @ str_image (str ''bob'') @ str_image (str ''pw'') @ replicate 103 0, 127)"
  "length (str ''bob'') \<le> 30" "length (str ''pw'') \<le> 30" "length (le_junk example_env) = 32"
  by (simp_all add: example_request_def example_env_def example_decoded_def example_strs)

theorem login_request_roundtrip_witness:
  "\<exists>s' l. login_on_recv_first_message example_env True True 5 example_request (login_start example_mem)
      = Some (PROTO_STOP_READING, s') \<and> ls_db_tasks s' = [0]
    \<and> ls_logins s' 0 = Some l \<and> li_xtea l = [1, 2, 3, 4] \<and> cstr (li_accname l) (str ''bob'') \<and> cstr (li_password l) (str ''pw'')"
  using login_request_roundtrip [OF example_request_fits(1,2,3,4,5) example_strs(1,2) example_request_fits(6),
      of True 5 "login_start example_mem"]
  by (auto simp: login_start_def)

text \<open>A connection is assigned and its request is queued.\<close>

lemma example_reach:
  "\<exists>s l. login_reach example_env example_mem s \<and> ls_db_tasks s = [0] \<and> ls_logins s 0 = Some l
    \<and> li_output l = None \<and> cstr (li_accname l) (str ''bob'') \<and> cstr (li_password l) (str ''pw'')
    \<and> li_xtea l = [1, 2, 3, 4]"
proof -
  let ?k = "\<lparr>lc_udata = None, lc_writing = False, lc_first_msg = False\<rparr>"
  let ?s0 = "login_start example_mem"
  let ?s1 = "?s0\<lparr>ls_conns := (ls_conns ?s0)(5 \<mapsto> ?k)\<rparr>"
  have "login_step example_env ?s0 (map_option snd (login_on_assign_protocol 5 ?s1))"
    by (rule ls_assign) (simp_all add: login_start_def)
  moreover have "map_option snd (login_on_assign_protocol 5 ?s1) = Some ?s1"
    by (simp add: login_on_assign_protocol_def set_udata_def)
  ultimately have r1: "login_reach example_env example_mem ?s1"
    using lr_step [OF lr_start] by simp
  let ?s2 = "?s1\<lparr>ls_conns := (ls_conns ?s1)(5 \<mapsto> ?k\<lparr>lc_first_msg := True\<rparr>)\<rparr>"
  obtain s' l where s': "login_on_recv_first_message example_env True True 5 example_request ?s2 = Some (PROTO_STOP_READING, s')"
    "ls_db_tasks s' = ls_db_tasks ?s2 @ [ls_fresh ?s2]" "ls_logins s' = (ls_logins ?s2)(ls_fresh ?s2 \<mapsto> l)"
    "li_output l = None" "cstr (li_accname l) (str ''bob'')" "cstr (li_password l) (str ''pw'')" "li_xtea l = [1, 2, 3, 4]"
    using login_request_accepted [OF example_request_fits(1,2,3,4,5) example_strs(1,2) example_request_fits(6), of True 5 ?s2]
    by blast
  have "login_step example_env ?s1 (Some s')"
    using ls_first [of ?s1 5 ?k example_env True True example_request] s'(1) by simp
  then have "login_reach example_env example_mem s'" by (rule lr_step [OF r1])
  then show ?thesis using s'(2-) by (intro exI [of _ s'] exI [of _ l]) (simp add: login_start_def)
qed

theorem login_ownership_witness:
  "\<exists>s. login_reach example_env example_mem s \<and> ls_db_tasks s = [0] \<and> 0 \<in> dom (ls_logins s)
    \<and> 0 \<notin> set (ls_server_tasks s)"
proof -
  obtain s where s: "login_reach example_env example_mem s" "ls_db_tasks s = [0]"
    using example_reach by blast
  then show ?thesis using login_ownership [OF s(1) example_env_ok example_mem_length]
    by (intro exI [of _ s]) (auto simp flip: set_append)
qed

text \<open>An account of 400 characters with names of 29 letters.\<close>

definition full_env :: login_env where
  "full_env = example_env\<lparr>le_account_charlist := (\<lambda>accid. Some (replicate 400 (replicate 29 0x41 @ [0])))\<rparr>"

lemma c_string_letters: "c_string (replicate 29 0x41 @ [0]) = replicate 29 0x41"
  by (rule c_string_append0) simp

lemma full_env_ok: "env_ok full_env" "env_strings full_env example_settings"
  using example_env_ok example_env_strings c_string_letters
  by (auto simp: env_ok_def env_strings_def full_env_def)

theorem login_charlist_overflow_witness:
  "charlist_fails full_env (replicate 400 (replicate 29 0x41 @ [0])) \<and> \<not> charlist_fails example_env [str ''Hero'' @ [0]]"
proof -
  have l: "length (example_settings (str ''motd'')) = 4" "length (example_settings (str ''sv_name'')) = 4"
    unfolding example_values by (simp_all add: str_def)
  have sum: "(\<Sum>n \<leftarrow> replicate 400 (replicate 29 0x41 @ [0]). 10 + length (c_string n) + length (example_settings (str ''sv_name''))) = 17200"
    unfolding l by (simp add: sum_list_replicate c_string_letters)
  have "le_account_charlist full_env 0 = Some (replicate 400 (replicate 29 0x41 @ [0]))"
    by (simp add: full_env_def)
  moreover have "MAX_OUTBUF_LEN < message_size (7 + 4 + 17200)" by (simp add: MAX_OUTBUF_LEN_def message_size_def)
  ultimately have "charlist_fails full_env (replicate 400 (replicate 29 0x41 @ [0]))"
    using login_charlist_overflow [OF lr_start full_env_ok(1) example_mem_length full_env_ok(2)] l sum by simp
  moreover have "le_account_charlist example_env 0 = Some [str ''Hero'' @ [0]]" by (simp add: example_env_def)
  then have "\<not> charlist_fails example_env [str ''Hero'' @ [0]]"
    using login_charlist_overflow [OF lr_start example_env_ok example_mem_length example_env_strings] l
    by (simp add: example_strs MAX_OUTBUF_LEN_def message_size_def)
  ultimately show ?thesis by blast
qed

theorem login_answer_functional_witness:
  "\<exists>s. answered 0 [1, 2, 3, 4] (charlist_image example_env example_settings [str ''Hero'' @ [0]]) s"
proof -
  obtain s l where s: "login_reach example_env example_mem s" "ls_db_tasks s = [0]" "ls_logins s 0 = Some l"
    "cstr (li_accname l) (str ''bob'')" "cstr (li_password l) (str ''pw'')" "li_xtea l = [1, 2, 3, 4]"
    using example_reach by blast
  have c: "c_string (li_accname l) = str ''bob''" "c_string (li_password l) = str ''pw''"
    using cstr_c_string(1) s(4,5) by blast+
  have "c_string (str ''pw'' @ [0]) = str ''pw''" by (simp add: str_def c_string_def)
  then have a: "login_answer example_env example_settings l = charlist_image example_env example_settings [str ''Hero'' @ [0]]"
    by (simp add: login_answer_def c example_env_def) (simp add: str_def)
  have inv: "login_inv {} s" using login_reach_inv [OF s(1) example_env_ok example_mem_length] .
  have "\<exists>s'. database_resolve_login example_env True 0 (s\<lparr>ls_db_tasks := []\<rparr>) = Some s'"
  proof (rule ccontr)
    assume "\<not> ?thesis"
    then have "database_resolve_login example_env True 0 (s\<lparr>ls_db_tasks := []\<rparr>) = None" by simp
    then have "login_step example_env s None" using ls_db_task [OF s(2), of example_env] by simp
    then obtain accid names where n: "le_account_charlist example_env accid = Some names" "charlist_fails example_env names"
      using login_step_inv [of example_env s None] inv example_env_ok by auto
    then have "names = [str ''Hero'' @ [0]]" by (simp add: example_env_def)
    then show False
      using n(2) charlist_fails_size [of example_env example_settings names] example_env_strings n(1)
      by (simp add: charlist_image_length example_values example_strs env_strings_def MAX_OUTBUF_LEN_def message_size_def)
        (simp add: str_def)
  qed
  then obtain s' where "database_resolve_login example_env True 0 (s\<lparr>ls_db_tasks := []\<rparr>) = Some s'" by blast
  from login_answer_functional [OF s(1) example_env_ok example_mem_length example_env_strings s(2,3) this]
  show ?thesis unfolding a s(6) by blast
qed

end
