(* ===== verification/Protocol_Game.thy ===== *)
theory Protocol_Game
  imports Protocol_Echo Login_Properties
begin

text \<open>
  The game protocol \<^verbatim>\<open>src/src/protocol_game.c\<close>, which speaks first and as yet closes every connection
  after its first message.  The message is read through the memory from \<^verbatim>\<open>data\<close> to the end of the
  input buffer of the connection; \<^theory_text>\<open>None\<close> is an access outside it.
\<close>

subsection \<open>The callbacks\<close>

definition game_on_assign_protocol ::
  "u32 \<Rightarrow> ('p, 'd option, 'w) connmgr \<Rightarrow> (bool \<times> ('p, 'd option, 'w) connmgr) option" where
  "game_on_assign_protocol c m = map_option (Pair True) (set_handle c None m)"

definition challenge :: bytes where
  "challenge = [
     0x0C, 0x00,
     0x23, 0x03, 0xE8, 0x0A,
     0x06, 0x00,
     0x1F, 0xFF, 0xFF, 0x00, 0x00, 0xFF]"

definition game_on_connect ::
  "'w conn_os \<Rightarrow> u32 \<Rightarrow> ('p, 'd, 'w) connmgr \<Rightarrow> (protocol_status \<times> ('p, 'd, 'w) connmgr) option" where
  "game_on_connect sys c m = do {
     (sent, m1) \<leftarrow> connection_send sys c challenge (of_nat (length challenge)) m;
     Some (PROTO_OK, m1)
   }"

record game_login =
  gl_xtea :: "u32 list"
  gl_gm_flag :: bool
  gl_accname :: bytes
  gl_password :: bytes
  gl_charname :: bytes

text \<open>The three strings; \<open>S\<close> is the 16-bit sum of the sizes read so far.\<close>

definition decode_names :: "bytes \<Rightarrow> bytes \<Rightarrow> (u16 \<times> u16 \<times> u16 \<times> bytes \<times> bytes \<times> bytes) option" where
  "decode_names junk decoded = do {
     (A, accname) \<leftarrow> decode_tibia_string (drop 17 decoded) (Some junk) 32;
     let S = A;
     (B, charname) \<leftarrow> (if A > 32 then Some (0, Some junk)
        else decode_tibia_string (drop (17 + unat S) decoded) (Some junk) 32);
     let S = S + B;
     (C, password) \<leftarrow> (if B > 32 then Some (0, Some junk)
        else decode_tibia_string (drop (17 + unat S) decoded) (Some junk) 32);
     case (accname, charname, password) of
       (Some a, Some n, Some w) \<Rightarrow> Some (A, B, C, a, n, w)
     | _ \<Rightarrow> None
   }"

text \<open>\<open>rsa\<close> is \<^verbatim>\<open>tibia_rsa_decode\<close> on 128 bytes, \<open>junk\<close> what \<^verbatim>\<open>kpl_malloc\<close> leaves in an array of 32
  characters.  The result has the login data that is logged; it is always freed.\<close>

definition game_on_recv_first_message ::
  "(bytes \<Rightarrow> (bytes \<times> nat) option) \<Rightarrow> bytes \<Rightarrow> bytes \<Rightarrow> nat \<Rightarrow> (protocol_status \<times> game_login option) option" where
  "game_on_recv_first_message rsa junk mem datalen =
     (if datalen \<noteq> 137 then Some (PROTO_CLOSE, None)
      else do {
        version \<leftarrow> decode_u16_le (drop 7 mem);
        if version < 830 then Some (PROTO_CLOSE, None)
        else do {
          cipher \<leftarrow> mem_read 9 128 mem;
          case rsa cipher of
            None \<Rightarrow> Some (PROTO_CLOSE, None)
          | Some (plain, decoded_len) \<Rightarrow>
              if decoded_len \<noteq> 127 then Some (PROTO_CLOSE, None)
              else do {
                let decoded = plain @ drop 137 mem;
                xtea \<leftarrow> decode_xtea_key decoded;
                if version < TIBIA_CLIENT_VERSION_MIN \<or> version > TIBIA_CLIENT_VERSION_MAX
                then Some (PROTO_CLOSE, None)
                else do {
                  flag \<leftarrow> decode_u8 (drop 16 decoded);
                  (A, B, C, accname, charname, password) \<leftarrow> decode_names junk decoded;
                  if A > 32 \<or> B > 32 \<or> C > 32 then Some (PROTO_CLOSE, None)
                  else Some (PROTO_CLOSE, Some \<lparr>gl_xtea = xtea, gl_gm_flag = (flag = 0x01),
                    gl_accname = accname, gl_password = password, gl_charname = charname\<rparr>)
                }
              }
        }
      })"

text \<open>The protocol as callbacks of the connection manager.  The first message lies in the input buffer of
  its connection; \<open>stale\<close> is the rest of that buffer.\<close>

definition game_env ::
  "'w conn_os \<Rightarrow> (bytes \<Rightarrow> (bytes \<times> nat) option) \<Rightarrow> bytes \<Rightarrow> bytes \<Rightarrow> (unit, 'd option, 'w) conn_env" where
  "game_env sys rsa junk stale = \<lparr>os = sys,
     proto_info = \<lparr>sends_first = (\<lambda>p. True), identify = (\<lambda>p data. False)\<rparr>,
     on_assign_protocol = (\<lambda>p c m. case game_on_assign_protocol c m of Some r \<Rightarrow> r | None \<Rightarrow> (False, m)),
     on_close = (\<lambda>p c m. m),
     on_connect = (\<lambda>p c m. case game_on_connect sys c m of Some r \<Rightarrow> r | None \<Rightarrow> (PROTO_ABORT, m)),
     on_write = (\<lambda>p c m. (PROTO_OK, m)),
     on_recv_message = (\<lambda>p c d m. (PROTO_CLOSE, m)),
     on_recv_first_message = (\<lambda>p c d m.
       case game_on_recv_first_message rsa junk (d @ stale) (length d) of
         Some (status, login) \<Rightarrow> (status, m) | None \<Rightarrow> (PROTO_ABORT, m))\<rparr>"

lemmas game_env_simps = game_env_def conn_env.simps protocol_info.simps

subsection \<open>The callbacks keep the contract\<close>

interpretation game: conn_protocols "game_env sys rsa junk stale :: (unit, 'd option, 'w) conn_env"
  for sys :: "'w conn_os" and rsa and junk stale :: bytes
proof unfold_locales
  fix X :: "nat set" and m m' :: "(unit, 'd option, 'w) connmgr" and i p c ok st data
  let ?e = "game_env sys rsa junk stale :: (unit, 'd option, 'w) conn_env"
  assume call: "callable ?e X m i p c"
  note keep = callable_keep [OF call]
  obtain m1 where m1: "set_handle c None m = Some m1" "callable ?e X m1 i p c" "conn_frame i m m1"
    using set_handle_callable [OF call, of None] by blast
  show "on_assign_protocol ?e p c m = (ok, m') \<Longrightarrow> cm_inv ?e X m' \<and> conn_frame i m m'"
    using callable_end [OF m1(2,3)] by (simp add: game_env_simps game_on_assign_protocol_def m1(1))
  obtain sent m2 where m2: "connection_send sys c challenge (of_nat (length challenge)) m = Some (sent, m2)"
    "callable ?e X m2 i p c" "conn_frame i m m2"
    using send_callable [OF call, of sys challenge "of_nat (length challenge)"] by blast
  have cn: "game_on_connect sys c m = Some (PROTO_OK, m2)" unfolding game_on_connect_def m2(1) by simp
  show "on_connect ?e p c m = (st, m') \<Longrightarrow>
      cm_inv ?e X m' \<and> conn_frame i m m' \<and> st \<noteq> PROTO_STOP_READING"
    using callable_end [OF m2(2,3)] by (simp add: game_env_simps cn)
  show "cm_inv ?e X (on_close ?e p c m) \<and> conn_frame i m (on_close ?e p c m)
      \<and> ops_on i (on_close ?e p c m) = ops_on i m"
    using keep by (simp add: game_env_simps)
  show "on_write ?e p c m = (st, m') \<Longrightarrow> cm_inv ?e X m' \<and> conn_frame i m m' \<and> st \<noteq> PROTO_STOP_READING"
    using keep by (auto simp: game_env_simps)
  show "on_recv_message ?e p c data m = (st, m') \<Longrightarrow> cm_inv ?e X m' \<and> conn_frame i m m'"
    using keep by (auto simp: game_env_simps)
  show "on_recv_first_message ?e p c data m = (st, m') \<Longrightarrow> cm_inv ?e X m' \<and> conn_frame i m m'"
    using keep by (auto simp: game_env_simps split: option.splits)
qed

subsection \<open>The login message\<close>

lemma decode_tibia_string_len:
  "decode_tibia_string d out n = Some (A, s) \<Longrightarrow> decode_u16_le d = Some len \<Longrightarrow> A = len + 2"
  by (auto simp: decode_tibia_string_def bind_eq_Some_conv)

lemma decode_tibia_string_short: "length d < 2 \<Longrightarrow> decode_tibia_string d out n = None"
  by (cases d rule: decode_u16_le.cases) (auto simp: decode_tibia_string_def)

lemma decode_tibia_string_at:
  assumes "length junk = 32" "off + 33 \<le> length d"
  shows "\<exists>A s. decode_tibia_string (drop off d) (Some junk) 32 = Some (A, Some s)"
proof -
  have "33 \<le> length (drop off d)" using assms(2) by simp
  from decode_tibia_string_32 [OF this assms(1)] show ?thesis by blast
qed

lemma unat_add_u16: "unat x = a \<Longrightarrow> unat y = b \<Longrightarrow> a + b < 65536 \<Longrightarrow> unat (x + y :: u16) = a + b"
  by (auto simp: unat_word_ariths)

lemma decode_names_short:
  assumes "length junk = 32" "128 \<le> length decoded" "decode_u16_le (drop 17 decoded) = Some len" "len + 2 \<le> 32"
  shows "\<exists>A B C a n w. decode_names junk decoded = Some (A, B, C, a, n, w)"
proof -
  obtain A a where a: "decode_tibia_string (drop 17 decoded) (Some junk) 32 = Some (A, Some a)"
    using decode_tibia_string_at [OF assms(1), of 17 decoded] assms(2) by auto
  then have A: "A = len + 2" using decode_tibia_string_len assms(3) by blast
  then have "unat A \<le> 32" using assms(4) by (simp add: word_le_nat_alt)
  then obtain B n where n: "decode_tibia_string (drop (17 + unat A) decoded) (Some junk) 32 = Some (B, Some n)"
    using decode_tibia_string_at [OF assms(1), of "17 + unat A" decoded] assms(2) by auto
  show ?thesis
  proof (cases "B > 32")
    case True
    then show ?thesis using a n A leD [OF assms(4)] by (simp add: decode_names_def)
  next
    case False
    then have "unat (A + B) \<le> 64"
      using \<open>unat A \<le> 32\<close> unat_plus_simple [of A B] by (simp add: word_le_nat_alt unat_word_ariths not_less)
    then obtain C w where "decode_tibia_string (drop (17 + unat (A + B)) decoded) (Some junk) 32 = Some (C, Some w)"
      using decode_tibia_string_at [OF assms(1), of "17 + unat (A + B)" decoded] assms(2) by auto
    then show ?thesis using a n A leD [OF assms(4)] False by (simp add: decode_names_def)
  qed
qed

lemma decode_names_long:
  assumes "length junk = 32" "128 \<le> length decoded" "decode_u16_le (drop 17 decoded) = Some len" "32 < len + 2"
  shows "length decoded < 19 + unat (len + 2) \<Longrightarrow> decode_names junk decoded = None"
    and "50 + unat (len + 2) \<le> length decoded \<Longrightarrow>
      \<exists>B C a n w. decode_names junk decoded = Some (len + 2, B, C, a, n, w)"
proof -
  obtain A a where a: "decode_tibia_string (drop 17 decoded) (Some junk) 32 = Some (A, Some a)"
    using decode_tibia_string_at [OF assms(1), of 17 decoded] assms(2) by auto
  then have A: "A = len + 2" using decode_tibia_string_len assms(3) by blast
  have eq: "decode_names junk decoded = do {
     (C, password) \<leftarrow> decode_tibia_string (drop (17 + unat (len + 2)) decoded) (Some junk) 32;
     case password of Some w \<Rightarrow> Some (len + 2, 0, C, a, junk, w) | None \<Rightarrow> None}"
    using a A assms(4) by (simp add: decode_names_def)
  show "length decoded < 19 + unat (len + 2) \<Longrightarrow> decode_names junk decoded = None"
    unfolding eq by (subst decode_tibia_string_short) auto
  assume "50 + unat (len + 2) \<le> length decoded"
  then obtain C w where "decode_tibia_string (drop (17 + unat (len + 2)) decoded) (Some junk) 32 = Some (C, Some w)"
    using decode_tibia_string_at [OF assms(1), of "17 + unat (len + 2)" decoded] by auto
  then show "\<exists>B C a n w. decode_names junk decoded = Some (len + 2, B, C, a, n, w)" unfolding eq by simp
qed

lemma str_size: "length m \<le> 30 \<Longrightarrow> unat (of_nat (length m) + 2 :: u16) = length m + 2"
proof -
  assume "length m \<le> 30"
  moreover have "(of_nat (length m) + 2 :: u16) = of_nat (length m + 2)" by simp
  ultimately show ?thesis by (simp only: unat_of_nat) simp
qed

lemma decode_names_request:
  assumes "length acc \<le> 30" "length name \<le> 30" "length pwd \<le> 30" "0 \<notin> set acc" "0 \<notin> set name" "0 \<notin> set pwd"
    "length junk = 32" "length keys = 16"
  shows "\<exists>A B C a n w. decode_names junk (keys @ [flag] @ str_image acc @ str_image name @ str_image pwd @ r) =
      Some (A, B, C, a, n, w) \<and> A \<le> 32 \<and> B \<le> 32 \<and> C \<le> 32 \<and> cstr a acc \<and> cstr n name \<and> cstr w pwd"
proof -
  let ?size = "\<lambda>m :: bytes. of_nat (length m) + 2 :: u16"
  obtain a where a: "decode_tibia_string (str_image acc @ str_image name @ str_image pwd @ r) (Some junk) 32 =
      Some (?size acc, Some a)" "cstr a acc"
    using decode_str_32 [OF assms(1,4,7)] by blast
  obtain n where n: "decode_tibia_string (str_image name @ str_image pwd @ r) (Some junk) 32 = Some (?size name, Some n)" "cstr n name"
    using decode_str_32 [OF assms(2,5,7)] by blast
  obtain w where w: "decode_tibia_string (str_image pwd @ r) (Some junk) 32 = Some (?size pwd, Some w)" "cstr w pwd"
    using decode_str_32 [OF assms(3,6,7)] by blast
  note sz = str_size [OF assms(1)] str_size [OF assms(2)] str_size [OF assms(3)]
  have le: "?size acc \<le> 32" "?size name \<le> 32" "?size pwd \<le> 32"
    using sz assms(1-3) by (simp_all add: word_le_nat_alt)
  have sum: "unat (?size acc + ?size name) = length acc + 2 + (length name + 2)"
    using unat_add_u16 [OF sz(1,2)] assms(1,2) by simp
  have skip: "drop k (p @ x) = x" if "length p = k" for k and p x :: bytes using that by simp
  have d: "drop 17 (keys @ [flag] @ x) = x" for x
    using skip [of "keys @ [flag]"] assms(8) by simp
  have d1: "drop (17 + (length acc + 2)) (keys @ [flag] @ str_image acc @ x) = x" for x
    by (rule skip [of "keys @ [flag] @ str_image acc", unfolded append_assoc]) (simp add: assms(8) str_image_def)
  have d2: "drop (17 + (length acc + 2 + (length name + 2))) (keys @ [flag] @ str_image acc @ str_image name @ x) = x" for x
    by (rule skip [of "keys @ [flag] @ str_image acc @ str_image name", unfolded append_assoc]) (simp add: assms(8) str_image_def)
  show ?thesis
    unfolding decode_names_def d
    using a n w leD [OF le(1)] leD [OF le(2)] le sz(1) sum d1 d2 by (simp add: Let_def)
qed

lemma game_first_message_decoded:
  assumes "137 \<le> length mem" "decode_u16_le (drop 7 mem) = Some 860" "rsa (take 128 (drop 9 mem)) = Some (plain, 127)"
    "length plain = 128"
  shows "\<exists>x. decode_xtea_key (plain @ drop 137 mem) = Some x \<and> game_on_recv_first_message rsa junk mem 137 =
    do {
      (A, B, C, accname, charname, password) \<leftarrow> decode_names junk (plain @ drop 137 mem);
      if A > 32 \<or> B > 32 \<or> C > 32 then Some (PROTO_CLOSE, None)
      else Some (PROTO_CLOSE, Some \<lparr>gl_xtea = x, gl_gm_flag = (plain ! 16 = 0x01),
        gl_accname = accname, gl_password = password, gl_charname = charname\<rparr>)
    }"
proof -
  obtain x where x: "decode_xtea_key (plain @ drop 137 mem) = Some x"
    using decode_xtea_key_total [of "plain @ drop 137 mem"] assms(4) by auto
  have "drop 16 plain = plain ! 16 # drop 17 plain" using Cons_nth_drop_Suc [of 16 plain] assms(4) by simp
  then have f: "decode_u8 (drop 16 (plain @ drop 137 mem)) = Some (plain ! 16)" using assms(4) by simp
  show ?thesis
    using x f assms(1-3)
    by (intro exI [of _ x]) (simp add: game_on_recv_first_message_def mem_read_def TIBIA_CLIENT_VERSION_MIN_def
        TIBIA_CLIENT_VERSION_MAX_def Let_def)
qed

subsection \<open>Properties\<close>

text \<open>A login message that a client of version 8.60 writes, its key, the game master flag and three
  names of at most 30 characters each, is parsed to these.\<close>

theorem game_login_roundtrip:
  fixes acc name pwd :: bytes
  assumes "137 \<le> length mem" "decode_u16_le (drop 7 mem) = Some 860"
    "rsa (take 128 (drop 9 mem)) = Some ((encode_u32_le k0 @ encode_u32_le k1 @ encode_u32_le k2 @ encode_u32_le k3)
       @ [flag] @ str_image acc @ str_image name @ str_image pwd @ r, 127)"
    "length acc + length name + length pwd + length r = 105"
    "length acc \<le> 30" "length name \<le> 30" "length pwd \<le> 30" "0 \<notin> set acc" "0 \<notin> set name" "0 \<notin> set pwd"
    "length junk = 32"
  shows "\<exists>l. game_on_recv_first_message rsa junk mem 137 = Some (PROTO_CLOSE, Some l)
    \<and> gl_xtea l = [k0, k1, k2, k3] \<and> gl_gm_flag l = (flag = 1)
    \<and> cstr (gl_accname l) acc \<and> cstr (gl_charname l) name \<and> cstr (gl_password l) pwd"
proof -
  let ?keys = "encode_u32_le k0 @ encode_u32_le k1 @ encode_u32_le k2 @ encode_u32_le k3"
  let ?plain = "?keys @ [flag] @ str_image acc @ str_image name @ str_image pwd @ r"
  have len: "length ?keys = 16" by simp
  have plain: "length ?plain = 128" using assms(4) by (simp add: str_image_def)
  from game_first_message_decoded [where rsa = rsa and junk = junk, OF assms(1-3) plain]
  obtain x where x: "decode_xtea_key (?plain @ drop 137 mem) = Some x"
    "game_on_recv_first_message rsa junk mem 137 = do {
      (A, B, C, accname, charname, password) \<leftarrow> decode_names junk (?plain @ drop 137 mem);
      if A > 32 \<or> B > 32 \<or> C > 32 then Some (PROTO_CLOSE, None)
      else Some (PROTO_CLOSE, Some \<lparr>gl_xtea = x, gl_gm_flag = (?plain ! 16 = 0x01),
        gl_accname = accname, gl_password = password, gl_charname = charname\<rparr>)
    }" by blast
  have "x = [k0, k1, k2, k3]" using x(1) decode_xtea_key_request by simp
  moreover have "?plain ! 16 = flag" using nth_append_length [of ?keys flag] len by simp
  moreover obtain A B C a n w where "decode_names junk (?plain @ drop 137 mem) = Some (A, B, C, a, n, w)"
    "A \<le> 32" "B \<le> 32" "C \<le> 32" "cstr a acc" "cstr n name" "cstr w pwd"
    using decode_names_request [OF assms(5-11) len, of flag "r @ drop 137 mem"] by auto
  ultimately show ?thesis unfolding x(2) by (simp add: not_less [symmetric])
qed

text \<open>C31: The first message is read inside the input buffer if the account name, as its decrypted length
  field has it, is at most 30 bytes long (or at least 65534, where the 16-bit size wraps around).  A longer one is refused, but only after the password was looked for behind it: with a length
  that leads past the buffer the read leaves it.\<close>

theorem game_login_overread:
  assumes "137 \<le> length mem" "decode_u16_le (drop 7 mem) = Some 860" "rsa (take 128 (drop 9 mem)) = Some (plain, 127)"
    "length plain = 128" "length junk = 32" "decode_u16_le (drop 17 plain) = Some len"
  shows "(len + 2 \<le> 32 \<longrightarrow> (\<exists>l. game_on_recv_first_message rsa junk mem 137 = Some (PROTO_CLOSE, l)))
    \<and> (len + 2 > 32 \<and> 59 + unat (len + 2) \<le> length mem \<longrightarrow>
         game_on_recv_first_message rsa junk mem 137 = Some (PROTO_CLOSE, None))
    \<and> (len + 2 > 32 \<and> length mem < 28 + unat (len + 2) \<longrightarrow> game_on_recv_first_message rsa junk mem 137 = None)"
proof -
  let ?d = "plain @ drop 137 mem"
  from game_first_message_decoded [where rsa = rsa and junk = junk, OF assms(1-4)]
  obtain x where x: "game_on_recv_first_message rsa junk mem 137 = do {
      (A, B, C, accname, charname, password) \<leftarrow> decode_names junk ?d;
      if A > 32 \<or> B > 32 \<or> C > 32 then Some (PROTO_CLOSE, None)
      else Some (PROTO_CLOSE, Some \<lparr>gl_xtea = x, gl_gm_flag = (plain ! 16 = 0x01),
        gl_accname = accname, gl_password = password, gl_charname = charname\<rparr>)
    }" by blast
  have d: "128 \<le> length ?d" "decode_u16_le (drop 17 ?d) = Some len" "length ?d = length mem - 9"
    using assms(1,4) decode_u16_le_append [OF assms(6)] by auto
  show ?thesis
  proof (intro conjI impI; (elim conjE)?)
    assume "len + 2 \<le> 32"
    from decode_names_short [OF assms(5) d(1,2) this]
    show "\<exists>l. game_on_recv_first_message rsa junk mem 137 = Some (PROTO_CLOSE, l)" unfolding x by (auto split: if_splits)
  next
    assume a: "32 < len + 2" "59 + unat (len + 2) \<le> length mem"
    then have "50 + unat (len + 2) \<le> length ?d" using d(3) by simp
    from decode_names_long(2) [OF assms(5) d(1,2) a(1) this]
    show "game_on_recv_first_message rsa junk mem 137 = Some (PROTO_CLOSE, None)" unfolding x using a(1) by auto
  next
    assume a: "32 < len + 2" "length mem < 28 + unat (len + 2)"
    then have "length ?d < 19 + unat (len + 2)" using d(3) assms(1) by linarith
    from decode_names_long(1) [OF assms(5) d(1,2) a(1) this]
    show "game_on_recv_first_message rsa junk mem 137 = None" unfolding x by simp
  qed
qed

subsection \<open>Examples\<close>

text \<open>The input buffer of a connection with a login message, and two plain texts.\<close>

definition example_game_mem :: bytes where
  "example_game_mem = replicate 7 0 @ [0x5C, 0x03] @ replicate 1015 0"

definition example_game_plain :: bytes where
  "example_game_plain = (encode_u32_le 1 @ encode_u32_le 2 @ encode_u32_le 3 @ encode_u32_le 4)
     @ [1] @ str_image (str ''bob'') @ str_image (str ''Hero'') @ str_image (str ''pw'') @ replicate 96 0"

definition overread_plain :: bytes where
  "overread_plain = replicate 17 0 @ encode_u16_le 2000 @ replicate 109 0"

lemma example_game_mem_fits: "137 \<le> length example_game_mem" "decode_u16_le (drop 7 example_game_mem) = Some 860"
  "length example_game_mem = 1024"
  by (simp_all add: example_game_mem_def)

theorem game_login_roundtrip_witness:
  "\<exists>l. game_on_recv_first_message (\<lambda>d. Some (example_game_plain, 127)) (replicate 32 0) example_game_mem 137
      = Some (PROTO_CLOSE, Some l) \<and> gl_xtea l = [1, 2, 3, 4] \<and> gl_gm_flag l
    \<and> cstr (gl_accname l) (str ''bob'') \<and> cstr (gl_charname l) (str ''Hero'') \<and> cstr (gl_password l) (str ''pw'')"
  using game_login_roundtrip [OF example_game_mem_fits(1,2), of "\<lambda>d. Some (example_game_plain, 127)"
      1 2 3 4 1 "str ''bob''" "str ''Hero''" "str ''pw''" "replicate 96 0" "replicate 32 0"]
  by (simp add: example_game_plain_def str_def)

theorem game_login_overread_witness:
  "game_on_recv_first_message (\<lambda>d. Some (overread_plain, 127)) (replicate 32 0) example_game_mem 137 = None"
  using game_login_overread [OF example_game_mem_fits(1,2), of "\<lambda>d. Some (overread_plain, 127)" overread_plain
      "replicate 32 0" 2000]
  by (simp add: overread_plain_def example_game_mem_fits(3))

end
