(* ===== verification/Rbtree.thy ===== *)
theory Rbtree
  imports Prelude
begin

text \<open>
  The intrusive red-black tree \<^verbatim>\<open>src/src/rbtree.c\<close>, pointer by pointer.  A node is named by its
  address, \<open>rt_nodes\<close> is the memory where nodes live and \<^theory_text>\<open>None\<close> is the null pointer.  As a result
  \<^theory_text>\<open>None\<close> stands for an access through a null or foreign pointer, and for a loop that does not end.
\<close>

subsection \<open>Nodes and trees\<close>

datatype rb_color = RED | BLACK

record rbnode =
  rn_color :: rb_color
  rn_parent :: "nat option"
  rn_left :: "nat option"
  rn_right :: "nat option"

record rbtree =
  rt_root :: "nat option"
  rt_cached_min :: "nat option"
  rt_compare :: "nat \<Rightarrow> nat \<Rightarrow> int"
  rt_nodes :: "nat \<Rightarrow> rbnode option"

definition set_node :: "nat \<Rightarrow> (rbnode \<Rightarrow> rbnode) \<Rightarrow> rbtree \<Rightarrow> rbtree option" where
  "set_node a f t = (case rt_nodes t a of
     None \<Rightarrow> None | Some n \<Rightarrow> Some (t\<lparr>rt_nodes := (rt_nodes t)(a \<mapsto> f n)\<rparr>))"

abbreviation set_color :: "nat \<Rightarrow> rb_color \<Rightarrow> rbtree \<Rightarrow> rbtree option" where
  "set_color a c \<equiv> set_node a (rn_color_update (\<lambda>_. c))"

abbreviation set_parent :: "nat \<Rightarrow> nat option \<Rightarrow> rbtree \<Rightarrow> rbtree option" where
  "set_parent a p \<equiv> set_node a (rn_parent_update (\<lambda>_. p))"

abbreviation set_left :: "nat \<Rightarrow> nat option \<Rightarrow> rbtree \<Rightarrow> rbtree option" where
  "set_left a p \<equiv> set_node a (rn_left_update (\<lambda>_. p))"

abbreviation set_right :: "nat \<Rightarrow> nat option \<Rightarrow> rbtree \<Rightarrow> rbtree option" where
  "set_right a p \<equiv> set_node a (rn_right_update (\<lambda>_. p))"

definition rbt_init :: "(nat \<Rightarrow> nat \<Rightarrow> int) \<Rightarrow> (nat \<Rightarrow> rbnode option) \<Rightarrow> rbtree" where
  "rbt_init compare nodes =
     \<lparr>rt_root = None, rt_cached_min = None, rt_compare = compare, rt_nodes = nodes\<rparr>"

subsection \<open>Search\<close>

partial_function (option) rbt_find_loop :: "rbtree \<Rightarrow> nat \<Rightarrow> nat option \<Rightarrow> nat option option" where
  "rbt_find_loop t n cur = (case cur of
     None \<Rightarrow> Some None
   | Some c \<Rightarrow> (case rt_nodes t c of
       None \<Rightarrow> None
     | Some node \<Rightarrow>
         if rt_compare t c n = 0 then Some (Some c)
         else if rt_compare t c n < 0 then rbt_find_loop t n (rn_left node)
         else rbt_find_loop t n (rn_right node)))"

definition rbt_find :: "rbtree \<Rightarrow> nat \<Rightarrow> nat option option" where
  "rbt_find t n = rbt_find_loop t n (rt_root t)"

subsection \<open>Rotations\<close>

text \<open>The link that leads to \<open>a\<close>, in its parent or in the tree, is set to \<open>c\<close>.\<close>

definition replace_child :: "nat option \<Rightarrow> nat \<Rightarrow> nat option \<Rightarrow> rbtree \<Rightarrow> rbtree option" where
  "replace_child parent a c t = (case parent of
     Some p \<Rightarrow> do {
       np \<leftarrow> rt_nodes t p;
       if rn_left np = Some a then set_left p c t else set_right p c t
     }
   | None \<Rightarrow> Some (t\<lparr>rt_root := c\<rparr>))"

definition rbt_rotate_left :: "nat \<Rightarrow> rbtree \<Rightarrow> rbtree option" where
  "rbt_rotate_left a t = do {
     na \<leftarrow> rt_nodes t a;
     t \<leftarrow> replace_child (rn_parent na) a (rn_right na) t;
     c \<leftarrow> rn_right na;
     t \<leftarrow> set_parent c (rn_parent na) t;
     t \<leftarrow> set_parent a (Some c) t;
     nc \<leftarrow> rt_nodes t c;
     t \<leftarrow> set_right a (rn_left nc) t;
     t \<leftarrow> set_left c (Some a) t;
     case rn_left nc of Some d \<Rightarrow> set_parent d (Some a) t | None \<Rightarrow> Some t
   }"

definition rbt_rotate_right :: "nat \<Rightarrow> rbtree \<Rightarrow> rbtree option" where
  "rbt_rotate_right a t = do {
     na \<leftarrow> rt_nodes t a;
     t \<leftarrow> replace_child (rn_parent na) a (rn_left na) t;
     b \<leftarrow> rn_left na;
     t \<leftarrow> set_parent b (rn_parent na) t;
     t \<leftarrow> set_parent a (Some b) t;
     nb \<leftarrow> rt_nodes t b;
     t \<leftarrow> set_left a (rn_right nb) t;
     t \<leftarrow> set_right b (Some a) t;
     case rn_right nb of Some e \<Rightarrow> set_parent e (Some a) t | None \<Rightarrow> Some t
   }"

subsection \<open>Insertion\<close>

text \<open>\<^verbatim>\<open>p && p->color == RED\<close>, for the uncle of a node, and its negation for nephews.\<close>

definition is_red :: "rbtree \<Rightarrow> nat option \<Rightarrow> bool option" where
  "is_red t p = (case p of None \<Rightarrow> Some False
     | Some a \<Rightarrow> map_option (\<lambda>n. rn_color n = RED) (rt_nodes t a))"

text \<open>One round of the loop: the tree when it ends (\<^theory_text>\<open>Inl\<close>), or tree and node for the next round.\<close>

definition insert_recolor :: "nat \<Rightarrow> nat \<Rightarrow> nat \<Rightarrow> rbtree \<Rightarrow> rbtree option" where
  "insert_recolor parent gparent uncle t = do {
     t \<leftarrow> set_color parent BLACK t;
     t \<leftarrow> set_color gparent RED t;
     set_color uncle BLACK t
   }"

definition insert_fixup_step :: "rbtree \<Rightarrow> nat \<Rightarrow> (rbtree + rbtree \<times> nat) option" where
  "insert_fixup_step t node = do {
     n \<leftarrow> rt_nodes t node;
     case rn_parent n of
       None \<Rightarrow> Some (Inl t)
     | Some parent \<Rightarrow> do {
         np \<leftarrow> rt_nodes t parent;
         if rn_color np \<noteq> RED then Some (Inl t)
         else do {
           gparent \<leftarrow> rn_parent np;
           ng \<leftarrow> rt_nodes t gparent;
           if rn_left ng = Some parent then do {
             red \<leftarrow> is_red t (rn_right ng);
             if red then do {
               t \<leftarrow> insert_recolor parent gparent (the (rn_right ng)) t;
               Some (Inr (t, gparent))
             }
             else if rn_right np = Some node then do {
               t \<leftarrow> rbt_rotate_left parent t;
               t \<leftarrow> rbt_rotate_right gparent t;
               t \<leftarrow> set_color node BLACK t;
               t \<leftarrow> set_color gparent RED t;
               Some (Inr (t, node))
             }
             else do {
               t \<leftarrow> rbt_rotate_right gparent t;
               t \<leftarrow> set_color parent BLACK t;
               t \<leftarrow> set_color gparent RED t;
               Some (Inr (t, parent))
             }
           }
           else do {
             red \<leftarrow> is_red t (rn_left ng);
             if red then do {
               t \<leftarrow> insert_recolor parent gparent (the (rn_left ng)) t;
               Some (Inr (t, gparent))
             }
             else if rn_left np = Some node then do {
               t \<leftarrow> rbt_rotate_right parent t;
               t \<leftarrow> rbt_rotate_left gparent t;
               t \<leftarrow> set_color node BLACK t;
               t \<leftarrow> set_color gparent RED t;
               Some (Inr (t, node))
             }
             else do {
               t \<leftarrow> rbt_rotate_left gparent t;
               t \<leftarrow> set_color parent BLACK t;
               t \<leftarrow> set_color gparent RED t;
               Some (Inr (t, parent))
             }
           }
         }
       }
   }"

partial_function (option) insert_fixup_loop :: "rbtree \<Rightarrow> nat \<Rightarrow> rbtree option" where
  "insert_fixup_loop t node = (case insert_fixup_step t node of
     None \<Rightarrow> None
   | Some (Inl t') \<Rightarrow> Some t'
   | Some (Inr (t', node')) \<Rightarrow> insert_fixup_loop t' node')"

definition rbt_insert_fixup :: "nat \<Rightarrow> rbtree \<Rightarrow> rbtree option" where
  "rbt_insert_fixup node t = do {
     t \<leftarrow> insert_fixup_loop t node;
     r \<leftarrow> rt_root t;
     set_color r BLACK t
   }"

text \<open>\<^verbatim>\<open>y\<close>, a pointer to a link: of the tree, or of a node to its left or right child.\<close>

datatype rb_link = Link_root | Link_left nat | Link_right nat

definition read_link :: "rbtree \<Rightarrow> rb_link \<Rightarrow> nat option option" where
  "read_link t y = (case y of
     Link_root \<Rightarrow> Some (rt_root t)
   | Link_left a \<Rightarrow> map_option rn_left (rt_nodes t a)
   | Link_right a \<Rightarrow> map_option rn_right (rt_nodes t a))"

definition write_link :: "rb_link \<Rightarrow> nat option \<Rightarrow> rbtree \<Rightarrow> rbtree option" where
  "write_link y p t = (case y of
     Link_root \<Rightarrow> Some (t\<lparr>rt_root := p\<rparr>)
   | Link_left a \<Rightarrow> set_left a p t
   | Link_right a \<Rightarrow> set_right a p t)"

text \<open>The descent ends at the link for \<open>n\<close>, or without one at an equal node.\<close>

partial_function (option) insert_search :: "nat \<Rightarrow> rbtree \<Rightarrow> rb_link \<Rightarrow> (rbtree \<times> rb_link option) option" where
  "insert_search n t y = (case read_link t y of
     None \<Rightarrow> None
   | Some None \<Rightarrow> Some (t, Some y)
   | Some (Some c) \<Rightarrow> (case set_parent n (Some c) t of
       None \<Rightarrow> None
     | Some t1 \<Rightarrow>
         if rt_compare t1 n c = 0 then Some (t1, None)
         else if rt_compare t1 n c < 0 then insert_search n t1 (Link_left c)
         else insert_search n t1 (Link_right c)))"

definition insert_cached_min :: "nat \<Rightarrow> rbtree \<Rightarrow> rbtree" where
  "insert_cached_min n t = (case rt_cached_min t of
     None \<Rightarrow> t\<lparr>rt_cached_min := Some n\<rparr>
   | Some m \<Rightarrow> if rt_compare t n m < 0 then t\<lparr>rt_cached_min := Some n\<rparr> else t)"

definition rbt_insert :: "nat \<Rightarrow> rbtree \<Rightarrow> (bool \<times> rbtree) option" where
  "rbt_insert n t = do {
     t \<leftarrow> set_node n (\<lambda>_. \<lparr>rn_color = RED, rn_parent = None, rn_left = None, rn_right = None\<rparr>) t;
     (t, link) \<leftarrow> insert_search n t Link_root;
     case link of
       None \<Rightarrow> Some (False, t)
     | Some y \<Rightarrow> do {
         t \<leftarrow> write_link y (Some n) t;
         t \<leftarrow> rbt_insert_fixup n (insert_cached_min n t);
         Some (True, t)
       }
   }"

subsection \<open>Traversal\<close>

partial_function (option) leftmost :: "rbtree \<Rightarrow> nat \<Rightarrow> nat option" where
  "leftmost t cur = (case rt_nodes t cur of
     None \<Rightarrow> None
   | Some n \<Rightarrow> (case rn_left n of None \<Rightarrow> Some cur | Some l \<Rightarrow> leftmost t l))"

partial_function (option) rightmost :: "rbtree \<Rightarrow> nat \<Rightarrow> nat option" where
  "rightmost t cur = (case rt_nodes t cur of
     None \<Rightarrow> None
   | Some n \<Rightarrow> (case rn_right n of None \<Rightarrow> Some cur | Some r \<Rightarrow> rightmost t r))"

partial_function (option) climb_right :: "rbtree \<Rightarrow> nat \<Rightarrow> nat option option" where
  "climb_right t cur = (case rt_nodes t cur of
     None \<Rightarrow> None
   | Some n \<Rightarrow> (case rn_parent n of
       None \<Rightarrow> Some None
     | Some p \<Rightarrow> (case rt_nodes t p of
         None \<Rightarrow> None
       | Some np \<Rightarrow> if rn_left np \<noteq> Some cur then climb_right t p else Some (Some p))))"

partial_function (option) climb_left :: "rbtree \<Rightarrow> nat \<Rightarrow> nat option option" where
  "climb_left t cur = (case rt_nodes t cur of
     None \<Rightarrow> None
   | Some n \<Rightarrow> (case rn_parent n of
       None \<Rightarrow> Some None
     | Some p \<Rightarrow> (case rt_nodes t p of
         None \<Rightarrow> None
       | Some np \<Rightarrow> if rn_right np \<noteq> Some cur then climb_left t p else Some (Some p))))"

definition rbt_empty :: "rbtree \<Rightarrow> bool" where
  "rbt_empty t = (rt_root t = None)"

definition rbt_min :: "rbtree \<Rightarrow> nat option" where
  "rbt_min t = rt_cached_min t"

definition rbt_max :: "rbtree \<Rightarrow> nat option option" where
  "rbt_max t = (case rt_root t of None \<Rightarrow> Some None | Some r \<Rightarrow> map_option Some (rightmost t r))"

definition rbnode_next :: "rbtree \<Rightarrow> nat option \<Rightarrow> nat option option" where
  "rbnode_next t cur = (case cur of
     None \<Rightarrow> Some None
   | Some a \<Rightarrow> do {
       n \<leftarrow> rt_nodes t a;
       case rn_right n of
         Some r \<Rightarrow> map_option Some (leftmost t r)
       | None \<Rightarrow> climb_right t a
     })"

definition rbnode_prev :: "rbtree \<Rightarrow> nat option \<Rightarrow> nat option option" where
  "rbnode_prev t cur = (case cur of
     None \<Rightarrow> Some None
   | Some a \<Rightarrow> do {
       n \<leftarrow> rt_nodes t a;
       case rn_left n of
         Some l \<Rightarrow> map_option Some (rightmost t l)
       | None \<Rightarrow> climb_left t a
     })"

subsection \<open>Removal\<close>

text \<open>The two arms of the loop body once the sibling is black (cases 2 to 4).\<close>

definition remove_fixup_left :: "rbtree \<Rightarrow> nat \<Rightarrow> nat \<Rightarrow> (rbtree + rbtree \<times> nat \<times> nat) option" where
  "remove_fixup_left t parent sibling = do {
     np \<leftarrow> rt_nodes t parent;
     ns \<leftarrow> rt_nodes t sibling;
     right_red \<leftarrow> is_red t (rn_right ns);
     left_red \<leftarrow> (if right_red then Some False else is_red t (rn_left ns));
     if \<not> right_red \<and> \<not> left_red then do {
       t \<leftarrow> set_color sibling RED t;
       if rn_color np = RED then do {
         t \<leftarrow> set_color parent BLACK t;
         Some (Inl t)
       }
       else (case rn_parent np of
         Some g \<Rightarrow> Some (Inr (t, parent, g))
       | None \<Rightarrow> Some (Inl t))
     }
     else do {
       (t, sibling, sright) \<leftarrow>
         (if right_red then Some (t, sibling, the (rn_right ns))
          else do {
            t \<leftarrow> rbt_rotate_right sibling t;
            Some (t, the (rn_left ns), sibling)
          });
       t \<leftarrow> set_color sibling (rn_color np) t;
       t \<leftarrow> set_color parent BLACK t;
       t \<leftarrow> set_color sright BLACK t;
       t \<leftarrow> rbt_rotate_left parent t;
       Some (Inl t)
     }
   }"

definition remove_fixup_right :: "rbtree \<Rightarrow> nat \<Rightarrow> nat \<Rightarrow> (rbtree + rbtree \<times> nat \<times> nat) option" where
  "remove_fixup_right t parent sibling = do {
     np \<leftarrow> rt_nodes t parent;
     ns \<leftarrow> rt_nodes t sibling;
     left_red \<leftarrow> is_red t (rn_left ns);
     right_red \<leftarrow> (if left_red then Some False else is_red t (rn_right ns));
     if \<not> left_red \<and> \<not> right_red then do {
       t \<leftarrow> set_color sibling RED t;
       if rn_color np = RED then do {
         t \<leftarrow> set_color parent BLACK t;
         Some (Inl t)
       }
       else (case rn_parent np of
         Some g \<Rightarrow> Some (Inr (t, parent, g))
       | None \<Rightarrow> Some (Inl t))
     }
     else do {
       (t, sibling, sleft) \<leftarrow>
         (if left_red then Some (t, sibling, the (rn_left ns))
          else do {
            t \<leftarrow> rbt_rotate_left sibling t;
            Some (t, the (rn_right ns), sibling)
          });
       t \<leftarrow> set_color sibling (rn_color np) t;
       t \<leftarrow> set_color parent BLACK t;
       t \<leftarrow> set_color sleft BLACK t;
       t \<leftarrow> rbt_rotate_right parent t;
       Some (Inl t)
     }
   }"

definition remove_fixup_step :: "rbtree \<Rightarrow> nat option \<Rightarrow> nat \<Rightarrow> (rbtree + rbtree \<times> nat \<times> nat) option" where
  "remove_fixup_step t node parent = do {
     np \<leftarrow> rt_nodes t parent;
     if rn_left np = node then do {
       sibling \<leftarrow> rn_right np;
       ns \<leftarrow> rt_nodes t sibling;
       if rn_color ns = RED then do {
         t \<leftarrow> set_color sibling BLACK t;
         t \<leftarrow> set_color parent RED t;
         t \<leftarrow> rbt_rotate_left parent t;
         np \<leftarrow> rt_nodes t parent;
         sibling \<leftarrow> rn_right np;
         remove_fixup_left t parent sibling
       }
       else remove_fixup_left t parent sibling
     }
     else do {
       sibling \<leftarrow> rn_left np;
       ns \<leftarrow> rt_nodes t sibling;
       if rn_color ns = RED then do {
         t \<leftarrow> set_color sibling BLACK t;
         t \<leftarrow> set_color parent RED t;
         t \<leftarrow> rbt_rotate_right parent t;
         np \<leftarrow> rt_nodes t parent;
         sibling \<leftarrow> rn_left np;
         remove_fixup_right t parent sibling
       }
       else remove_fixup_right t parent sibling
     }
   }"

partial_function (option) remove_fixup_loop :: "rbtree \<Rightarrow> nat option \<Rightarrow> nat \<Rightarrow> rbtree option" where
  "remove_fixup_loop t node parent = (case remove_fixup_step t node parent of
     None \<Rightarrow> None
   | Some (Inl t') \<Rightarrow> Some t'
   | Some (Inr (t', node', parent')) \<Rightarrow> remove_fixup_loop t' (Some node') parent')"

definition rbt_remove_fixup :: "nat option \<Rightarrow> nat option \<Rightarrow> rbtree \<Rightarrow> rbtree option" where
  "rbt_remove_fixup node parent t = do {
     red \<leftarrow> is_red t node;
     if red then set_color (the node) BLACK t
     else (case parent of None \<Rightarrow> Some t | Some p \<Rightarrow> remove_fixup_loop t node p)
   }"

text \<open>A node with two children: its successor \<open>y\<close> is taken out and given the place of \<open>n\<close>.  The result
  has the removed color, the node and parent to rebalance at, and \<open>y\<close>.\<close>

definition remove_two :: "nat \<Rightarrow> rbnode \<Rightarrow> nat \<Rightarrow> nat \<Rightarrow> rbtree \<Rightarrow>
    (rb_color \<times> nat option \<times> nat option \<times> nat option \<times> rbtree) option" where
  "remove_two n nn l r t = do {
     y \<leftarrow> leftmost t r;
     ny \<leftarrow> rt_nodes t y;
     t \<leftarrow> set_color y (rn_color nn) t;
     if y = r then do {
       t \<leftarrow> set_left y (Some l) t;
       t \<leftarrow> set_parent l (Some y) t;
       Some (rn_color ny, rn_right ny, Some y, Some y, t)
     }
     else do {
       p \<leftarrow> rn_parent ny;
       t \<leftarrow> set_left p (rn_right ny) t;
       t \<leftarrow> (case rn_right ny of Some c \<Rightarrow> set_parent c (Some p) t | None \<Rightarrow> Some t);
       t \<leftarrow> set_left y (Some l) t;
       t \<leftarrow> set_parent l (Some y) t;
       t \<leftarrow> set_right y (Some r) t;
       t \<leftarrow> set_parent r (Some y) t;
       Some (rn_color ny, rn_right ny, Some p, Some y, t)
     }
   }"

text \<open>The node is taken out of the tree: the removed color, and the node and parent to rebalance at.\<close>

definition rbt_take_out :: "nat \<Rightarrow> rbtree \<Rightarrow> (rb_color \<times> nat option \<times> nat option \<times> rbtree) option" where
  "rbt_take_out n t = do {
     nn \<leftarrow> rt_nodes t n;
     (rm_color, node, parent, y, t) \<leftarrow> (case (rn_left nn, rn_right nn) of
         (Some l, Some r) \<Rightarrow> remove_two n nn l r t
       | (l, r) \<Rightarrow> (let y = (if l \<noteq> None then l else r)
                    in Some (rn_color nn, y, rn_parent nn, y, t)));
     nn \<leftarrow> rt_nodes t n;
     t \<leftarrow> (case y of Some a \<Rightarrow> set_parent a (rn_parent nn) t | None \<Rightarrow> Some t);
     t \<leftarrow> replace_child (rn_parent nn) n y t;
     Some (rm_color, node, parent, t)
   }"

definition rbt_remove :: "nat \<Rightarrow> rbtree \<Rightarrow> rbtree option" where
  "rbt_remove n t = do {
     t \<leftarrow> (if rt_cached_min t = Some n then do {
             m \<leftarrow> rbnode_next t (Some n);
             Some (t\<lparr>rt_cached_min := m\<rparr>)
           } else Some t);
     (rm_color, node, parent, t) \<leftarrow> rbt_take_out n t;
     if rm_color = BLACK then rbt_remove_fixup node parent t else Some t
   }"

end
