(* ===== verification/Rbtree_Shape.thy ===== *)
theory Rbtree_Shape
  imports Rbtree
begin

text \<open>
  Trees of addresses as values, and which of them a tree in memory is.  A place in a tree is given by the
  frames above it, innermost first.
\<close>

subsection \<open>Shapes and places\<close>

datatype shape = Tip | Bin rb_color shape nat shape

datatype frame = Left_of rb_color nat shape | Right_of rb_color shape nat

primrec root_of :: "shape \<Rightarrow> nat option" where
  "root_of Tip = None"
| "root_of (Bin c l a r) = Some a"

primrec inorder :: "shape \<Rightarrow> nat list" where
  "inorder Tip = []"
| "inorder (Bin c l a r) = inorder l @ a # inorder r"

primrec frame_addr :: "frame \<Rightarrow> nat" where
  "frame_addr (Left_of c a r) = a"
| "frame_addr (Right_of c l a) = a"

primrec frame_color :: "frame \<Rightarrow> rb_color" where
  "frame_color (Left_of c a r) = c"
| "frame_color (Right_of c l a) = c"

primrec fill :: "frame \<Rightarrow> shape \<Rightarrow> shape" where
  "fill (Left_of c a r) t = Bin c t a r"
| "fill (Right_of c l a) t = Bin c l a t"

primrec plug :: "frame list \<Rightarrow> shape \<Rightarrow> shape" where
  "plug [] t = t"
| "plug (f # C) t = plug C (fill f t)"

primrec before :: "frame list \<Rightarrow> nat list" where
  "before [] = []"
| "before (f # C) = before C @ (case f of Left_of c a r \<Rightarrow> [] | Right_of c l a \<Rightarrow> inorder l @ [a])"

primrec after :: "frame list \<Rightarrow> nat list" where
  "after [] = []"
| "after (f # C) = (case f of Left_of c a r \<Rightarrow> a # inorder r | Right_of c l a \<Rightarrow> []) @ after C"

definition parent_link :: "frame list \<Rightarrow> nat option" where
  "parent_link C = (case C of [] \<Rightarrow> None | f # D \<Rightarrow> Some (frame_addr f))"

lemma parent_link_simps [simp]: "parent_link [] = None" "parent_link (f # C) = Some (frame_addr f)"
  by (simp_all add: parent_link_def)

lemma inorder_plug [simp]: "inorder (plug C t) = before C @ inorder t @ after C"
  by (induction C arbitrary: t) (auto split: frame.split)

lemma plug_append: "plug (C @ D) t = plug D (plug C t)"
  by (induction C arbitrary: t) auto

lemma root_of_plug [simp]: "C \<noteq> [] \<Longrightarrow> root_of (plug C t) = Some (frame_addr (last C))"
proof (induction C arbitrary: t)
  case (Cons f C)
  then show ?case by (cases "C = []"; cases f) auto
qed simp

lemma in_inorder_place: "a \<in> set (inorder t) \<Longrightarrow> \<exists>C c l r. t = plug C (Bin c l a r)"
proof (induction t)
  case (Bin c l b r)
  then consider "a = b" | "a \<in> set (inorder l)" | "a \<in> set (inorder r)" by auto
  then show ?case
  proof cases
    case 1
    then show ?thesis by (intro exI [of _ "[]"]) simp
  next
    case 2
    then obtain C c' l' r' where "l = plug C (Bin c' l' a r')" using Bin by blast
    then show ?thesis by (intro exI [of _ "C @ [Left_of c b r]"]) (auto simp: plug_append)
  next
    case 3
    then obtain C c' l' r' where "r = plug C (Bin c' l' a r')" using Bin by blast
    then show ?thesis by (intro exI [of _ "C @ [Right_of c l b]"]) (auto simp: plug_append)
  qed
qed simp

subsection \<open>Shapes in memory\<close>

primrec rep :: "(nat \<Rightarrow> rbnode option) \<Rightarrow> nat option \<Rightarrow> shape \<Rightarrow> bool" where
  "rep h p Tip = True"
| "rep h p (Bin c l a r) = (h a = Some \<lparr>rn_color = c, rn_parent = p, rn_left = root_of l, rn_right = root_of r\<rparr>
     \<and> rep h (Some a) l \<and> rep h (Some a) r)"

primrec rep_above :: "(nat \<Rightarrow> rbnode option) \<Rightarrow> frame list \<Rightarrow> nat option \<Rightarrow> bool" where
  "rep_above h [] q = True"
| "rep_above h (f # C) q = (case f of
     Left_of c a r \<Rightarrow> h a = Some \<lparr>rn_color = c, rn_parent = parent_link C, rn_left = q, rn_right = root_of r\<rparr>
       \<and> rep h (Some a) r \<and> rep_above h C (Some a)
   | Right_of c l a \<Rightarrow> h a = Some \<lparr>rn_color = c, rn_parent = parent_link C, rn_left = root_of l, rn_right = q\<rparr>
       \<and> rep h (Some a) l \<and> rep_above h C (Some a))"

lemma rep_plug: "rep h None (plug C t) \<longleftrightarrow> rep h (parent_link C) t \<and> rep_above h C (root_of t)"
  by (induction C arbitrary: t) (auto split: frame.split)

lemma rep_upd [simp]: "a \<notin> set (inorder t) \<Longrightarrow> rep (h(a := x)) p t = rep h p t"
  by (induction t arbitrary: p) auto

lemma rep_above_upd [simp]: "a \<notin> set (before C) \<Longrightarrow> a \<notin> set (after C) \<Longrightarrow> rep_above (h(a := x)) C q = rep_above h C q"
  by (induction C arbitrary: q) (auto split: frame.splits)

definition is_tree :: "rbtree \<Rightarrow> shape \<Rightarrow> bool" where
  "is_tree t s \<longleftrightarrow> rt_root t = root_of s \<and> rep (rt_nodes t) None s \<and> distinct (inorder s)"

definition root_link :: "rbtree \<Rightarrow> frame list \<Rightarrow> nat option \<Rightarrow> bool" where
  "root_link t C q \<longleftrightarrow> rt_root t = (if C = [] then q else Some (frame_addr (last C)))"

lemma is_tree_place: "is_tree t (plug C s) \<longleftrightarrow> root_link t C (root_of s)
    \<and> rep (rt_nodes t) (parent_link C) s \<and> rep_above (rt_nodes t) C (root_of s)
    \<and> distinct (before C @ inorder s @ after C)"
  by (auto simp: is_tree_def rep_plug root_link_def)

text \<open>What the operations on links and colors leave alone.\<close>

definition same_rest :: "rbtree \<Rightarrow> rbtree \<Rightarrow> bool" where
  "same_rest t t' \<longleftrightarrow> rt_cached_min t' = rt_cached_min t \<and> rt_compare t' = rt_compare t
     \<and> dom (rt_nodes t') = dom (rt_nodes t)"

lemma same_rest_refl [simp]: "same_rest t t"
  by (simp add: same_rest_def)

lemma same_rest_trans: "same_rest t t' \<Longrightarrow> same_rest t' t'' \<Longrightarrow> same_rest t t''"
  by (simp add: same_rest_def)

lemma set_node_Some: "rt_nodes t a = Some n \<Longrightarrow> set_node a f t = Some (t\<lparr>rt_nodes := (rt_nodes t)(a \<mapsto> f n)\<rparr>)"
  by (simp add: set_node_def)

lemma same_rest_set: "rt_nodes t a = Some n \<Longrightarrow> same_rest t (t\<lparr>rt_nodes := (rt_nodes t)(a \<mapsto> m)\<rparr>)"
  by (auto simp: same_rest_def)

subsection \<open>Links, colors and rotations\<close>

text \<open>The link to a place is set.\<close>

lemma replace_child_place:
  assumes "root_link t C (Some a)" "rep_above (rt_nodes t) C (Some a)" "distinct (before C @ after C)"
    "a \<notin> set (before C)" "a \<notin> set (after C)"
  shows "\<exists>t'. replace_child (parent_link C) a q t = Some t' \<and> rep_above (rt_nodes t') C q \<and> same_rest t t'
    \<and> (\<forall>x. x \<notin> set (before C) \<and> x \<notin> set (after C) \<longrightarrow> rt_nodes t' x = rt_nodes t x)
    \<and> root_link t' C q"
proof (cases C)
  case Nil
  then show ?thesis by (simp add: replace_child_def same_rest_def root_link_def)
next
  case (Cons f D)
  show ?thesis
  proof (cases f)
    case (Left_of c b r)
    have "rt_nodes t b = Some \<lparr>rn_color = c, rn_parent = parent_link D, rn_left = Some a, rn_right = root_of r\<rparr>"
      using assms(2) by (simp add: Cons Left_of)
    then show ?thesis using assms
      by (auto simp: Cons Left_of replace_child_def set_node_Some same_rest_def root_link_def split: if_splits)
  next
    case (Right_of c l b)
    have b: "rt_nodes t b = Some \<lparr>rn_color = c, rn_parent = parent_link D, rn_left = root_of l, rn_right = Some a\<rparr>"
      using assms(2) by (simp add: Cons Right_of)
    have "root_of l \<noteq> Some a" using assms(4) by (cases l) (auto simp: Cons Right_of)
    then show ?thesis using assms b
      by (auto simp: Cons Right_of replace_child_def set_node_Some same_rest_def root_link_def split: if_splits)
  qed
qed

lemma set_color_place:
  assumes "is_tree t (plug C (Bin c l a r))"
  shows "\<exists>t'. set_color a c' t = Some t' \<and> is_tree t' (plug C (Bin c' l a r)) \<and> same_rest t t'"
proof -
  have "rt_nodes t a = Some \<lparr>rn_color = c, rn_parent = parent_link C, rn_left = root_of l, rn_right = root_of r\<rparr>"
    using assms by (simp add: is_tree_place)
  then show ?thesis using assms
    by (auto simp: set_node_Some is_tree_place same_rest_def root_link_def)
qed

text \<open>A new parent for the top of a subtree.\<close>

lemma set_parent_top:
  assumes "rep (rt_nodes t) p s" "distinct (inorder s)"
  shows "\<exists>t'. (case root_of s of Some d \<Rightarrow> set_parent d q t | None \<Rightarrow> Some t) = Some t'
    \<and> rep (rt_nodes t') q s \<and> same_rest t t' \<and> rt_root t' = rt_root t
    \<and> (\<forall>x. x \<notin> set (inorder s) \<longrightarrow> rt_nodes t' x = rt_nodes t x)"
  using assms by (cases s) (auto simp: set_node_Some same_rest_def)

lemma rep_cong: "(\<And>x. x \<in> set (inorder s) \<Longrightarrow> h' x = h x) \<Longrightarrow> rep h' p s = rep h p s"
  by (induction s arbitrary: p) auto

lemma rep_above_cong:
  "(\<And>x. x \<in> set (before C) \<Longrightarrow> h' x = h x) \<Longrightarrow> (\<And>x. x \<in> set (after C) \<Longrightarrow> h' x = h x) \<Longrightarrow>
    rep_above h' C q = rep_above h C q"
proof (induction C arbitrary: q)
  case (Cons f C)
  then show ?case by (cases f) (auto simp: rep_cong [of _ h' h])
qed simp

lemma rep_same: "rep h p s \<Longrightarrow> \<forall>x \<in> set (inorder s). h' x = h x \<Longrightarrow> rep h' p s"
  using rep_cong [of s h' h] by blast

lemma rep_above_same: "rep_above h C q \<Longrightarrow> \<forall>x \<in> set (before C) \<union> set (after C). h' x = h x \<Longrightarrow> rep_above h' C q"
  using rep_above_cong [of C h' h] by blast

lemma rotate_left_place:
  assumes "is_tree t (plug C (Bin ca b a (Bin cc d c e)))"
  shows "\<exists>t'. rbt_rotate_left a t = Some t' \<and> is_tree t' (plug C (Bin cc (Bin ca b a d) c e)) \<and> same_rest t t'"
proof -
  let ?na = "\<lparr>rn_color = ca, rn_parent = parent_link C, rn_left = root_of b, rn_right = Some c\<rparr>"
  let ?nc = "\<lparr>rn_color = cc, rn_parent = Some a, rn_left = root_of d, rn_right = root_of e\<rparr>"
  note tree = assms [unfolded is_tree_place]
  have h: "rt_nodes t a = Some ?na" "rt_nodes t c = Some ?nc" "rep (rt_nodes t) (Some a) b"
    "rep (rt_nodes t) (Some c) d" "rep (rt_nodes t) (Some c) e" "rep_above (rt_nodes t) C (Some a)"
    and dist: "distinct (before C @ inorder b @ a # inorder d @ c # inorder e @ after C)"
    and root: "root_link t C (Some a)"
    using tree by auto
  have "distinct (before C @ after C)" "a \<notin> set (before C)" "a \<notin> set (after C)" using dist by auto
  from replace_child_place [OF root h(6) this, of "Some c"]
  obtain t1 where t1: "replace_child (parent_link C) a (Some c) t = Some t1" "rep_above (rt_nodes t1) C (Some c)"
    "same_rest t t1" "root_link t1 C (Some c)"
    and keep: "\<And>x. x \<notin> set (before C) \<Longrightarrow> x \<notin> set (after C) \<Longrightarrow> rt_nodes t1 x = rt_nodes t x"
    by blast
  have out: "x \<notin> set (before C) \<and> x \<notin> set (after C)"
    if "x \<in> {a, c} \<union> set (inorder b) \<union> set (inorder d) \<union> set (inorder e)" for x
    using dist that by (auto simp: disjoint_iff)
  then have same: "rt_nodes t1 x = rt_nodes t x"
    if "x \<in> {a, c} \<union> set (inorder b) \<union> set (inorder d) \<union> set (inorder e)" for x
    using keep that by blast
  have h1: "rt_nodes t1 a = Some ?na" "rt_nodes t1 c = Some ?nc" "rep (rt_nodes t1) (Some a) b"
    "rep (rt_nodes t1) (Some c) d" "rep (rt_nodes t1) (Some c) e"
    using h(1,2) same by (auto intro: rep_same [OF h(3)] rep_same [OF h(4)] rep_same [OF h(5)])
  define t2 where "t2 = t1\<lparr>rt_nodes := (rt_nodes t1)(
     a \<mapsto> ?na\<lparr>rn_parent := Some c, rn_right := root_of d\<rparr>, c \<mapsto> ?nc\<lparr>rn_parent := parent_link C, rn_left := Some a\<rparr>)\<rparr>"
  have "rep (rt_nodes t2) (Some c) d" using h1(4) dist by (simp add: t2_def)
  moreover have "distinct (inorder d)" using dist by simp
  ultimately obtain t3 where t3: "(case root_of d of Some x \<Rightarrow> set_parent x (Some a) t2 | None \<Rightarrow> Some t2) = Some t3"
    "rep (rt_nodes t3) (Some a) d" "same_rest t2 t3" "rt_root t3 = rt_root t2"
    and keep3: "\<And>x. x \<notin> set (inorder d) \<Longrightarrow> rt_nodes t3 x = rt_nodes t2 x"
    using set_parent_top [of t2 "Some c" d "Some a"] by blast
  have ac: "a \<noteq> c" using dist by auto
  have "rbt_rotate_left a t = (case root_of d of Some x \<Rightarrow> set_parent x (Some a) t2 | None \<Rightarrow> Some t2)"
    using ac h1(1,2) fun_upd_twist [OF ac]
    by (cases "root_of d") (simp_all add: rbt_rotate_left_def h(1) t1(1) set_node_Some t2_def)
  moreover have "is_tree t3 (plug C (Bin cc (Bin ca b a d) c e))"
  proof -
    have n: "rt_nodes t3 a = Some (?na\<lparr>rn_parent := Some c, rn_right := root_of d\<rparr>)"
      "rt_nodes t3 c = Some (?nc\<lparr>rn_parent := parent_link C, rn_left := Some a\<rparr>)"
      using keep3 dist ac by (auto simp: t2_def)
    have away: "x \<notin> set (inorder d) \<and> x \<noteq> a \<and> x \<noteq> c"
      if "x \<in> set (inorder b) \<union> set (inorder e) \<union> set (before C) \<union> set (after C)" for x
      using dist that by (auto simp: disjoint_iff)
    then have "rt_nodes t3 x = rt_nodes t1 x"
      if "x \<in> set (inorder b) \<union> set (inorder e) \<union> set (before C) \<union> set (after C)" for x
      using keep3 [of x] that by (simp add: t2_def)
    then have r: "rep (rt_nodes t3) (Some a) b" "rep (rt_nodes t3) (Some c) e" "rep_above (rt_nodes t3) C (Some c)"
      by (auto intro!: rep_same [OF h1(3)] rep_same [OF h1(5)] rep_above_same [OF t1(2)])
    show ?thesis using n r t1(4) t3(2,4) dist by (auto simp: is_tree_place t2_def root_link_def)
  qed
  moreover have "same_rest t1 t2" using h1(1,2) by (auto simp: same_rest_def t2_def)
  ultimately show ?thesis using t1(3) t3(1,3) same_rest_trans by metis
qed

lemma rotate_right_place:
  assumes "is_tree t (plug C (Bin ca (Bin cc e c d) a b))"
  shows "\<exists>t'. rbt_rotate_right a t = Some t' \<and> is_tree t' (plug C (Bin cc e c (Bin ca d a b))) \<and> same_rest t t'"
proof -
  let ?na = "\<lparr>rn_color = ca, rn_parent = parent_link C, rn_left = Some c, rn_right = root_of b\<rparr>"
  let ?nc = "\<lparr>rn_color = cc, rn_parent = Some a, rn_left = root_of e, rn_right = root_of d\<rparr>"
  note tree = assms [unfolded is_tree_place]
  have h: "rt_nodes t a = Some ?na" "rt_nodes t c = Some ?nc" "rep (rt_nodes t) (Some a) b"
    "rep (rt_nodes t) (Some c) d" "rep (rt_nodes t) (Some c) e" "rep_above (rt_nodes t) C (Some a)"
    and dist: "distinct (before C @ inorder e @ c # inorder d @ a # inorder b @ after C)"
    and root: "root_link t C (Some a)"
    using tree by auto
  have "distinct (before C @ after C)" "a \<notin> set (before C)" "a \<notin> set (after C)" using dist by auto
  from replace_child_place [OF root h(6) this, of "Some c"]
  obtain t1 where t1: "replace_child (parent_link C) a (Some c) t = Some t1" "rep_above (rt_nodes t1) C (Some c)"
    "same_rest t t1" "root_link t1 C (Some c)"
    and keep: "\<And>x. x \<notin> set (before C) \<Longrightarrow> x \<notin> set (after C) \<Longrightarrow> rt_nodes t1 x = rt_nodes t x"
    by blast
  have out: "x \<notin> set (before C) \<and> x \<notin> set (after C)"
    if "x \<in> {a, c} \<union> set (inorder b) \<union> set (inorder d) \<union> set (inorder e)" for x
    using dist that by (auto simp: disjoint_iff)
  then have same: "rt_nodes t1 x = rt_nodes t x"
    if "x \<in> {a, c} \<union> set (inorder b) \<union> set (inorder d) \<union> set (inorder e)" for x
    using keep that by blast
  have h1: "rt_nodes t1 a = Some ?na" "rt_nodes t1 c = Some ?nc" "rep (rt_nodes t1) (Some a) b"
    "rep (rt_nodes t1) (Some c) d" "rep (rt_nodes t1) (Some c) e"
    using h(1,2) same by (auto intro: rep_same [OF h(3)] rep_same [OF h(4)] rep_same [OF h(5)])
  define t2 where "t2 = t1\<lparr>rt_nodes := (rt_nodes t1)(
     a \<mapsto> ?na\<lparr>rn_parent := Some c, rn_left := root_of d\<rparr>, c \<mapsto> ?nc\<lparr>rn_parent := parent_link C, rn_right := Some a\<rparr>)\<rparr>"
  have "rep (rt_nodes t2) (Some c) d" using h1(4) dist by (simp add: t2_def)
  moreover have "distinct (inorder d)" using dist by simp
  ultimately obtain t3 where t3: "(case root_of d of Some x \<Rightarrow> set_parent x (Some a) t2 | None \<Rightarrow> Some t2) = Some t3"
    "rep (rt_nodes t3) (Some a) d" "same_rest t2 t3" "rt_root t3 = rt_root t2"
    and keep3: "\<And>x. x \<notin> set (inorder d) \<Longrightarrow> rt_nodes t3 x = rt_nodes t2 x"
    using set_parent_top [of t2 "Some c" d "Some a"] by blast
  have ac: "a \<noteq> c" using dist by auto
  have "rbt_rotate_right a t = (case root_of d of Some x \<Rightarrow> set_parent x (Some a) t2 | None \<Rightarrow> Some t2)"
    using ac h1(1,2) fun_upd_twist [OF ac]
    by (cases "root_of d") (simp_all add: rbt_rotate_right_def h(1) t1(1) set_node_Some t2_def)
  moreover have "is_tree t3 (plug C (Bin cc e c (Bin ca d a b)))"
  proof -
    have n: "rt_nodes t3 a = Some (?na\<lparr>rn_parent := Some c, rn_left := root_of d\<rparr>)"
      "rt_nodes t3 c = Some (?nc\<lparr>rn_parent := parent_link C, rn_right := Some a\<rparr>)"
      using keep3 dist ac by (auto simp: t2_def)
    have away: "x \<notin> set (inorder d) \<and> x \<noteq> a \<and> x \<noteq> c"
      if "x \<in> set (inorder b) \<union> set (inorder e) \<union> set (before C) \<union> set (after C)" for x
      using dist that by (auto simp: disjoint_iff)
    then have "rt_nodes t3 x = rt_nodes t1 x"
      if "x \<in> set (inorder b) \<union> set (inorder e) \<union> set (before C) \<union> set (after C)" for x
      using keep3 [of x] that by (simp add: t2_def)
    then have r: "rep (rt_nodes t3) (Some a) b" "rep (rt_nodes t3) (Some c) e" "rep_above (rt_nodes t3) C (Some c)"
      by (auto intro!: rep_same [OF h1(3)] rep_same [OF h1(5)] rep_above_same [OF t1(2)])
    show ?thesis using n r t1(4) t3(2,4) dist by (auto simp: is_tree_place t2_def root_link_def)
  qed
  moreover have "same_rest t1 t2" using h1(1,2) by (auto simp: same_rest_def t2_def)
  ultimately show ?thesis using t1(3) t3(1,3) same_rest_trans by metis
qed

end
