(* ===== verification/Rbtree_Insert.thy ===== *)
theory Rbtree_Insert
  imports Rbtree_Shape
begin

text \<open>
  Insertion in memory: the fixup loop ends and keeps the order of the nodes, and the descent reaches the
  place of a node in the order.
\<close>

subsection \<open>Reading nodes\<close>

lemma node_at:
  "is_tree t (plug C (Bin c l a r)) \<Longrightarrow>
    rt_nodes t a = Some \<lparr>rn_color = c, rn_parent = parent_link C, rn_left = root_of l, rn_right = root_of r\<rparr>"
  by (simp add: is_tree_place)

lemma node_above:
  assumes "is_tree t (plug (f # C) s)"
  shows "rt_nodes t (frame_addr f) = Some \<lparr>rn_color = frame_color f, rn_parent = parent_link C,
     rn_left = (case f of Left_of c a r \<Rightarrow> root_of s | Right_of c l a \<Rightarrow> root_of l),
     rn_right = (case f of Left_of c a r \<Rightarrow> root_of r | Right_of c l a \<Rightarrow> root_of s)\<rparr>"
  using assms by (cases f) (simp_all add: node_at)

primrec shape_red :: "shape \<Rightarrow> bool" where
  "shape_red Tip = False"
| "shape_red (Bin c l a r) = (c = RED)"

lemma is_red_at: "is_tree t (plug C s) \<Longrightarrow> is_red t (root_of s) = Some (shape_red s)"
  by (cases s) (simp_all add: is_red_def node_at)

lemma shape_redE: "shape_red s \<Longrightarrow> (\<And>l a r. s = Bin RED l a r \<Longrightarrow> thesis) \<Longrightarrow> thesis"
  by (cases s) auto

lemma root_of_notin: "distinct (inorder l @ xs) \<Longrightarrow> a \<in> set xs \<Longrightarrow> root_of l \<noteq> Some a"
  by (cases l) auto

subsection \<open>The fixup\<close>

lemma recolor_left:
  assumes "is_tree t (plug D (Bin cg (Bin RED x p y) g (Bin RED ul u ur)))"
  shows "\<exists>t'. insert_recolor p g u t = Some t' \<and> same_rest t t'
    \<and> is_tree t' (plug D (Bin RED (Bin BLACK x p y) g (Bin BLACK ul u ur)))"
proof -
  obtain t1 where t1: "set_color p BLACK t = Some t1" "same_rest t t1"
    "is_tree t1 (plug D (Bin cg (Bin BLACK x p y) g (Bin RED ul u ur)))"
    using set_color_place [of t "Left_of cg g (Bin RED ul u ur) # D" RED x p y BLACK] assms by auto
  obtain t2 where t2: "set_color g RED t1 = Some t2" "same_rest t1 t2"
    "is_tree t2 (plug D (Bin RED (Bin BLACK x p y) g (Bin RED ul u ur)))"
    using set_color_place [OF t1(3)] by blast
  obtain t3 where t3: "set_color u BLACK t2 = Some t3" "same_rest t2 t3"
    "is_tree t3 (plug D (Bin RED (Bin BLACK x p y) g (Bin BLACK ul u ur)))"
    using set_color_place [of t2 "Right_of RED (Bin BLACK x p y) g # D" RED ul u ur BLACK] t2 by auto
  show ?thesis
    using t1(1,2) t2(1,2) t3 by (auto simp: insert_recolor_def same_rest_def)
qed

lemma recolor_right:
  assumes "is_tree t (plug D (Bin cg (Bin RED ul u ur) g (Bin RED x p y)))"
  shows "\<exists>t'. insert_recolor p g u t = Some t' \<and> same_rest t t'
    \<and> is_tree t' (plug D (Bin RED (Bin BLACK ul u ur) g (Bin BLACK x p y)))"
proof -
  obtain t1 where t1: "set_color p BLACK t = Some t1" "same_rest t t1"
    "is_tree t1 (plug D (Bin cg (Bin RED ul u ur) g (Bin BLACK x p y)))"
    using set_color_place [of t "Right_of cg (Bin RED ul u ur) g # D" RED x p y BLACK] assms by auto
  obtain t2 where t2: "set_color g RED t1 = Some t2" "same_rest t1 t2"
    "is_tree t2 (plug D (Bin RED (Bin RED ul u ur) g (Bin BLACK x p y)))"
    using set_color_place [OF t1(3)] by blast
  obtain t3 where t3: "set_color u BLACK t2 = Some t3" "same_rest t2 t3"
    "is_tree t3 (plug D (Bin RED (Bin BLACK ul u ur) g (Bin BLACK x p y)))"
    using set_color_place [of t2 "Left_of RED g (Bin BLACK x p y) # D" RED ul u ur BLACK] t2 by auto
  show ?thesis
    using t1(1,2) t2(1,2) t3 by (auto simp: insert_recolor_def same_rest_def)
qed

text \<open>What one round makes of a red parent and the node above it.\<close>

fun round_shape :: "frame \<Rightarrow> frame \<Rightarrow> shape \<Rightarrow> shape \<times> nat" where
  "round_shape f (Left_of cg g u) (Bin cn nl n nr) =
     (case u of Bin RED ul a ur \<Rightarrow> (case fill f (Bin cn nl n nr) of Bin c x p y \<Rightarrow>
        (Bin RED (Bin BLACK x p y) g (Bin BLACK ul a ur), g))
      | _ \<Rightarrow> (case f of Left_of cp p y \<Rightarrow> (Bin BLACK (Bin cn nl n nr) p (Bin RED y g u), p)
             | Right_of cp x p \<Rightarrow> (Bin BLACK (Bin cp x p nl) n (Bin RED nr g u), n)))"
| "round_shape f (Right_of cg u g) (Bin cn nl n nr) =
     (case u of Bin RED ul a ur \<Rightarrow> (case fill f (Bin cn nl n nr) of Bin c x p y \<Rightarrow>
        (Bin RED (Bin BLACK ul a ur) g (Bin BLACK x p y), g))
      | _ \<Rightarrow> (case f of Right_of cp x p \<Rightarrow> (Bin BLACK (Bin RED u g x) p (Bin cn nl n nr), p)
             | Left_of cp p y \<Rightarrow> (Bin BLACK (Bin RED u g nl) n (Bin cp nr p y), n)))"
| "round_shape f g Tip = (Tip, 0)"

lemma round_left_outer:
  assumes "is_tree t (plug D (Bin cg (Bin RED s p y) g u))"
  shows "\<exists>t1 t2 t'. rbt_rotate_right g t = Some t1 \<and> set_color p BLACK t1 = Some t2 \<and> set_color g RED t2 = Some t'
    \<and> same_rest t t' \<and> is_tree t' (plug D (Bin BLACK s p (Bin RED y g u)))"
proof -
  obtain t1 where t1: "rbt_rotate_right g t = Some t1" "same_rest t t1" "is_tree t1 (plug D (Bin RED s p (Bin cg y g u)))"
    using rotate_right_place assms by blast
  obtain t2 where t2: "set_color p BLACK t1 = Some t2" "same_rest t1 t2" "is_tree t2 (plug D (Bin BLACK s p (Bin cg y g u)))"
    using set_color_place [OF t1(3)] by blast
  obtain t3 where "set_color g RED t2 = Some t3" "same_rest t2 t3" "is_tree t3 (plug D (Bin BLACK s p (Bin RED y g u)))"
    using set_color_place [of t2 "Right_of BLACK s p # D" cg y g u RED] t2(3) by auto
  then show ?thesis using t1(1,2) t2(1,2) by (simp add: same_rest_def)
qed

lemma round_left_inner:
  assumes "is_tree t (plug D (Bin cg (Bin cp x p (Bin cn nl n nr)) g u))"
  shows "\<exists>t1 t2 t3 t'. rbt_rotate_left p t = Some t1 \<and> rbt_rotate_right g t1 = Some t2
    \<and> set_color n BLACK t2 = Some t3 \<and> set_color g RED t3 = Some t'
    \<and> same_rest t t' \<and> is_tree t' (plug D (Bin BLACK (Bin cp x p nl) n (Bin RED nr g u)))"
proof -
  obtain t1 where t1: "rbt_rotate_left p t = Some t1" "same_rest t t1"
    "is_tree t1 (plug D (Bin cg (Bin cn (Bin cp x p nl) n nr) g u))"
    using rotate_left_place [of t "Left_of cg g u # D" cp x p cn nl n nr] assms by auto
  obtain t2 where t2: "rbt_rotate_right g t1 = Some t2" "same_rest t1 t2"
    "is_tree t2 (plug D (Bin cn (Bin cp x p nl) n (Bin cg nr g u)))"
    using rotate_right_place [OF t1(3)] by blast
  obtain t3 where t3: "set_color n BLACK t2 = Some t3" "same_rest t2 t3"
    "is_tree t3 (plug D (Bin BLACK (Bin cp x p nl) n (Bin cg nr g u)))"
    using set_color_place [OF t2(3)] by blast
  obtain t4 where "set_color g RED t3 = Some t4" "same_rest t3 t4"
    "is_tree t4 (plug D (Bin BLACK (Bin cp x p nl) n (Bin RED nr g u)))"
    using set_color_place [of t3 "Right_of BLACK (Bin cp x p nl) n # D" cg nr g u RED] t3(3) by auto
  then show ?thesis using t1(1,2) t2(1,2) t3(1,2) by (simp add: same_rest_def)
qed

lemma round_right_outer:
  assumes "is_tree t (plug D (Bin cg u g (Bin RED x p s)))"
  shows "\<exists>t1 t2 t'. rbt_rotate_left g t = Some t1 \<and> set_color p BLACK t1 = Some t2 \<and> set_color g RED t2 = Some t'
    \<and> same_rest t t' \<and> is_tree t' (plug D (Bin BLACK (Bin RED u g x) p s))"
proof -
  obtain t1 where t1: "rbt_rotate_left g t = Some t1" "same_rest t t1" "is_tree t1 (plug D (Bin RED (Bin cg u g x) p s))"
    using rotate_left_place assms by blast
  obtain t2 where t2: "set_color p BLACK t1 = Some t2" "same_rest t1 t2" "is_tree t2 (plug D (Bin BLACK (Bin cg u g x) p s))"
    using set_color_place [OF t1(3)] by blast
  obtain t3 where "set_color g RED t2 = Some t3" "same_rest t2 t3" "is_tree t3 (plug D (Bin BLACK (Bin RED u g x) p s))"
    using set_color_place [of t2 "Left_of BLACK p s # D" cg u g x RED] t2(3) by auto
  then show ?thesis using t1(1,2) t2(1,2) by (simp add: same_rest_def)
qed

lemma round_right_inner:
  assumes "is_tree t (plug D (Bin cg u g (Bin cp (Bin cn nl n nr) p y)))"
  shows "\<exists>t1 t2 t3 t'. rbt_rotate_right p t = Some t1 \<and> rbt_rotate_left g t1 = Some t2
    \<and> set_color n BLACK t2 = Some t3 \<and> set_color g RED t3 = Some t'
    \<and> same_rest t t' \<and> is_tree t' (plug D (Bin BLACK (Bin RED u g nl) n (Bin cp nr p y)))"
proof -
  obtain t1 where t1: "rbt_rotate_right p t = Some t1" "same_rest t t1"
    "is_tree t1 (plug D (Bin cg u g (Bin cn nl n (Bin cp nr p y))))"
    using rotate_right_place [of t "Right_of cg u g # D" cp cn nl n nr p y] assms by auto
  obtain t2 where t2: "rbt_rotate_left g t1 = Some t2" "same_rest t1 t2"
    "is_tree t2 (plug D (Bin cn (Bin cg u g nl) n (Bin cp nr p y)))"
    using rotate_left_place [OF t1(3)] by blast
  obtain t3 where t3: "set_color n BLACK t2 = Some t3" "same_rest t2 t3"
    "is_tree t3 (plug D (Bin BLACK (Bin cg u g nl) n (Bin cp nr p y)))"
    using set_color_place [OF t2(3)] by blast
  obtain t4 where "set_color g RED t3 = Some t4" "same_rest t3 t4"
    "is_tree t4 (plug D (Bin BLACK (Bin RED u g nl) n (Bin cp nr p y)))"
    using set_color_place [of t3 "Left_of BLACK n (Bin cp nr p y) # D" cg u g nl RED] t3(3) by auto
  then show ?thesis using t1(1,2) t2(1,2) t3(1,2) by (simp add: same_rest_def)
qed

lemma step_reads:
  assumes "is_tree t (plug (f # g # D) (Bin cn nl n nr))"
  shows "\<exists>x y. rt_nodes t n = Some \<lparr>rn_color = cn, rn_parent = Some (frame_addr f), rn_left = x, rn_right = y\<rparr>"
    and "rt_nodes t (frame_addr f) = Some \<lparr>rn_color = frame_color f, rn_parent = Some (frame_addr g),
       rn_left = (case f of Left_of c a r \<Rightarrow> Some n | Right_of c l a \<Rightarrow> root_of l),
       rn_right = (case f of Left_of c a r \<Rightarrow> root_of r | Right_of c l a \<Rightarrow> Some n)\<rparr>"
    and "rt_nodes t (frame_addr g) = Some \<lparr>rn_color = frame_color g, rn_parent = parent_link D,
       rn_left = (case g of Left_of c a r \<Rightarrow> Some (frame_addr f) | Right_of c l a \<Rightarrow> root_of l),
       rn_right = (case g of Left_of c a r \<Rightarrow> root_of r | Right_of c l a \<Rightarrow> Some (frame_addr f))\<rparr>"
proof -
  show "\<exists>x y. rt_nodes t n = Some \<lparr>rn_color = cn, rn_parent = Some (frame_addr f), rn_left = x, rn_right = y\<rparr>"
    using node_at [OF assms] by simp
  show "rt_nodes t (frame_addr f) = Some \<lparr>rn_color = frame_color f, rn_parent = Some (frame_addr g),
       rn_left = (case f of Left_of c a r \<Rightarrow> Some n | Right_of c l a \<Rightarrow> root_of l),
       rn_right = (case f of Left_of c a r \<Rightarrow> root_of r | Right_of c l a \<Rightarrow> Some n)\<rparr>"
    using node_above [OF assms] by (cases f) simp_all
  have "root_of (fill f (Bin cn nl n nr)) = Some (frame_addr f)" by (cases f) simp_all
  then show "rt_nodes t (frame_addr g) = Some \<lparr>rn_color = frame_color g, rn_parent = parent_link D,
       rn_left = (case g of Left_of c a r \<Rightarrow> Some (frame_addr f) | Right_of c l a \<Rightarrow> root_of l),
       rn_right = (case g of Left_of c a r \<Rightarrow> root_of r | Right_of c l a \<Rightarrow> Some (frame_addr f))\<rparr>"
    using node_above [of t g D "fill f (Bin cn nl n nr)"] assms by (cases g) simp_all
qed

lemma insert_fixup_step_left:
  assumes tree: "is_tree t (plug (f # Left_of cg g u # D) (Bin cn nl n nr))" and red: "frame_color f = RED"
  shows "\<exists>t'. insert_fixup_step t n = Some (Inr (t', snd (round_shape f (Left_of cg g u) (Bin cn nl n nr))))
    \<and> is_tree t' (plug D (fst (round_shape f (Left_of cg g u) (Bin cn nl n nr)))) \<and> same_rest t t'"
proof -
  let ?s = "Bin cn nl n nr"
  note reads = step_reads(2,3) [OF tree, simplified]
  obtain x y where n: "rt_nodes t n = Some \<lparr>rn_color = cn, rn_parent = Some (frame_addr f), rn_left = x, rn_right = y\<rparr>"
    using step_reads(1) [OF tree] by blast
  have u: "is_red t (root_of u) = Some (shape_red u)"
    using is_red_at [of t "Right_of cg (fill f ?s) g # D" u] tree by simp
  show ?thesis
  proof (cases "shape_red u")
    case True
    then obtain ul a ur where ur: "u = Bin RED ul a ur" by (rule shape_redE)
    obtain x p y where f: "fill f ?s = Bin RED x p y" "frame_addr f = p" using red by (cases f) auto
    have "is_tree t (plug D (Bin cg (Bin RED x p y) g (Bin RED ul a ur)))" using tree f ur by simp
    from recolor_left [OF this] show ?thesis
      using n reads u f red ur by (auto simp: insert_fixup_step_def)
  next
    case False
    then have shape: "(case u of Bin RED ul a ur \<Rightarrow> A ul a ur | _ \<Rightarrow> B) = B" for A :: "shape \<Rightarrow> nat \<Rightarrow> shape \<Rightarrow> shape \<times> nat" and B
      by (cases u) (auto split: rb_color.splits)
    show ?thesis
    proof (cases f)
      case (Left_of cp p y)
      have "is_tree t (plug D (Bin cg (Bin RED ?s p y) g u))" using tree Left_of red by simp
      from round_left_outer [OF this] obtain t1 t2 t' where "rbt_rotate_right g t = Some t1" "set_color p BLACK t1 = Some t2"
        "set_color g RED t2 = Some t'" "same_rest t t'" "is_tree t' (plug D (Bin BLACK ?s p (Bin RED y g u)))" by blast
      moreover have "root_of y \<noteq> Some n"
        using tree root_of_notin [of y "[]"] by (cases y) (auto simp: Left_of is_tree_place)
      ultimately show ?thesis using n reads u False red by (simp add: insert_fixup_step_def Left_of shape)
    next
      case (Right_of cp x p)
      have "is_tree t (plug D (Bin cg (Bin cp x p (Bin cn nl n nr)) g u))" using tree Right_of by simp
      from round_left_inner [OF this] show ?thesis using n reads u False red
        by (auto simp: insert_fixup_step_def Right_of shape)
    qed
  qed
qed

lemma insert_fixup_step_right:
  assumes tree: "is_tree t (plug (f # Right_of cg u g # D) (Bin cn nl n nr))" and red: "frame_color f = RED"
  shows "\<exists>t'. insert_fixup_step t n = Some (Inr (t', snd (round_shape f (Right_of cg u g) (Bin cn nl n nr))))
    \<and> is_tree t' (plug D (fst (round_shape f (Right_of cg u g) (Bin cn nl n nr)))) \<and> same_rest t t'"
proof -
  let ?s = "Bin cn nl n nr"
  note reads = step_reads(2,3) [OF tree, simplified]
  obtain x y where n: "rt_nodes t n = Some \<lparr>rn_color = cn, rn_parent = Some (frame_addr f), rn_left = x, rn_right = y\<rparr>"
    using step_reads(1) [OF tree] by blast
  have u: "is_red t (root_of u) = Some (shape_red u)"
    using is_red_at [of t "Left_of cg g (fill f ?s) # D" u] tree by simp
  have other: "root_of u \<noteq> Some (frame_addr f)"
    using tree by (cases u; cases f) (auto simp: is_tree_place)
  show ?thesis
  proof (cases "shape_red u")
    case True
    then obtain ul a ur where ur: "u = Bin RED ul a ur" by (rule shape_redE)
    obtain x p y where f: "fill f ?s = Bin RED x p y" "frame_addr f = p" using red by (cases f) auto
    have "is_tree t (plug D (Bin cg (Bin RED ul a ur) g (Bin RED x p y)))" using tree f ur by simp
    from recolor_right [OF this] show ?thesis
      using n reads u f red ur other by (auto simp: insert_fixup_step_def)
  next
    case False
    then have shape: "(case u of Bin RED ul a ur \<Rightarrow> A ul a ur | _ \<Rightarrow> B) = B" for A :: "shape \<Rightarrow> nat \<Rightarrow> shape \<Rightarrow> shape \<times> nat" and B
      by (cases u) (auto split: rb_color.splits)
    show ?thesis
    proof (cases f)
      case (Right_of cp x p)
      have "is_tree t (plug D (Bin cg u g (Bin RED x p ?s)))" using tree Right_of red by simp
      from round_right_outer [OF this] obtain t1 t2 t' where "rbt_rotate_left g t = Some t1" "set_color p BLACK t1 = Some t2"
        "set_color g RED t2 = Some t'" "same_rest t t'" "is_tree t' (plug D (Bin BLACK (Bin RED u g x) p ?s))" by blast
      moreover have "root_of x \<noteq> Some n" using tree by (cases x) (auto simp: Right_of is_tree_place)
      ultimately show ?thesis using n reads u False red other by (simp add: insert_fixup_step_def Right_of shape)
    next
      case (Left_of cp p y)
      have "is_tree t (plug D (Bin cg u g (Bin cp (Bin cn nl n nr) p y)))" using tree Left_of by simp
      from round_right_inner [OF this] show ?thesis using n reads u False red other
        by (auto simp: insert_fixup_step_def Left_of shape)
    qed
  qed
qed

text \<open>The whole loop as a function of shapes.  Two frames less each round: it ends.\<close>

fun fixup_shape :: "frame list \<Rightarrow> shape \<Rightarrow> shape" where
  "fixup_shape (f # g # D) s =
     (if frame_color f = RED then fixup_shape D (fst (round_shape f g s)) else plug (f # g # D) s)"
| "fixup_shape [f] s = plug [f] s"
| "fixup_shape [] s = s"

lemma round_shape_root:
  "s \<noteq> Tip \<Longrightarrow> \<exists>c l r. fst (round_shape f g s) = Bin c l (snd (round_shape f g s)) r"
  by (cases "(f, g, s)" rule: round_shape.cases) (cases f; auto split: shape.splits rb_color.splits)+

lemma round_shape_inorder: "s \<noteq> Tip \<Longrightarrow> inorder (fst (round_shape f g s)) = inorder (fill g (fill f s))"
  by (cases "(f, g, s)" rule: round_shape.cases) (cases f; auto split: shape.splits rb_color.splits)+

lemma fixup_shape_inorder: "s \<noteq> Tip \<Longrightarrow> inorder (fixup_shape C s) = inorder (plug C s)"
proof (induction C s rule: fixup_shape.induct)
  case (1 f g D s)
  then have "fst (round_shape f g s) \<noteq> Tip" using round_shape_root [of s f g] by fastforce
  moreover have "inorder (plug D (fst (round_shape f g s))) = inorder (plug (f # g # D) s)"
    using round_shape_inorder [OF 1(2), of f g] by simp
  ultimately show ?case using 1 by simp
qed simp_all

lemma fixup_shape_nonempty: "s \<noteq> Tip \<Longrightarrow> fixup_shape C s \<noteq> Tip"
  using fixup_shape_inorder [of s C] by (cases s) auto

lemma insert_fixup_loop_shape:
  assumes "is_tree t (plug C (Bin c l n r))" "C \<noteq> [] \<longrightarrow> frame_color (last C) = BLACK"
  shows "\<exists>t'. insert_fixup_loop t n = Some t' \<and> is_tree t' (fixup_shape C (Bin c l n r)) \<and> same_rest t t'"
  using assms
proof (induction C "Bin c l n r" arbitrary: t c l n r rule: fixup_shape.induct)
  case (1 f g D)
  show ?case
  proof (cases "frame_color f = RED")
    case True
    let ?round = "round_shape f g (Bin c l n r)"
    obtain t1 where step: "insert_fixup_step t n = Some (Inr (t1, snd ?round))" "is_tree t1 (plug D (fst ?round))" "same_rest t t1"
      using insert_fixup_step_left [of t f _ _ _ D c l n r] insert_fixup_step_right [of t f _ _ _ D c l n r] 1(2) True
      by (cases g) blast+
    obtain c' l' r' where new: "fst ?round = Bin c' l' (snd ?round) r'" using round_shape_root by blast
    have "D \<noteq> [] \<longrightarrow> frame_color (last D) = BLACK" using 1(3) by (cases D) auto
    from 1(1) [OF True new] step(2) this new
    obtain t' where "insert_fixup_loop t1 (snd ?round) = Some t'" "is_tree t' (fixup_shape D (fst ?round))" "same_rest t1 t'"
      by metis
    then show ?thesis using True step same_rest_trans
      by (subst insert_fixup_loop.simps) auto
  next
    case False
    then show ?thesis using step_reads(1,2) [OF 1(2)] 1(2)
      by (subst insert_fixup_loop.simps) (auto simp: insert_fixup_step_def)
  qed
next
  case (2 f)
  have "rt_nodes t n = Some \<lparr>rn_color = c, rn_parent = Some (frame_addr f), rn_left = root_of l, rn_right = root_of r\<rparr>"
    using node_at [OF 2(1)] by simp
  moreover obtain x y where "rt_nodes t (frame_addr f) = Some \<lparr>rn_color = BLACK, rn_parent = None, rn_left = x, rn_right = y\<rparr>"
    using node_above [OF 2(1)] 2(2) by simp
  ultimately show ?case using 2(1) by (subst insert_fixup_loop.simps) (auto simp: insert_fixup_step_def)
next
  case 3
  then have "rt_nodes t n = Some \<lparr>rn_color = c, rn_parent = None, rn_left = root_of l, rn_right = root_of r\<rparr>"
    using node_at [of t "[]" c l n r] by simp
  then show ?case using 3 by (subst insert_fixup_loop.simps) (simp add: insert_fixup_step_def)
qed

primrec paint :: "rb_color \<Rightarrow> shape \<Rightarrow> shape" where
  "paint c Tip = Tip"
| "paint c (Bin c' l a r) = Bin c l a r"

lemma inorder_paint [simp]: "inorder (paint c s) = inorder s"
  by (cases s) simp_all

lemma rbt_insert_fixup_shape:
  assumes "is_tree t (plug C (Bin c l n r))" "C \<noteq> [] \<longrightarrow> frame_color (last C) = BLACK"
  shows "\<exists>t'. rbt_insert_fixup n t = Some t' \<and> is_tree t' (paint BLACK (fixup_shape C (Bin c l n r))) \<and> same_rest t t'"
proof -
  obtain t1 where t1: "insert_fixup_loop t n = Some t1" "is_tree t1 (fixup_shape C (Bin c l n r))" "same_rest t t1"
    using insert_fixup_loop_shape [OF assms] by blast
  have "fixup_shape C (Bin c l n r) \<noteq> Tip" by (rule fixup_shape_nonempty) simp
  then obtain c' l' a r' where s: "fixup_shape C (Bin c l n r) = Bin c' l' a r'" by (cases "fixup_shape C (Bin c l n r)") auto
  obtain t2 where "set_color a BLACK t1 = Some t2" "is_tree t2 (Bin BLACK l' a r')" "same_rest t1 t2"
    using set_color_place [of t1 "[]" c' l' a r' BLACK] t1(2) s by auto
  moreover have "rt_root t1 = Some a" using t1(2) s by (simp add: is_tree_def)
  ultimately show ?thesis using t1 s same_rest_trans by (auto simp: rbt_insert_fixup_def)
qed

subsection \<open>The descent\<close>

fun descend :: "(nat \<Rightarrow> nat \<Rightarrow> int) \<Rightarrow> nat \<Rightarrow> frame list \<Rightarrow> shape \<Rightarrow> frame list option" where
  "descend cmp n C Tip = Some C"
| "descend cmp n C (Bin c l a r) = (if cmp n a = 0 then None
     else if cmp n a < 0 then descend cmp n (Left_of c a r # C) l
     else descend cmp n (Right_of c l a # C) r)"

definition insert_shape :: "(nat \<Rightarrow> nat \<Rightarrow> int) \<Rightarrow> nat \<Rightarrow> shape \<Rightarrow> shape option" where
  "insert_shape cmp n s =
     map_option (\<lambda>C. paint BLACK (fixup_shape C (Bin RED Tip n Tip))) (descend cmp n [] s)"

definition link_to :: "frame list \<Rightarrow> rb_link" where
  "link_to C = (case C of [] \<Rightarrow> Link_root | f # D \<Rightarrow>
     (case f of Left_of c a r \<Rightarrow> Link_left a | Right_of c l a \<Rightarrow> Link_right a))"

lemma link_to_simps [simp]: "link_to [] = Link_root" "link_to (Left_of c a r # C) = Link_left a"
  "link_to (Right_of c l a # C) = Link_right a"
  by (simp_all add: link_to_def)

lemma read_link_to: "is_tree t (plug C s) \<Longrightarrow> read_link t (link_to C) = Some (root_of s)"
proof (cases C)
  case (Cons f D)
  assume "is_tree t (plug C s)"
  from node_above [OF this [unfolded Cons]] show ?thesis by (cases f) (simp_all add: Cons read_link_def)
qed (simp add: read_link_def is_tree_def)

lemma write_link_to:
  assumes tree: "is_tree t (plug C Tip)" and new: "rep (rt_nodes t) (parent_link C) (Bin c Tip n Tip)"
    "n \<notin> set (before C)" "n \<notin> set (after C)"
  shows "\<exists>t'. write_link (link_to C) (Some n) t = Some t' \<and> is_tree t' (plug C (Bin c Tip n Tip)) \<and> same_rest t t'"
proof (cases C)
  case Nil
  then show ?thesis using assms by (simp add: write_link_def is_tree_def same_rest_def)
next
  case (Cons f D)
  then show ?thesis using assms node_above [OF tree [unfolded Cons]]
    by (cases f) (auto simp: write_link_def set_node_Some is_tree_place root_link_def same_rest_def)
qed

text \<open>While the descent runs, \<open>n\<close> is a red node outside the tree whose parent is the node above.\<close>

definition pending_node :: "rbtree \<Rightarrow> nat \<Rightarrow> frame list \<Rightarrow> bool" where
  "pending_node t n C \<longleftrightarrow>
     rt_nodes t n = Some \<lparr>rn_color = RED, rn_parent = parent_link C, rn_left = None, rn_right = None\<rparr>"

lemma insert_search_shape:
  assumes "is_tree t (plug C s)" "pending_node t n C" "n \<notin> set (inorder (plug C s))"
  shows "\<exists>t'. same_rest t t' \<and> is_tree t' (plug C s) \<and> (case descend (rt_compare t) n C s of
       None \<Rightarrow> insert_search n t (link_to C) = Some (t', None)
     | Some D \<Rightarrow> insert_search n t (link_to C) = Some (t', Some (link_to D))
         \<and> plug D Tip = plug C s \<and> pending_node t' n D)"
  using assms
proof (induction s arbitrary: t C)
  case Tip
  then have "insert_search n t (link_to C) = Some (t, Some (link_to C))"
    by (subst insert_search.simps) (simp add: read_link_to)
  then show ?case using Tip by (intro exI [of _ t]) simp
next
  case (Bin c l a r)
  let ?node = "\<lparr>rn_color = RED, rn_parent = Some a, rn_left = None, rn_right = None\<rparr>"
  define t1 where "t1 = t\<lparr>rt_nodes := (rt_nodes t)(n \<mapsto> ?node)\<rparr>"
  have set: "set_parent n (Some a) t = Some t1"
    using Bin.prems(2) by (simp add: set_node_def pending_node_def t1_def)
  have t1: "is_tree t1 (plug C (Bin c l a r))" using Bin.prems(1,3) by (simp add: is_tree_def t1_def)
  have rest: "same_rest t t1" using Bin.prems(2) by (auto simp: same_rest_def t1_def pending_node_def)
  have cmp: "rt_compare t1 = rt_compare t" by (simp add: t1_def)
  have search: "insert_search n t (link_to C) = (if rt_compare t n a = 0 then Some (t1, None)
      else if rt_compare t n a < 0 then insert_search n t1 (link_to (Left_of c a r # C))
      else insert_search n t1 (link_to (Right_of c l a # C)))"
    by (subst insert_search.simps) (simp add: read_link_to [OF Bin.prems(1)] set cmp)
  have pend: "pending_node t1 n (Left_of c a r # C)" "pending_node t1 n (Right_of c l a # C)"
    by (simp_all add: pending_node_def t1_def)
  consider "rt_compare t n a = 0" | "rt_compare t n a < 0" | "rt_compare t n a > 0" by linarith
  then show ?case
  proof cases
    case 1
    then show ?thesis using search t1 rest by (intro exI [of _ t1]) simp
  next
    case 2
    from Bin.IH(1) [OF _ pend(1)] t1 Bin.prems(3)
    obtain t' where "same_rest t1 t'" "is_tree t' (plug (Left_of c a r # C) l)"
      "case descend (rt_compare t1) n (Left_of c a r # C) l of
         None \<Rightarrow> insert_search n t1 (link_to (Left_of c a r # C)) = Some (t', None)
       | Some D \<Rightarrow> insert_search n t1 (link_to (Left_of c a r # C)) = Some (t', Some (link_to D))
           \<and> plug D Tip = plug (Left_of c a r # C) l \<and> pending_node t' n D" by auto
    then show ?thesis using 2 search cmp same_rest_trans [OF rest]
      by (intro exI [of _ t']) (auto split: option.splits)
  next
    case 3
    from Bin.IH(2) [OF _ pend(2)] t1 Bin.prems(3)
    obtain t' where "same_rest t1 t'" "is_tree t' (plug (Right_of c l a # C) r)"
      "case descend (rt_compare t1) n (Right_of c l a # C) r of
         None \<Rightarrow> insert_search n t1 (link_to (Right_of c l a # C)) = Some (t', None)
       | Some D \<Rightarrow> insert_search n t1 (link_to (Right_of c l a # C)) = Some (t', Some (link_to D))
           \<and> plug D Tip = plug (Right_of c l a # C) r \<and> pending_node t' n D" by auto
    then show ?thesis using 3 search cmp same_rest_trans [OF rest]
      by (intro exI [of _ t']) (auto split: option.splits)
  qed
qed

text \<open>The insertion computes \<open>insert_shape\<close>.\<close>

lemma rbt_insert_shape:
  assumes tree: "is_tree t s" "shape_red s = False" and n: "n \<in> dom (rt_nodes t)" "n \<notin> set (inorder s)"
  shows "\<exists>t'. rbt_insert n t = Some (insert_shape (rt_compare t) n s \<noteq> None, t')
    \<and> is_tree t' (case insert_shape (rt_compare t) n s of Some s' \<Rightarrow> s' | None \<Rightarrow> s)
    \<and> rt_compare t' = rt_compare t \<and> dom (rt_nodes t') = dom (rt_nodes t)
    \<and> rt_cached_min t' = (if insert_shape (rt_compare t) n s = None then rt_cached_min t
        else rt_cached_min (insert_cached_min n t))"
proof -
  let ?node = "\<lparr>rn_color = RED, rn_parent = None, rn_left = None, rn_right = None\<rparr>"
  define t0 where "t0 = t\<lparr>rt_nodes := (rt_nodes t)(n \<mapsto> ?node)\<rparr>"
  have set: "set_node n (\<lambda>_. ?node) t = Some t0" using n(1) by (auto simp: set_node_def t0_def)
  have t0: "is_tree t0 (plug [] s)" "pending_node t0 n []" "same_rest t t0"
    using tree n by (auto simp: is_tree_def t0_def pending_node_def same_rest_def)
  obtain t1 where t1: "same_rest t0 t1" "is_tree t1 s" "case descend (rt_compare t0) n [] s of
       None \<Rightarrow> insert_search n t0 Link_root = Some (t1, None)
     | Some D \<Rightarrow> insert_search n t0 Link_root = Some (t1, Some (link_to D)) \<and> plug D Tip = s \<and> pending_node t1 n D"
    using insert_search_shape [OF t0(1,2)] n(2) unfolding link_to_simps plug.simps by blast
  have cmp: "rt_compare t0 = rt_compare t" by (simp add: t0_def)
  show ?thesis
  proof (cases "descend (rt_compare t) n [] s")
    case None
    then have "rbt_insert n t = Some (False, t1)" using t1(3) by (simp add: rbt_insert_def set cmp)
    then show ?thesis using t1(1,2) t0(3) None by (auto simp: insert_shape_def same_rest_def)
  next
    case (Some D)
    then have D: "insert_search n t0 Link_root = Some (t1, Some (link_to D))" "plug D Tip = s" "pending_node t1 n D"
      using t1(3) cmp by simp_all
    have "n \<notin> set (inorder (plug D Tip))" using n(2) D(2) by simp
    then obtain t2 where t2: "write_link (link_to D) (Some n) t1 = Some t2" "is_tree t2 (plug D (Bin RED Tip n Tip))"
      "same_rest t1 t2"
      using write_link_to [of t1 D RED n] t1(2) D(2,3) by (auto simp: pending_node_def)
    define t3 where "t3 = insert_cached_min n t2"
    have t3: "is_tree t3 (plug D (Bin RED Tip n Tip))"
      "rt_compare t3 = rt_compare t2 \<and> dom (rt_nodes t3) = dom (rt_nodes t2)"
      using t2(2) by (auto simp: t3_def insert_cached_min_def is_tree_def split: option.splits)
    have "D \<noteq> [] \<longrightarrow> frame_color (last D) = BLACK"
    proof
      assume "D \<noteq> []"
      then obtain E f where "D = E @ [f]" by (metis append_butlast_last_id)
      then have "s = fill f (plug E Tip)" using D(2) by (simp add: plug_append)
      then show "frame_color (last D) = BLACK" using tree(2) \<open>D = E @ [f]\<close>
        by (cases f) (auto intro: rb_color.exhaust)
    qed
    from rbt_insert_fixup_shape [OF t3(1) this]
    obtain t4 where t4: "rbt_insert_fixup n t3 = Some t4" "is_tree t4 (paint BLACK (fixup_shape D (Bin RED Tip n Tip)))"
      "same_rest t3 t4" by blast
    have "rt_cached_min t3 = rt_cached_min (insert_cached_min n t)"
      using t2(3) t1(1) t0(3) by (auto simp: t3_def insert_cached_min_def same_rest_def split: option.splits)
    moreover have "rbt_insert n t = Some (True, t4)"
      using t2(1) t4(1) by (simp add: rbt_insert_def set D(1) t3_def)
    ultimately show ?thesis using t0(3) t1(1) t2(3) t3(2) t4(2,3) Some
      by (auto simp: insert_shape_def same_rest_def)
  qed
qed

subsection \<open>Comparisons\<close>

text \<open>What the tree expects of its comparison: nodes are ordered by a key.\<close>

locale node_order =
  fixes cmp :: "nat \<Rightarrow> nat \<Rightarrow> int"
  assumes swap: "cmp a b < 0 \<longleftrightarrow> cmp b a > 0"
    and trans: "cmp a b < 0 \<Longrightarrow> cmp b c < 0 \<Longrightarrow> cmp a c < 0"
    and refl: "cmp a a = 0"
begin

abbreviation precedes :: "nat \<Rightarrow> nat \<Rightarrow> bool" where
  "precedes a b \<equiv> cmp a b < 0"

lemma descend_order:
  assumes "sorted_wrt precedes (inorder (plug C s))" "\<forall>a \<in> set (before C). precedes a n" "\<forall>a \<in> set (after C). precedes n a"
  shows "case descend cmp n C s of
      None \<Rightarrow> \<exists>a \<in> set (inorder s). cmp n a = 0
    | Some D \<Rightarrow> sorted_wrt precedes (inorder (plug D (Bin RED Tip n Tip))) \<and> (\<forall>a \<in> set (inorder s). cmp n a \<noteq> 0)"
  using assms
proof (induction s arbitrary: C)
  case Tip
  then show ?case by (auto simp: sorted_wrt_append)
next
  case (Bin c l a r)
  have sorted: "\<forall>x \<in> set (before C) \<union> set (inorder l). precedes x a" "\<forall>x \<in> set (inorder r) \<union> set (after C). precedes a x"
    using Bin.prems(1) by (auto simp: sorted_wrt_append)
  consider "cmp n a = 0" | "precedes n a" | "precedes a n" using swap [of a n] by linarith
  then show ?case
  proof cases
    case 1
    then show ?thesis by simp
  next
    case 2
    then have right: "\<forall>x \<in> set (inorder r). precedes n x" using sorted(2) trans by blast
    have "case descend cmp n (Left_of c a r # C) l of
      None \<Rightarrow> \<exists>a \<in> set (inorder l). cmp n a = 0
    | Some D \<Rightarrow> sorted_wrt precedes (inorder (plug D (Bin RED Tip n Tip))) \<and> (\<forall>a \<in> set (inorder l). cmp n a \<noteq> 0)"
      using Bin.IH(1) [of "Left_of c a r # C"] Bin.prems 2 right by (simp add: ball_Un)
    then show ?thesis using 2 right by (auto split: option.splits)
  next
    case 3
    then have left: "\<forall>x \<in> set (inorder l). precedes x n" using sorted(1) trans by blast
    then have left': "\<forall>x \<in> set (inorder l). cmp n x > 0" using swap by blast
    have "cmp n a > 0" using 3 swap by blast
    moreover have "case descend cmp n (Right_of c l a # C) r of
      None \<Rightarrow> \<exists>a \<in> set (inorder r). cmp n a = 0
    | Some D \<Rightarrow> sorted_wrt precedes (inorder (plug D (Bin RED Tip n Tip))) \<and> (\<forall>a \<in> set (inorder r). cmp n a \<noteq> 0)"
      using Bin.IH(2) [of "Right_of c l a # C"] Bin.prems 3 left by (simp add: ball_Un)
    ultimately show ?thesis using left' by (auto split: option.splits)
  qed
qed

lemma descend_inorder: "descend cmp n C s = Some D \<Longrightarrow> \<exists>xs ys. inorder (plug C s) = xs @ ys
    \<and> inorder (plug D (Bin RED Tip n Tip)) = xs @ n # ys"
  by (induction cmp n C s rule: descend.induct) (auto split: if_splits)

lemma insert_shape_order:
  assumes "sorted_wrt precedes (inorder s)"
  shows "case insert_shape cmp n s of
      None \<Rightarrow> \<exists>a \<in> set (inorder s). cmp n a = 0
    | Some s' \<Rightarrow> sorted_wrt precedes (inorder s') \<and> (\<forall>a \<in> set (inorder s). cmp n a \<noteq> 0)
        \<and> (\<exists>xs ys. inorder s = xs @ ys \<and> inorder s' = xs @ n # ys) \<and> \<not> shape_red s'"
proof (cases "descend cmp n [] s")
  case None
  then show ?thesis using descend_order [of "[]" s n] assms by (simp add: insert_shape_def)
next
  case (Some D)
  let ?s = "fixup_shape D (Bin RED Tip n Tip)"
  have eq: "inorder ?s = inorder (plug D (Bin RED Tip n Tip))" by (rule fixup_shape_inorder) simp
  have black: "\<not> shape_red (paint BLACK ?s)" by (cases ?s) simp_all
  from descend_inorder [OF Some] obtain xs ys where "inorder s = xs @ ys" "inorder ?s = xs @ n # ys"
    unfolding eq by auto
  moreover have "sorted_wrt precedes (inorder ?s)" "\<forall>a \<in> set (inorder s). cmp n a \<noteq> 0"
    unfolding eq using descend_order [of "[]" s n] assms Some by simp_all
  ultimately show ?thesis using Some black by (auto simp: insert_shape_def)
qed

end

text \<open>The comparison of \<^verbatim>\<open>src/src/test/rbtree_test.c\<close>, for keys whose differences do not overflow.\<close>

definition test_node_cmp :: "(nat \<Rightarrow> int) \<Rightarrow> nat \<Rightarrow> nat \<Rightarrow> int" where
  "test_node_cmp key l r = key l - key r"

interpretation keyed: node_order "test_node_cmp key" for key :: "nat \<Rightarrow> int"
  by unfold_locales (auto simp: test_node_cmp_def)

end
