(* ===== verification/Rbtree_Search.thy ===== *)
theory Rbtree_Search
  imports Rbtree_Insert
begin

text \<open>Traversal and search in memory, as functions of the list of nodes in order.\<close>

definition first :: "'a list \<Rightarrow> 'a option" where
  "first xs = (case xs of [] \<Rightarrow> None | x # ys \<Rightarrow> Some x)"

lemma first_simps [simp]: "first [] = None" "first (x # ys) = Some x"
  by (simp_all add: first_def)

lemma first_append [simp]: "first (xs @ ys) = (if xs = [] then first ys else first xs)"
  by (cases xs) simp_all

lemma first_hd: "xs \<noteq> [] \<Longrightarrow> first xs = Some (hd xs)"
  by (cases xs) simp_all

abbreviation final :: "'a list \<Rightarrow> 'a option" where
  "final xs \<equiv> first (rev xs)"

subsection \<open>Neighbours\<close>

lemma leftmost_shape:
  "is_tree t (plug C (Bin c l a r)) \<Longrightarrow> leftmost t a = first (inorder l @ [a])"
proof (induction l arbitrary: C c a r)
  case Tip
  then show ?case using node_at [OF Tip] by (subst leftmost.simps) simp
next
  case (Bin c' l' a' r')
  have "is_tree t (plug (Left_of c a r # C) (Bin c' l' a' r'))" using Bin.prems by simp
  from Bin.IH(1) [OF this] show ?case using node_at [OF Bin.prems] by (subst leftmost.simps) simp
qed

lemma rightmost_shape:
  "is_tree t (plug C (Bin c l a r)) \<Longrightarrow> rightmost t a = final (a # inorder r)"
proof (induction r arbitrary: C c a l)
  case Tip
  then show ?case using node_at [OF Tip] by (subst rightmost.simps) simp
next
  case (Bin c' l' a' r')
  have "is_tree t (plug (Right_of c l a # C) (Bin c' l' a' r'))" using Bin.prems by simp
  from Bin.IH(2) [OF this] show ?case using node_at [OF Bin.prems] by (subst rightmost.simps) simp
qed

lemma climb_right_shape: "is_tree t (plug C (Bin c l a r)) \<Longrightarrow> climb_right t a = Some (first (after C))"
proof (induction C arbitrary: c l a r)
  case Nil
  then show ?case using node_at [OF Nil] by (subst climb_right.simps) simp
next
  case (Cons f C)
  note n = node_at [OF Cons.prems] node_above [OF Cons.prems]
  show ?case
  proof (cases f)
    case (Left_of c' b s)
    then show ?thesis using n by (subst climb_right.simps) simp
  next
    case (Right_of c' s b)
    have "root_of s \<noteq> Some a" using Cons.prems by (cases s) (auto simp: Right_of is_tree_place)
    moreover have "climb_right t b = Some (first (after C))" using Cons.IH Cons.prems by (simp add: Right_of)
    ultimately show ?thesis using n Right_of by (subst climb_right.simps) simp
  qed
qed

lemma climb_left_shape: "is_tree t (plug C (Bin c l a r)) \<Longrightarrow> climb_left t a = Some (final (before C))"
proof (induction C arbitrary: c l a r)
  case Nil
  then show ?case using node_at [OF Nil] by (subst climb_left.simps) simp
next
  case (Cons f C)
  note n = node_at [OF Cons.prems] node_above [OF Cons.prems]
  show ?case
  proof (cases f)
    case (Right_of c' s b)
    then show ?thesis using n by (subst climb_left.simps) simp
  next
    case (Left_of c' b s)
    have "root_of s \<noteq> Some a" using Cons.prems by (cases s) (auto simp: Left_of is_tree_place)
    moreover have "climb_left t b = Some (final (before C))" using Cons.IH Cons.prems by (simp add: Left_of)
    ultimately show ?thesis using n Left_of by (subst climb_left.simps) simp
  qed
qed

lemma rbnode_next_shape:
  assumes "is_tree t (plug C (Bin c l a r))"
  shows "rbnode_next t (Some a) = Some (first (inorder r @ after C))"
proof (cases r)
  case Tip
  then show ?thesis using node_at [OF assms] climb_right_shape [OF assms] by (simp add: rbnode_next_def)
next
  case (Bin c' l' b r')
  have "is_tree t (plug (Right_of c l a # C) (Bin c' l' b r'))" using assms Bin by simp
  from leftmost_shape [OF this] show ?thesis using node_at [OF assms] by (simp add: rbnode_next_def Bin first_hd)
qed

lemma rbnode_prev_shape:
  assumes "is_tree t (plug C (Bin c l a r))"
  shows "rbnode_prev t (Some a) = Some (final (before C @ inorder l))"
proof (cases l)
  case Tip
  then show ?thesis using node_at [OF assms] climb_left_shape [OF assms] by (simp add: rbnode_prev_def)
next
  case (Bin c' l' b r')
  have "is_tree t (plug (Left_of c a r # C) (Bin c' l' b r'))" using assms Bin by simp
  from rightmost_shape [OF this] show ?thesis using node_at [OF assms] by (simp add: rbnode_prev_def Bin first_hd)
qed

lemma distinct_split_unique:
  "distinct (xs @ a # ys) \<Longrightarrow> xs @ a # ys = xs' @ a # ys' \<Longrightarrow> xs = xs' \<and> ys = ys'"
proof -
  have take: "takeWhile (\<lambda>x. x \<noteq> a) (us @ a # vs) = us" if "a \<notin> set us" for us vs
    using that by (induction us) auto
  assume d: "distinct (xs @ a # ys)" and e: "xs @ a # ys = xs' @ a # ys'"
  then have "a \<notin> set xs" "a \<notin> set xs'" by (auto dest: arg_cong [of _ _ distinct])
  then have "xs = xs'" using take e by metis
  then show ?thesis using e by simp
qed

lemma neighbours:
  assumes "is_tree t s" "inorder s = xs @ a # ys"
  shows "rbnode_next t (Some a) = Some (first ys)" "rbnode_prev t (Some a) = Some (final xs)"
proof -
  obtain C c l r where s: "s = plug C (Bin c l a r)" using in_inorder_place [of a s] assms(2) by auto
  have "distinct (xs @ a # ys)" using assms by (simp add: is_tree_def)
  moreover have "xs @ a # ys = (before C @ inorder l) @ a # (inorder r @ after C)" using assms(2) s by simp
  ultimately have "xs = before C @ inorder l \<and> ys = inorder r @ after C" by (rule distinct_split_unique)
  then show "rbnode_next t (Some a) = Some (first ys)" "rbnode_prev t (Some a) = Some (final xs)"
    using rbnode_next_shape rbnode_prev_shape assms(1) s by auto
qed

lemma rbt_max_shape: "is_tree t s \<Longrightarrow> rbt_max t = Some (final (inorder s))"
proof (cases s)
  case (Bin c l a r)
  assume "is_tree t s"
  then show ?thesis using rightmost_shape [of t "[]" c l a r] by (auto simp: rbt_max_def is_tree_def Bin first_hd)
qed (simp add: rbt_max_def is_tree_def)

subsection \<open>Search\<close>

context node_order
begin

lemma find_below:
  "rep (rt_nodes t) p s \<Longrightarrow> rt_compare t = cmp \<Longrightarrow> \<forall>x \<in> set (inorder s). cmp x n < 0 \<Longrightarrow>
    rbt_find_loop t n (root_of s) = Some None"
proof (induction s arbitrary: p)
  case (Bin c l a r)
  then have "rbt_find_loop t n (root_of l) = Some None" by auto
  then show ?case using Bin.prems by (subst rbt_find_loop.simps) simp
qed (subst rbt_find_loop.simps, simp)

lemma find_above:
  "rep (rt_nodes t) p s \<Longrightarrow> rt_compare t = cmp \<Longrightarrow> \<forall>x \<in> set (inorder s). cmp x n > 0 \<Longrightarrow>
    rbt_find_loop t n (root_of s) = Some None"
proof (induction s arbitrary: p)
  case (Bin c l a r)
  then have "rbt_find_loop t n (root_of r) = Some None" by auto
  moreover have "cmp a n > 0" using Bin.prems(3) by simp
  ultimately show ?case using Bin.prems by (subst rbt_find_loop.simps) simp
qed (subst rbt_find_loop.simps, simp)

lemma find_root:
  assumes "is_tree t s" "rt_compare t = cmp" "sorted_wrt precedes (inorder s)"
  shows "rbt_find t n = Some (case rt_root t of None \<Rightarrow> None | Some r \<Rightarrow> if cmp r n = 0 then Some r else None)"
proof (cases s)
  case Tip
  then have "rt_root t = None" using assms(1) by (simp add: is_tree_def)
  then show ?thesis by (simp add: rbt_find_def) (subst rbt_find_loop.simps, simp)
next
  case (Bin c l a r)
  have a: "rt_root t = Some a" "rt_nodes t a = Some \<lparr>rn_color = c, rn_parent = None, rn_left = root_of l, rn_right = root_of r\<rparr>"
    and lr: "rep (rt_nodes t) (Some a) l" "rep (rt_nodes t) (Some a) r"
    using assms(1) by (auto simp: Bin is_tree_def)
  have "rbt_find_loop t n (root_of l) = Some None" if "cmp a n < 0"
    using find_below [OF lr(1) assms(2)] assms(3) trans [OF _ that] by (auto simp: Bin sorted_wrt_append)
  moreover have "rbt_find_loop t n (root_of r) = Some None" if "cmp a n > 0"
  proof -
    have "cmp n a < 0" using that swap by blast
    then have "\<forall>x \<in> set (inorder r). cmp n x < 0" using assms(3) trans by (auto simp: Bin sorted_wrt_append)
    then show ?thesis using find_above [OF lr(2) assms(2)] swap by blast
  qed
  ultimately show ?thesis unfolding rbt_find_def a(1)
    by (subst rbt_find_loop.simps) (simp add: a(2) assms(2))
qed

end

end
