(* ===== verification/Rbtree_Remove.thy ===== *)
theory Rbtree_Remove
  imports Rbtree_Search
begin

text \<open>
  Removal in memory.  The fixup needs a balanced tree, or it follows a null sibling; on one it restores
  the balance and ends.
\<close>

subsection \<open>Balance\<close>

primrec black_height :: "shape \<Rightarrow> nat" where
  "black_height Tip = 0"
| "black_height (Bin c l a r) = black_height l + (if c = BLACK then 1 else 0)"

primrec balanced :: "shape \<Rightarrow> bool" where
  "balanced Tip \<longleftrightarrow> True"
| "balanced (Bin c l a r) \<longleftrightarrow> balanced l \<and> balanced r \<and> black_height l = black_height r
     \<and> (c = RED \<longrightarrow> \<not> shape_red l \<and> \<not> shape_red r)"

definition red_black :: "shape \<Rightarrow> bool" where
  "red_black s \<longleftrightarrow> balanced s \<and> \<not> shape_red s"

primrec sibling_of :: "frame \<Rightarrow> shape" where
  "sibling_of (Left_of c a r) = r"
| "sibling_of (Right_of c l a) = l"

definition under_red :: "frame list \<Rightarrow> bool" where
  "under_red C = (case C of [] \<Rightarrow> False | f # D \<Rightarrow> frame_color f = RED)"

lemma under_red_simps [simp]: "\<not> under_red []" "under_red (f # D) = (frame_color f = RED)"
  by (simp_all add: under_red_def)

text \<open>The frames above a place are balanced for a subtree of height \<open>k\<close>.\<close>

primrec balanced_above :: "frame list \<Rightarrow> nat \<Rightarrow> bool" where
  "balanced_above [] k \<longleftrightarrow> True"
| "balanced_above (f # C) k \<longleftrightarrow> balanced (sibling_of f) \<and> black_height (sibling_of f) = k
     \<and> (frame_color f = RED \<longrightarrow> \<not> shape_red (sibling_of f) \<and> \<not> under_red C)
     \<and> balanced_above C (k + (if frame_color f = BLACK then 1 else 0))"

lemma balanced_plug: "balanced (plug C s) \<longleftrightarrow>
    balanced s \<and> balanced_above C (black_height s) \<and> (shape_red s \<longrightarrow> \<not> under_red C)"
proof (induction C arbitrary: s)
  case (Cons f C)
  show ?case by (cases f) (auto simp: Cons.IH)
qed simp

lemma shape_red_plug: "shape_red (plug C s) = (if C = [] then shape_red s else frame_color (last C) = RED)"
proof (induction C arbitrary: s)
  case (Cons f C)
  show ?case by (cases f) (auto simp: Cons.IH)
qed simp

lemma balanced_paint: "balanced s \<Longrightarrow> balanced (paint BLACK s)"
  by (cases s) simp_all

lemma black_height_paint: "shape_red s \<Longrightarrow> black_height (paint BLACK s) = black_height s + 1"
  by (cases s) simp_all

lemma shape_red_paint [simp]: "\<not> shape_red (paint BLACK s)"
  by (cases s) simp_all

lemma black_tree: "black_height s = Suc k \<Longrightarrow> s \<noteq> Tip" by auto

subsection \<open>The fixup of one round\<close>

text \<open>What the arms make of a parent \<open>p\<close> with a short left child \<open>x\<close>.\<close>

definition both_black :: "shape \<Rightarrow> shape \<Rightarrow> bool" where
  "both_black l r \<longleftrightarrow> \<not> shape_red l \<and> \<not> shape_red r"

definition short_left :: "rb_color \<Rightarrow> shape \<Rightarrow> nat \<Rightarrow> shape \<Rightarrow> nat \<Rightarrow> shape \<Rightarrow> shape" where
  "short_left pc x p sl s sr =
     (if shape_red sr then Bin pc (Bin BLACK x p sl) s (paint BLACK sr)
      else (case sl of Bin RED a b c \<Rightarrow> Bin pc (Bin BLACK x p a) b (Bin BLACK c s sr)
            | _ \<Rightarrow> Bin BLACK x p (Bin RED sl s sr)))"

definition short_right :: "rb_color \<Rightarrow> shape \<Rightarrow> nat \<Rightarrow> shape \<Rightarrow> nat \<Rightarrow> shape \<Rightarrow> shape" where
  "short_right pc sl s sr p x =
     (if shape_red sl then Bin pc (paint BLACK sl) s (Bin BLACK sr p x)
      else (case sr of Bin RED a b c \<Rightarrow> Bin pc (Bin BLACK sl s a) b (Bin BLACK c p x)
            | _ \<Rightarrow> Bin BLACK (Bin RED sl s sr) p x))"

definition round_result :: "rb_color \<Rightarrow> nat \<Rightarrow> frame list \<Rightarrow> shape \<Rightarrow> shape \<Rightarrow> rbtree \<Rightarrow> rbtree + rbtree \<times> nat \<times> nat" where
  "round_result pc p D sl sr t =
     (if both_black sl sr \<and> pc = BLACK \<and> D \<noteq> [] then Inr (t, p, frame_addr (hd D)) else Inl t)"

lemma short_left_inorder: "inorder (short_left pc x p sl s sr) = inorder x @ p # inorder sl @ s # inorder sr"
  by (auto simp: short_left_def split: shape.splits rb_color.splits)

lemma short_right_inorder: "inorder (short_right pc sl s sr p x) = inorder sl @ s # inorder sr @ p # inorder x"
  by (auto simp: short_right_def split: shape.splits rb_color.splits)

lemma short_left_black: "both_black sl sr \<Longrightarrow> short_left pc x p sl s sr = Bin BLACK x p (Bin RED sl s sr)"
  by (cases sl) (auto simp: short_left_def both_black_def split: rb_color.splits)

lemma short_right_black: "both_black sl sr \<Longrightarrow> short_right pc sl s sr p x = Bin BLACK (Bin RED sl s sr) p x"
  by (cases sr) (auto simp: short_right_def both_black_def split: rb_color.splits)

lemma case4_left:
  assumes "is_tree t (plug D (Bin pc x p (Bin sc sl s (Bin rc a r b))))"
  shows "\<exists>t1 t2 t3 t'. set_color s pc t = Some t1 \<and> set_color p BLACK t1 = Some t2 \<and> set_color r BLACK t2 = Some t3
    \<and> rbt_rotate_left p t3 = Some t' \<and> same_rest t t'
    \<and> is_tree t' (plug D (Bin pc (Bin BLACK x p sl) s (Bin BLACK a r b)))"
proof -
  obtain t1 where t1: "set_color s pc t = Some t1" "same_rest t t1"
    "is_tree t1 (plug D (Bin pc x p (Bin pc sl s (Bin rc a r b))))"
    using set_color_place [of t "Right_of pc x p # D" sc sl s _ pc] assms by auto
  obtain t2 where t2: "set_color p BLACK t1 = Some t2" "same_rest t1 t2"
    "is_tree t2 (plug D (Bin BLACK x p (Bin pc sl s (Bin rc a r b))))"
    using set_color_place [OF t1(3)] by blast
  obtain t3 where t3: "set_color r BLACK t2 = Some t3" "same_rest t2 t3"
    "is_tree t3 (plug D (Bin BLACK x p (Bin pc sl s (Bin BLACK a r b))))"
    using set_color_place [of t2 "Right_of pc sl s # Right_of BLACK x p # D" rc a r b BLACK] t2(3) by auto
  obtain t4 where "rbt_rotate_left p t3 = Some t4" "same_rest t3 t4"
    "is_tree t4 (plug D (Bin pc (Bin BLACK x p sl) s (Bin BLACK a r b)))"
    using rotate_left_place [OF t3(3)] by blast
  then show ?thesis using t1(1,2) t2(1,2) t3(1,2) by (simp add: same_rest_def)
qed

lemma case4_right:
  assumes "is_tree t (plug D (Bin pc (Bin sc (Bin rc a r b) s sr) p x))"
  shows "\<exists>t1 t2 t3 t'. set_color s pc t = Some t1 \<and> set_color p BLACK t1 = Some t2 \<and> set_color r BLACK t2 = Some t3
    \<and> rbt_rotate_right p t3 = Some t' \<and> same_rest t t'
    \<and> is_tree t' (plug D (Bin pc (Bin BLACK a r b) s (Bin BLACK sr p x)))"
proof -
  obtain t1 where t1: "set_color s pc t = Some t1" "same_rest t t1"
    "is_tree t1 (plug D (Bin pc (Bin pc (Bin rc a r b) s sr) p x))"
    using set_color_place [of t "Left_of pc p x # D" sc _ s sr pc] assms by auto
  obtain t2 where t2: "set_color p BLACK t1 = Some t2" "same_rest t1 t2"
    "is_tree t2 (plug D (Bin BLACK (Bin pc (Bin rc a r b) s sr) p x))"
    using set_color_place [OF t1(3)] by blast
  obtain t3 where t3: "set_color r BLACK t2 = Some t3" "same_rest t2 t3"
    "is_tree t3 (plug D (Bin BLACK (Bin pc (Bin BLACK a r b) s sr) p x))"
    using set_color_place [of t2 "Left_of pc s sr # Left_of BLACK p x # D" rc a r b BLACK] t2(3) by auto
  obtain t4 where "rbt_rotate_right p t3 = Some t4" "same_rest t3 t4"
    "is_tree t4 (plug D (Bin pc (Bin BLACK a r b) s (Bin BLACK sr p x)))"
    using rotate_right_place [OF t3(3)] by blast
  then show ?thesis using t1(1,2) t2(1,2) t3(1,2) by (simp add: same_rest_def)
qed

lemma remove_fixup_left_shape:
  assumes tree: "is_tree t (plug D (Bin pc x p (Bin sc sl s sr)))"
  shows "\<exists>t'. remove_fixup_left t p s = Some (round_result pc p D sl sr t')
    \<and> is_tree t' (plug D (short_left pc x p sl s sr)) \<and> same_rest t t'"
proof -
  have sib: "is_tree t (plug (Right_of pc x p # D) (Bin sc sl s sr))" using tree by simp
  note reads = node_at [OF tree] node_at [OF sib]
  have "is_tree t (plug (Left_of sc s sr # Right_of pc x p # D) sl)" "is_tree t (plug (Right_of sc sl s # Right_of pc x p # D) sr)"
    using tree by simp_all
  note red = this [THEN is_red_at]
  consider "shape_red sr" | "\<not> shape_red sr" "shape_red sl" | "both_black sl sr" by (auto simp: both_black_def)
  then show ?thesis
  proof cases
    case 1
    then obtain a r b where sr: "sr = Bin RED a r b" by (rule shape_redE)
    from case4_left [of t D pc x p sc sl s RED a r b] tree sr show ?thesis
      using reads red by (auto simp: remove_fixup_left_def short_left_def round_result_def both_black_def)
  next
    case 2
    then obtain a b c where sl: "sl = Bin RED a b c" by (auto elim: shape_redE)
    obtain t1 where t1: "rbt_rotate_right s t = Some t1" "same_rest t t1"
      "is_tree t1 (plug D (Bin pc x p (Bin RED a b (Bin sc c s sr))))"
      using rotate_right_place [of t "Right_of pc x p # D" sc RED a b c s sr] tree sl by auto
    from case4_left [OF t1(3)] obtain t2 t3 t4 t' where "set_color b pc t1 = Some t2" "set_color p BLACK t2 = Some t3"
      "set_color s BLACK t3 = Some t4" "rbt_rotate_left p t4 = Some t'" "same_rest t1 t'"
      "is_tree t' (plug D (Bin pc (Bin BLACK x p a) b (Bin BLACK c s sr)))" by blast
    then show ?thesis using reads red t1 2 sl same_rest_trans [OF t1(2)]
      by (simp add: remove_fixup_left_def short_left_def round_result_def both_black_def)
  next
    case 3
    obtain t1 where t1: "set_color s RED t = Some t1" "same_rest t t1" "is_tree t1 (plug D (Bin pc x p (Bin RED sl s sr)))"
      using set_color_place [OF sib, of RED] by auto
    obtain t2 where t2: "set_color p BLACK t1 = Some t2" "same_rest t1 t2"
      "is_tree t2 (plug D (Bin BLACK x p (Bin RED sl s sr)))"
      using set_color_place [OF t1(3)] by blast
    show ?thesis
    proof (cases pc)
      case RED
      then show ?thesis using t1 t2 reads red 3 same_rest_trans [OF t1(2)]
        by (simp add: remove_fixup_left_def short_left_black round_result_def) (simp add: both_black_def)
    next
      case BLACK
      then show ?thesis using t1 reads red 3
        by (cases D) (simp_all add: remove_fixup_left_def short_left_black round_result_def, simp_all add: both_black_def)
    qed
  qed
qed

lemma remove_fixup_right_shape:
  assumes tree: "is_tree t (plug D (Bin pc (Bin sc sl s sr) p x))"
  shows "\<exists>t'. remove_fixup_right t p s = Some (round_result pc p D sl sr t')
    \<and> is_tree t' (plug D (short_right pc sl s sr p x)) \<and> same_rest t t'"
proof -
  have sib: "is_tree t (plug (Left_of pc p x # D) (Bin sc sl s sr))" using tree by simp
  note reads = node_at [OF tree] node_at [OF sib]
  have "is_tree t (plug (Left_of sc s sr # Left_of pc p x # D) sl)" "is_tree t (plug (Right_of sc sl s # Left_of pc p x # D) sr)"
    using tree by simp_all
  note red = this [THEN is_red_at]
  consider "shape_red sl" | "\<not> shape_red sl" "shape_red sr" | "both_black sl sr" by (auto simp: both_black_def)
  then show ?thesis
  proof cases
    case 1
    then obtain a r b where sl: "sl = Bin RED a r b" by (rule shape_redE)
    from case4_right [of t D pc sc RED a r b s sr p x] tree sl show ?thesis
      using reads red by (auto simp: remove_fixup_right_def short_right_def round_result_def both_black_def)
  next
    case 2
    then obtain a b c where sr: "sr = Bin RED a b c" by (auto elim: shape_redE)
    obtain t1 where t1: "rbt_rotate_left s t = Some t1" "same_rest t t1"
      "is_tree t1 (plug D (Bin pc (Bin RED (Bin sc sl s a) b c) p x))"
      using rotate_left_place [of t "Left_of pc p x # D" sc sl s RED a b c] tree sr by auto
    from case4_right [OF t1(3)] obtain t2 t3 t4 t' where "set_color b pc t1 = Some t2" "set_color p BLACK t2 = Some t3"
      "set_color s BLACK t3 = Some t4" "rbt_rotate_right p t4 = Some t'" "same_rest t1 t'"
      "is_tree t' (plug D (Bin pc (Bin BLACK sl s a) b (Bin BLACK c p x)))" by blast
    then show ?thesis using reads red t1 2 sr same_rest_trans [OF t1(2)]
      by (simp add: remove_fixup_right_def short_right_def round_result_def both_black_def)
  next
    case 3
    obtain t1 where t1: "set_color s RED t = Some t1" "same_rest t t1" "is_tree t1 (plug D (Bin pc (Bin RED sl s sr) p x))"
      using set_color_place [OF sib, of RED] by auto
    obtain t2 where t2: "set_color p BLACK t1 = Some t2" "same_rest t1 t2"
      "is_tree t2 (plug D (Bin BLACK (Bin RED sl s sr) p x))"
      using set_color_place [OF t1(3)] by blast
    show ?thesis
    proof (cases pc)
      case RED
      then show ?thesis using t1 t2 reads red 3 same_rest_trans [OF t1(2)]
        by (simp add: remove_fixup_right_def short_right_black round_result_def) (simp add: both_black_def)
    next
      case BLACK
      then show ?thesis using t1 reads red 3
        by (cases D) (simp_all add: remove_fixup_right_def short_right_black round_result_def, simp_all add: both_black_def)
    qed
  qed
qed

text \<open>A round, at the frame above the short subtree: a red sibling is first turned up.\<close>

fun short_shape :: "frame \<Rightarrow> shape \<Rightarrow> shape" where
  "short_shape (Left_of pc p (Bin RED sl s sr)) x = (case sl of Bin c a b d \<Rightarrow> Bin BLACK (short_left RED x p a b d) s sr)"
| "short_shape (Left_of pc p (Bin BLACK sl s sr)) x = short_left pc x p sl s sr"
| "short_shape (Right_of pc (Bin RED sl s sr) p) x = (case sr of Bin c a b d \<Rightarrow> Bin BLACK sl s (short_right RED a b d p x))"
| "short_shape (Right_of pc (Bin BLACK sl s sr) p) x = short_right pc sl s sr p x"
| "short_shape f x = Tip"

definition goes_up :: "frame \<Rightarrow> bool" where
  "goes_up f \<longleftrightarrow> frame_color f = BLACK \<and> (case sibling_of f of Bin BLACK sl s sr \<Rightarrow> both_black sl sr | _ \<Rightarrow> False)"

text \<open>What the balance gives: the sibling is no leaf, nor is the child that follows a red one.\<close>

definition has_sibling :: "frame \<Rightarrow> bool" where
  "has_sibling f \<longleftrightarrow> (case sibling_of f of Tip \<Rightarrow> False | Bin c sl s sr \<Rightarrow> c = RED \<longrightarrow> sl \<noteq> Tip \<and> sr \<noteq> Tip)"

lemma remove_fixup_step_left:
  assumes tree: "is_tree t (plug (Left_of pc p (Bin sc sl s sr) # D) x)" and sib: "sc = RED \<longrightarrow> sl \<noteq> Tip"
  shows "\<exists>t'. remove_fixup_step t (root_of x) p = Some (if goes_up (Left_of pc p (Bin sc sl s sr)) \<and> D \<noteq> []
      then Inr (t', p, frame_addr (hd D)) else Inl t')
    \<and> is_tree t' (plug D (short_shape (Left_of pc p (Bin sc sl s sr)) x)) \<and> same_rest t t'"
proof -
  have p: "is_tree t (plug D (Bin pc x p (Bin sc sl s sr)))" using tree by simp
  have s: "is_tree t (plug (Right_of pc x p # D) (Bin sc sl s sr))" using tree by simp
  note reads = node_at [OF p] node_at [OF s]
  show ?thesis
  proof (cases sc)
    case BLACK
    from remove_fixup_left_shape [OF p] obtain t' where "remove_fixup_left t p s = Some (round_result pc p D sl sr t')"
      "is_tree t' (plug D (short_left pc x p sl s sr))" "same_rest t t'" by blast
    then show ?thesis using reads BLACK
      by (intro exI [of _ t']) (auto simp: remove_fixup_step_def round_result_def goes_up_def)
  next
    case RED
    then obtain c a b d where sl: "sl = Bin c a b d" using sib by (cases sl) auto
    obtain t1 where t1: "set_color s BLACK t = Some t1" "same_rest t t1" "is_tree t1 (plug D (Bin pc x p (Bin BLACK sl s sr)))"
      using set_color_place [OF s, of BLACK] by auto
    obtain t2 where t2: "set_color p RED t1 = Some t2" "same_rest t1 t2" "is_tree t2 (plug D (Bin RED x p (Bin BLACK sl s sr)))"
      using set_color_place [OF t1(3)] by blast
    obtain t3 where t3: "rbt_rotate_left p t2 = Some t3" "same_rest t2 t3" "is_tree t3 (plug D (Bin BLACK (Bin RED x p sl) s sr))"
      using rotate_left_place [OF t2(3)] by blast
    have "is_tree t3 (plug (Left_of BLACK s sr # D) (Bin RED x p (Bin c a b d)))" using t3(3) sl by simp
    from remove_fixup_left_shape [OF this] node_at [OF this]
    obtain t' where "remove_fixup_left t3 p b = Some (Inl t')" "is_tree t' (plug D (Bin BLACK (short_left RED x p a b d) s sr))"
      "same_rest t3 t'" "rt_nodes t3 p = Some \<lparr>rn_color = RED, rn_parent = Some s, rn_left = root_of x, rn_right = Some b\<rparr>"
      by (auto simp: round_result_def)
    then show ?thesis using reads RED sl t1(1,2) t2(1,2) t3(1,2)
      by (intro exI [of _ t']) (simp add: remove_fixup_step_def goes_up_def same_rest_def)
  qed
qed

lemma remove_fixup_step_right:
  assumes tree: "is_tree t (plug (Right_of pc (Bin sc sl s sr) p # D) x)" and sib: "sc = RED \<longrightarrow> sr \<noteq> Tip"
  shows "\<exists>t'. remove_fixup_step t (root_of x) p = Some (if goes_up (Right_of pc (Bin sc sl s sr) p) \<and> D \<noteq> []
      then Inr (t', p, frame_addr (hd D)) else Inl t')
    \<and> is_tree t' (plug D (short_shape (Right_of pc (Bin sc sl s sr) p) x)) \<and> same_rest t t'"
proof -
  have p: "is_tree t (plug D (Bin pc (Bin sc sl s sr) p x))" using tree by simp
  have s: "is_tree t (plug (Left_of pc p x # D) (Bin sc sl s sr))" using tree by simp
  note reads = node_at [OF p] node_at [OF s]
  have other: "Some s \<noteq> root_of x" using p by (cases x) (auto simp: is_tree_place)
  show ?thesis
  proof (cases sc)
    case BLACK
    from remove_fixup_right_shape [OF p] obtain t' where "remove_fixup_right t p s = Some (round_result pc p D sl sr t')"
      "is_tree t' (plug D (short_right pc sl s sr p x))" "same_rest t t'" by blast
    then show ?thesis using reads BLACK other
      by (intro exI [of _ t']) (auto simp: remove_fixup_step_def round_result_def goes_up_def)
  next
    case RED
    then obtain c a b d where sr: "sr = Bin c a b d" using sib by (cases sr) auto
    obtain t1 where t1: "set_color s BLACK t = Some t1" "same_rest t t1" "is_tree t1 (plug D (Bin pc (Bin BLACK sl s sr) p x))"
      using set_color_place [OF s, of BLACK] by auto
    obtain t2 where t2: "set_color p RED t1 = Some t2" "same_rest t1 t2" "is_tree t2 (plug D (Bin RED (Bin BLACK sl s sr) p x))"
      using set_color_place [OF t1(3)] by blast
    obtain t3 where t3: "rbt_rotate_right p t2 = Some t3" "same_rest t2 t3" "is_tree t3 (plug D (Bin BLACK sl s (Bin RED sr p x)))"
      using rotate_right_place [OF t2(3)] by blast
    have "is_tree t3 (plug (Right_of BLACK sl s # D) (Bin RED (Bin c a b d) p x))" using t3(3) sr by simp
    from remove_fixup_right_shape [OF this] node_at [OF this]
    obtain t' where "remove_fixup_right t3 p b = Some (Inl t')" "is_tree t' (plug D (Bin BLACK sl s (short_right RED a b d p x)))"
      "same_rest t3 t'" "rt_nodes t3 p = Some \<lparr>rn_color = RED, rn_parent = Some s, rn_left = Some b, rn_right = root_of x\<rparr>"
      by (auto simp: round_result_def)
    then show ?thesis using reads RED sr t1(1,2) t2(1,2) t3(1,2) other
      by (intro exI [of _ t']) (simp add: remove_fixup_step_def goes_up_def same_rest_def)
  qed
qed

lemma remove_fixup_step_shape:
  assumes "is_tree t (plug (f # D) x)" "has_sibling f"
  shows "\<exists>t'. remove_fixup_step t (root_of x) (frame_addr f) = Some (if goes_up f \<and> D \<noteq> []
      then Inr (t', frame_addr f, frame_addr (hd D)) else Inl t')
    \<and> is_tree t' (plug D (short_shape f x)) \<and> same_rest t t'"
proof (cases f)
  case (Left_of pc p sib)
  then obtain sc sl s sr where b: "sib = Bin sc sl s sr" "sc = RED \<longrightarrow> sl \<noteq> Tip"
    using assms(2) by (cases sib) (auto simp: has_sibling_def)
  have "is_tree t (plug (Left_of pc p (Bin sc sl s sr) # D) x)" using assms(1) by (simp only: Left_of b(1))
  from remove_fixup_step_left [OF this b(2)] show ?thesis by (simp only: Left_of b(1) frame_addr.simps)
next
  case (Right_of pc sib p)
  then obtain sc sl s sr where b: "sib = Bin sc sl s sr" "sc = RED \<longrightarrow> sr \<noteq> Tip"
    using assms(2) by (cases sib) (auto simp: has_sibling_def)
  have "is_tree t (plug (Right_of pc (Bin sc sl s sr) p # D) x)" using assms(1) by (simp only: Right_of b(1))
  from remove_fixup_step_right [OF this b(2)] show ?thesis by (simp only: Right_of b(1) frame_addr.simps)
qed

subsection \<open>The fixup as a whole\<close>

lemma short_left_balanced:
  assumes "balanced x" "\<not> shape_red x" "balanced (Bin BLACK sl s sr)" "black_height (Bin BLACK sl s sr) = black_height x + 1"
  shows "balanced (short_left pc x p sl s sr)"
    and "black_height (short_left pc x p sl s sr) =
      black_height x + 1 + (if pc = BLACK \<and> \<not> both_black sl sr then 1 else 0)"
    and "shape_red (short_left pc x p sl s sr) \<longrightarrow> pc = RED \<and> \<not> both_black sl sr"
  using assms by (cases sr; cases sl; cases pc; auto simp: short_left_def both_black_def split: rb_color.splits; fail)+

lemma short_right_balanced:
  assumes "balanced x" "\<not> shape_red x" "balanced (Bin BLACK sl s sr)" "black_height (Bin BLACK sl s sr) = black_height x + 1"
  shows "balanced (short_right pc sl s sr p x)"
    and "black_height (short_right pc sl s sr p x) =
      black_height x + 1 + (if pc = BLACK \<and> \<not> both_black sl sr then 1 else 0)"
    and "shape_red (short_right pc sl s sr p x) \<longrightarrow> pc = RED \<and> \<not> both_black sl sr"
  using assms by (cases sr; cases sl; cases pc; auto simp: short_right_def both_black_def split: rb_color.splits; fail)+

text \<open>Frame \<open>f\<close> over a subtree \<open>x\<close> that is one black node short.\<close>

definition short_frame :: "frame \<Rightarrow> shape \<Rightarrow> bool" where
  "short_frame f x \<longleftrightarrow> balanced x \<and> \<not> shape_red x \<and> balanced (sibling_of f)
     \<and> black_height (sibling_of f) = black_height x + 1 \<and> (frame_color f = RED \<longrightarrow> \<not> shape_red (sibling_of f))"

lemma short_frame_sibling: "short_frame f x \<Longrightarrow> has_sibling f"
proof -
  assume short: "short_frame f x"
  then have h: "balanced (sibling_of f)" "black_height (sibling_of f) = Suc (black_height x)"
    by (simp_all add: short_frame_def)
  show ?thesis
  proof (cases "sibling_of f")
    case (Bin c sl s sr)
    show ?thesis
    proof (cases c)
      case RED
      then have "black_height sl = Suc (black_height x)" "black_height sr = Suc (black_height x)" using h Bin by simp_all
      then show ?thesis using Bin by (auto simp: has_sibling_def)
    qed (simp add: has_sibling_def Bin)
  qed (use h in simp)
qed

lemma short_shape_facts:
  assumes "short_frame f x"
  shows "balanced (short_shape f x)"
    and "black_height (short_shape f x) = black_height x + 1 + (if frame_color f = BLACK \<and> \<not> goes_up f then 1 else 0)"
    and "shape_red (short_shape f x) \<longrightarrow> frame_color f = RED"
    and "inorder (short_shape f x) = inorder (fill f x)"
proof -
  have all: "balanced (short_shape f x)
    \<and> black_height (short_shape f x) = black_height x + 1 + (if frame_color f = BLACK \<and> \<not> goes_up f then 1 else 0)
    \<and> (shape_red (short_shape f x) \<longrightarrow> frame_color f = RED)
    \<and> inorder (short_shape f x) = inorder (fill f x)"
  proof (cases f)
    case (Left_of pc p sib)
    then obtain sc sl s sr where sib: "sib = Bin sc sl s sr"
      using short_frame_sibling [OF assms] by (cases sib) (auto simp: has_sibling_def)
    show ?thesis
    proof (cases sc)
      case BLACK
      have b: "balanced x" "\<not> shape_red x" "balanced (Bin BLACK sl s sr)" "black_height (Bin BLACK sl s sr) = black_height x + 1"
        using assms by (simp_all add: short_frame_def Left_of sib BLACK)
      show ?thesis using short_left_balanced [OF b, of pc p]
        by (auto simp: Left_of sib BLACK short_left_inorder goes_up_def)
    next
      case RED
      then obtain c a b d where sl: "sl = Bin c a b d"
        using short_frame_sibling [OF assms] Left_of sib by (cases sl) (auto simp: has_sibling_def)
      have pc: "pc = BLACK" and c: "c = BLACK"
        using assms by (auto simp: short_frame_def Left_of sib RED sl intro: rb_color.exhaust)
      have b: "balanced x" "\<not> shape_red x" "balanced (Bin BLACK a b d)" "black_height (Bin BLACK a b d) = black_height x + 1"
        and sr: "balanced sr" "black_height sr = black_height x + 1" "\<not> shape_red sr"
        using assms by (simp_all add: short_frame_def Left_of sib RED sl c)
      show ?thesis using short_left_balanced [OF b, of RED p] sr
        by (auto simp: Left_of sib RED sl short_left_inorder goes_up_def pc)
    qed
  next
    case (Right_of pc sib p)
    then obtain sc sl s sr where sib: "sib = Bin sc sl s sr"
      using short_frame_sibling [OF assms] by (cases sib) (auto simp: has_sibling_def)
    show ?thesis
    proof (cases sc)
      case BLACK
      have b: "balanced x" "\<not> shape_red x" "balanced (Bin BLACK sl s sr)" "black_height (Bin BLACK sl s sr) = black_height x + 1"
        using assms by (simp_all add: short_frame_def Right_of sib BLACK)
      show ?thesis using short_right_balanced [OF b, of pc p]
        by (auto simp: Right_of sib BLACK short_right_inorder goes_up_def)
    next
      case RED
      then obtain c a b d where sr: "sr = Bin c a b d"
        using short_frame_sibling [OF assms] Right_of sib by (cases sr) (auto simp: has_sibling_def)
      have pc: "pc = BLACK" and c: "c = BLACK"
        using assms by (auto simp: short_frame_def Right_of sib RED sr intro: rb_color.exhaust)
      have b: "balanced x" "\<not> shape_red x" "balanced (Bin BLACK a b d)" "black_height (Bin BLACK a b d) = black_height x + 1"
        and sl: "balanced sl" "black_height sl = black_height x + 1" "\<not> shape_red sl"
        using assms by (simp_all add: short_frame_def Right_of sib RED sr c)
      show ?thesis using short_right_balanced [OF b, of RED p] sl
        by (auto simp: Right_of sib RED sr short_right_inorder goes_up_def pc)
    qed
  qed
  then show "balanced (short_shape f x)"
    "black_height (short_shape f x) = black_height x + 1 + (if frame_color f = BLACK \<and> \<not> goes_up f then 1 else 0)"
    "shape_red (short_shape f x) \<longrightarrow> frame_color f = RED"
    "inorder (short_shape f x) = inorder (fill f x)" by simp_all
qed

lemma short_shape_up: "goes_up f \<Longrightarrow> has_sibling f \<Longrightarrow> root_of (short_shape f x) = Some (frame_addr f) \<and> \<not> shape_red (short_shape f x)"
  by (cases "(f, x)" rule: short_shape.cases)
    (auto simp: goes_up_def short_left_black short_right_black has_sibling_def split: shape.splits rb_color.splits)

lemma remove_fixup_loop_shape:
  assumes "is_tree t (plug (f # D) x)" "balanced x" "\<not> shape_red x" "balanced_above (f # D) (black_height x + 1)"
    "frame_color (last (f # D)) = BLACK"
  shows "\<exists>t' s'. remove_fixup_loop t (root_of x) (frame_addr f) = Some t' \<and> is_tree t' s' \<and> red_black s'
    \<and> inorder s' = inorder (plug (f # D) x) \<and> same_rest t t'"
  using assms
proof (induction D arbitrary: f t x)
  case Nil
  have short: "short_frame f x" using Nil by (simp add: short_frame_def)
  from remove_fixup_step_shape [OF Nil(1) short_frame_sibling [OF short]]
  obtain t' where t': "remove_fixup_step t (root_of x) (frame_addr f) = Some (Inl t')" "is_tree t' (short_shape f x)" "same_rest t t'"
    by auto
  have "remove_fixup_loop t (root_of x) (frame_addr f) = Some t'" using t'(1) by (subst remove_fixup_loop.simps) simp
  moreover have "red_black (short_shape f x)" using short_shape_facts [OF short] Nil(5) by (auto simp: red_black_def)
  ultimately show ?case using t' short_shape_facts(4) [OF short] by (intro exI [of _ t'] exI [of _ "short_shape f x"]) simp
next
  case (Cons g D)
  have short: "short_frame f x" using Cons.prems by (simp add: short_frame_def)
  note facts = short_shape_facts [OF short]
  have order: "inorder (plug (g # D) (short_shape f x)) = inorder (plug (f # g # D) x)" using facts(4) by (cases g) simp_all
  have above: "balanced_above (g # D) (black_height x + 1 + (if frame_color f = BLACK then 1 else 0))"
    "frame_color f = RED \<longrightarrow> \<not> under_red (g # D)" "frame_color (last (g # D)) = BLACK"
    using Cons.prems(4,5) by simp_all
  from remove_fixup_step_shape [OF Cons.prems(1) short_frame_sibling [OF short]]
  obtain t1 where t1: "remove_fixup_step t (root_of x) (frame_addr f) =
      Some (if goes_up f then Inr (t1, frame_addr f, frame_addr g) else Inl t1)"
    "is_tree t1 (plug (g # D) (short_shape f x))" "same_rest t t1"
    by auto
  show ?case
  proof (cases "goes_up f")
    case True
    note up = short_shape_up [OF True short_frame_sibling [OF short], of x]
    have "frame_color f = BLACK" using True by (simp add: goes_up_def)
    then have "balanced_above (g # D) (black_height (short_shape f x) + 1)" using above(1) facts(2) True by simp
    from Cons.IH [OF t1(2) facts(1) _ this above(3)] up
    obtain t' s' where "remove_fixup_loop t1 (Some (frame_addr f)) (frame_addr g) = Some t'" "is_tree t' s'" "red_black s'"
      "inorder s' = inorder (plug (g # D) (short_shape f x))" "same_rest t1 t'" by auto
    moreover have "remove_fixup_loop t (root_of x) (frame_addr f) = remove_fixup_loop t1 (Some (frame_addr f)) (frame_addr g)"
      using t1(1) True by (subst remove_fixup_loop.simps) simp
    ultimately show ?thesis using order same_rest_trans [OF t1(3)]
      by (intro exI [of _ t'] exI [of _ s']) simp
  next
    case False
    have "remove_fixup_loop t (root_of x) (frame_addr f) = Some t1"
      using t1(1) False by (subst remove_fixup_loop.simps) simp
    moreover have "balanced_above (g # D) (black_height (short_shape f x))" using above(1) facts(2) False by simp
    then have "red_black (plug (g # D) (short_shape f x))"
      unfolding red_black_def balanced_plug shape_red_plug using facts(1,3) above(2,3) by auto
    ultimately show ?thesis using t1 order
      by (intro exI [of _ t1] exI [of _ "plug (g # D) (short_shape f x)"]) simp
  qed
qed

subsection \<open>Taking the node out\<close>

text \<open>The last two steps: \<open>x\<close> gets the parent of \<open>n\<close>, and the link to \<open>n\<close> leads to \<open>x\<close>.\<close>

lemma put_in_place:
  assumes "root_link t C (Some n)" "rep_above (rt_nodes t) C (Some n)" "rep (rt_nodes t) q x"
    "distinct (before C @ inorder x @ after C)" "n \<notin> set (before C)" "n \<notin> set (after C)"
  shows "\<exists>t1 t'. (case root_of x of Some a \<Rightarrow> set_parent a (parent_link C) t | None \<Rightarrow> Some t) = Some t1
    \<and> replace_child (parent_link C) n (root_of x) t1 = Some t' \<and> is_tree t' (plug C x) \<and> same_rest t t'"
proof -
  have "distinct (inorder x)" using assms(4) by simp
  from set_parent_top [OF assms(3) this, of "parent_link C"]
  obtain t1 where t1: "(case root_of x of Some a \<Rightarrow> set_parent a (parent_link C) t | None \<Rightarrow> Some t) = Some t1"
    "rep (rt_nodes t1) (parent_link C) x" "same_rest t t1" "rt_root t1 = rt_root t"
    and keep1: "\<And>y. y \<notin> set (inorder x) \<Longrightarrow> rt_nodes t1 y = rt_nodes t y" by blast
  have away: "y \<notin> set (inorder x)" if "y \<in> set (before C) \<union> set (after C)" for y
    using assms(4) that by (auto simp: disjoint_iff)
  have above: "rep_above (rt_nodes t1) C (Some n)" using away keep1 by (auto intro: rep_above_same [OF assms(2)])
  have "root_link t1 C (Some n)" "distinct (before C @ after C)" using assms(1,4) t1(4) by (auto simp: root_link_def)
  from replace_child_place [OF this(1) above this(2) assms(5,6), of "root_of x"]
  obtain t' where t': "replace_child (parent_link C) n (root_of x) t1 = Some t'" "rep_above (rt_nodes t') C (root_of x)"
    "same_rest t1 t'" "root_link t' C (root_of x)"
    and keep': "\<And>y. y \<notin> set (before C) \<Longrightarrow> y \<notin> set (after C) \<Longrightarrow> rt_nodes t' y = rt_nodes t1 y" by blast
  have "rep (rt_nodes t') (parent_link C) x" using away keep' by (auto intro: rep_same [OF t1(2)])
  then have "is_tree t' (plug C x)" using t' assms(4) by (simp add: is_tree_place)
  then show ?thesis using t1(1,3) t'(1,3) same_rest_trans by blast
qed

text \<open>The leftmost node of a subtree has only frames to the right of it.\<close>

lemma leftmost_place:
  assumes "is_tree t (plug C (Bin c l a r))"
  shows "\<exists>E yc y yr. Bin c l a r = plug E (Bin yc Tip y yr) \<and> before E = [] \<and> leftmost t a = Some y
    \<and> (E = [] \<longrightarrow> y = a) \<and> (\<forall>f \<in> set E. \<exists>c b s. f = Left_of c b s)"
  using assms
proof (induction l arbitrary: C c a r)
  case Tip
  then show ?case using node_at [OF Tip]
    by (intro exI [of _ "[]"] exI [of _ c] exI [of _ a] exI [of _ r]) (subst leftmost.simps, simp)
next
  case (Bin c' l' a' r')
  have "is_tree t (plug (Left_of c a r # C) (Bin c' l' a' r'))" using Bin.prems by simp
  from Bin.IH(1) [OF this] obtain E yc y yr where E: "Bin c' l' a' r' = plug E (Bin yc Tip y yr)" "before E = []"
    "leftmost t a' = Some y" "\<forall>f \<in> set E. \<exists>c b s. f = Left_of c b s" by blast
  have "before (E @ [Left_of c a r]) = []" using E(2,4) by (induction E) auto
  moreover have "leftmost t a = Some y" using node_at [OF Bin.prems] E(3) by (subst leftmost.simps) simp
  ultimately show ?case using E(1,4)
    by (intro exI [of _ "E @ [Left_of c a r]"] exI [of _ yc] exI [of _ y] exI [of _ yr]) (auto simp: plug_append)
qed

text \<open>The subtrees of \<open>n\<close> get the new parent \<open>y\<close>, which is outside the tree.\<close>

lemma adopt_left:
  assumes "rep (rt_nodes t) q l" "l \<noteq> Tip" "distinct (inorder l)" "y \<notin> set (inorder l)" "rt_nodes t y = Some ny"
  shows "\<exists>a t1 t'. root_of l = Some a \<and> set_left y (Some a) t = Some t1 \<and> set_parent a (Some y) t1 = Some t'
    \<and> same_rest t t' \<and> rt_root t' = rt_root t \<and> rep (rt_nodes t') (Some y) l
    \<and> rt_nodes t' y = Some (ny\<lparr>rn_left := Some a\<rparr>)
    \<and> (\<forall>x. x \<noteq> y \<and> x \<notin> set (inorder l) \<longrightarrow> rt_nodes t' x = rt_nodes t x)"
  using assms by (cases l) (auto simp: set_node_Some same_rest_def)

lemma adopt_right:
  assumes "rep (rt_nodes t) q r" "r \<noteq> Tip" "distinct (inorder r)" "y \<notin> set (inorder r)" "rt_nodes t y = Some ny"
  shows "\<exists>a t1 t'. root_of r = Some a \<and> set_right y (Some a) t = Some t1 \<and> set_parent a (Some y) t1 = Some t'
    \<and> same_rest t t' \<and> rt_root t' = rt_root t \<and> rep (rt_nodes t') (Some y) r
    \<and> rt_nodes t' y = Some (ny\<lparr>rn_right := Some a\<rparr>)
    \<and> (\<forall>x. x \<noteq> y \<and> x \<notin> set (inorder r) \<longrightarrow> rt_nodes t' x = rt_nodes t x)"
  using assms by (cases r) (auto simp: set_node_Some same_rest_def)

lemma cut_leftmost:
  assumes "is_tree t (plug (Left_of c p s # G) (Bin yc Tip y yr))"
  shows "\<exists>t1 t2. set_left p (root_of yr) t = Some t1
    \<and> (case root_of yr of Some a \<Rightarrow> set_parent a (Some p) t1 | None \<Rightarrow> Some t1) = Some t2
    \<and> is_tree t2 (plug (Left_of c p s # G) yr) \<and> same_rest t t2 \<and> rt_nodes t2 y = rt_nodes t y"
proof -
  let ?np = "\<lparr>rn_color = c, rn_parent = parent_link G, rn_left = Some y, rn_right = root_of s\<rparr>"
  have "is_tree t (plug G (Bin c (Bin yc Tip y yr) p s))" using assms by simp
  note tree = this [unfolded is_tree_place]
  have h: "rt_nodes t p = Some ?np" "rep (rt_nodes t) (Some y) yr" "rep (rt_nodes t) (Some p) s"
    "rep_above (rt_nodes t) G (Some p)" "root_link t G (Some p)"
    and dist: "distinct (before G @ y # inorder yr @ p # inorder s @ after G)" using tree by auto
  define t1 where "t1 = t\<lparr>rt_nodes := (rt_nodes t)(p \<mapsto> ?np\<lparr>rn_left := root_of yr\<rparr>)\<rparr>"
  have "set_left p (root_of yr) t = Some t1" by (simp add: set_node_Some h(1) t1_def)
  moreover have "rep (rt_nodes t1) (Some y) yr" "distinct (inorder yr)" using h(2) dist by (simp_all add: t1_def)
  from set_parent_top [OF this, of "Some p"] obtain t2 where
    t2: "(case root_of yr of Some a \<Rightarrow> set_parent a (Some p) t1 | None \<Rightarrow> Some t1) = Some t2"
    "rep (rt_nodes t2) (Some p) yr" "same_rest t1 t2" "rt_root t2 = rt_root t1"
    and keep: "\<And>x. x \<notin> set (inorder yr) \<Longrightarrow> rt_nodes t2 x = rt_nodes t1 x" by blast
  moreover have away: "x \<notin> set (inorder yr) \<and> x \<noteq> p" if "x \<in> set (before G) \<union> set (inorder s) \<union> set (after G) \<union> {y}" for x
    using dist that by (auto simp: disjoint_iff)
  then have same: "rt_nodes t2 x = rt_nodes t x" if "x \<in> set (before G) \<union> set (inorder s) \<union> set (after G) \<union> {y}" for x
    using keep [of x] that by (simp add: t1_def)
  have "rt_nodes t2 p = Some (?np\<lparr>rn_left := root_of yr\<rparr>)" using keep [of p] dist by (simp add: t1_def)
  moreover have "rep (rt_nodes t2) (Some p) s" "rep_above (rt_nodes t2) G (Some p)"
    using same by (auto intro!: rep_same [OF h(3)] rep_above_same [OF h(4)])
  moreover have "root_link t2 G (Some p)" using h(5) t2(4) by (simp add: root_link_def t1_def)
  moreover have "distinct (before G @ inorder yr @ p # inorder s @ after G)" using dist by simp
  ultimately have "is_tree t2 (plug (Left_of c p s # G) yr)" by (simp add: is_tree_place)
  moreover have "same_rest t t1" using h(1) by (auto simp: same_rest_def t1_def)
  ultimately show ?thesis using t2 same [of y] same_rest_trans \<open>set_left p (root_of yr) t = Some t1\<close> by auto
qed

text \<open>The state before \<open>y\<close> is put in the place of \<open>n\<close>.\<close>

definition ready :: "rbtree \<Rightarrow> frame list \<Rightarrow> nat \<Rightarrow> shape \<Rightarrow> bool" where
  "ready t C n x \<longleftrightarrow> root_link t C (Some n) \<and> rep_above (rt_nodes t) C (Some n) \<and> (\<exists>q. rep (rt_nodes t) q x)
     \<and> distinct (before C @ inorder x @ after C) \<and> n \<notin> set (before C) \<union> set (after C) \<union> set (inorder x)"

lemma remove_two_next:
  assumes tree: "is_tree t (plug C (Bin nc l n (Bin yc Tip y yr)))" and l: "l \<noteq> Tip"
    and nn: "rn_color nn = nc"
  shows "\<exists>t'. remove_two n nn (the (root_of l)) y t = Some (yc, root_of yr, Some y, Some y, t')
    \<and> ready t' C n (Bin nc l y yr) \<and> same_rest t t' \<and> rt_nodes t' n = rt_nodes t n"
proof -
  have "is_tree t (plug (Right_of nc l n # C) (Bin yc Tip y yr))" using tree by simp
  note y = this node_at [OF this]
  obtain t1 where t1: "set_color y nc t = Some t1" "is_tree t1 (plug (Right_of nc l n # C) (Bin nc Tip y yr))" "same_rest t t1"
    using set_color_place [OF y(1)] by blast
  note h = t1(2) [unfolded is_tree_place, simplified]
  have dist: "distinct (before C @ inorder l @ n # y # inorder yr @ after C)" using h by simp
  have "rep (rt_nodes t1) (Some n) l" "distinct (inorder l)" "y \<notin> set (inorder l)"
    "rt_nodes t1 y = Some \<lparr>rn_color = nc, rn_parent = Some n, rn_left = None, rn_right = root_of yr\<rparr>"
    using h by auto
  from adopt_left [OF this(1) l this(2-4)] obtain a t2 t3 where t3: "root_of l = Some a" "set_left y (Some a) t1 = Some t2"
    "set_parent a (Some y) t2 = Some t3" "same_rest t1 t3" "rt_root t3 = rt_root t1" "rep (rt_nodes t3) (Some y) l"
    "rt_nodes t3 y = Some \<lparr>rn_color = nc, rn_parent = Some n, rn_left = Some a, rn_right = root_of yr\<rparr>"
    and keep: "\<And>x. x \<noteq> y \<Longrightarrow> x \<notin> set (inorder l) \<Longrightarrow> rt_nodes t3 x = rt_nodes t1 x" by auto
  have "leftmost t y = Some y" using y(2) by (subst leftmost.simps) simp
  then have "remove_two n nn (the (root_of l)) y t = Some (yc, root_of yr, Some y, Some y, t3)"
    using y(2) t1(1) t3(1-3) nn by (simp add: remove_two_def)
  moreover have same: "rt_nodes t3 x = rt_nodes t1 x" if "x \<in> set (before C) \<union> set (inorder yr) \<union> set (after C) \<union> {n}" for x
    using keep [of x] dist that by (auto simp: disjoint_iff)
  then have "rep (rt_nodes t3) (Some y) yr" "rep_above (rt_nodes t3) C (Some n)"
    using h by (auto intro: rep_same [where h = "rt_nodes t1"] rep_above_same [where h = "rt_nodes t1"])
  then have "ready t3 C n (Bin nc l y yr)"
    using h t3 dist unfolding ready_def by (auto simp: root_link_def)
  moreover have "rt_nodes t3 n = rt_nodes t n"
    using same [of n] h node_at [OF tree] by auto
  ultimately show ?thesis using same_rest_trans [OF t1(3) t3(4)] by blast
qed

lemma node_outside: "is_tree t s \<Longrightarrow> x \<in> set (inorder s) \<Longrightarrow> rt_nodes t x \<noteq> None"
  using in_inorder_place node_at by fastforce

lemma remove_two_deep:
  assumes tree: "is_tree t (plug C (Bin nc l n (plug (Left_of c p s # E) (Bin yc Tip y yr))))" and l: "l \<noteq> Tip"
    and nn: "rn_color nn = nc" and y: "root_of (plug (Left_of c p s # E) (Bin yc Tip y yr)) = Some ra" "leftmost t ra = Some y"
  shows "\<exists>t'. remove_two n nn (the (root_of l)) ra t = Some (yc, root_of yr, Some p, Some y, t')
    \<and> ready t' C n (Bin nc l y (plug (Left_of c p s # E) yr)) \<and> same_rest t t' \<and> rt_nodes t' n = rt_nodes t n"
proof -
  let ?r = "plug (Left_of c p s # E) yr"
  let ?G = "E @ Right_of nc l n # C"
  have "root_of (plug (Left_of c p s # E) x) = Some (frame_addr (last (Left_of c p s # E)))" for x
    by (rule root_of_plug) simp
  then have ra: "root_of ?r = Some ra" using y(1) by metis
  then have tip: "?r \<noteq> Tip" by auto
  have yr: "is_tree t (plug (Left_of c p s # ?G) (Bin yc Tip y yr))" using tree by (simp add: plug_append)
  note ny = node_at [OF yr]
  obtain t1 where t1: "set_color y nc t = Some t1" "is_tree t1 (plug (Left_of c p s # ?G) (Bin nc Tip y yr))" "same_rest t t1"
    using set_color_place [OF yr] by blast
  from cut_leftmost [OF t1(2)] obtain t2 t3 where t3: "set_left p (root_of yr) t1 = Some t2"
    "(case root_of yr of Some a \<Rightarrow> set_parent a (Some p) t2 | None \<Rightarrow> Some t2) = Some t3"
    "is_tree t3 (plug (Left_of c p s # ?G) yr)" "same_rest t1 t3" "rt_nodes t3 y = rt_nodes t1 y" by blast
  have "is_tree t3 (plug C (Bin nc l n ?r))" using t3(3) by (simp add: plug_append)
  note h = this [unfolded is_tree_place]
  define R where "R = inorder ?r"
  have dist: "distinct (before C @ inorder l @ n # R @ after C)" using h by (simp add: R_def)
  have "distinct (inorder (plug (Left_of c p s # ?G) (Bin yc Tip y yr)))" using yr by (simp add: is_tree_def)
  then have "y \<notin> set (inorder (plug (Left_of c p s # ?G) yr))" by auto
  then have new: "y \<notin> set (before C) \<union> set (inorder l) \<union> {n} \<union> set R \<union> set (after C)"
    by (simp add: plug_append R_def)
  have "rep (rt_nodes t3) (Some n) l" "distinct (inorder l)" "y \<notin> set (inorder l)"
    and y3: "rt_nodes t3 y = Some \<lparr>rn_color = nc, rn_parent = Some p, rn_left = None, rn_right = root_of yr\<rparr>"
    using h new node_at [OF t1(2)] t3(5) by auto
  from adopt_left [OF this(1) l this(2,3) y3] obtain la t4 t5 where t5: "root_of l = Some la" "set_left y (Some la) t3 = Some t4"
    "set_parent la (Some y) t4 = Some t5" "same_rest t3 t5" "rt_root t5 = rt_root t3" "rep (rt_nodes t5) (Some y) l"
    "rt_nodes t5 y = Some \<lparr>rn_color = nc, rn_parent = Some p, rn_left = Some la, rn_right = root_of yr\<rparr>"
    and keep5: "\<And>x. x \<noteq> y \<Longrightarrow> x \<notin> set (inorder l) \<Longrightarrow> rt_nodes t5 x = rt_nodes t3 x" by auto
  have same5: "rt_nodes t5 x = rt_nodes t3 x" if "x \<in> set (before C) \<union> set R \<union> set (after C) \<union> {n}" for x
  proof -
    have "x \<notin> set (inorder l) \<and> x \<noteq> y" using dist new that by (auto simp: disjoint_iff)
    then show ?thesis using keep5 [of x] by (simp add: R_def)
  qed
  have "rep (rt_nodes t3) (Some n) ?r" using h by simp
  then have r5: "rep (rt_nodes t5) (Some n) ?r" by (rule rep_same) (fold R_def, simp add: same5)
  have "distinct (inorder ?r)" "y \<notin> set (inorder ?r)" unfolding R_def [symmetric] using dist new by simp_all
  from adopt_right [OF r5 tip this t5(7)] ra obtain t6 t7 where t7: "set_right y (Some ra) t5 = Some t6"
    "set_parent ra (Some y) t6 = Some t7" "same_rest t5 t7" "rt_root t7 = rt_root t5" "rep (rt_nodes t7) (Some y) ?r"
    "rt_nodes t7 y = Some \<lparr>rn_color = nc, rn_parent = Some p, rn_left = Some la, rn_right = Some ra\<rparr>"
    and keep7: "\<And>x. x \<noteq> y \<Longrightarrow> x \<notin> set (inorder ?r) \<Longrightarrow> rt_nodes t7 x = rt_nodes t5 x" by auto
  have same7: "rt_nodes t7 x = rt_nodes t5 x" if "x \<in> set (before C) \<union> set (inorder l) \<union> set (after C) \<union> {n}" for x
  proof -
    have "x \<notin> set (R) \<and> x \<noteq> y" using dist new that by (auto simp: disjoint_iff)
    then show ?thesis using keep7 [of x] by (simp add: R_def)
  qed
  have "ra \<in> set (inorder ?r)" using ra by (cases ?r) auto
  then have "y \<noteq> ra" using new by (auto simp: R_def)
  then have "remove_two n nn (the (root_of l)) ra t = Some (yc, root_of yr, Some p, Some y, t7)"
    using y(2) ny t1(1) t3(1,2) t5(1-3) t7(1,2) nn by (simp add: remove_two_def)
  moreover have "ready t7 C n (Bin nc l y ?r)"
  proof -
    have "rep (rt_nodes t7) (Some y) l" by (rule rep_same [OF t5(6)]) (simp add: same7)
    moreover have "rep_above (rt_nodes t3) C (Some n)" using h by simp
    then have "rep_above (rt_nodes t5) C (Some n)" by (rule rep_above_same) (auto simp: same5)
    then have "rep_above (rt_nodes t7) C (Some n)" by (rule rep_above_same) (auto simp: same7)
    moreover have "root_link t7 C (Some n)" using h t5(5) t7(4) by (simp add: root_link_def)
    moreover have "distinct (before C @ inorder (Bin nc l y ?r) @ after C)" "n \<notin> set (before C) \<union> set (after C) \<union> set (inorder (Bin nc l y ?r))"
      unfolding inorder.simps R_def [symmetric] using dist new by (auto simp: disjoint_iff)
    ultimately show ?thesis unfolding ready_def using t7(5,6) t5(1) ra by auto
  qed
  moreover have "rt_nodes t7 n = rt_nodes t n"
    using same7 [of n] same5 [of n] h node_at [OF tree] ra y(1) by auto
  moreover have "same_rest t t7" using t1(3) t3(4) t5(4) t7(3) by (simp add: same_rest_def)
  ultimately show ?thesis by blast
qed

subsection \<open>Removal\<close>

lemma balanced_above_addr:
  "balanced_above (E @ Right_of c l a # C) k = balanced_above (E @ Right_of c l b # C) k"
proof (induction E arbitrary: k)
  case (Cons f E)
  have "under_red (E @ Right_of c l a # C) = under_red (E @ Right_of c l b # C)" by (cases E) simp_all
  then show ?case by (simp add: Cons.IH)
qed simp

text \<open>The place \<open>G\<close> of a removed node of color \<open>rm\<close>, where now its child \<open>x\<close> is.\<close>

definition vacated :: "frame list \<Rightarrow> rb_color \<Rightarrow> shape \<Rightarrow> bool" where
  "vacated G rm x \<longleftrightarrow> balanced x \<and> balanced_above G (black_height x + (if rm = BLACK then 1 else 0))
     \<and> (rm = RED \<longrightarrow> \<not> shape_red x \<and> G \<noteq> []) \<and> (rm = BLACK \<and> G = [] \<or> (G \<noteq> [] \<and> frame_color (last G) = BLACK))"

lemma vacatedI:
  assumes "red_black (plug G (Bin rm l y r))" "x = (if l \<noteq> Tip then l else r)" "l = Tip \<or> r = Tip"
  shows "vacated G rm x"
proof -
  have b: "balanced (Bin rm l y r)" "balanced_above G (black_height (Bin rm l y r))"
    "if G = [] then rm \<noteq> RED else frame_color (last G) \<noteq> RED"
    using assms(1) unfolding red_black_def balanced_plug shape_red_plug by auto
  have "black_height l = black_height x" using b(1) assms(2,3) by auto
  then show ?thesis using b assms(2) by (cases rm; cases "frame_color (last G)") (auto simp: vacated_def split: if_splits)
qed

lemma finish_removal:
  assumes tree: "is_tree t (plug G x)" and v: "vacated G rm x"
  shows "\<exists>t' s'. (if rm = BLACK then rbt_remove_fixup (root_of x) (parent_link G) t else Some t) = Some t'
    \<and> is_tree t' s' \<and> red_black s' \<and> inorder s' = inorder (plug G x) \<and> same_rest t t'"
proof (cases rm)
  case RED
  then have "red_black (plug G x)" using v
    unfolding red_black_def balanced_plug shape_red_plug by (auto simp: vacated_def)
  then show ?thesis using tree RED by auto
next
  case BLACK
  have red: "is_red t (root_of x) = Some (shape_red x)" by (rule is_red_at [OF tree])
  show ?thesis
  proof (cases "shape_red x")
    case True
    then obtain l a r where x: "x = Bin RED l a r" by (rule shape_redE)
    obtain t' where t': "set_color a BLACK t = Some t'" "is_tree t' (plug G (paint BLACK x))" "same_rest t t'"
      using set_color_place tree x by (metis paint.simps(2))
    have "red_black (plug G (paint BLACK x))"
      using v BLACK black_height_paint [OF True] balanced_paint [of x]
      unfolding red_black_def balanced_plug shape_red_plug by (auto simp: vacated_def)
    then show ?thesis using t' red True BLACK x
      by (intro exI [of _ t'] exI [of _ "plug G (paint BLACK x)"]) (simp add: rbt_remove_fixup_def)
  next
    case False
    show ?thesis
    proof (cases G)
      case Nil
      then have "red_black (plug G x)" using v False by (simp add: vacated_def red_black_def)
      then show ?thesis using tree red False BLACK Nil by (auto simp: rbt_remove_fixup_def)
    next
      case (Cons f D)
      have "balanced x" "balanced_above (f # D) (black_height x + 1)" "frame_color (last (f # D)) = BLACK"
        using v BLACK unfolding vacated_def Cons by auto
      from remove_fixup_loop_shape [OF tree [unfolded Cons] this(1) False this(2,3)]
      show ?thesis using red False BLACK Cons by (auto simp: rbt_remove_fixup_def)
    qed
  qed
qed

lemma ready_place:
  assumes "ready t C n x"
  shows "\<exists>t1 t'. (case root_of x of Some a \<Rightarrow> set_parent a (parent_link C) t | None \<Rightarrow> Some t) = Some t1
    \<and> replace_child (parent_link C) n (root_of x) t1 = Some t' \<and> is_tree t' (plug C x) \<and> same_rest t t'"
  using assms put_in_place [of t C n] unfolding ready_def by blast

lemma taken_out_one:
  assumes tree: "is_tree t (plug C (Bin nc l n r))" and one: "l = Tip \<or> r = Tip" and x: "x = (if l \<noteq> Tip then l else r)"
  shows "\<exists>t'. rbt_take_out n t = Some (nc, root_of x, parent_link C, t') \<and> is_tree t' (plug C x) \<and> same_rest t t'"
proof -
  note n = node_at [OF tree]
  have "ready t C n x" using tree one x unfolding ready_def by (auto simp: is_tree_place)
  from ready_place [OF this] obtain t1 t' where
    "(case root_of x of Some a \<Rightarrow> set_parent a (parent_link C) t | None \<Rightarrow> Some t) = Some t1"
    "replace_child (parent_link C) n (root_of x) t1 = Some t'" "is_tree t' (plug C x)" "same_rest t t'" by blast
  then show ?thesis using one x n by (cases l; cases r) (auto simp: rbt_take_out_def Let_def)
qed

lemma taken_out_two:
  assumes tree: "is_tree t (plug C (Bin nc l n r))" and two: "l \<noteq> Tip" "r \<noteq> Tip"
  shows "\<exists>t' E yc y yr. r = plug E (Bin yc Tip y yr) \<and> before E = []
    \<and> rbt_take_out n t = Some (yc, root_of yr, parent_link (E @ Right_of nc l y # C), t')
    \<and> is_tree t' (plug (E @ Right_of nc l y # C) yr) \<and> same_rest t t'"
proof -
  note n = node_at [OF tree]
  obtain rc rl ra rr where r: "r = Bin rc rl ra rr" using two(2) by (cases r) auto
  obtain la where la: "root_of l = Some la" using two(1) by (cases l) auto
  let ?nn = "\<lparr>rn_color = nc, rn_parent = parent_link C, rn_left = root_of l, rn_right = root_of r\<rparr>"
  have "is_tree t (plug (Right_of nc l n # C) (Bin rc rl ra rr))" using tree r by simp
  from leftmost_place [OF this] obtain E yc y yr where E: "r = plug E (Bin yc Tip y yr)" "before E = []"
    "leftmost t ra = Some y" "E = [] \<longrightarrow> y = ra" "\<forall>f \<in> set E. \<exists>c b s. f = Left_of c b s" unfolding r by blast
  have "\<exists>t1. remove_two n ?nn la ra t = Some (yc, root_of yr, parent_link (E @ Right_of nc l y # C), Some y, t1)
    \<and> ready t1 C n (Bin nc l y (plug E yr)) \<and> same_rest t t1 \<and> rt_nodes t1 n = rt_nodes t n"
  proof (cases E)
    case Nil
    then show ?thesis using remove_two_next [of t C nc l n yc y yr ?nn] tree E la two(1) by simp
  next
    case (Cons f D)
    then obtain c p s where f: "f = Left_of c p s" using E(5) by auto
    have "is_tree t (plug C (Bin nc l n (plug (Left_of c p s # D) (Bin yc Tip y yr))))"
      "root_of (plug (Left_of c p s # D) (Bin yc Tip y yr)) = Some ra"
      using tree r unfolding E(1) Cons f by simp_all
    from remove_two_deep [OF this(1) two(1) _ this(2) E(3), of ?nn] show ?thesis using la Cons f by simp
  qed
  then obtain t1 where t1: "remove_two n ?nn la ra t = Some (yc, root_of yr, parent_link (E @ Right_of nc l y # C), Some y, t1)"
    "ready t1 C n (Bin nc l y (plug E yr))" "same_rest t t1" "rt_nodes t1 n = rt_nodes t n" by blast
  from ready_place [OF t1(2)] obtain t2 t3 where t3: "set_parent y (parent_link C) t1 = Some t2"
    "replace_child (parent_link C) n (Some y) t2 = Some t3" "is_tree t3 (plug C (Bin nc l y (plug E yr)))" "same_rest t1 t3"
    by auto
  have "rbt_take_out n t = Some (yc, root_of yr, parent_link (E @ Right_of nc l y # C), t3)"
    using n la r t1(1,4) t3(1,2) by (simp add: rbt_take_out_def)
  moreover have "is_tree t3 (plug (E @ Right_of nc l y # C) yr)" using t3(3) by (simp add: plug_append)
  ultimately show ?thesis using E(1,2) same_rest_trans [OF t1(3) t3(4)] by blast
qed

lemma taken_out_place:
  assumes tree: "is_tree t (plug C (Bin nc l n r))" and rb: "red_black (plug C (Bin nc l n r))"
  shows "\<exists>t' G rm x. rbt_take_out n t = Some (rm, root_of x, parent_link G, t') \<and> is_tree t' (plug G x) \<and> same_rest t t'
    \<and> vacated G rm x \<and> inorder (plug G x) = before C @ inorder l @ inorder r @ after C"
proof (cases "l = Tip \<or> r = Tip")
  case True
  define x where "x = (if l \<noteq> Tip then l else r)"
  have "inorder x = inorder l @ inorder r" using True by (auto simp: x_def)
  moreover obtain t' where "rbt_take_out n t = Some (nc, root_of x, parent_link C, t')" "is_tree t' (plug C x)" "same_rest t t'"
    using taken_out_one [OF tree True x_def] by blast
  ultimately show ?thesis using vacatedI [OF rb x_def True]
    by (intro exI [of _ t'] exI [of _ C] exI [of _ nc] exI [of _ x]) simp
next
  case False
  from taken_out_two [OF tree] False obtain t' E yc y yr where t': "r = plug E (Bin yc Tip y yr)" "before E = []"
    "rbt_take_out n t = Some (yc, root_of yr, parent_link (E @ Right_of nc l y # C), t')"
    "is_tree t' (plug (E @ Right_of nc l y # C) yr)" "same_rest t t'" by blast
  let ?G = "\<lambda>a. E @ Right_of nc l a # C"
  have "red_black (plug (?G n) (Bin yc Tip y yr))" using rb by (simp add: t'(1) plug_append)
  then have "red_black (plug (?G y) (Bin yc Tip y yr))"
    unfolding red_black_def balanced_plug shape_red_plug balanced_above_addr [of E nc l n C _ y]
    by (cases E) (auto simp: frame_color_def)
  then have "vacated (?G y) yc yr" by (rule vacatedI) simp_all
  moreover have "inorder (plug (?G y) yr) = before C @ inorder l @ y # inorder (plug E yr) @ after C"
    by (simp add: plug_append)
  moreover have "inorder r = y # inorder (plug E yr)" using t'(1,2) by simp
  ultimately show ?thesis using t' by (intro exI conjI) auto
qed

end
