(* ===== verification/Rbtree_Properties.thy ===== *)
theory Rbtree_Properties
  imports Rbtree_Remove
begin

text \<open>
  What \<^verbatim>\<open>src/src/rbtree.c\<close> does as an ordered set: insertion, removal, traversal, and where it fails.
\<close>

definition rb_tree :: "rbtree \<Rightarrow> shape \<Rightarrow> bool" where
  "rb_tree t s \<longleftrightarrow> is_tree t s \<and> \<not> shape_red s \<and> rt_cached_min t = first (inorder s)"

abbreviation rb_sorted :: "rbtree \<Rightarrow> nat list \<Rightarrow> bool" where
  "rb_sorted t \<equiv> sorted_wrt (\<lambda>a b. rt_compare t a b < 0)"

subsection \<open>Lemmas\<close>

lemma cached_min_inserted:
  assumes "node_order (rt_compare t)" "rt_cached_min t = first (ys @ zs)" "rb_sorted t (ys @ n # zs)"
  shows "rt_cached_min (insert_cached_min n t) = first (ys @ n # zs)"
proof (cases "ys @ zs")
  case Nil
  then show ?thesis using assms(2) by (simp add: insert_cached_min_def)
next
  case (Cons m xs)
  have m: "rt_cached_min t = Some m" using assms(2) Cons by simp
  show ?thesis
  proof (cases ys)
    case Nil
    then show ?thesis using assms(3) m Cons by (simp add: insert_cached_min_def)
  next
    case (Cons k ks)
    then have "rt_compare t m n < 0" using assms(3) \<open>ys @ zs = m # xs\<close> by simp
    then have "\<not> rt_compare t n m < 0" using node_order.swap [OF assms(1)] by fastforce
    then show ?thesis using m Cons \<open>ys @ zs = m # xs\<close> by (simp add: insert_cached_min_def)
  qed
qed

lemma rbt_insert_sorted:
  assumes tree: "rb_tree t s" "node_order (rt_compare t)" "rb_sorted t (inorder s)"
    and n: "n \<in> dom (rt_nodes t)" "n \<notin> set (inorder s)"
  shows "\<exists>t'. rt_compare t' = rt_compare t \<and> dom (rt_nodes t') = dom (rt_nodes t)
    \<and> (if \<exists>a \<in> set (inorder s). rt_compare t n a = 0 then rbt_insert n t = Some (False, t') \<and> rb_tree t' s
       else rbt_insert n t = Some (True, t') \<and> (\<exists>s' ys zs. inorder s = ys @ zs \<and> inorder s' = ys @ n # zs
         \<and> insert_shape (rt_compare t) n s = Some s' \<and> rb_tree t' s' \<and> rb_sorted t' (inorder s')))"
proof -
  have t: "is_tree t s" "shape_red s = False" "rt_cached_min t = first (inorder s)" using tree(1) by (simp_all add: rb_tree_def)
  from rbt_insert_shape [OF t(1,2) n] obtain t' where t': "rbt_insert n t = Some (insert_shape (rt_compare t) n s \<noteq> None, t')"
    "is_tree t' (case insert_shape (rt_compare t) n s of Some s' \<Rightarrow> s' | None \<Rightarrow> s)" "rt_compare t' = rt_compare t"
    "dom (rt_nodes t') = dom (rt_nodes t)" "rt_cached_min t' = (if insert_shape (rt_compare t) n s = None then rt_cached_min t
        else rt_cached_min (insert_cached_min n t))" by blast
  note order = node_order.insert_shape_order [OF tree(2,3), of n]
  show ?thesis
  proof (cases "insert_shape (rt_compare t) n s")
    case None
    then show ?thesis using t' order t by (intro exI [of _ t']) (simp add: rb_tree_def)
  next
    case (Some s')
    then obtain ys zs where s': "inorder s = ys @ zs" "inorder s' = ys @ n # zs" "\<not> shape_red s'"
      "rb_sorted t (ys @ n # zs)" "\<not> (\<exists>a \<in> set (inorder s). rt_compare t n a = 0)" using order by auto
    have "rt_cached_min t' = first (inorder s')"
      using cached_min_inserted [OF tree(2) _ s'(4)] t'(5) t(3) Some s'(1,2) by simp
    then have "rb_tree t' s'" using t'(2) Some s'(3) by (simp add: rb_tree_def)
    then show ?thesis using t' Some s' by (intro exI [of _ t']) auto
  qed
qed

lemma rbt_remove_balanced:
  assumes tree: "rb_tree t s" "red_black s" and n: "inorder s = xs @ n # ys"
  shows "\<exists>t' s'. rbt_remove n t = Some t' \<and> rb_tree t' s' \<and> red_black s' \<and> inorder s' = xs @ ys
    \<and> rt_compare t' = rt_compare t \<and> dom (rt_nodes t') = dom (rt_nodes t)"
proof -
  obtain C nc l r where s: "s = plug C (Bin nc l n r)" using in_inorder_place [of n s] n by auto
  have t: "is_tree t s" "rt_cached_min t = first (xs @ n # ys)" using tree(1) n by (simp_all add: rb_tree_def)
  have dist: "distinct (xs @ n # ys)" using t(1) n by (simp add: is_tree_def)
  have "xs @ n # ys = (before C @ inorder l) @ n # (inorder r @ after C)" using n s by simp
  from distinct_split_unique [OF dist this] have split: "xs = before C @ inorder l" "ys = inorder r @ after C" by simp_all
  define t0 where "t0 = (if rt_cached_min t = Some n then t\<lparr>rt_cached_min := first ys\<rparr> else t)"
  have t0: "is_tree t0 (plug C (Bin nc l n r))" "rt_compare t0 = rt_compare t" "dom (rt_nodes t0) = dom (rt_nodes t)"
    using t(1) s by (simp_all add: t0_def is_tree_def)
  have min: "rt_cached_min t0 = first (xs @ ys)"
    using t(2) dist by (cases xs) (auto simp: t0_def)
  have start: "(if rt_cached_min t = Some n then do {
             m \<leftarrow> rbnode_next t (Some n);
             Some (t\<lparr>rt_cached_min := m\<rparr>)
           } else Some t) = Some t0"
    using neighbours(1) [OF t(1) n] by (simp add: t0_def)
  from taken_out_place [OF t0(1)] tree(2) s obtain t1 G rm x where t1: "rbt_take_out n t0 = Some (rm, root_of x, parent_link G, t1)"
    "is_tree t1 (plug G x)" "same_rest t0 t1" "vacated G rm x" "inorder (plug G x) = xs @ ys"
    unfolding split by auto
  from finish_removal [OF t1(2,4)] obtain t' s' where
    "(if rm = BLACK then rbt_remove_fixup (root_of x) (parent_link G) t1 else Some t1) = Some t'"
    "is_tree t' s'" "red_black s'" "inorder s' = xs @ ys" "same_rest t1 t'" using t1(5) by auto
  moreover have "rbt_remove n t = (if rm = BLACK then rbt_remove_fixup (root_of x) (parent_link G) t1 else Some t1)"
    unfolding rbt_remove_def start using t1(1) by simp
  ultimately show ?thesis using t1(3) t0(2,3) min
    by (intro exI [of _ t'] exI [of _ s']) (simp add: rb_tree_def red_black_def same_rest_def)
qed

subsection \<open>Histories\<close>

primrec insert_all :: "nat list \<Rightarrow> rbtree \<Rightarrow> rbtree option" where
  "insert_all [] t = Some t"
| "insert_all (n # ns) t = do { (inserted, t1) \<leftarrow> rbt_insert n t; insert_all ns t1 }"

text \<open>Nodes that are their own keys, in a memory where every address has a node.\<close>

definition number_tree :: rbtree where
  "number_tree = rbt_init (test_node_cmp int) (\<lambda>a. Some \<lparr>rn_color = RED, rn_parent = None, rn_left = None, rn_right = None\<rparr>)"

primrec insert_shapes :: "nat list \<Rightarrow> shape \<Rightarrow> shape option" where
  "insert_shapes [] s = Some s"
| "insert_shapes (n # ns) s = do { s1 \<leftarrow> insert_shape (test_node_cmp int) n s; insert_shapes ns s1 }"

definition numbers :: "rbtree \<Rightarrow> shape \<Rightarrow> bool" where
  "numbers t s \<longleftrightarrow> rb_tree t s \<and> rt_compare t = test_node_cmp int \<and> dom (rt_nodes t) = UNIV
     \<and> sorted_wrt (\<lambda>a b. test_node_cmp int a b < 0) (inorder s)"

lemma numbers_start: "numbers number_tree Tip"
  by (auto simp: numbers_def number_tree_def rbt_init_def rb_tree_def is_tree_def)

lemma numbers_insert:
  assumes "numbers t s" "n \<notin> set (inorder s)" "insert_shape (test_node_cmp int) n s = Some s'"
  shows "\<exists>t'. rbt_insert n t = Some (True, t') \<and> numbers t' s'"
proof -
  have t: "rb_tree t s" "node_order (rt_compare t)" "rb_sorted t (inorder s)" "n \<in> dom (rt_nodes t)"
    and c: "rt_compare t = test_node_cmp int" "dom (rt_nodes t) = UNIV"
    using assms(1) keyed.node_order_axioms by (simp_all add: numbers_def)
  from assms(2) have "\<not> (\<exists>a \<in> set (inorder s). rt_compare t n a = 0)" by (auto simp: c(1) test_node_cmp_def)
  with rbt_insert_sorted [OF t assms(2)] assms(3) c show ?thesis by (auto simp: numbers_def)
qed

lemma numbers_insert_all:
  "numbers t s \<Longrightarrow> distinct ns \<Longrightarrow> set ns \<inter> set (inorder s) = {} \<Longrightarrow> insert_shapes ns s = Some s' \<Longrightarrow>
    \<exists>t'. insert_all ns t = Some t' \<and> numbers t' s'"
proof (induction ns arbitrary: t s)
  case (Cons n ns)
  then obtain s1 where s1: "insert_shape (test_node_cmp int) n s = Some s1" "insert_shapes ns s1 = Some s'"
    by (auto simp: bind_eq_Some_conv)
  have "n \<notin> set (inorder s)" using Cons.prems(3) by auto
  from numbers_insert [OF Cons.prems(1) this s1(1)]
  obtain t1 where t1: "rbt_insert n t = Some (True, t1)" "numbers t1 s1" by blast
  have "sorted_wrt (\<lambda>a b. test_node_cmp int a b < 0) (inorder s)" using Cons.prems(1) by (simp add: numbers_def)
  then have "set (inorder s1) = insert n (set (inorder s))"
    using node_order.insert_shape_order [OF keyed.node_order_axioms, of int s n] s1(1) by auto
  then have "set ns \<inter> set (inorder s1) = {}" using Cons.prems(2,3) by auto
  from Cons.IH [OF t1(2) _ this s1(2)] t1(1) Cons.prems(2) show ?case by auto
qed simp

definition seven :: "nat list" where
  "seven = [1, 7, 6, 3, 2, 5, 4]"

definition seven_shape :: shape where
  "seven_shape = Bin BLACK (Bin RED (Bin BLACK Tip 1 Tip) 2 (Bin RED Tip 3 Tip)) 4
     (Bin RED (Bin RED Tip 5 Tip) 6 (Bin BLACK Tip 7 Tip))"

lemma seven_inserted: "insert_shapes seven Tip = Some seven_shape"
  by (simp add: seven_def seven_shape_def insert_shape_def test_node_cmp_def)

lemma seven_tree: "\<exists>t. insert_all seven number_tree = Some t \<and> numbers t seven_shape"
  by (rule numbers_insert_all [OF numbers_start _ _ seven_inserted]) (simp_all add: seven_def)

text \<open>Removing the smallest node of that tree looks for a child of the red sibling, which has none.\<close>

lemma seven_remove_fails:
  assumes "is_tree t seven_shape" "rt_cached_min t = Some 1"
  shows "rbt_remove 1 t = None"
proof -
  let ?C = "[Left_of RED 2 (Bin RED Tip 3 Tip), Left_of BLACK 4 (Bin RED (Bin RED Tip 5 Tip) 6 (Bin BLACK Tip 7 Tip))]"
  have successor: "rbnode_next t (Some 1) = Some (Some 2)"
    using neighbours(1) [OF assms(1), of "[]" 1 "[2, 3, 4, 5, 6, 7]"] by (simp add: seven_shape_def)
  define t0 where "t0 = t\<lparr>rt_cached_min := Some 2\<rparr>"
  have "is_tree t0 (plug ?C (Bin BLACK Tip 1 Tip))" using assms(1) by (simp add: t0_def is_tree_def seven_shape_def)
  from taken_out_one [OF this] obtain t1 where t1: "rbt_take_out 1 t0 = Some (BLACK, None, Some 2, t1)" "is_tree t1 (plug ?C Tip)"
    by auto
  have p: "is_tree t1 (plug (tl ?C) (Bin RED Tip 2 (Bin RED Tip 3 Tip)))"
    "is_tree t1 (plug (Right_of RED Tip 2 # tl ?C) (Bin RED Tip 3 Tip))" using t1(2) by simp_all
  from set_color_place [OF p(2), of BLACK] obtain t2 where t2: "set_color 3 BLACK t1 = Some t2"
    "is_tree t2 (plug (tl ?C) (Bin RED Tip 2 (Bin BLACK Tip 3 Tip)))" by auto
  from set_color_place [OF t2(2), of RED] obtain t3 where t3: "set_color 2 RED t2 = Some t3"
    "is_tree t3 (plug (tl ?C) (Bin RED Tip 2 (Bin BLACK Tip 3 Tip)))" by auto
  from rotate_left_place [OF t3(2)] obtain t4 where t4: "rbt_rotate_left 2 t3 = Some t4"
    "is_tree t4 (plug (Left_of BLACK 3 Tip # tl ?C) (Bin RED Tip 2 Tip))" by auto
  have "remove_fixup_step t1 None 2 = None"
    using node_at [OF p(1)] node_at [OF p(2)] node_at [OF t4(2)] t2(1) t3(1) t4(1)
    by (simp add: remove_fixup_step_def)
  then have "remove_fixup_loop t1 None 2 = None" by (subst remove_fixup_loop.simps) simp
  then show ?thesis using assms(2) successor t1(1)
    by (simp add: rbt_remove_def rbt_remove_fixup_def is_red_def flip: t0_def)
qed

subsection \<open>Properties\<close>

text \<open>C15: Insertion into a tree of whatever balance ends and follows no wild pointer: a node with an equal
  one in the tree is refused and the tree stays as it is; any other is put in its place in the order, the
  parent pointers and the cached minimum stay right, and the root is black.\<close>

theorem rbt_insert_refines_sorted_list:
  assumes "rb_tree t s" "node_order (rt_compare t)" "rb_sorted t (inorder s)"
    "n \<in> dom (rt_nodes t)" "n \<notin> set (inorder s)"
  shows "\<exists>t'. rt_compare t' = rt_compare t \<and> dom (rt_nodes t') = dom (rt_nodes t)
    \<and> (if \<exists>a \<in> set (inorder s). rt_compare t n a = 0 then rbt_insert n t = Some (False, t') \<and> rb_tree t' s
       else rbt_insert n t = Some (True, t') \<and> (\<exists>s' ys zs. inorder s = ys @ zs \<and> inorder s' = ys @ n # zs
         \<and> rb_tree t' s' \<and> rb_sorted t' (inorder s')))"
  using rbt_insert_sorted [OF assms] by (elim exE) (rule exI, auto split: if_splits)

text \<open>C5: Removal of any node from a balanced tree ends, follows no null pointer, takes exactly that node
  from the order, and leaves a balanced tree with the right cached minimum.\<close>

theorem rbt_remove_keeps_balance:
  assumes "rb_tree t s" "red_black s" "inorder s = xs @ n # ys"
  shows "\<exists>t' s'. rbt_remove n t = Some t' \<and> rb_tree t' s' \<and> red_black s' \<and> inorder s' = xs @ ys
    \<and> rt_compare t' = rt_compare t \<and> dom (rt_nodes t') = dom (rt_nodes t)"
  by (rule rbt_remove_balanced [OF assms])

text \<open>C16: The fixup of an insertion goes on after its rotation with a black node, and can rotate a second
  time: seven insertions into an empty tree give a tree with a red child of a red node, and the removal of
  its smallest node follows a null pointer.\<close>

theorem rbt_insert_unbalances:
  "\<exists>t. insert_all [1, 7, 6, 3, 2, 5, 4] number_tree = Some t
    \<and> (\<exists>s. rb_tree t s \<and> inorder s = [1, 2, 3, 4, 5, 6, 7] \<and> \<not> balanced s) \<and> rbt_remove 1 t = None"
proof -
  obtain t where t: "insert_all seven number_tree = Some t" "numbers t seven_shape" using seven_tree by blast
  have order: "inorder seven_shape = [1, 2, 3, 4, 5, 6, 7]" and bad: "\<not> balanced seven_shape"
    by (simp_all add: seven_shape_def)
  have "rb_tree t seven_shape" using t(2) by (simp add: numbers_def)
  moreover from this have "rbt_remove 1 t = None" using order by (intro seven_remove_fails) (simp_all add: rb_tree_def)
  ultimately show ?thesis using t(1) order bad unfolding seven_def by blast
qed

text \<open>C32: \<^verbatim>\<open>rbt_find\<close> compares the other way round than insertion and turns away from what it looks for:
  in an ordered tree it finds a node only at the root.\<close>

theorem rbt_find_only_root:
  assumes "rb_tree t s" "node_order (rt_compare t)" "rb_sorted t (inorder s)"
  shows "rbt_find t n = Some (case rt_root t of None \<Rightarrow> None | Some r \<Rightarrow> if rt_compare t r n = 0 then Some r else None)"
  using node_order.find_root [OF assms(2) _ refl assms(3)] assms(1) by (simp add: rb_tree_def)

text \<open>C33: Every loop of the traversal ends: the minimum is the first node of the order, the maximum the
  last, and the successor and predecessor of a node are its neighbours, or null at the ends.\<close>

theorem rbt_traversal_ends:
  assumes "rb_tree t s"
  shows "rbt_min t = first (inorder s) \<and> rbt_max t = Some (first (rev (inorder s))) \<and> rbt_empty t = (inorder s = [])
    \<and> rbnode_next t None = Some None \<and> rbnode_prev t None = Some None
    \<and> (\<forall>xs a ys. inorder s = xs @ a # ys \<longrightarrow>
         rbnode_next t (Some a) = Some (first ys) \<and> rbnode_prev t (Some a) = Some (first (rev xs)))"
proof -
  have t: "is_tree t s" "rt_cached_min t = first (inorder s)" using assms by (simp_all add: rb_tree_def)
  have "(rt_root t = None) = (inorder s = [])" using t(1) by (cases s) (simp_all add: is_tree_def)
  then show ?thesis using t rbt_max_shape [OF t(1)] neighbours [OF t(1)]
    by (simp add: rbt_min_def rbt_empty_def rbnode_next_def rbnode_prev_def)
qed

subsection \<open>Witnesses\<close>

text \<open>A tree of three numbers.\<close>

lemma three_tree:
  "\<exists>t. numbers t (Bin BLACK (Bin RED Tip 1 Tip) 2 (Bin RED Tip 3 Tip))"
proof -
  have "insert_shapes [1, 2, 3] Tip = Some (Bin BLACK (Bin RED Tip 1 Tip) 2 (Bin RED Tip 3 Tip))"
    by (simp add: insert_shape_def test_node_cmp_def)
  from numbers_insert_all [OF numbers_start _ _ this] show ?thesis by auto
qed

theorem rbt_insert_refines_sorted_list_witness:
  "\<exists>t t' s'. rbt_insert 5 t = Some (True, t') \<and> rb_tree t' s' \<and> inorder s' = [1, 2, 3, 5]"
proof -
  let ?s = "Bin BLACK (Bin RED Tip 1 Tip) 2 (Bin RED Tip 3 Tip)"
  obtain t where t: "numbers t ?s" using three_tree by blast
  then have h: "rb_tree t ?s" "node_order (rt_compare t)" "rb_sorted t (inorder ?s)" "5 \<in> dom (rt_nodes t)"
    "5 \<notin> set (inorder ?s)" and c: "rt_compare t = test_node_cmp int"
    using keyed.node_order_axioms [of int] by (simp_all add: numbers_def)
  from rbt_insert_refines_sorted_list [OF h] obtain t' s' ys zs where r: "rbt_insert 5 t = Some (True, t')" "rb_tree t' s'"
    "[1, 2, 3] = ys @ zs" "inorder s' = ys @ 5 # zs" "rb_sorted t' (inorder s')" "rt_compare t' = rt_compare t"
    by (auto simp: c test_node_cmp_def)
  have "sorted_wrt (<) (inorder s')" using r(5,6) by (simp add: c test_node_cmp_def)
  moreover have "set (inorder s') = {1, 2, 3, 5}"
  proof -
    have "set (inorder s') = insert 5 (set (ys @ zs))" using r(4) by auto
    then show ?thesis unfolding r(3) [symmetric] by auto
  qed
  moreover have "sorted_wrt (<) [1, 2, 3, 5 :: nat]" "set [1, 2, 3, 5 :: nat] = {1, 2, 3, 5}" by simp_all
  ultimately have "inorder s' = [1, 2, 3, 5]"
    using strict_sorted_equal [of "inorder s'" "[1, 2, 3, 5]"] by (simp add: strict_sorted_iff)
  then show ?thesis using r by blast
qed

theorem rbt_remove_keeps_balance_witness:
  "\<exists>t t' s'. rbt_remove 2 t = Some t' \<and> rb_tree t' s' \<and> red_black s' \<and> inorder s' = [1, 3]"
proof -
  let ?s = "Bin BLACK (Bin RED Tip 1 Tip) 2 (Bin RED Tip 3 Tip)"
  obtain t where "numbers t ?s" using three_tree by blast
  then have "rb_tree t ?s" by (simp add: numbers_def)
  moreover have "red_black ?s" "inorder ?s = [1] @ 2 # [3]" by (simp_all add: red_black_def)
  ultimately show ?thesis using rbt_remove_keeps_balance [of t ?s "[1]" 2 "[3]"] by auto
qed

theorem rbt_find_only_root_witness: "\<exists>t. rbt_find t 3 = Some None \<and> rbt_max t = Some (Some 3)"
proof -
  let ?s = "Bin BLACK (Bin RED Tip 1 Tip) 2 (Bin RED Tip 3 Tip)"
  obtain t where t: "numbers t ?s" using three_tree by blast
  then have h: "rb_tree t ?s" "node_order (rt_compare t)" "rb_sorted t (inorder ?s)" and c: "rt_compare t = test_node_cmp int"
    using keyed.node_order_axioms [of int] by (simp_all add: numbers_def)
  have i: "is_tree t ?s" using h(1) by (simp add: rb_tree_def)
  then have "rt_root t = Some 2" by (simp add: is_tree_def)
  then show ?thesis using rbt_find_only_root [OF h, of 3] rbt_max_shape [OF i]
    by (intro exI [of _ t]) (simp add: c test_node_cmp_def)
qed

theorem rbt_traversal_ends_witness:
  "\<exists>t. rbt_min t = Some 1 \<and> rbnode_next t (Some 1) = Some (Some 2) \<and> rbnode_next t (Some 2) = Some (Some 3)
    \<and> rbnode_next t (Some 3) = Some None \<and> rbnode_prev t (Some 3) = Some (Some 2)"
proof -
  let ?s = "Bin BLACK (Bin RED Tip 1 Tip) 2 (Bin RED Tip 3 Tip)"
  obtain t where "numbers t ?s" using three_tree by blast
  then have "rb_tree t ?s" by (simp add: numbers_def)
  note r = rbt_traversal_ends [OF this]
  have "inorder ?s = [] @ 1 # [2, 3]" "inorder ?s = [1] @ 2 # [3]" "inorder ?s = [1, 2] @ 3 # []" by simp_all
  then have "rbnode_next t (Some 1) = Some (first [2, 3])" "rbnode_next t (Some 2) = Some (first [3])"
    "rbnode_next t (Some 3) = Some (first [])" "rbnode_prev t (Some 3) = Some (first (rev [1, 2]))" using r by blast+
  then show ?thesis using r by (intro exI [of _ t]) simp
qed

end
