(* ===== verification/Bcrypt.thy ===== *)
theory Bcrypt
  imports Base64 Blowfish Config
begin

text \<open>
  Password hashes, \<^verbatim>\<open>src/src/crypto/bcrypt.c\<close>.  Buffers are the memory from their pointer on, and
  \<^theory_text>\<open>None\<close> is undefined behaviour: an access outside of them, or \<^verbatim>\<open>isdigit\<close> of a negative \<^verbatim>\<open>char\<close>.
  The bytes of \<^verbatim>\<open>crypto_random\<close>, which asks the operating system, are an argument.
\<close>

subsection \<open>The code\<close>

definition BCRYPT_SALT_LEN :: nat where "BCRYPT_SALT_LEN = 16"
definition BCRYPT_HASH_LEN :: nat where "BCRYPT_HASH_LEN = 24"
definition BCRYPT_SALT_STRLEN :: nat where "BCRYPT_SALT_STRLEN = 30"
definition BCRYPT_HASH_STRLEN :: nat where "BCRYPT_HASH_STRLEN = 62"

text \<open>\<^verbatim>\<open>%2.2u\<close> of a number below 100.\<close>

definition two_digits :: "nat \<Rightarrow> bytes" where
  "two_digits n = [0x30 + of_nat (n div 10), 0x30 + of_nat (n mod 10)]"

definition generate_salt :: "bytes \<Rightarrow> int \<Rightarrow> bytes \<Rightarrow> nat \<Rightarrow> (bool \<times> bytes) option" where
  "generate_salt csalt logr salt saltlen =
     (if saltlen < BCRYPT_SALT_STRLEN then Some (False, salt)
      else do {
        let logr = (if logr < 4 then 4 else if logr > 31 then 31 else logr);
        salt \<leftarrow> mem_write 0 (take (saltlen - 1) (str ''$2b$'' @ two_digits (nat logr) @ str ''$'') @ [0]) salt;
        salt \<leftarrow> mem_write 7 (base64_encode csalt) salt;
        Some (True, salt)
      })"

text \<open>\<^verbatim>\<open>for(i = 0; i < rounds; i++)\<close>, and the key set up before.\<close>

definition bcrypt_round :: "bytes \<Rightarrow> bytes \<Rightarrow> blowfish_ctx \<Rightarrow> blowfish_ctx option" where
  "bcrypt_round key csalt b = do {
     b \<leftarrow> blowfish_expandkey b key;
     blowfish_expandkey b csalt
   }"

primrec bcrypt_rounds :: "bytes \<Rightarrow> bytes \<Rightarrow> nat \<Rightarrow> blowfish_ctx \<Rightarrow> blowfish_ctx option" where
  "bcrypt_rounds key csalt 0 b = Some b"
| "bcrypt_rounds key csalt (Suc n) b = do {
     b \<leftarrow> bcrypt_round key csalt b;
     bcrypt_rounds key csalt n b
   }"

definition bcrypt_ptext :: bytes where
  "bcrypt_ptext = str ''OrpheanBeholderScryDoubt''"

definition bcrypt_ctext :: "bytes \<Rightarrow> bytes \<Rightarrow> u32 \<Rightarrow> bytes option" where
  "bcrypt_ctext key csalt rounds = do {
     b \<leftarrow> blowfish_expandkey1 blowfish_init key csalt;
     b \<leftarrow> bcrypt_rounds key csalt (unat rounds) b;
     blowfish_ecb_encode_n b 64 bcrypt_ptext BCRYPT_HASH_LEN
   }"

text \<open>The \<^verbatim>\<open>switch\<close> on the minor version: the number of bytes of the key.\<close>

definition bcrypt_keylen :: "u8 \<Rightarrow> nat \<Rightarrow> nat option" where
  "bcrypt_keylen minor keylen =
     (if minor = 0x62 then Some (if keylen > 72 then 72 else keylen)
      else if minor = 0x61 then Some keylen
      else None)"

definition isdigit_char :: "u8 \<Rightarrow> bool option" where
  "isdigit_char c = (if c < 0x80 then Some (isdigit c) else None)"

text \<open>The check of the rounds, with the evaluation order of \<^verbatim>\<open>||\<close>: \<^verbatim>\<open>logr\<close>, if it passes.\<close>

definition bcrypt_logr :: "bytes \<Rightarrow> u8 option option" where
  "bcrypt_logr salt =
     (if salt ! 3 \<noteq> 0x24 \<or> salt ! 6 \<noteq> 0x24 then Some None
      else do {
        d4 \<leftarrow> isdigit_char (salt ! 4);
        if \<not> d4 then Some None
        else do {
          d5 \<leftarrow> isdigit_char (salt ! 5);
          if \<not> d5 then Some None
          else (let logr = (salt ! 4 - 0x30) * 10 + (salt ! 5 - 0x30)
                in if logr < 4 \<or> logr > 31 then Some None else Some (Some logr))
        }
      })"

definition generate_hash :: "bytes \<Rightarrow> bytes \<Rightarrow> bytes \<Rightarrow> nat \<Rightarrow> (bool \<times> bytes) option" where
  "generate_hash key salt hash hashlen = do {
     saltlen \<leftarrow> cstrlen salt;
     if saltlen + 1 < BCRYPT_SALT_STRLEN then Some (False, hash)
     else if hashlen < BCRYPT_HASH_STRLEN then Some (False, hash)
     else if salt ! 0 \<noteq> 0x24 \<or> salt ! 1 \<noteq> 0x32 then Some (False, hash)
     else do {
       len \<leftarrow> cstrlen key;
       case bcrypt_keylen (salt ! 2) (len + 1) of
         None \<Rightarrow> Some (False, hash)
       | Some keylen \<Rightarrow> do {
           l \<leftarrow> bcrypt_logr salt;
           case l of
             None \<Rightarrow> Some (False, hash)
           | Some logr \<Rightarrow> do {
               (ok, csalt) \<leftarrow> base64_decode BCRYPT_SALT_LEN (drop 7 salt);
               if \<not> ok then Some (False, hash)
               else do {
                 k \<leftarrow> mem_read 0 keylen key;
                 ctext \<leftarrow> bcrypt_ctext k csalt (push_bit (unat logr) 1);
                 hash \<leftarrow> mem_write 0 (str ''$2'' @ [salt ! 2] @ str ''$'' @ two_digits (unat logr) @ str ''$'' @ [0]) hash;
                 hash \<leftarrow> mem_write 7 (base64_encode csalt) hash;
                 hash \<leftarrow> mem_write (7 + 22) (base64_encode ctext) hash;
                 Some (True, hash)
               }
             }
         }
     }
   }"

text \<open>The sum of the differences is of signed characters, promoted to \<^verbatim>\<open>int\<close>.\<close>

definition hash_cmp :: "bytes \<Rightarrow> bytes \<Rightarrow> nat \<Rightarrow> bool option" where
  "hash_cmp h1 h2 len = do {
     a \<leftarrow> mem_read 0 len h1;
     b \<leftarrow> mem_read 0 len h2;
     Some (sum_list (map2 (\<lambda>x y. sint x XOR sint y) a b) = 0)
   }"

definition bcrypt_newhash :: "bytes \<Rightarrow> bytes \<Rightarrow> bytes \<Rightarrow> int \<Rightarrow> bytes \<Rightarrow> nat \<Rightarrow> (bool \<times> bytes) option" where
  "bcrypt_newhash csalt junk pass logr hash hashlen = do {
     (ok, salt) \<leftarrow> generate_salt csalt logr junk BCRYPT_SALT_STRLEN;
     if \<not> ok then Some (False, hash)
     else do {
       (ok, hash) \<leftarrow> generate_hash pass salt hash hashlen;
       Some (ok, hash)
     }
   }"

definition bcrypt_checkpass :: "bytes \<Rightarrow> bytes \<Rightarrow> bytes \<Rightarrow> bool option" where
  "bcrypt_checkpass junk pass hash = do {
     (ok, test_hash) \<leftarrow> generate_hash pass hash junk BCRYPT_HASH_STRLEN;
     if \<not> ok then Some False
     else do {
       hashlen \<leftarrow> cstrlen hash;
       testlen \<leftarrow> cstrlen test_hash;
       if hashlen = testlen then hash_cmp hash test_hash hashlen else Some False
     }
   }"

subsection \<open>The key schedule always succeeds\<close>

lemma bcrypt_round_total:
  assumes "key \<noteq> []" "csalt \<noteq> []" "bf_ok b"
  shows "\<exists>b'. bcrypt_round key csalt b = Some b' \<and> bf_ok b'"
  using assms by (simp add: bcrypt_round_def expandkey_schedule bf_schedule_ok)

lemma bcrypt_rounds_total:
  assumes "key \<noteq> []" "csalt \<noteq> []" "bf_ok b"
  shows "\<exists>b'. bcrypt_rounds key csalt n b = Some b' \<and> bf_ok b'"
  using assms(3)
proof (induction n arbitrary: b)
  case (Suc n)
  then show ?case using bcrypt_round_total [OF assms(1,2) Suc.prems] by auto
qed simp

lemma bcrypt_ctext_total:
  assumes "key \<noteq> []" "csalt \<noteq> []"
  shows "\<exists>c. bcrypt_ctext key csalt rounds = Some c \<and> length c = 24"
proof -
  have l: "length bcrypt_ptext = 24" by (simp add: bcrypt_ptext_def str_def)
  have "bf_ok (bf_schedule_salted (key_stream key) (key_stream csalt) blowfish_init)"
    by (simp add: bf_schedule_salted_ok bf_ok_init)
  from bcrypt_rounds_total [OF assms this, of "unat rounds"]
  obtain b where b: "bcrypt_rounds key csalt (unat rounds)
      (bf_schedule_salted (key_stream key) (key_stream csalt) blowfish_init) = Some b" by blast
  obtain c where "bf_ecb_loop (encode_one b ^^ 64) 3 bcrypt_ptext = Some c" "length c = 24"
    using bf_ecb_loop_result [of 3 bcrypt_ptext "encode_one b ^^ 64"] l by auto
  then show ?thesis
    by (simp add: bcrypt_ctext_def expandkey1_schedule [OF assms bf_ok_init] b blowfish_ecb_encode_n_def
        ROUND_TO_8_def BCRYPT_HASH_LEN_def)
qed

text \<open>The ECB loop of Blowfish leaves half of every block as it was: 12 of the 24 bytes of every cipher text are those of
  the constant.\<close>

lemma bcrypt_ctext_known_half:
  assumes "bcrypt_ctext key csalt rounds = Some c" "i < 24" "4 \<le> i mod 8"
  shows "c ! i = bcrypt_ptext ! i"
proof -
  obtain b where "blowfish_ecb_encode_n b 64 bcrypt_ptext 24 = Some c"
    using assms(1) by (auto simp: bcrypt_ctext_def BCRYPT_HASH_LEN_def Option.bind_eq_Some_conv)
  then have "bf_ecb_loop (encode_one b ^^ 64) 3 bcrypt_ptext = Some c" by (simp add: blowfish_ecb_encode_n_def ROUND_TO_8_def)
  moreover have "length bcrypt_ptext = 24" by (simp add: bcrypt_ptext_def str_def)
  ultimately show ?thesis using bf_ecb_loop_result [of 3 bcrypt_ptext "encode_one b ^^ 64"] assms(2,3) by auto
qed

subsection \<open>Base 64 text\<close>

text \<open>\<open>b64_text\<close>: what \<^verbatim>\<open>base64_encode\<close> writes, without the terminating NUL.\<close>

definition b64_text :: "bytes \<Rightarrow> bytes" where
  "b64_text d = butlast (base64_encode d)"

definition ascii :: "bytes \<Rightarrow> bool" where
  "ascii s \<longleftrightarrow> (\<forall>c \<in> set s. c \<noteq> 0 \<and> c < 0x80)"

lemma ascii_simps [simp]:
  "ascii []" "ascii (c # s) \<longleftrightarrow> c \<noteq> 0 \<and> c < 0x80 \<and> ascii s" "ascii (s @ t) \<longleftrightarrow> ascii s \<and> ascii t"
  by (auto simp: ascii_def)

lemma ascii_not_0: "ascii s \<Longrightarrow> 0 \<notin> set s"
  by (auto simp: ascii_def)

lemma b64_char_ascii:
  assumes "s < 64"
  shows "b64_char s \<noteq> 0 \<and> b64_char s < 0x80"
proof -
  have "unat s < 64" using assms by (simp add: word_less_nat_alt)
  moreover have "length base64 = 64" "list_all (\<lambda>c. c \<noteq> 0 \<and> c < 0x80) base64" by (simp_all add: base64_def)
  ultimately show ?thesis unfolding b64_char_def list_all_length by simp
qed

lemma base64_encode_last: "base64_encode d \<noteq> [] \<and> last (base64_encode d) = 0"
  by (induction d rule: base64_encode.induct)
    (simp_all only: base64_encode.simps append.simps last.simps list.simps if_True if_False simp_thms)

lemma base64_encode_text: "base64_encode d = b64_text d @ [0]"
  using base64_encode_last [of d] append_butlast_last_id [of "base64_encode d"] by (metis b64_text_def)

lemma b64_text_simps:
  "b64_text (p0 # p1 # p2 # p) =
     [b64_char (drop_bit 2 p0),
      b64_char (push_bit 4 (p0 AND 0x03) OR (drop_bit 4 p1 AND 0x0F)),
      b64_char (push_bit 2 (p1 AND 0x0F) OR (drop_bit 6 p2 AND 0x03)),
      b64_char (p2 AND 0x3F)] @ b64_text p"
  "b64_text [p0] = [b64_char (drop_bit 2 p0), b64_char (push_bit 4 (p0 AND 0x03))]"
  "b64_text [p0, p1] = [b64_char (drop_bit 2 p0), b64_char (push_bit 4 (p0 AND 0x03) OR (drop_bit 4 p1 AND 0x0F)),
     b64_char (push_bit 2 (p1 AND 0x0F))]"
  "b64_text [] = []"
  by (simp_all only: b64_text_def base64_encode.simps butlast_append append.simps butlast.simps list.simps
      base64_encode_last if_True if_False simp_thms)

lemma b64_text_length: "length (b64_text d) = (4 * length d + 2) div 3"
  by (induction d rule: base64_encode.induct) (simp_all add: b64_text_simps)

lemma b64_text_ascii: "ascii (b64_text d)"
  by (induction d rule: base64_encode.induct)
    (simp_all add: b64_text_simps b64_char_ascii sextet_bounds del: push_bit_and)

lemma base64_decode_text: "base64_decode (length d) (b64_text d @ rest) = Some (True, d)"
  by (induction d rule: base64_encode.induct; subst base64_decode.simps)
    (simp_all add: Let_def b64_text_simps b64_sextet octets del: push_bit_and)

lemma b64_text_inj: "length c = length d \<Longrightarrow> b64_text c = b64_text d \<longleftrightarrow> c = d"
  using base64_decode_text [of c "[]"] base64_decode_text [of d "[]"] by (metis option.inject prod.inject)

subsection \<open>The text of a hash\<close>

definition bcrypt_header :: "u8 \<Rightarrow> nat \<Rightarrow> bytes" where
  "bcrypt_header minor logr = str ''$2'' @ [minor] @ str ''$'' @ two_digits logr @ str ''$''"

lemma bcrypt_header_list:
  "bcrypt_header minor logr = [0x24, 0x32, minor, 0x24, 0x30 + of_nat (logr div 10), 0x30 + of_nat (logr mod 10), 0x24]"
proof -
  have "str ''$2'' = [0x24, 0x32]" "str ''$'' = [0x24]" by (simp_all add: str_def)
  then show ?thesis by (simp only: bcrypt_header_def two_digits_def append.simps)
qed

lemma digit_char:
  assumes "n < 10"
  shows "isdigit_char (0x30 + of_nat n) = Some True" "0x30 + of_nat n \<noteq> (0 :: u8)" "0x30 + of_nat n < (0x80 :: u8)"
proof -
  have "unat (0x30 + of_nat n :: u8) = 0x30 + n" using assms by (simp add: unat_word_ariths unat_of_nat)
  then show "isdigit_char (0x30 + of_nat n) = Some True" "0x30 + of_nat n \<noteq> (0 :: u8)" "0x30 + of_nat n < (0x80 :: u8)"
    using assms by (auto simp: isdigit_char_def isdigit_def word_less_nat_alt word_le_nat_alt)
qed

lemma bcrypt_logr_header:
  assumes "4 \<le> logr" "logr \<le> 31"
  shows "bcrypt_logr (bcrypt_header minor logr @ rest) = Some (Some (of_nat logr))" "ascii (two_digits logr)"
    "unat (of_nat logr :: u8) = logr"
proof -
  let ?s = "bcrypt_header minor logr @ rest"
  have n: "?s ! 3 = 0x24" "?s ! 4 = 0x30 + of_nat (logr div 10)" "?s ! 5 = 0x30 + of_nat (logr mod 10)" "?s ! 6 = 0x24"
    by (simp_all add: bcrypt_header_list)
  have d: "logr div 10 < 10" "logr mod 10 < 10" using assms by auto
  show u: "unat (of_nat logr :: u8) = logr" using assms by (simp add: unat_of_nat)
  have "(of_nat (logr div 10) * 10 + of_nat (logr mod 10) :: u8) = of_nat (logr div 10 * 10 + logr mod 10)"
    by (simp only: of_nat_add of_nat_mult of_nat_numeral)
  then have "(of_nat (logr div 10) * 10 + of_nat (logr mod 10) :: u8) = of_nat logr" by (simp only: div_mult_mod_eq)
  then show "bcrypt_logr ?s = Some (Some (of_nat logr))"
    using assms u unfolding bcrypt_logr_def n digit_char(1) [OF d(1)] digit_char(1) [OF d(2)]
    by (simp add: word_less_nat_alt)
  show "ascii (two_digits logr)" using digit_char [OF d(1)] digit_char [OF d(2)] by (simp add: two_digits_def)
qed

lemma bcrypt_writes:
  assumes "62 \<le> length hash" "length hdr = 7" "length cs = 22" "length ct = 32"
  shows "do {
      hash \<leftarrow> mem_write 0 (hdr @ [0]) hash;
      hash \<leftarrow> mem_write 7 (cs @ [0]) hash;
      hash \<leftarrow> mem_write (7 + 22) (ct @ [0]) hash;
      Some (True, hash)
    } = Some (True, hdr @ cs @ ct @ 0 # drop 62 hash)"
  using assms by (simp add: mem_write_def)

lemma isdigit_char_Some: "isdigit_char c = Some True \<longleftrightarrow> 0x30 \<le> c \<and> c \<le> 0x39"
  by (auto simp: isdigit_char_def isdigit_def word_le_nat_alt word_less_nat_alt)

lemma bcrypt_ctext_length: "bcrypt_ctext (take k key) csalt r = Some c \<Longrightarrow> 0 < k \<Longrightarrow> key \<noteq> [] \<Longrightarrow> csalt \<noteq> [] \<Longrightarrow> length c = 24"
  using bcrypt_ctext_total [of "take k key" csalt r] by auto

text \<open>A salt string that passes the checks gives a hash string.\<close>

lemma generate_hash_result:
  assumes "length csalt = 16" "cstr key k" "bcrypt_keylen (salt ! 2) (length k + 1) = Some keylen"
    "62 \<le> hashlen" "62 \<le> length hash" "cstrlen salt = Some n" "29 \<le> n" "salt ! 0 = 0x24" "salt ! 1 = 0x32"
    "bcrypt_logr salt = Some (Some logr)" "base64_decode 16 (drop 7 salt) = Some (True, csalt)"
  shows "\<exists>c. bcrypt_ctext (take keylen key) csalt (push_bit (unat logr) 1) = Some c \<and> length c = 24
    \<and> generate_hash key salt hash hashlen
      = Some (True, bcrypt_header (salt ! 2) (unat logr) @ b64_text csalt @ b64_text c @ 0 # drop 62 hash)"
proof -
  have k: "keylen \<le> length key" "take keylen key \<noteq> []" "cstrlen key = Some (length k)"
    using assms(2,3) cstrlen_cstr [OF assms(2)] cstr_take(2) [OF assms(2)]
    by (auto simp: bcrypt_keylen_def split: if_splits)
  have "csalt \<noteq> []" using assms(1) by auto
  then obtain c where c: "bcrypt_ctext (take keylen key) csalt (push_bit (unat logr) 1) = Some c" "length c = 24"
    using bcrypt_ctext_total [OF k(2)] by blast
  have hdr: "str ''$2'' @ [salt ! 2] @ str ''$'' @ two_digits (unat logr) @ str ''$'' @ [0] = bcrypt_header (salt ! 2) (unat logr) @ [0]"
    by (simp only: bcrypt_header_def append_assoc)
  have "mem_read 0 keylen key = Some (take keylen key)" using k(1) by (simp add: mem_read_def)
  moreover have "do {
      hash \<leftarrow> mem_write 0 (str ''$2'' @ [salt ! 2] @ str ''$'' @ two_digits (unat logr) @ str ''$'' @ [0]) hash;
      hash \<leftarrow> mem_write 7 (base64_encode csalt) hash;
      hash \<leftarrow> mem_write (7 + 22) (base64_encode c) hash;
      Some (True, hash)
    } = Some (True, bcrypt_header (salt ! 2) (unat logr) @ b64_text csalt @ b64_text c @ 0 # drop 62 hash)"
    unfolding hdr base64_encode_text
    by (rule bcrypt_writes [OF assms(5)]) (simp_all add: bcrypt_header_list b64_text_length assms(1) c(2))
  ultimately have "generate_hash key salt hash hashlen
      = Some (True, bcrypt_header (salt ! 2) (unat logr) @ b64_text csalt @ b64_text c @ 0 # drop 62 hash)"
    using assms(4,6-8) k(3) c(1)
    by (simp add: generate_hash_def BCRYPT_SALT_STRLEN_def BCRYPT_HASH_STRLEN_def BCRYPT_SALT_LEN_def
        assms(9) [unfolded One_nat_def] assms(10,11) assms(3) [unfolded Suc_eq_plus1 [symmetric]])
  then show ?thesis using c by blast
qed

lemma generate_hash_header:
  assumes "length csalt = 16" "cstr key k" "bcrypt_keylen minor (length k + 1) = Some keylen"
    "4 \<le> logr" "logr \<le> 31" "62 \<le> hashlen" "62 \<le> length hash"
    "salt = bcrypt_header minor logr @ b64_text csalt @ rest" "cstrlen salt = Some n" "29 \<le> n"
  shows "\<exists>c. bcrypt_ctext (take keylen key) csalt (push_bit logr 1) = Some c \<and> length c = 24
    \<and> generate_hash key salt hash hashlen
      = Some (True, bcrypt_header minor logr @ b64_text csalt @ b64_text c @ 0 # drop 62 hash)"
proof -
  have s: "salt ! 0 = 0x24" "salt ! 1 = 0x32" "salt ! 2 = minor" "drop 7 salt = b64_text csalt @ rest"
    by (simp_all add: assms(8) bcrypt_header_list)
  have l: "bcrypt_logr salt = Some (Some (of_nat logr))" "unat (of_nat logr :: u8) = logr"
    using bcrypt_logr_header [OF assms(4,5)] assms(8) by simp_all
  have d: "base64_decode 16 (drop 7 salt) = Some (True, csalt)"
    using base64_decode_text [of csalt rest] assms(1) s(4) by simp
  show ?thesis
    using generate_hash_result [OF assms(1,2) assms(3) [folded s(3)] assms(6,7,9,10) s(1,2) l(1) d]
    unfolding l(2) s(3) .
qed

text \<open>On an ASCII salt string no check is undefined.\<close>

lemma bcrypt_logr_ascii:
  assumes "ascii s" "7 \<le> length s" "salt = s @ rest"
  shows "\<exists>l. bcrypt_logr salt = Some l \<and> (\<forall>logr. l = Some logr \<longrightarrow> 4 \<le> unat logr \<and> unat logr \<le> 31)"
proof -
  have "salt ! 4 < 0x80" "salt ! 5 < 0x80" using assms by (simp_all add: ascii_def nth_append)
  then show ?thesis
    by (auto simp: bcrypt_logr_def isdigit_char_def Let_def word_less_nat_alt)
qed

lemma generate_hash_ascii:
  assumes "cstr key k" "cstr salt s" "ascii s" "62 \<le> hashlen" "62 \<le> length hash"
  shows "generate_hash key salt hash hashlen = Some (False, hash)
    \<or> (\<exists>minor logr csalt c keylen. length csalt = 16 \<and> length c = 24 \<and> 4 \<le> logr \<and> logr \<le> 31
        \<and> bcrypt_keylen minor (length k + 1) = Some keylen \<and> bcrypt_ctext (take keylen key) csalt (push_bit logr 1) = Some c
        \<and> generate_hash key salt hash hashlen
          = Some (True, bcrypt_header minor logr @ b64_text csalt @ b64_text c @ 0 # drop 62 hash))"
proof -
  obtain rest where salt: "salt = s @ 0 # rest" using assms(2) by (auto simp: cstr_def)
  have n: "cstrlen salt = Some (length s)" "cstrlen key = Some (length k)" by (rule cstrlen_cstr, fact)+
  note defs = generate_hash_def n BCRYPT_SALT_STRLEN_def BCRYPT_HASH_STRLEN_def BCRYPT_SALT_LEN_def
  show ?thesis
  proof (cases "29 \<le> length s \<and> salt ! 0 = 0x24 \<and> salt ! 1 = 0x32 \<and> bcrypt_keylen (salt ! 2) (length k + 1) \<noteq> None")
    case False
    then show ?thesis using assms(4) by (auto simp: defs)
  next
    case True
    then obtain keylen where t: "29 \<le> length s" "salt ! 0 = 0x24" "salt ! 1 = 0x32"
      "bcrypt_keylen (salt ! 2) (length k + 1) = Some keylen" by blast
    obtain l where l: "bcrypt_logr salt = Some l" "\<forall>logr. l = Some logr \<longrightarrow> 4 \<le> unat logr \<and> unat logr \<le> 31"
      using bcrypt_logr_ascii [OF assms(3) _ salt] t(1) by auto
    have "22 < length (drop 7 salt)" using salt t(1) by simp
    then obtain ok csalt where d: "base64_decode 16 (drop 7 salt) = Some (ok, csalt)" "ok \<longrightarrow> length csalt = 16"
      using base64_decode_bounds [of "drop 7 salt" 16] by (auto split: option.splits)
    show ?thesis
    proof (cases "ok \<and> l \<noteq> None")
      case False
      then show ?thesis using assms(4) t l(1) d(1)
        by (cases l) (simp_all add: defs t(3) [unfolded One_nat_def] t(4) [unfolded Suc_eq_plus1 [symmetric]])
    next
      case True
      then obtain logr where "ok" "l = Some logr" by blast
      then have r: "length csalt = 16" "bcrypt_logr salt = Some (Some logr)" "base64_decode 16 (drop 7 salt) = Some (True, csalt)"
        "4 \<le> unat logr" "unat logr \<le> 31" using l d by simp_all
      from generate_hash_result [OF r(1) assms(1) t(4) assms(4,5) n(1) t(1-3) r(2,3)] r t(4) show ?thesis by blast
    qed
  qed
qed

subsection \<open>Comparing\<close>

lemma sint_ascii: "c < 0x80 \<Longrightarrow> sint (c :: u8) = uint c"
proof -
  assume "c < 0x80"
  then have "unat c < 2 ^ (LENGTH(8) - 1)" by (simp add: word_less_nat_alt)
  from sint_of_nat_small [OF this] show ?thesis unfolding uint_nat by (simp only: of_nat_unat ucast_id)
qed

lemma xor_eq_0_int: "a XOR b = 0 \<longleftrightarrow> a = (b :: int)"
  by (metis xor.assoc xor.left_neutral xor.right_neutral xor_self_eq)

lemma hash_cmp_ascii:
  assumes "length a = length b" "ascii a" "ascii b"
  shows "0 \<le> sum_list (map2 (\<lambda>x y. sint x XOR sint y) a b)
    \<and> (sum_list (map2 (\<lambda>x y. sint x XOR sint y) a b) = 0 \<longleftrightarrow> a = b)"
  using assms
proof (induction a b rule: list_induct2)
  case (Cons x xs y ys)
  have s: "sint x = uint x" "sint y = uint y" using Cons.prems by (simp_all add: sint_ascii)
  let ?s = "sum_list (map2 (\<lambda>x y. sint x XOR sint y) xs ys)"
  have "0 \<le> uint x XOR uint y" by simp
  moreover have "0 \<le> ?s \<and> (?s = 0 \<longleftrightarrow> xs = ys)" using Cons by simp
  ultimately have n: "0 \<le> (uint x XOR uint y) + ?s \<and> ((uint x XOR uint y) + ?s = 0 \<longleftrightarrow> uint x XOR uint y = 0 \<and> xs = ys)"
    by (metis add_nonneg_eq_0_iff add_nonneg_nonneg)
  have "uint x XOR uint y = 0 \<longleftrightarrow> x = y" by (simp only: xor_eq_0_int word_uint_eq_iff)
  then show ?case using n by (simp add: s)
qed simp

lemma hash_cmp_texts:
  assumes "ascii s" "ascii t" "length s = length t"
  shows "hash_cmp (s @ p) (t @ q) (length s) = Some (s = t)"
  using hash_cmp_ascii [OF assms(3,1,2)] assms(3) by (simp add: hash_cmp_def mem_read_def)

text \<open>With other bytes the differences may cancel.\<close>

lemma hash_cmp_cancels: "hash_cmp [0xC0, 0x3E] (str ''AA'') 2 = Some True"
proof -
  have "str ''AA'' = [0x41, 0x41]" by (simp add: str_def)
  moreover have "sint (0xC0 :: u8) XOR sint (0x41 :: u8) = - 127" "sint (0x3E :: u8) XOR sint (0x41 :: u8) = 127"
    by code_simp+
  ultimately show ?thesis by (simp add: hash_cmp_def mem_read_def)
qed

text \<open>The check of a password against a hash string, by the strings.\<close>

definition hash_string :: "u8 \<Rightarrow> nat \<Rightarrow> bytes \<Rightarrow> bytes \<Rightarrow> bytes" where
  "hash_string minor logr csalt c = bcrypt_header minor logr @ b64_text csalt @ b64_text c"

lemma hash_string_length: "length csalt = 16 \<Longrightarrow> length c = 24 \<Longrightarrow> length (hash_string minor logr csalt c) = 61"
  by (simp add: hash_string_def bcrypt_header_list b64_text_length)

lemma hash_string_ascii:
  assumes "4 \<le> logr" "logr \<le> 31" "bcrypt_keylen minor n = Some k"
  shows "ascii (hash_string minor logr csalt c)"
proof -
  have "minor = 0x62 \<or> minor = 0x61" using assms(3) by (auto simp: bcrypt_keylen_def split: if_splits)
  moreover have "str ''$2'' = [0x24, 0x32]" "str ''$'' = [0x24]" by (simp_all add: str_def)
  ultimately show ?thesis
    using bcrypt_logr_header(2) [OF assms(1,2)] by (auto simp: hash_string_def bcrypt_header_def b64_text_ascii)
qed

lemma checkpass_result:
  assumes "cstr hash t" "ascii t" "length test = 62" "generate_hash pass hash test 62 = Some (True, u @ [0])" "ascii u"
  shows "bcrypt_checkpass test pass hash = Some (t = u)"
proof -
  obtain rest where hash: "hash = t @ 0 # rest" using assms(1) by (auto simp: cstr_def)
  have n: "cstrlen hash = Some (length t)" "cstrlen (u @ [0]) = Some (length u)"
    using cstrlen_cstr [OF assms(1)] cstrlen_append [OF ascii_not_0 [OF assms(5)], of "[]"] by simp_all
  show ?thesis
  proof (cases "length t = length u")
    case True
    have "hash_cmp hash (u @ [0]) (length t) = Some (t = u)"
      unfolding hash by (rule hash_cmp_texts [OF assms(2,5) True])
    then show ?thesis using True by (simp add: bcrypt_checkpass_def BCRYPT_HASH_STRLEN_def assms(4) n)
  next
    case False
    then show ?thesis by (auto simp: bcrypt_checkpass_def BCRYPT_HASH_STRLEN_def assms(4) n)
  qed
qed

lemma generate_salt_text:
  assumes "length csalt = 16" "length junk = 30"
  shows "generate_salt csalt logr junk 30 = Some (True, bcrypt_header 0x62 (nat (max 4 (min 31 logr))) @ b64_text csalt @ [0])"
proof -
  let ?l = "nat (max 4 (min 31 logr))"
  have l: "nat (if logr < 4 then 4 else if logr > 31 then 31 else logr) = ?l" by simp
  have "str ''$2b$'' = str ''$2'' @ [0x62] @ str ''$''" by (simp add: str_def)
  then have h: "str ''$2b$'' @ two_digits ?l @ str ''$'' = bcrypt_header 0x62 ?l" by (simp only: bcrypt_header_def append_assoc)
  have len: "length (bcrypt_header 0x62 ?l) = 7" by (simp add: bcrypt_header_list)
  have w: "mem_write 0 (bcrypt_header 0x62 ?l @ [0]) junk = Some (bcrypt_header 0x62 ?l @ 0 # drop 8 junk)"
    using assms(2) len by (simp add: mem_write_def)
  have "mem_write 7 (base64_encode csalt) (bcrypt_header 0x62 ?l @ 0 # drop 8 junk)
      = Some (bcrypt_header 0x62 ?l @ b64_text csalt @ [0])"
    using assms len by (simp add: mem_write_def base64_encode_text b64_text_length)
  then show ?thesis
    using w len unfolding generate_salt_def Let_def l h by (simp add: BCRYPT_SALT_STRLEN_def)
qed

lemma hash_string_inj:
  "length c = 24 \<Longrightarrow> length d = 24 \<Longrightarrow> hash_string minor logr csalt c = hash_string minor logr csalt d \<longleftrightarrow> c = d"
  by (simp add: hash_string_def b64_text_inj)

lemma take_cstr_72: "cstr mem s \<Longrightarrow> bcrypt_keylen 0x62 (length s + 1) = Some (min 72 (length s + 1))
  \<and> take (min 72 (length s + 1)) mem = take 72 (s @ [0])"
  by (auto simp: cstr_def bcrypt_keylen_def take_Cons' min_def)

text \<open>A check against a hash string of this form compares the cipher texts.\<close>

lemma checkpass_hash_string:
  assumes "length csalt = 16" "length c = 24" "4 \<le> logr" "logr \<le> 31" "length test = 62" "cstr pass p"
    "bcrypt_keylen minor (length p + 1) = Some keylen" "hash = hash_string minor logr csalt c @ 0 # rest"
  shows "bcrypt_checkpass test pass hash = Some (bcrypt_ctext (take keylen pass) csalt (push_bit logr 1) = Some c)"
proof -
  let ?t = "hash_string minor logr csalt c"
  have t: "ascii ?t" by (rule hash_string_ascii [OF assms(3,4,7)])
  then have cstr: "cstr hash ?t" unfolding assms(8) by (intro cstr_append0 ascii_not_0)
  have "hash = bcrypt_header minor logr @ b64_text csalt @ (b64_text c @ 0 # rest)"
    by (simp add: assms(8) hash_string_def)
  from generate_hash_header [OF assms(1,6,7,3,4) _ _ this cstrlen_cstr [OF cstr], of 62 test]
  obtain d where d: "bcrypt_ctext (take keylen pass) csalt (push_bit logr 1) = Some d" "length d = 24"
    "generate_hash pass hash test 62 = Some (True, hash_string minor logr csalt d @ [0])"
    using assms(5) hash_string_length [OF assms(1,2)] by (auto simp: hash_string_def)
  have "bcrypt_checkpass test pass hash = Some (?t = hash_string minor logr csalt d)"
    by (rule checkpass_result [OF cstr t assms(5) d(3) hash_string_ascii [OF assms(3,4,7)]])
  then show ?thesis using hash_string_inj [OF assms(2) d(2)] d(1) by auto
qed

subsection \<open>Properties\<close>



text \<open>C22: Against any ASCII string \<^verbatim>\<open>bcrypt_checkpass\<close> returns without undefined behaviour, and \<^verbatim>\<open>true\<close> exactly if the
  string is a hash of the password: a supported version, 4 to 31 rounds, and the base 64 texts of a salt and of the
  cipher text.\<close>

theorem bcrypt_checkpass_functional:
  assumes "cstr pass p" "cstr hash t" "ascii t" "length test = 62"
  shows "\<exists>r. bcrypt_checkpass test pass hash = Some r \<and> (r \<longleftrightarrow> (\<exists>minor logr csalt c keylen.
      length csalt = 16 \<and> 4 \<le> logr \<and> logr \<le> 31 \<and> bcrypt_keylen minor (length p + 1) = Some keylen
      \<and> bcrypt_ctext (take keylen pass) csalt (push_bit logr 1) = Some c
      \<and> t = bcrypt_header minor logr @ b64_text csalt @ b64_text c))"
proof -
  let ?P = "\<lambda>minor logr csalt c keylen. length csalt = 16 \<and> 4 \<le> logr \<and> logr \<le> 31
      \<and> bcrypt_keylen minor (length p + 1) = Some keylen \<and> bcrypt_ctext (take keylen pass) csalt (push_bit logr 1) = Some c"
  have true: "bcrypt_checkpass test pass hash = Some True" if P: "?P minor logr csalt c keylen" and eq: "t = hash_string minor logr csalt c"
    for minor logr csalt c keylen
  proof -
    have P': "length csalt = 16" "4 \<le> logr" "logr \<le> 31" "bcrypt_keylen minor (length p + 1) = Some keylen"
      "bcrypt_ctext (take keylen pass) csalt (push_bit logr 1) = Some c" using P by blast+
    have "take keylen pass \<noteq> []" "csalt \<noteq> []"
      using P'(1,4) assms(1) by (auto simp: cstr_def bcrypt_keylen_def split: if_splits)
    from bcrypt_ctext_total [OF this, of "push_bit logr 1"] have len: "length c = 24" unfolding P'(5) by blast
    obtain rest where "hash = hash_string minor logr csalt c @ 0 # rest" using assms(2) eq by (auto simp: cstr_def)
    from checkpass_hash_string [OF P'(1) len P'(2,3) assms(4,1) P'(4) this] P'(5) show ?thesis by simp
  qed
  from generate_hash_ascii [OF assms(1-3), of 62 test] assms(4)
  consider "generate_hash pass hash test 62 = Some (False, test)"
    | minor logr csalt c keylen where "?P minor logr csalt c keylen" "length c = 24"
      "generate_hash pass hash test 62 = Some (True, hash_string minor logr csalt c @ [0])"
    unfolding hash_string_def by fastforce
  then show ?thesis
  proof cases
    case 1
    then have "bcrypt_checkpass test pass hash = Some False" by (simp add: bcrypt_checkpass_def BCRYPT_HASH_STRLEN_def)
    then show ?thesis using true unfolding hash_string_def by fastforce
  next
    case (2 minor logr csalt c keylen)
    then have "bcrypt_checkpass test pass hash = Some (t = hash_string minor logr csalt c)"
      using checkpass_result [OF assms(2-4) 2(3)] hash_string_ascii by blast
    moreover have "t = hash_string minor logr csalt c"
      if "?P minor' logr' csalt' c' keylen'" "t = hash_string minor' logr' csalt' c'" for minor' logr' csalt' c' keylen'
      using true [OF that] calculation by simp
    ultimately show ?thesis using 2(1) unfolding hash_string_def
      by (intro exI [of _ "t = bcrypt_header minor logr @ b64_text csalt @ b64_text c"] conjI iffI) blast+
  qed
qed

theorem bcrypt_checkpass_functional_witness:
  "bcrypt_checkpass (replicate 62 0) (str ''secret'' @ [0]) (str ''plain'' @ [0]) = Some False"
proof -
  have "cstr (str ''secret'' @ [0]) (str ''secret'')" "cstr (str ''plain'' @ [0]) (str ''plain'')" "ascii (str ''plain'')"
    by (rule cstr_append0, simp add: str_def, rule cstr_append0, simp add: str_def, simp add: str_def)
  from bcrypt_checkpass_functional [OF this, of "replicate 62 0"]
  show ?thesis by (auto simp: bcrypt_header_list str_def)
qed

end
