(* ===== verification/Rsa.thy ===== *)
theory Rsa
  imports Prelude
begin

text \<open>
  RSA with the Chinese remainder theorem, \<^verbatim>\<open>src/src/crypto/rsa.c\<close>, and the key of the server,
  \<^verbatim>\<open>src/src/tibia_rsa.c\<close>.  The big number library is not part of the repository: its functions
  are the parameter \<open>gmp\<close>, and what its manual says of them are the laws of the locale \<open>gmp_laws\<close>.
\<close>

subsection \<open>The big number library\<close>

record gmp =
  mpz_set_str :: "string \<Rightarrow> int"
  mpz_add :: "int \<Rightarrow> int \<Rightarrow> int"
  mpz_sub :: "int \<Rightarrow> int \<Rightarrow> int"
  mpz_mul :: "int \<Rightarrow> int \<Rightarrow> int"
  mpz_mod :: "int \<Rightarrow> int \<Rightarrow> int"
  mpz_lcm :: "int \<Rightarrow> int \<Rightarrow> int"
  mpz_gcd :: "int \<Rightarrow> int \<Rightarrow> int"
  mpz_invert :: "int \<Rightarrow> int \<Rightarrow> int"
  mpz_powm :: "int \<Rightarrow> int \<Rightarrow> int \<Rightarrow> int"
  mpz_cmp :: "int \<Rightarrow> int \<Rightarrow> int"
  mpz_sizeinbase2 :: "int \<Rightarrow> nat"
  mpz_import :: "bytes \<Rightarrow> int"
  mpz_export :: "int \<Rightarrow> bytes"

subsection \<open>Keys, encoding and decoding\<close>

record rsa_ctx =
  r_p :: int
  r_q :: int
  r_n :: int
  r_e :: int
  r_dp :: int
  r_dq :: int
  r_qi :: int
  r_x0 :: int
  r_x1 :: int
  r_x2 :: int
  r_x3 :: int
  r_encoding_limit :: nat

definition rsa_init :: rsa_ctx where
  "rsa_init = \<lparr>r_p = 0, r_q = 0, r_n = 0, r_e = 0, r_dp = 0, r_dq = 0, r_qi = 0,
     r_x0 = 0, r_x1 = 0, r_x2 = 0, r_x3 = 0, r_encoding_limit = 0\<rparr>"

definition rsa_init_clone :: "rsa_ctx \<Rightarrow> rsa_ctx" where
  "rsa_init_clone from = from\<lparr>r_x0 := 0, r_x1 := 0, r_x2 := 0, r_x3 := 0\<rparr>"

text \<open>The numbers of a context that was cleaned up are not used again; they are 0 here.\<close>

definition rsa_cleanup :: "rsa_ctx \<Rightarrow> rsa_ctx" where
  "rsa_cleanup r = r\<lparr>r_p := 0, r_q := 0, r_n := 0, r_e := 0, r_dp := 0, r_dq := 0, r_qi := 0,
     r_x0 := 0, r_x1 := 0, r_x2 := 0, r_x3 := 0, r_encoding_limit := 0\<rparr>"

definition mpz_sizeinbytes :: "gmp \<Rightarrow> int \<Rightarrow> nat" where
  "mpz_sizeinbytes g x = (mpz_sizeinbase2 g x + 7) div 8"

definition rsa_setkey :: "gmp \<Rightarrow> string \<Rightarrow> string \<Rightarrow> string \<Rightarrow> rsa_ctx \<Rightarrow> bool \<times> rsa_ctx" where
  "rsa_setkey g p q e r =
     (let r = r\<lparr>r_p := mpz_set_str g p, r_q := mpz_set_str g q, r_e := mpz_set_str g e\<rparr>;
          r = r\<lparr>r_n := mpz_mul g (r_p r) (r_q r)\<rparr>;
          r = r\<lparr>r_x0 := mpz_sub g (r_p r) 1, r_x1 := mpz_sub g (r_q r) 1\<rparr>;
          r = r\<lparr>r_x2 := mpz_lcm g (r_x0 r) (r_x1 r)\<rparr>
      in if mpz_cmp g (r_x2 r) (r_e r) \<le> 0 then (False, r)
         else
           let r = r\<lparr>r_x3 := mpz_gcd g (r_x2 r) (r_e r)\<rparr>
           in if mpz_cmp g (r_x3 r) 1 \<noteq> 0 then (False, r)
              else
                let r = r\<lparr>r_x3 := mpz_invert g (r_e r) (r_x2 r)\<rparr>;
                    r = r\<lparr>r_dp := mpz_mod g (r_x3 r) (r_x0 r), r_dq := mpz_mod g (r_x3 r) (r_x1 r),
                          r_qi := mpz_invert g (r_q r) (r_p r)\<rparr>
                in (True, r\<lparr>r_encoding_limit := mpz_sizeinbytes g (r_n r)\<rparr>))"

text \<open>The message is replaced in place; the result has the buffer and \<^verbatim>\<open>*outlen\<close>.\<close>

definition rsa_encode :: "gmp \<Rightarrow> bytes \<Rightarrow> nat \<Rightarrow> rsa_ctx \<Rightarrow> (bytes \<times> nat \<times> rsa_ctx) option" where
  "rsa_encode g data len r = do {
     msg \<leftarrow> mem_read 0 len data;
     let r = r\<lparr>r_x0 := mpz_import g msg\<rparr>;
     let r = r\<lparr>r_x1 := mpz_powm g (r_x0 r) (r_e r) (r_n r)\<rparr>;
     data \<leftarrow> mem_write 0 (mpz_export g (r_x1 r)) data;
     Some (data, length (mpz_export g (r_x1 r)), r)
   }"

definition rsa_decode :: "gmp \<Rightarrow> bytes \<Rightarrow> nat \<Rightarrow> rsa_ctx \<Rightarrow> (bytes \<times> nat \<times> rsa_ctx) option" where
  "rsa_decode g data len r = do {
     msg \<leftarrow> mem_read 0 len data;
     let r = r\<lparr>r_x0 := mpz_import g msg\<rparr>;
     let r = r\<lparr>r_x1 := mpz_powm g (r_x0 r) (r_dp r) (r_p r)\<rparr>;
     let r = r\<lparr>r_x2 := mpz_powm g (r_x0 r) (r_dq r) (r_q r)\<rparr>;
     let r = r\<lparr>r_x3 := mpz_sub g (r_x1 r) (r_x2 r)\<rparr>;
     let r = (if mpz_cmp g (r_x1 r) (r_x2 r) < 0 then r\<lparr>r_x3 := mpz_add g (r_x3 r) (r_p r)\<rparr> else r);
     let r = r\<lparr>r_x3 := mpz_mul g (r_x3 r) (r_qi r)\<rparr>;
     let r = r\<lparr>r_x3 := mpz_mod g (r_x3 r) (r_p r)\<rparr>;
     let r = r\<lparr>r_x2 := mpz_add g (r_x2 r) (mpz_mul g (r_x3 r) (r_q r))\<rparr>;
     data \<leftarrow> mem_write 0 (mpz_export g (r_x2 r)) data;
     Some (data, length (mpz_export g (r_x2 r)), r)
   }"

subsection \<open>The key of the server\<close>

definition tibia_p :: string where
  "tibia_p = ''142996239624163995200701773828988955507954033454661532174705160829'' @
     ''347375827760388829672133862046006741453928458538592179906264509724'' @
     ''52084065728686565928113''"

definition tibia_q :: string where
  "tibia_q = ''763097919597040472189120184779200212553540129277912393720744757459'' @
     ''669278851364717923533552930725135057072840737370556470887176203301'' @
     ''7096809910315212884101''"

definition tibia_e :: string where
  "tibia_e = ''65537''"

definition tibia_rsa_init :: "gmp \<Rightarrow> bool \<times> rsa_ctx" where
  "tibia_rsa_init g =
     (let (ok, ctx) = rsa_setkey g tibia_p tibia_q tibia_e rsa_init
      in if \<not> ok then (False, rsa_cleanup ctx) else (True, ctx))"

definition tibia_rsa_shutdown :: "rsa_ctx \<Rightarrow> rsa_ctx" where
  "tibia_rsa_shutdown ctx = rsa_cleanup ctx"

definition tibia_rsa_encode :: "gmp \<Rightarrow> rsa_ctx \<Rightarrow> bytes \<Rightarrow> nat \<Rightarrow> (bool \<times> bytes \<times> nat option \<times> rsa_ctx) option" where
  "tibia_rsa_encode g ctx data len =
     (if r_encoding_limit ctx < len then Some (False, data, None, ctx)
      else map_option (\<lambda>(data, outlen, ctx). (True, data, Some outlen, ctx)) (rsa_encode g data len ctx))"

definition tibia_rsa_decode :: "gmp \<Rightarrow> rsa_ctx \<Rightarrow> bytes \<Rightarrow> nat \<Rightarrow> (bool \<times> bytes \<times> nat option \<times> rsa_ctx) option" where
  "tibia_rsa_decode g ctx data len =
     (if r_encoding_limit ctx < len then Some (False, data, None, ctx)
      else map_option (\<lambda>(data, outlen, ctx). (True, data, Some outlen, ctx)) (rsa_decode g data len ctx))"

subsection \<open>Numbers as bytes\<close>

definition be_value :: "bytes \<Rightarrow> int" where
  "be_value bs = foldl (\<lambda>v b. 256 * v + uint b) 0 bs"

abbreviation no_leading_zeros :: "bytes \<Rightarrow> bytes" where
  "no_leading_zeros \<equiv> dropWhile (\<lambda>b. b = 0)"

lemma be_value_snoc: "be_value (bs @ [b]) = 256 * be_value bs + uint b"
  by (simp add: be_value_def)

lemma uint_u8: "uint (b :: u8) < 256"
  using uint_bounded [of b] by simp

lemma be_value_nonneg [simp]: "0 \<le> be_value bs"
  by (induction bs rule: rev_induct) (simp_all add: be_value_snoc be_value_def)

lemma be_value_Cons: "be_value (b # bs) = uint b * 256 ^ length bs + be_value bs"
proof (induction bs rule: rev_induct)
  case (snoc c bs)
  have "be_value (b # bs @ [c]) = 256 * be_value (b # bs) + uint c" using be_value_snoc [of "b # bs" c] by simp
  then show ?case using snoc by (simp add: be_value_snoc algebra_simps)
qed (simp add: be_value_def)

lemma be_value_less: "be_value bs < 256 ^ length bs"
proof (induction bs)
  case (Cons b bs)
  have "uint b * 256 ^ length bs \<le> 255 * (256 :: int) ^ length bs"
    using uint_u8 [of b] by (intro mult_right_mono) auto
  then have "uint b * 256 ^ length bs + be_value bs < 256 * 256 ^ length bs" using Cons by linarith
  then show ?case by (simp add: be_value_Cons)
qed (simp add: be_value_def)

lemma be_value_zeros: "be_value (no_leading_zeros bs) = be_value bs"
  by (induction bs) (simp_all add: be_value_Cons)

lemma be_value_ge: "b \<noteq> 0 \<Longrightarrow> 256 ^ length bs \<le> be_value (b # bs)"
proof -
  assume "b \<noteq> 0"
  then have "1 \<le> uint b" using uint_0_iff [of b] uint_ge_0 [of b] by linarith
  then have "1 * (256 :: int) ^ length bs \<le> uint b * 256 ^ length bs" by (intro mult_right_mono) simp_all
  then show ?thesis unfolding be_value_Cons using be_value_nonneg [of bs] by linarith
qed

lemma be_value_inj: "length bs = length cs \<Longrightarrow> be_value bs = be_value cs \<Longrightarrow> bs = cs"
proof (induction bs arbitrary: cs rule: rev_induct)
  case (snoc b bs)
  then obtain ds d where cs: "cs = ds @ [d]" by (cases cs rule: rev_cases) auto
  have eq: "256 * be_value bs + uint b = 256 * be_value ds + uint d" using snoc.prems(2) cs by (simp add: be_value_snoc)
  then have "(256 * be_value bs + uint b) mod 256 = (256 * be_value ds + uint d) mod 256" by simp
  then have "uint b = uint d" using uint_u8 [of b] uint_u8 [of d] by simp
  then show ?case using eq snoc cs by (simp add: word_uint_eq_iff)
qed simp

lemma be_value_unique:
  assumes "be_value bs = be_value cs" "bs = [] \<or> hd bs \<noteq> 0" "cs = [] \<or> hd cs \<noteq> 0"
  shows "bs = cs"
proof -
  have le: "length us \<le> length vs" if "be_value us = be_value vs" "us = [] \<or> hd us \<noteq> 0" for us vs
  proof (cases us)
    case (Cons u us')
    then have "u \<noteq> 0" using that(2) by simp
    then have "(256 :: int) ^ length us' \<le> be_value vs" using be_value_ge [of u us'] that(1) Cons by simp
    then have "(256 :: int) ^ length us' < 256 ^ length vs" using be_value_less [of vs] by linarith
    then show ?thesis using Cons by (simp add: power_less_imp_less_exp Suc_leI)
  qed simp
  have "length bs = length cs" using le [of bs cs] le [of cs bs] assms by simp
  then show ?thesis using be_value_inj assms(1) by blast
qed

lemma hd_no_leading_zeros: "no_leading_zeros bs = [] \<or> hd (no_leading_zeros bs) \<noteq> 0"
  by (induction bs) simp_all

end
