(* ===== verification/Rsa_Correct.thy ===== *)
theory Rsa_Correct
  imports Rsa
begin

text \<open>
  Decoding inverts encoding, under the laws of the big number library and for two different odd primes.
\<close>

subsection \<open>Fermat's theorem\<close>

definition prime_nat :: "nat \<Rightarrow> bool" where
  "prime_nat p \<longleftrightarrow> 1 < p \<and> (\<forall>d \<in> {2..<p}. \<not> d dvd p)"

lemma prime_coprime:
  assumes "prime_nat p" "\<not> p dvd a"
  shows "coprime p a"
proof -
  have p: "1 < p" using assms(1) by (simp add: prime_nat_def)
  define d where "d = gcd p a"
  have "d \<le> p" "0 < d" using p by (auto simp: d_def intro: dvd_imp_le)
  moreover have "d \<noteq> p" using assms(2) by (metis d_def gcd_dvd2)
  moreover have "d \<notin> {2..<p}" using assms(1) gcd_dvd1 [of p a] unfolding prime_nat_def d_def by blast
  ultimately have "gcd p a = 1" unfolding d_def [symmetric] by auto
  then show ?thesis by (simp add: coprime_iff_gcd_eq_1)
qed

lemma prime_dvd_mult: "prime_nat p \<Longrightarrow> p dvd a * b \<Longrightarrow> p dvd a \<or> p dvd b"
  using prime_coprime [of p a] coprime_dvd_mult_right_iff [of p a b] by blast

lemma prime_dvd_choose:
  assumes "prime_nat p" "0 < k" "k < p"
  shows "p dvd (p choose k)"
proof -
  have "p dvd k * (p choose k)" using times_binomial_minus1_eq [OF assms(2), of p] by simp
  moreover have "\<not> p dvd k" using assms(2,3) by (auto dest: dvd_imp_le)
  ultimately show ?thesis using prime_dvd_mult [OF assms(1)] by blast
qed

lemma fermat:
  assumes "prime_nat p"
  shows "a ^ p mod p = a mod p"
proof (induction a)
  case 0
  then show ?case using assms by (auto simp: prime_nat_def power_0_left)
next
  case (Suc a)
  have p: "1 < p" using assms by (simp add: prime_nat_def)
  let ?f = "\<lambda>k. (p choose k) * a ^ k"
  have "Suc a ^ p = (\<Sum>k\<le>p. ?f k)" using binomial [of a 1 p] by simp
  also have "{..p} = {0, p} \<union> {1..<p}" using p by auto
  also have "(\<Sum>k \<in> {0, p} \<union> {1..<p}. ?f k) = (\<Sum>k \<in> {0, p}. ?f k) + (\<Sum>k \<in> {1..<p}. ?f k)"
    by (rule sum.union_disjoint) auto
  also have "(\<Sum>k \<in> {0, p}. ?f k) = 1 + a ^ p" using p by simp
  finally have eq: "Suc a ^ p = 1 + a ^ p + (\<Sum>k \<in> {1..<p}. ?f k)" .
  have "p dvd (\<Sum>k \<in> {1..<p}. ?f k)" using prime_dvd_choose [OF assms] by (intro dvd_sum dvd_mult2) auto
  then have "Suc a ^ p mod p = (1 + a ^ p) mod p" unfolding eq by (auto elim!: dvdE)
  also have "\<dots> = (1 + a ^ p mod p) mod p" by presburger
  also have "\<dots> = Suc a mod p" unfolding Suc.IH by (simp add: mod_simps)
  finally show ?case .
qed

lemma fermat_minus_1:
  assumes "prime_nat p" "\<not> p dvd a"
  shows "a ^ (p - 1) mod p = 1"
proof -
  have p: "1 < p" using assms(1) by (simp add: prime_nat_def)
  have a: "0 < a" using assms(2) by (cases a) auto
  have "a ^ p = a * a ^ (p - 1)" using p by (metis One_nat_def Suc_pred not_less_eq power_Suc zero_less_one less_trans)
  then have "a * a ^ (p - 1) mod p = a * 1 mod p" using fermat [OF assms(1), of a] by simp
  moreover have "1 \<le> a ^ (p - 1)" using a by simp
  ultimately have "p dvd a * a ^ (p - 1) - a * 1" using mod_eq_dvd_iff_nat [of "a * 1" "a * a ^ (p - 1)" p] by simp
  then have "p dvd a * (a ^ (p - 1) - 1)" by (simp add: diff_mult_distrib2)
  then have "p dvd a ^ (p - 1) - 1" using prime_dvd_mult [OF assms(1)] assms(2) by blast
  then have "a ^ (p - 1) mod p = 1 mod p" using \<open>1 \<le> a ^ (p - 1)\<close> mod_eq_dvd_iff_nat by blast
  then show ?thesis using p by simp
qed

lemma power_cycle:
  assumes "prime_nat p" "k mod (p - 1) = 1 mod (p - 1)" "0 < k"
  shows "m ^ k mod p = m mod p"
proof -
  have "(p - 1) dvd k - 1" using assms(2,3) mod_eq_dvd_iff_nat [of 1 k "p - 1"] by simp
  then obtain j where "k - 1 = (p - 1) * j" by blast
  then have k: "m ^ k = m * (m ^ (p - 1)) ^ j" using assms(3)
    by (metis Suc_diff_1 power_Suc power_mult)
  show ?thesis
  proof (cases "p dvd m")
    case True
    then have "p dvd m ^ k" unfolding k by simp
    then show ?thesis using True by simp
  next
    case False
    have "(m ^ (p - 1)) ^ j mod p = ((m ^ (p - 1)) mod p) ^ j mod p" by (simp add: power_mod)
    then have "(m ^ (p - 1)) ^ j mod p = 1 mod p" using fermat_minus_1 [OF assms(1) False] by simp
    then have "m * (m ^ (p - 1)) ^ j mod p = m * 1 mod p" by (metis mod_mult_right_eq)
    then show ?thesis unfolding k by simp
  qed
qed

subsection \<open>The Chinese remainder theorem, as the code uses it\<close>

lemma crt_decode:
  fixes p q qi m :: int
  assumes "1 < p" "1 < q" "coprime p q" "(q * qi) mod p = 1" "0 \<le> m" "m < p * q"
  defines "x1 \<equiv> m mod p" and "x2 \<equiv> m mod q"
  shows "x2 + (((if x1 < x2 then x1 - x2 + p else x1 - x2) * qi) mod p) * q = m"
proof -
  let ?d = "if x1 < x2 then x1 - x2 + p else x1 - x2"
  define x3 where "x3 = (?d * qi) mod p"
  define y where "y = x2 + x3 * q"
  have x3: "0 \<le> x3" "x3 < p" and x2: "0 \<le> x2" "x2 < q" using assms(1,2) by (simp_all add: x3_def x2_def)
  have "x3 * q \<le> (p - 1) * q" using x3 assms(2) by (intro mult_right_mono) simp_all
  then have y: "0 \<le> y" "y < p * q" using x2 x3 assms(2) by (simp_all add: y_def algebra_simps)
  have "y mod q = m mod q" by (simp add: y_def x2_def)
  then have q: "q dvd y - m" using mod_eq_dvd_iff [of y q m] by simp
  have "x3 * q mod p = ?d * qi * q mod p" by (simp add: x3_def mod_mult_left_eq)
  also have "?d * qi * q = ?d * (q * qi)" by (simp add: algebra_simps)
  also have "?d * (q * qi) mod p = ?d * 1 mod p" using assms(4) by (metis mod_mult_right_eq)
  also have "\<dots> = (x1 - x2) mod p" by simp
  finally have "(x2 + x3 * q) mod p = (x2 + (x1 - x2)) mod p" by (metis mod_add_right_eq)
  then have "y mod p = m mod p" by (simp add: y_def x1_def)
  then have "p dvd y - m" using mod_eq_dvd_iff [of y p m] by simp
  with q have "p * q dvd y - m" using divides_mult assms(3) by blast
  then have "y mod (p * q) = m mod (p * q)" by (simp add: mod_eq_dvd_iff)
  then show ?thesis using y assms(5,6) by (simp add: y_def x3_def)
qed

subsection \<open>Keys\<close>

text \<open>What the manual of the library says of its functions.\<close>

locale gmp_laws =
  fixes g :: gmp
  assumes add: "mpz_add g a b = a + b"
    and sub: "mpz_sub g a b = a - b"
    and mul: "mpz_mul g a b = a * b"
    and mod_law: "0 < m \<Longrightarrow> mpz_mod g a m = a mod m"
    and lcm_law: "mpz_lcm g a b = lcm a b"
    and gcd_law: "mpz_gcd g a b = gcd a b"
    and invert: "coprime a m \<Longrightarrow> 1 < m \<Longrightarrow> 0 \<le> mpz_invert g a m \<and> a * mpz_invert g a m mod m = 1"
    and powm: "0 \<le> k \<Longrightarrow> 0 < m \<Longrightarrow> mpz_powm g b k m = b ^ nat k mod m"
    and cmp_less: "mpz_cmp g a b < 0 \<longleftrightarrow> a < b"
    and cmp_eq: "mpz_cmp g a b = 0 \<longleftrightarrow> a = b"
    and size: "0 < a \<Longrightarrow> a < 2 ^ mpz_sizeinbase2 g a"
    and size_least: "0 < a \<Longrightarrow> 2 ^ (mpz_sizeinbase2 g a - 1) \<le> a"
    and import_law: "mpz_import g bs = be_value bs"
    and export: "0 \<le> a \<Longrightarrow> be_value (mpz_export g a) = a"
    and export_hd: "0 \<le> a \<Longrightarrow> mpz_export g a = [] \<or> hd (mpz_export g a) \<noteq> 0"
begin

text \<open>A key made of two different odd primes and an exponent.\<close>

definition key_of :: "rsa_ctx \<Rightarrow> nat \<Rightarrow> nat \<Rightarrow> nat \<Rightarrow> bool" where
  "key_of r p q k \<longleftrightarrow> prime_nat p \<and> prime_nat q \<and> p \<noteq> q \<and> 2 < p \<and> 2 < q \<and> 0 < k
     \<and> r_p r = int p \<and> r_q r = int q \<and> r_n r = int p * int q \<and> r_e r = int k
     \<and> 0 < r_dp r \<and> 0 < r_dq r
     \<and> k * nat (r_dp r) mod (p - 1) = 1 mod (p - 1) \<and> k * nat (r_dq r) mod (q - 1) = 1 mod (q - 1)
     \<and> (int q * r_qi r) mod int p = 1 \<and> r_encoding_limit r = mpz_sizeinbytes g (int p * int q)"

lemma export_value: "mpz_export g (be_value bs) = no_leading_zeros bs"
  by (rule be_value_unique [OF _ _ hd_no_leading_zeros]) (simp_all add: export export_hd be_value_zeros)

lemma export_length: "0 \<le> a \<Longrightarrow> a < 256 ^ n \<Longrightarrow> length (mpz_export g a) \<le> n"
proof (rule ccontr)
  assume a: "0 \<le> a" "a < 256 ^ n" and "\<not> length (mpz_export g a) \<le> n"
  then obtain b bs where bs: "mpz_export g a = b # bs" "n \<le> length bs" "b \<noteq> 0"
    using export_hd [OF a(1)] by (cases "mpz_export g a") auto
  have "(256 :: int) ^ n \<le> 256 ^ length bs" using bs(2) by (intro power_increasing) simp_all
  also have "\<dots> \<le> a" using be_value_ge [OF bs(3), of bs] export [OF a(1)] bs(1) by simp
  finally show False using a(2) by simp
qed

lemma size_bytes: "0 < a \<Longrightarrow> a < 256 ^ mpz_sizeinbytes g a"
proof -
  assume a: "0 < a"
  let ?s = "mpz_sizeinbase2 g a"
  have "a < 2 ^ ?s" by (rule size [OF a])
  also have "(2 :: int) ^ ?s \<le> 2 ^ (8 * ((?s + 7) div 8))" by (intro power_increasing) simp_all
  also have "\<dots> = (2 ^ 8) ^ ((?s + 7) div 8)" by (rule power_mult)
  finally show ?thesis by (simp add: mpz_sizeinbytes_def)
qed

lemma exponent_half:
  assumes "2 < p" "(p - 1) dvd l" "k * d mod l = 1" "1 < l"
  shows "0 < d mod (p - 1) \<and> k * (d mod (p - 1)) mod (p - 1) = 1 mod (p - 1 :: nat)"
proof -
  have "k * d mod (p - 1) = k * d mod l mod (p - 1)" using assms(2) by (simp add: mod_mod_cancel)
  then have one: "k * (d mod (p - 1)) mod (p - 1) = 1 mod (p - 1)" using assms(3) by (simp add: mod_mult_right_eq)
  moreover have "1 mod (p - 1) = (1 :: nat)" using assms(1) by simp
  ultimately have "d mod (p - 1) \<noteq> 0" by (metis mod_0 mult_0_right zero_neq_one)
  then show ?thesis using one by simp
qed

lemma setkey_key:
  assumes "rsa_setkey g p q e r0 = (True, r)" "mpz_set_str g p = int P" "mpz_set_str g q = int Q" "mpz_set_str g e = int E"
    "prime_nat P" "prime_nat Q" "P \<noteq> Q" "2 < P" "2 < Q" "0 < E"
  shows "key_of r P Q E"
proof -
  let ?l = "lcm (int P - 1) (int Q - 1)"
  have l_dvd: "int P - 1 dvd ?l" "int Q - 1 dvd ?l" by simp_all
  have "?l \<noteq> 0" using assms(8,9) by (simp add: lcm_eq_0_iff)
  then have "int P - 1 \<le> ?l" using zdvd_imp_le [OF l_dvd(1)] lcm_ge_0_int [of "int P - 1" "int Q - 1"] by linarith
  then have l1: "1 < ?l" using assms(8) by simp
  have r: "r = r0\<lparr>r_p := int P, r_q := int Q, r_e := int E, r_n := int P * int Q,
      r_x0 := int P - 1, r_x1 := int Q - 1, r_x2 := ?l, r_x3 := mpz_invert g (int E) ?l,
      r_dp := mpz_invert g (int E) ?l mod (int P - 1), r_dq := mpz_invert g (int E) ?l mod (int Q - 1),
      r_qi := mpz_invert g (int Q) (int P), r_encoding_limit := mpz_sizeinbytes g (int P * int Q)\<rparr>"
    and cop: "gcd ?l (int E) = 1"
    using assms(1,8,9) unfolding rsa_setkey_def
    by (simp_all add: assms(2-4) mul sub lcm_law gcd_law cmp_eq mod_law Let_def split: if_splits)
  let ?d = "mpz_invert g (int E) ?l"
  have "coprime (int E) ?l" using cop by (simp add: coprime_iff_gcd_eq_1 gcd.commute)
  from invert [OF this l1] have d: "0 \<le> ?d" "int E * ?d mod ?l = 1" by simp_all
  define d L where "d = nat ?d" and "L = nat ?l"
  have L: "?l = int L" by (simp add: L_def)
  have conv: "?l = int L" "mpz_invert g (int E) (int L) = int d" using d(1) by (simp_all add: L d_def)
  have "int (E * d mod L) = int 1" using d(2) unfolding conv by (simp add: zmod_int)
  then have dL: "E * d mod L = 1" by (simp only: of_nat_eq_iff)
  have "int (P - 1) dvd int L" "int (Q - 1) dvd int L" using l_dvd assms(8,9) unfolding conv by (simp_all add: of_nat_diff)
  then have dv: "P - 1 dvd L" "Q - 1 dvd L" by simp_all
  have "1 < L" using l1 unfolding conv by simp
  from exponent_half [OF assms(8) dv(1) dL this] exponent_half [OF assms(9) dv(2) dL this]
  have half: "0 < d mod (P - 1) \<and> E * (d mod (P - 1)) mod (P - 1) = 1 mod (P - 1)"
    "0 < d mod (Q - 1) \<and> E * (d mod (Q - 1)) mod (Q - 1) = 1 mod (Q - 1)" by simp_all
  have dp: "?d mod (int P - 1) = int (d mod (P - 1))" "?d mod (int Q - 1) = int (d mod (Q - 1))"
    unfolding conv using assms(8,9) by (simp_all add: zmod_int of_nat_diff)
  have "\<not> P dvd Q"
  proof
    assume "P dvd Q"
    moreover then have "P \<le> Q" using assms(9) by (auto dest: dvd_imp_le)
    ultimately show False using assms(6,7,8) unfolding prime_nat_def by auto
  qed
  then have "coprime Q P" using prime_coprime [OF assms(5)] coprime_commute by blast
  then have "coprime (int Q) (int P)" by simp
  then have "int Q * mpz_invert g (int Q) (int P) mod int P = 1" using invert assms(8) by simp
  then show ?thesis using half assms(5-10) unfolding key_of_def by (simp add: r dp)
qed

text \<open>Decoding an encoded number.\<close>

lemma half_power:
  assumes "prime_nat p" "k * d mod (p - 1) = 1 mod (p - 1)" "0 < k" "0 < d" "p dvd n"
  shows "(int m ^ k mod int n) ^ d mod int p = int m mod int p"
proof -
  have "(int m ^ k mod int n) ^ d mod int p = (int m ^ k mod int n mod int p) ^ d mod int p" by (simp add: power_mod)
  also have "int m ^ k mod int n mod int p = int m ^ k mod int p" using assms(5) by (simp add: mod_mod_cancel)
  also have "(int m ^ k mod int p) ^ d mod int p = (int m ^ k) ^ d mod int p" by (simp add: power_mod)
  also have "\<dots> = int (m ^ (k * d) mod p)" by (simp add: power_mult zmod_int)
  also have "\<dots> = int m mod int p" using power_cycle [OF assms(1,2), of m] assms(3,4) by (simp add: zmod_int)
  finally show ?thesis .
qed

lemma rsa_decode_value:
  assumes "x1 = mpz_powm g (mpz_import g (take len data)) (r_dp r) (r_p r)"
    "x2 = mpz_powm g (mpz_import g (take len data)) (r_dq r) (r_q r)"
    "y = x2 + mpz_mod g ((if x1 < x2 then x1 - x2 + r_p r else x1 - x2) * r_qi r) (r_p r) * r_q r"
    "len \<le> length data"
  shows "rsa_decode g data len r = do {
    d \<leftarrow> mem_write 0 (mpz_export g y) data;
    Some (d, length (mpz_export g y), r\<lparr>r_x0 := mpz_import g (take len data), r_x1 := x1,
      r_x3 := mpz_mod g ((if x1 < x2 then x1 - x2 + r_p r else x1 - x2) * r_qi r) (r_p r), r_x2 := y\<rparr>)
  }"
proof (cases "x1 < x2")
  case True
  then show ?thesis unfolding rsa_decode_def assms(1-3)
    using assms(4) by (simp add: mem_read_def sub add mul cmp_less Let_def)
next
  case False
  then show ?thesis unfolding rsa_decode_def assms(1-3)
    using assms(4) by (simp add: mem_read_def sub add mul cmp_less Let_def)
qed

lemma decode_number:
  assumes "key_of r p q k" "int m < int p * int q" "mpz_import g cipher = int m ^ k mod (int p * int q)"
    "length cipher \<le> length data" "length (mpz_export g (int m)) \<le> length data"
  shows "\<exists>r'. rsa_decode g (cipher @ drop (length cipher) data) (length cipher) r
      = Some (mpz_export g (int m) @ drop (length (mpz_export g (int m))) (cipher @ drop (length cipher) data),
              length (mpz_export g (int m)), r')
    \<and> (\<exists>x0 x1 x2 x3. r' = r\<lparr>r_x0 := x0, r_x1 := x1, r_x2 := x2, r_x3 := x3\<rparr>)"
proof -
  note key = assms(1) [unfolded key_of_def]
  have p: "prime_nat p" "prime_nat q" "2 < p" "2 < q" "p \<noteq> q" "0 < k" using key by simp_all
  have f: "r_p r = int p" "r_q r = int q" using key by simp_all
  let ?c = "mpz_import g cipher"
  have x1: "mpz_powm g ?c (r_dp r) (int p) = int m mod int p"
    using half_power [OF p(1), of k "nat (r_dp r)" "p * q" m] key p by (simp add: powm assms(3))
  have x2: "mpz_powm g ?c (r_dq r) (int q) = int m mod int q"
    using half_power [OF p(2), of k "nat (r_dq r)" "p * q" m] key p by (simp add: powm assms(3))
  have "\<not> p dvd q"
  proof
    assume "p dvd q"
    moreover then have "p \<le> q" using p(4) by (auto dest: dvd_imp_le)
    ultimately show False using p unfolding prime_nat_def by auto
  qed
  then have "coprime p q" by (rule prime_coprime [OF p(1)])
  then have cop: "coprime (int p) (int q)" by simp
  have crt: "int m mod int q + (((if int m mod int p < int m mod int q then int m mod int p - int m mod int q + int p
      else int m mod int p - int m mod int q) * r_qi r) mod int p) * int q = int m"
    by (rule crt_decode) (use p cop key assms(2) in auto)
  let ?data = "cipher @ drop (length cipher) data"
  let ?d = "if int m mod int p < int m mod int q then int m mod int p - int m mod int q + int p
    else int m mod int p - int m mod int q"
  have y: "int m = int m mod int q + mpz_mod g (?d * r_qi r) (int p) * int q" using crt p(3) mod_law [of "int p"] by simp
  have "length cipher \<le> length ?data" by simp
  from rsa_decode_value [of "int m mod int p" "length cipher" ?data r "int m mod int q" "int m", unfolded f, OF _ _ y this]
  have "rsa_decode g ?data (length cipher) r = do {
      d \<leftarrow> mem_write 0 (mpz_export g (int m)) ?data;
      Some (d, length (mpz_export g (int m)), r\<lparr>r_x0 := ?c, r_x1 := int m mod int p,
        r_x3 := mpz_mod g (?d * r_qi r) (int p), r_x2 := int m\<rparr>)
    }"
    using x1 x2 by simp
  moreover have "mem_write 0 (mpz_export g (int m)) ?data =
      Some (mpz_export g (int m) @ drop (length (mpz_export g (int m))) ?data)"
    using assms(4,5) by (simp add: mem_write_def)
  ultimately have "rsa_decode g ?data (length cipher) r = Some (mpz_export g (int m) @ drop (length (mpz_export g (int m))) ?data,
      length (mpz_export g (int m)), r\<lparr>r_x0 := ?c, r_x1 := int m mod int p,
        r_x2 := int m, r_x3 := mpz_mod g (?d * r_qi r) (int p)\<rparr>)" by simp
  then show ?thesis by blast
qed

text \<open>Blocks of bytes.\<close>

lemma decode_block:
  assumes "key_of r p q k" "be_value msg < int p * int q" "length msg = length data"
    "be_value cipher = be_value msg ^ k mod (int p * int q)" "length cipher \<le> length data"
  shows "\<exists>d r'. rsa_decode g (cipher @ drop (length cipher) data) (length cipher) r = Some (d, length (no_leading_zeros msg), r')
    \<and> take (length (no_leading_zeros msg)) d = no_leading_zeros msg \<and> length d = length data"
proof -
  define m where "m = nat (be_value msg)"
  have m: "int m = be_value msg" by (simp add: m_def)
  have e: "mpz_export g (int m) = no_leading_zeros msg" unfolding m by (rule export_value)
  have "length (no_leading_zeros msg) \<le> length msg" by (rule length_dropWhile_le)
  then have "length (mpz_export g (int m)) \<le> length data" using assms(3) e by simp
  from decode_number [OF assms(1) _ _ assms(5) this, unfolded m, OF assms(2)] assms(4)
  obtain r' where "rsa_decode g (cipher @ drop (length cipher) data) (length cipher) r
      = Some (no_leading_zeros msg @ drop (length (no_leading_zeros msg)) (cipher @ drop (length cipher) data),
              length (no_leading_zeros msg), r')"
    unfolding export_value import_law by blast
  then show ?thesis using assms(3,5) \<open>length (no_leading_zeros msg) \<le> length msg\<close> by simp
qed

lemma encode_block:
  assumes "key_of r p q k" "length msg = r_encoding_limit r"
  shows "\<exists>j r1. rsa_encode g msg (length msg) r = Some (mpz_export g (be_value msg ^ k mod (int p * int q)) @ drop j msg, j, r1)
    \<and> j = length (mpz_export g (be_value msg ^ k mod (int p * int q))) \<and> j \<le> length msg \<and> key_of r1 p q k"
proof -
  note key = assms(1) [unfolded key_of_def]
  let ?n = "int p * int q" let ?c = "be_value msg ^ k mod ?n"
  have n: "0 < ?n" using key by simp
  have "?n < 256 ^ length msg" using size_bytes [OF n] key assms(2) by simp
  moreover have "?c < ?n" using n by (rule pos_mod_bound)
  ultimately have "?c < 256 ^ length msg" by (rule less_trans [rotated])
  then have j: "length (mpz_export g ?c) \<le> length msg" using n by (intro export_length) simp_all
  have powm': "mpz_powm g (be_value msg) (int k) ?n = ?c" using powm [of "int k" ?n] n by simp
  have f: "r_e r = int k" "r_n r = ?n" using key by simp_all
  have "rsa_encode g msg (length msg) r = Some (mpz_export g ?c @ drop (length (mpz_export g ?c)) msg,
      length (mpz_export g ?c), r\<lparr>r_x0 := be_value msg, r_x1 := ?c\<rparr>)"
    using j by (simp add: rsa_encode_def mem_read_def mem_write_def import_law f powm' Let_def)
  moreover have "key_of (r\<lparr>r_x0 := be_value msg, r_x1 := ?c\<rparr>) p q k" using key by (simp add: key_of_def)
  ultimately show ?thesis using j by blast
qed

lemma roundtrip_block:
  assumes "key_of r p q k" "length msg = r_encoding_limit r" "be_value msg < int p * int q"
  shows "\<exists>c j r1 d r2. rsa_encode g msg (length msg) r = Some (c, j, r1) \<and> length c = length msg
    \<and> rsa_decode g c j r1 = Some (d, length (no_leading_zeros msg), r2)
    \<and> take (length (no_leading_zeros msg)) d = no_leading_zeros msg"
proof -
  let ?c = "be_value msg ^ k mod (int p * int q)"
  obtain j r1 where e: "rsa_encode g msg (length msg) r = Some (mpz_export g ?c @ drop j msg, j, r1)"
    "j = length (mpz_export g ?c)" "j \<le> length msg" "key_of r1 p q k" using encode_block [OF assms(1,2)] by blast
  have "0 < int p * int q" using assms(1) by (simp add: key_of_def)
  then have "be_value (mpz_export g ?c) = ?c" using export by simp
  from decode_block [OF e(4) assms(3) refl this] e(2,3) obtain d r2 where
    "rsa_decode g (mpz_export g ?c @ drop j msg) j r1 = Some (d, length (no_leading_zeros msg), r2)"
    "take (length (no_leading_zeros msg)) d = no_leading_zeros msg" by auto
  then show ?thesis using e(1-3) by auto
qed

end

end
