(* ===== verification/Rsa_Properties.thy ===== *)
theory Rsa_Properties
  imports Rsa_Correct
begin

text \<open>
  RSA as the server uses it, over any library with the laws of \<open>gmp_laws\<close>, and such a library on the
  numbers of the logic.
\<close>

subsection \<open>A library on the numbers of the logic\<close>

fun be_bytes :: "nat \<Rightarrow> bytes" where
  "be_bytes n = (if n = 0 then [] else be_bytes (n div 256) @ [of_nat (n mod 256)])"

fun bit_length :: "nat \<Rightarrow> nat" where
  "bit_length n = (if n = 0 then 0 else bit_length (n div 2) + 1)"

declare be_bytes.simps [simp del] bit_length.simps [simp del]

definition decimal_value :: "string \<Rightarrow> int" where
  "decimal_value s = foldl (\<lambda>v c. 10 * v + (of_char c - 48)) 0 s"

definition mod_inverse :: "int \<Rightarrow> int \<Rightarrow> int" where
  "mod_inverse a m = fst (bezw (nat (a mod m)) (nat m)) mod m"

definition gmp_hol :: gmp where
  "gmp_hol = \<lparr>mpz_set_str = decimal_value, mpz_add = (+), mpz_sub = (-), mpz_mul = (*), mpz_mod = (mod),
     mpz_lcm = lcm, mpz_gcd = gcd, mpz_invert = mod_inverse, mpz_powm = (\<lambda>b k m. b ^ nat k mod m),
     mpz_cmp = (-), mpz_sizeinbase2 = (\<lambda>a. bit_length (nat a)), mpz_import = be_value,
     mpz_export = (\<lambda>a. be_bytes (nat a))\<rparr>"

lemma be_bytes_value: "be_value (be_bytes n) = int n"
proof (induction n rule: be_bytes.induct)
  case (1 n)
  have u: "uint (word_of_nat (n mod 256) :: u8) = int (n mod 256)" by (simp add: uint_nat unat_of_nat)
  have "be_value (be_bytes n) = (if n = 0 then 0 else 256 * be_value (be_bytes (n div 256)) + int (n mod 256))"
    by (subst be_bytes.simps) (simp add: be_value_snoc u, simp add: be_value_def)
  moreover have "256 * int (n div 256) + int (n mod 256) = int n"
    by (metis mult_div_mod_eq of_nat_add of_nat_mult of_nat_numeral)
  ultimately show ?case using 1 by (cases "n = 0") simp_all
qed

lemma be_bytes_hd: "be_bytes n = [] \<or> hd (be_bytes n) \<noteq> 0"
proof (induction n rule: be_bytes.induct)
  case (1 n)
  show ?case
  proof (cases "n < 256")
    case True
    then have "(word_of_nat n :: u8) = 0 \<longleftrightarrow> n = 0" by (simp add: word_of_nat_eq_0_iff nat_dvd_not_less) (auto dest: dvd_imp_le)
    then show ?thesis using True by (subst (1 2) be_bytes.simps) (simp add: be_bytes.simps [of 0])
  next
    case False
    then have "n div 256 \<noteq> 0" by auto
    then have "be_bytes (n div 256) \<noteq> []" by (subst be_bytes.simps) simp
    then show ?thesis using False 1 by (subst (1 2) be_bytes.simps) auto
  qed
qed

lemma bit_length_bounds: "n < 2 ^ bit_length n \<and> (0 < n \<longrightarrow> 2 ^ (bit_length n - 1) \<le> n)"
proof (induction n rule: bit_length.induct)
  case (1 n)
  show ?case
  proof (cases "n < 2")
    case True
    then have "n = 0 \<or> n = 1" by auto
    then show ?thesis by (auto simp: bit_length.simps [of 0] bit_length.simps [of "Suc 0"])
  next
    case False
    then have l: "bit_length n = Suc (bit_length (n div 2))" by (subst bit_length.simps) simp
    have h: "n div 2 < 2 ^ bit_length (n div 2)" "2 ^ (bit_length (n div 2) - 1) \<le> n div 2" using 1 False by auto
    have "0 < bit_length (n div 2)" using False by (subst bit_length.simps) simp
    then obtain k where k: "bit_length (n div 2) = Suc k" by (cases "bit_length (n div 2)") auto
    show ?thesis using h unfolding l k by auto
  qed
qed

lemma mod_inverse:
  assumes "coprime a m" "1 < m"
  shows "0 \<le> mod_inverse a m \<and> a * mod_inverse a m mod m = 1"
proof -
  let ?a = "nat (a mod m)" and ?m = "nat m"
  have a: "int ?a = a mod m" "int ?m = m" using assms(2) by simp_all
  have "gcd (a mod m) m = 1" using assms(1) gcd_red_int [of a m] by (simp add: coprime_iff_gcd_eq_1 gcd.commute)
  then have "int (gcd ?a ?m) = 1" by (simp only: gcd_int_int_eq [symmetric] a)
  then have "fst (bezw ?a ?m) * (a mod m) + snd (bezw ?a ?m) * m = 1" using bezw_aux [of ?a ?m] a by simp
  then have "(fst (bezw ?a ?m) * (a mod m) + snd (bezw ?a ?m) * m) mod m = 1 mod m" by simp
  then have "fst (bezw ?a ?m) * (a mod m) mod m = 1" using assms(2) by simp
  then have "fst (bezw ?a ?m) * a mod m = 1" by (metis mod_mult_right_eq)
  then have "a * fst (bezw ?a ?m) mod m = 1" by (simp add: mult.commute)
  then show ?thesis using assms(2) by (simp add: mod_inverse_def mod_mult_right_eq)
qed

interpretation gmp_hol: gmp_laws gmp_hol
proof
  fix a b m k :: int and bs :: bytes
  show "coprime a m \<Longrightarrow> 1 < m \<Longrightarrow> 0 \<le> mpz_invert gmp_hol a m \<and> a * mpz_invert gmp_hol a m mod m = 1"
    using mod_inverse by (simp add: gmp_hol_def)
  show "0 < a \<Longrightarrow> a < 2 ^ mpz_sizeinbase2 gmp_hol a"
    using bit_length_bounds [of "nat a"] by (simp add: gmp_hol_def nat_less_iff)
  show "0 < a \<Longrightarrow> 2 ^ (mpz_sizeinbase2 gmp_hol a - 1) \<le> a"
    using bit_length_bounds [of "nat a"] by (simp add: gmp_hol_def le_nat_iff)
qed (simp_all add: gmp_hol_def be_bytes_value be_bytes_hd)

subsection \<open>Properties\<close>

text \<open>C20: For a key of two different odd primes that \<^verbatim>\<open>rsa_setkey\<close> accepts, encoding a block of the size of the
  key and decoding the result stays inside the block and gives its bytes back, but without those that are zero
  at its start, and their number as the length.\<close>

theorem rsa_roundtrip:
  assumes "gmp_laws g" "rsa_setkey g p q e r0 = (True, r)"
    "mpz_set_str g p = int P" "mpz_set_str g q = int Q" "mpz_set_str g e = int E"
    "prime_nat P" "prime_nat Q" "P \<noteq> Q" "2 < P" "2 < Q" "0 < E"
    "length msg = r_encoding_limit r" "be_value msg < int P * int Q"
  shows "\<exists>c j r1 d r2. rsa_encode g msg (length msg) r = Some (c, j, r1) \<and> length c = length msg
    \<and> rsa_decode g c j r1 = Some (d, length (no_leading_zeros msg), r2)
    \<and> take (length (no_leading_zeros msg)) d = no_leading_zeros msg"
  using gmp_laws.roundtrip_block [OF assms(1) gmp_laws.setkey_key [OF assms(1-11)] assms(12,13)] .

text \<open>The client sends a whole block.  Its decoded length tells the number of leading zeros, and is
  127 for a block of 128 only if the second byte, which is the first of the XTEA key, is not zero.\<close>

lemma rsa_decode_length:
  assumes "gmp_laws g" "rsa_setkey g p q e r0 = (True, r)"
    "mpz_set_str g p = int P" "mpz_set_str g q = int Q" "mpz_set_str g e = int E"
    "prime_nat P" "prime_nat Q" "P \<noteq> Q" "2 < P" "2 < Q" "0 < E"
    "be_value msg < int P * int Q" "length cipher = length msg" "be_value cipher = be_value msg ^ E mod (int P * int Q)"
  shows "\<exists>d r'. rsa_decode g cipher (length cipher) r = Some (d, length (no_leading_zeros msg), r')
    \<and> take (length (no_leading_zeros msg)) d = no_leading_zeros msg \<and> length d = length cipher"
  using gmp_laws.decode_block [OF assms(1) gmp_laws.setkey_key [OF assms(1-11)] assms(12) _ assms(14), of cipher] assms(13)
  by simp

subsection \<open>Example\<close>

text \<open>The primes 17 and 19 with exponent 5, on a block of two bytes that starts with zero.\<close>

lemma small_setkey:
  "fst (rsa_setkey gmp_hol ''17'' ''19'' ''5'' rsa_init)"
  "r_encoding_limit (snd (rsa_setkey gmp_hol ''17'' ''19'' ''5'' rsa_init)) = 2"
  by code_simp+

theorem rsa_roundtrip_witness:
  "\<exists>r c j r1 d r2. rsa_encode gmp_hol [0, 7] 2 r = Some (c, j, r1) \<and> rsa_decode gmp_hol c j r1 = Some (d, 1, r2) \<and> take 1 d = [7]"
proof -
  define r where "r = snd (rsa_setkey gmp_hol ''17'' ''19'' ''5'' rsa_init)"
  have r: "rsa_setkey gmp_hol ''17'' ''19'' ''5'' rsa_init = (True, r)"
    using small_setkey(1) by (simp add: r_def prod_eq_iff)
  have l: "length [0, 7 :: u8] = r_encoding_limit r" using small_setkey(2) by (simp add: r_def)
  have str: "mpz_set_str gmp_hol ''17'' = int 17" "mpz_set_str gmp_hol ''19'' = int 19" "mpz_set_str gmp_hol ''5'' = int 5"
    by code_simp+
  have small: "prime_nat 17" "prime_nat 19" "17 \<noteq> (19 :: nat)" "2 < (17 :: nat)" "2 < (19 :: nat)" "0 < (5 :: nat)"
    by code_simp+
  have v: "be_value [0, 7] < int 17 * int 19" "no_leading_zeros [0, 7 :: u8] = [7]" by code_simp+
  have "length [0, 7 :: u8] = 2" "length [7 :: u8] = 1" by simp_all
  with rsa_roundtrip [OF gmp_hol.gmp_laws_axioms r str small l v(1), unfolded v(2)] show ?thesis
    by metis
qed

end
