(* ===== verification/Login_Rsa.thy ===== *)
theory Login_Rsa
  imports Login_Properties Rsa_Properties
begin

text \<open>
  The login request of a client under the key of the server: \<^verbatim>\<open>login_on_recv_first_message\<close> with
  \<^verbatim>\<open>tibia_rsa_decode\<close> in place of the parameter of the login protocol.
\<close>

subsection \<open>The decoder of the login protocol\<close>

definition login_rsa :: "gmp \<Rightarrow> rsa_ctx \<Rightarrow> bytes \<Rightarrow> (bytes \<times> nat) option" where
  "login_rsa g ctx decoded =
     (case tibia_rsa_decode g ctx decoded 128 of
        Some (True, d, Some decoded_len, _) \<Rightarrow> Some (d, decoded_len)
      | _ \<Rightarrow> None)"

lemma rsa_decode_keeps_length: "rsa_decode g d n r = Some (d', k, r') \<Longrightarrow> length d' = length d"
  unfolding rsa_decode_def Let_def Option.bind_eq_Some_conv by (elim exE conjE) (drule mem_write_length, simp only: option.inject prod.inject)

text \<open>One of the conditions on the parameter that the ownership theorem has.\<close>

lemma login_rsa_length:
  "length d = 128 \<Longrightarrow> login_rsa g ctx d = Some (d', n) \<Longrightarrow> length d' = 128"
  by (auto simp: login_rsa_def tibia_rsa_decode_def dest!: rsa_decode_keeps_length
      split: option.splits prod.splits if_splits bool.splits)

text \<open>The block a client of version 8.60 encrypts: a zero, the XTEA key, the name and the password, and
  anything up to 128 bytes.\<close>

definition login_block :: "bytes \<Rightarrow> bytes \<Rightarrow> bytes \<Rightarrow> bytes \<Rightarrow> bytes" where
  "login_block key name pwd r = 0 # key @ str_image name @ str_image pwd @ r"

lemma key_limit:
  assumes "gmp_laws g" "gmp_laws.key_of g r p q k" "2 ^ 1016 \<le> int p * int q"
  shows "128 \<le> r_encoding_limit r"
proof -
  let ?n = "int p * int q"
  have "(2 :: int) ^ 1016 < 2 ^ mpz_sizeinbase2 g ?n"
    using gmp_laws.size [OF assms(1), of ?n] assms(3) by (smt (verit) zero_less_power)
  then have "1016 < mpz_sizeinbase2 g ?n" by (rule power_less_imp_less_exp [rotated]) simp
  then show ?thesis using assms(2) by (simp add: gmp_laws.key_of_def [OF assms(1)] mpz_sizeinbytes_def)
qed

lemma block_value: "length msg = 127 \<Longrightarrow> be_value (0 # msg) < 2 ^ 1016"
proof -
  assume "length msg = 127"
  then have "be_value (0 # msg) < 256 ^ 127" using be_value_less [of msg] by (simp add: be_value_Cons)
  also have "(256 :: int) ^ 127 = (2 ^ 8) ^ 127" by simp
  also have "\<dots> = 2 ^ 1016" by (simp flip: power_mult)
  finally show ?thesis .
qed

lemma login_rsa_decodes:
  assumes "gmp_laws g" "rsa_setkey g p q e r0 = (True, ctx)"
    "mpz_set_str g p = int P" "mpz_set_str g q = int Q" "mpz_set_str g e = int E"
    "prime_nat P" "prime_nat Q" "P \<noteq> Q" "2 < P" "2 < Q" "0 < E" "2 ^ 1016 \<le> int P * int Q"
    "length cipher = 128" "length msg = 127" "be_value cipher = be_value (0 # msg) ^ E mod (int P * int Q)"
  shows "\<exists>d. login_rsa g ctx cipher = Some (d, length (no_leading_zeros msg))
    \<and> take (length (no_leading_zeros msg)) d = no_leading_zeros msg \<and> length d = 128"
proof -
  have v: "be_value (0 # msg) < int P * int Q" using block_value [OF assms(14)] assms(12) by linarith
  have "128 \<le> r_encoding_limit ctx"
    by (rule key_limit [OF assms(1) gmp_laws.setkey_key [OF assms(1-11)] assms(12)])
  moreover have "\<exists>d r'. rsa_decode g cipher 128 ctx = Some (d, length (no_leading_zeros msg), r')
      \<and> take (length (no_leading_zeros msg)) d = no_leading_zeros msg \<and> length d = 128"
    using rsa_decode_length [OF assms(1-11) v _ assms(15)] assms(13,14) by simp
  ultimately show ?thesis by (auto simp: login_rsa_def tibia_rsa_decode_def)
qed

lemma str_image_length: "length (str_image s) = 2 + length s"
  by (simp add: str_image_def)

text \<open>C19: A request of a client of version 8.60, encrypted under the key of the server, is decoded, parsed to its
  key, name and password, and queued for the database thread if the first byte of the key is not zero.  With a zero
  there the length of the decoded block is not 127, and the server closes the connection.\<close>

theorem login_rsa_request:
  fixes name pwd r :: bytes
  assumes "gmp_laws g" "rsa_setkey g p q e r0 = (True, ctx)"
    "mpz_set_str g p = int P" "mpz_set_str g q = int Q" "mpz_set_str g e = int E"
    "prime_nat P" "prime_nat Q" "P \<noteq> Q" "2 < P" "2 < Q" "0 < E" "2 ^ 1016 \<le> int P * int Q"
    "length cipher = 128" "length (login_block key name pwd r) = 128"
    "be_value cipher = be_value (login_block key name pwd r) ^ E mod (int P * int Q)"
    "key = encode_u32_le k0 @ encode_u32_le k1 @ encode_u32_le k2 @ encode_u32_le k3"
    "length header = 21" "decode_u16_le (drop 7 (header @ cipher)) = Some 860"
    "length name \<le> 30" "length pwd \<le> 30" "0 \<notin> set name" "0 \<notin> set pwd" "length (le_junk env) = 32"
    "le_rsa env = login_rsa g ctx"
  shows "if hd key = 0 then login_on_recv_first_message env True started c (header @ cipher) s = Some (PROTO_CLOSE, s)
    else \<exists>s' l. login_on_recv_first_message env True started c (header @ cipher) s = Some (PROTO_STOP_READING, s')
      \<and> ls_db_tasks s' = ls_db_tasks s @ [ls_fresh s] \<and> ls_logins s' = (ls_logins s)(ls_fresh s \<mapsto> l)
      \<and> li_output l = None \<and> li_connection l = c \<and> li_xtea l = [k0, k1, k2, k3]
      \<and> cstr (li_accname l) name \<and> cstr (li_password l) pwd \<and> ls_conns s' = ls_conns s"
proof -
  define msg where "msg = key @ str_image name @ str_image pwd @ r"
  have len: "length key = 16" "length msg = 127" using assms(14) by (simp_all add: assms(16) login_block_def msg_def)
  have block: "login_block key name pwd r = 0 # msg" by (simp add: login_block_def msg_def)
  obtain d where d: "login_rsa g ctx cipher = Some (d, length (no_leading_zeros msg))"
    "take (length (no_leading_zeros msg)) d = no_leading_zeros msg" "length d = 128"
    using login_rsa_decodes [OF assms(1-13) len(2) assms(15) [unfolded block]] by blast
  define data where "data = header @ cipher"
  have data: "length data = 149" "decode_u16_le (drop 7 data) = Some 860"
    "le_rsa env (drop 21 data) = Some (d, length (no_leading_zeros msg))"
    using assms(13,17,18,24) d(1) by (simp_all add: data_def)
  obtain b bs where key: "key = b # bs" using len(1) by (cases key) auto
  show ?thesis
  proof (cases "hd key = 0")
    case True
    then have "no_leading_zeros msg = no_leading_zeros (tl msg)" by (simp add: msg_def key)
    moreover have "length (no_leading_zeros (tl msg)) \<le> length (tl msg)" by (rule length_dropWhile_le)
    ultimately have "length (no_leading_zeros msg) \<noteq> 127" using len(2) by simp
    then show ?thesis using True
      by (simp add: login_on_recv_first_message_def data data_def [symmetric])
  next
    case False
    then have n: "no_leading_zeros msg = msg" by (simp add: msg_def key)
    then have "d = msg @ drop 127 d" using d(2) len(2) by (metis append_take_drop_id)
    then have "le_rsa env (drop 21 data) = Some ((encode_u32_le k0 @ encode_u32_le k1 @ encode_u32_le k2 @ encode_u32_le k3)
        @ str_image name @ str_image pwd @ r @ drop 127 d, 127)"
      using data(3) n len(2) assms(16) by (simp add: msg_def)
    from login_request_accepted [OF data(1,2) this assms(19-23), of started c s] False show ?thesis
      by (simp add: data_def [symmetric])
  qed
qed

subsection \<open>Example\<close>

text \<open>There are primes of any size (Euclid), and a decimal string for every number.\<close>

lemma bigger_prime: "\<exists>p. prime_nat p \<and> n < p"
proof -
  define p where "p = (LEAST d. 1 < d \<and> d dvd fact n + (1 :: nat))"
  have "1 < fact n + (1 :: nat) \<and> fact n + (1 :: nat) dvd fact n + 1" by simp
  then have p: "1 < p" "p dvd fact n + 1" unfolding p_def by (metis (mono_tags, lifting) LeastI)+
  have "\<not> d dvd p" if "d \<in> {2..<p}" for d
    using not_less_Least [of d "\<lambda>d. 1 < d \<and> d dvd fact n + (1 :: nat)"] that p(2) dvd_trans [of d p]
    unfolding p_def [symmetric] by auto
  then have "prime_nat p" using p(1) by (simp add: prime_nat_def)
  moreover have "n < p"
  proof (rule ccontr)
    assume "\<not> n < p"
    then have "p dvd fact n" using p(1) by (intro dvd_fact) simp_all
    then have "p dvd 1" using p(2) by (metis dvd_add_right_iff)
    then show False using p(1) by simp
  qed
  ultimately show ?thesis by blast
qed

lemma decimal_string: "\<exists>s. decimal_value s = int n"
proof (induction n rule: less_induct)
  case (less n)
  show ?case
  proof (cases "n = 0")
    case True
    then show ?thesis by (intro exI [of _ "[]"]) (simp add: decimal_value_def)
  next
    case False
    then obtain s where "decimal_value s = int (n div 10)" using less [of "n div 10"] by auto
    moreover have "of_char (char_of (48 + int (n mod 10)) :: char) = (48 + int (n mod 10))"
      by (simp add: of_char_of)
    moreover have "10 * int (n div 10) + int (n mod 10) = int n" by presburger
    ultimately have "decimal_value (s @ [char_of (48 + int (n mod 10))]) = int n" by (simp add: decimal_value_def)
    then show ?thesis by blast
  qed
qed

definition example_block :: bytes where
  "example_block = login_block (encode_u32_le 1 @ encode_u32_le 2 @ encode_u32_le 3 @ encode_u32_le 4)
     (str ''bob'') (str ''pw'') (replicate 102 0)"

lemma example_setkey:
  assumes "decimal_value s = int P" "prime_nat P" "2 ^ 1016 < P"
  shows "\<exists>ctx. rsa_setkey gmp_hol s ''3'' ''1'' rsa_init = (True, ctx)"
proof -
  have "\<not> 2 dvd P" using assms(2,3) by (auto simp: prime_nat_def)
  have str: "decimal_value ''3'' = 3" "decimal_value ''1'' = 1" by code_simp+
  have "int P - 1 dvd lcm (int P - 1) 2" by (rule dvd_lcm1)
  moreover have "lcm (int P - 1) 2 \<noteq> 0" "1 < int P - 1" using assms(3) by (auto simp: lcm_eq_0_iff)
  ultimately have "1 < lcm (int P - 1) 2" using zdvd_imp_le [of "int P - 1" "lcm (int P - 1) 2"] lcm_ge_0_int [of "int P - 1" 2]
    by linarith
  then show ?thesis by (simp add: rsa_setkey_def gmp_hol_def str assms(1) Let_def)
qed

text \<open>The exponent is 1, so that the block and its encryption are the same bytes.\<close>

theorem login_rsa_request_witness:
  "\<exists>ctx s' l. login_on_recv_first_message (example_env\<lparr>le_rsa := login_rsa gmp_hol ctx\<rparr>) True True 5
      (replicate 7 0 @ [0x5C, 0x03] @ replicate 12 0 @ example_block) (login_start example_mem)
    = Some (PROTO_STOP_READING, s') \<and> ls_db_tasks s' = [0] \<and> ls_logins s' 0 = Some l
    \<and> li_xtea l = [1, 2, 3, 4] \<and> cstr (li_accname l) (str ''bob'') \<and> cstr (li_password l) (str ''pw'')"
proof -
  obtain P s ctx where P: "prime_nat P" "2 ^ 1016 < P" "decimal_value s = int P"
    "rsa_setkey gmp_hol s ''3'' ''1'' rsa_init = (True, ctx)"
    using bigger_prime decimal_string example_setkey by metis
  let ?k = "encode_u32_le 1 @ encode_u32_le 2 @ encode_u32_le 3 @ encode_u32_le 4"
  have str: "mpz_set_str gmp_hol s = int P" "mpz_set_str gmp_hol ''3'' = int 3" "mpz_set_str gmp_hol ''1'' = int 1"
    using P(3) by (simp add: gmp_hol_def, code_simp+)
  have p: "(2 :: nat) ^ 2 \<le> 2 ^ 1016" by (rule power_increasing) simp_all
  have "int (2 ^ 1016) < int P" using P(2) by (simp only: of_nat_less_iff)
  then have n: "P \<noteq> 3" "2 < P" "2 ^ 1016 \<le> int P * int 3" using p P(2) by auto
  have three: "prime_nat 3" "2 < (3 :: nat)" "0 < (1 :: nat)" by code_simp+
  let ?b = "login_block ?k (str ''bob'') (str ''pw'') (replicate 102 0)"
  have b: "length ?b = 128" by (simp add: login_block_def str_image_length example_strs)
  have "be_value ?b < 2 ^ 1016"
    using block_value [of "tl ?b"] b by (simp add: login_block_def)
  then have v: "be_value ?b = be_value ?b ^ 1 mod (int P * int 3)" using n(3) by simp
  let ?h = "replicate 7 0 @ [0x5C, 0x03] @ replicate 12 (0 :: u8)"
  have h: "length ?h = 21" "decode_u16_le (drop 7 (?h @ ?b)) = Some 860" by simp_all
  have hd: "hd ?k \<noteq> 0" by code_simp
  let ?env = "example_env\<lparr>le_rsa := login_rsa gmp_hol ctx\<rparr>"
  have e: "length (str ''bob'') \<le> 30" "length (str ''pw'') \<le> 30" "length (le_junk ?env) = 32" "le_rsa ?env = login_rsa gmp_hol ctx"
    by (simp_all add: example_strs example_env_def)
  have "if hd ?k = 0 then P1 else P2 \<Longrightarrow> P2" for P1 P2 using hd by simp
  from this [OF login_rsa_request [OF gmp_hol.gmp_laws_axioms P(4) str P(1) three(1) n(1,2) three(2,3) n(3) b b
      v refl h e(1,2) example_strs(1,2) e(3,4), of True 5 "login_start example_mem"]]
  obtain s' l where s': "login_on_recv_first_message ?env True True 5 (?h @ ?b) (login_start example_mem)
      = Some (PROTO_STOP_READING, s')"
    "ls_db_tasks s' = ls_db_tasks (login_start example_mem) @ [ls_fresh (login_start example_mem)]"
    "ls_logins s' = (ls_logins (login_start example_mem))(ls_fresh (login_start example_mem) \<mapsto> l)"
    "li_xtea l = [1, 2, 3, 4]" "cstr (li_accname l) (str ''bob'')" "cstr (li_password l) (str ''pw'')"
    by (elim exE conjE)
  have "?h @ ?b = replicate 7 0 @ [0x5C, 0x03] @ replicate 12 0 @ example_block" by (simp only: example_block_def append_assoc)
  moreover have "ls_db_tasks s' = [0]" "ls_logins s' 0 = Some l" using s'(2,3) by (simp_all add: login_start_def)
  ultimately show ?thesis using s'(1,4-6) by metis
qed

end
