(* ===== verification/Pgsql.thy ===== *)
theory Pgsql
  imports Byte_Codec Config
begin

text \<open>
  The database connection and its results, \<^verbatim>\<open>src/src/db/pgsql.c\<close>.  libpq is not part of the repository:
  what it answers is the parameter \<open>libpq\<close>, and the model keeps which of its connections and results are
  allocated.  \<^theory_text>\<open>None\<close> is undefined behaviour, as the use of a result that was cleared.
\<close>

subsection \<open>The library and the state\<close>

datatype pg_param = TextParam bytes | BinaryParam bytes

text \<open>\<open>pq_connect\<close>: no handle, or a handle and whether its status is \<^verbatim>\<open>CONNECTION_OK\<close>; \<open>pq_reset\<close>: the
  status after \<^verbatim>\<open>PQreset\<close>; \<open>pq_exec\<close>: no result, or whether its status is \<^verbatim>\<open>PGRES_TUPLES_OK\<close>, and its rows.
  A value is the memory at the pointer that \<^verbatim>\<open>PQgetvalue\<close> gives.  Answers may differ from call to call:
  the first argument counts the objects allocated before.\<close>

record libpq =
  pq_connect :: "(bytes \<times> bytes) list \<Rightarrow> bool option"
  pq_reset :: "nat \<Rightarrow> bool"
  pq_exec :: "nat \<Rightarrow> string \<Rightarrow> pg_param \<Rightarrow> (bool \<times> bytes list list) option"

record pgsql =
  pg_conn :: "nat option"
  pg_handles :: "nat set"
  pg_results :: "nat \<Rightarrow> bytes list list option"
  pg_fresh :: nat

definition pgsql_start :: pgsql where
  "pgsql_start = \<lparr>pg_conn = None, pg_handles = {}, pg_results = (\<lambda>_. None), pg_fresh = 0\<rparr>"

subsection \<open>Connections\<close>

definition pgsql_params :: "(bytes \<times> bytes) list" where
  "pgsql_params = map (\<lambda>(k, v). (str k, str v)) [
     (''pgsql_host'', ''host''),
     (''pgsql_port'', ''port''),
     (''pgsql_dbname'', ''dbname''),
     (''pgsql_user'', ''user''),
     (''pgsql_password'', ''password''),
     (''pgsql_connect_timeout'', ''connect_timeout''),
     (''pgsql_client_encoding'', ''client_encoding''),
     (''pgsql_application_name'', ''application_name'')]"

primrec pgsql_param_values :: "config_table \<Rightarrow> (bytes \<times> bytes) list \<Rightarrow> (bytes \<times> bytes) list option" where
  "pgsql_param_values tab [] = Some []"
| "pgsql_param_values tab (kp # ps) = do {
     v \<leftarrow> config_get tab (fst kp @ [0]);
     vs \<leftarrow> pgsql_param_values tab ps;
     Some ((snd kp, v) # vs)
   }"

definition db_internal_connect :: "libpq \<Rightarrow> config_table \<Rightarrow> pgsql \<Rightarrow> (bool \<times> pgsql) option" where
  "db_internal_connect L tab s = do {
     kv \<leftarrow> pgsql_param_values tab pgsql_params;
     case pq_connect L kv of
       None \<Rightarrow> Some (False, s\<lparr>pg_conn := None\<rparr>)
     | Some connection_ok \<Rightarrow>
         let h = pg_fresh s;
             s = s\<lparr>pg_conn := Some h, pg_handles := insert h (pg_handles s), pg_fresh := h + 1\<rparr>
         in if \<not> connection_ok then Some (False, s\<lparr>pg_conn := None\<rparr>) else Some (True, s)
   }"

definition db_internal_connection_reset :: "libpq \<Rightarrow> pgsql \<Rightarrow> bool" where
  "db_internal_connection_reset L s \<longleftrightarrow> pg_conn s \<noteq> None \<and> pq_reset L (pg_fresh s)"

text \<open>\<^verbatim>\<open>PQfinish\<close> of \<^verbatim>\<open>NULL\<close> does nothing.\<close>

definition db_internal_connection_close :: "pgsql \<Rightarrow> pgsql" where
  "db_internal_connection_close s =
     s\<lparr>pg_handles := (case pg_conn s of None \<Rightarrow> pg_handles s | Some h \<Rightarrow> pg_handles s - {h}), pg_conn := None\<rparr>"

subsection \<open>Results\<close>

text \<open>A \<^verbatim>\<open>db_result_t *\<close> is \<^theory_text>\<open>None\<close> for \<^verbatim>\<open>NULL\<close>, for which \<^verbatim>\<open>PQntuples\<close> gives 0, \<^verbatim>\<open>PQgetvalue\<close> \<^verbatim>\<open>NULL\<close>, and
  \<^verbatim>\<open>PQclear\<close> does nothing.\<close>

definition db_result_nrows :: "pgsql \<Rightarrow> nat option \<Rightarrow> nat option" where
  "db_result_nrows s res =
     (case res of None \<Rightarrow> Some 0 | Some r \<Rightarrow> map_option length (pg_results s r))"

definition db_result_get_value :: "pgsql \<Rightarrow> nat option \<Rightarrow> nat \<Rightarrow> nat \<Rightarrow> bytes option" where
  "db_result_get_value s res row field = do {
     r \<leftarrow> res;
     rows \<leftarrow> pg_results s r;
     if row < length rows \<and> field < length (rows ! row) then Some (rows ! row ! field) else None
   }"

definition db_result_get_int32 :: "pgsql \<Rightarrow> nat option \<Rightarrow> nat \<Rightarrow> nat \<Rightarrow> u32 option" where
  "db_result_get_int32 s res row field = do {
     v \<leftarrow> db_result_get_value s res row field;
     decode_u32_be v
   }"

definition db_result_get_int64 :: "pgsql \<Rightarrow> nat option \<Rightarrow> nat \<Rightarrow> nat \<Rightarrow> u64 option" where
  "db_result_get_int64 s res row field = do {
     v \<leftarrow> db_result_get_value s res row field;
     decode_u64_be v
   }"

definition db_result_clear :: "nat option \<Rightarrow> pgsql \<Rightarrow> pgsql option" where
  "db_result_clear res s =
     (case res of
        None \<Rightarrow> Some s
      | Some r \<Rightarrow> if pg_results s r = None then None else Some (s\<lparr>pg_results := (pg_results s)(r := None)\<rparr>))"

subsection \<open>Queries\<close>

definition DBRES_ACC_INFO_ID :: nat where "DBRES_ACC_INFO_ID = 0"
definition DBRES_ACC_INFO_PREMEND :: nat where "DBRES_ACC_INFO_PREMEND = 1"
definition DBRES_ACC_INFO_PASSWORD :: nat where "DBRES_ACC_INFO_PASSWORD = 2"
definition DBRES_ACC_CHARLIST_NAME :: nat where "DBRES_ACC_CHARLIST_NAME = 0"

text \<open>\<^verbatim>\<open>PQexecParams\<close>, and \<^verbatim>\<open>PGSQL_VALIDATE_RESULT_OR_RETURN_NULL\<close>.\<close>

definition PQexecParams :: "libpq \<Rightarrow> string \<Rightarrow> pg_param \<Rightarrow> pgsql \<Rightarrow> (nat \<times> bool) option \<times> pgsql" where
  "PQexecParams L sql param s =
     (if pg_conn s = None then (None, s)
      else case pq_exec L (pg_fresh s) sql param of
        None \<Rightarrow> (None, s)
      | Some (tuples_ok, rows) \<Rightarrow>
          (Some (pg_fresh s, tuples_ok), s\<lparr>pg_results := (pg_results s)(pg_fresh s \<mapsto> rows), pg_fresh := pg_fresh s + 1\<rparr>))"

definition pgsql_validate_result :: "(nat \<times> bool) option \<times> pgsql \<Rightarrow> (nat option \<times> pgsql) option" where
  "pgsql_validate_result = (\<lambda>(res, s).
     case res of
       None \<Rightarrow> Some (None, s)
     | Some (r, tuples_ok) \<Rightarrow>
         if tuples_ok then Some (Some r, s)
         else do {
           s \<leftarrow> db_result_clear (Some r) s;
           Some (None, s)
         })"

definition sql_account_info :: string where
  "sql_account_info = ''SELECT account_id, date_part('' @ [CHR 0x27] @ ''epoch'' @ [CHR 0x27] @ '', premend)::bigint, password'' @
     '' FROM accounts'' @
     '' WHERE lower(name) = $1''"

definition sql_account_charlist :: string where
  "sql_account_charlist = ''SELECT name'' @
     '' FROM players'' @
     '' WHERE account_id = $1'' @
     '' ORDER BY name ASC''"

definition sql_player :: string where
  "sql_player = ''SELECT player_id, account_id'' @
     '' FROM players'' @
     '' WHERE lower(name) = $1''"

definition db_load_account_info :: "libpq \<Rightarrow> bytes \<Rightarrow> pgsql \<Rightarrow> (nat option \<times> pgsql) option" where
  "db_load_account_info L accname s = do {
     n \<leftarrow> cstrlen accname;
     pgsql_validate_result (PQexecParams L sql_account_info (TextParam (take n accname)) s)
   }"

definition db_load_account_charlist :: "libpq \<Rightarrow> u32 \<Rightarrow> pgsql \<Rightarrow> (nat option \<times> pgsql) option" where
  "db_load_account_charlist L account_id s =
     pgsql_validate_result (PQexecParams L sql_account_charlist (BinaryParam (encode_u32_be account_id)) s)"

definition db_load_player :: "libpq \<Rightarrow> bytes \<Rightarrow> pgsql \<Rightarrow> (nat option \<times> pgsql) option" where
  "db_load_player L charname s = do {
     n \<leftarrow> cstrlen charname;
     pgsql_validate_result (PQexecParams L sql_player (TextParam (take n charname)) s)
   }"

subsection \<open>Invariant and effect of a query\<close>

definition pg_ok :: "pgsql \<Rightarrow> bool" where
  "pg_ok s \<longleftrightarrow> (\<forall>r \<ge> pg_fresh s. pg_results s r = None) \<and> (\<forall>h \<in> pg_handles s. h < pg_fresh s)
     \<and> (\<forall>h. pg_conn s = Some h \<longrightarrow> h \<in> pg_handles s)"

text \<open>The rows a query gives, if it is answered.\<close>

definition pg_answer :: "libpq \<Rightarrow> string \<Rightarrow> pg_param \<Rightarrow> pgsql \<Rightarrow> bytes list list option" where
  "pg_answer L sql param s =
     (if pg_conn s = None then None
      else case pq_exec L (pg_fresh s) sql param of Some (True, rows) \<Rightarrow> Some rows | _ \<Rightarrow> None)"

lemma query_answered:
  "pg_answer L sql param s = Some rows \<Longrightarrow> pgsql_validate_result (PQexecParams L sql param s)
     = Some (Some (pg_fresh s), s\<lparr>pg_results := (pg_results s)(pg_fresh s \<mapsto> rows), pg_fresh := pg_fresh s + 1\<rparr>)"
  by (auto simp: pg_answer_def PQexecParams_def pgsql_validate_result_def split: if_splits option.splits bool.splits)

lemma query_failed:
  assumes "pg_answer L sql param s = None" "pg_results s (pg_fresh s) = None"
  shows "\<exists>n \<ge> pg_fresh s. pgsql_validate_result (PQexecParams L sql param s) = Some (None, s\<lparr>pg_fresh := n\<rparr>)"
proof -
  have "(pg_results s)(pg_fresh s := None) = pg_results s" using assms(2) by auto
  then have r: "s\<lparr>pg_fresh := n, pg_results := (pg_results s)(pg_fresh s := None)\<rparr> = s\<lparr>pg_fresh := n\<rparr>" for n by simp
  have s: "s = s\<lparr>pg_fresh := pg_fresh s\<rparr>" by simp
  show ?thesis
  proof (cases "pg_conn s = None \<or> pq_exec L (pg_fresh s) sql param = None")
    case True
    then have "PQexecParams L sql param s = (None, s)" by (auto simp: PQexecParams_def)
    then show ?thesis using s by (auto simp: pgsql_validate_result_def)
  next
    case False
    then obtain h rows where "pg_conn s = Some h" "pq_exec L (pg_fresh s) sql param = Some (False, rows)"
      using assms(1) by (auto simp: pg_answer_def split: bool.splits)
    then have "pgsql_validate_result (PQexecParams L sql param s) = Some (None, s\<lparr>pg_fresh := pg_fresh s + 1\<rparr>)"
      using r by (simp add: PQexecParams_def pgsql_validate_result_def db_result_clear_def)
    then show ?thesis by (intro exI [of _ "pg_fresh s + 1"]) simp
  qed
qed

lemma result_cleared:
  assumes "pg_results s (pg_fresh s) = None"
  shows "db_result_clear (Some (pg_fresh s)) (s\<lparr>pg_results := (pg_results s)(pg_fresh s \<mapsto> rows), pg_fresh := n\<rparr>)
     = Some (s\<lparr>pg_fresh := n\<rparr>)"
proof -
  have "(pg_results s)(pg_fresh s := None) = pg_results s" using assms by auto
  then show ?thesis by (simp add: db_result_clear_def)
qed

lemma connect_cases:
  assumes "pgsql_param_values tab pgsql_params = Some kv" "pg_ok s" "pg_conn s = None"
  shows "db_internal_connect L tab s = (case pq_connect L kv of
      None \<Rightarrow> Some (False, s)
    | Some ok \<Rightarrow> Some (ok, s\<lparr>pg_conn := if ok then Some (pg_fresh s) else None,
        pg_handles := insert (pg_fresh s) (pg_handles s), pg_fresh := pg_fresh s + 1\<rparr>))"
  using assms(3) by (auto simp: db_internal_connect_def assms(1) Let_def split: option.split)

text \<open>The connection is asked for with the configured values.\<close>

lemma param_values:
  assumes "config_holds tab f" "\<forall>(k, p) \<in> set ps. k \<in> set default_keys \<and> k \<noteq> str ''pgsq''"
  shows "\<exists>kv. pgsql_param_values tab ps = Some kv \<and> list_all2 (\<lambda>(k, p) (p', v). p' = p \<and> cstr v (f k)) ps kv"
  using assms(2)
proof (induction ps)
  case (Cons kp ps)
  obtain k p where kp: "kp = (k, p)" by (cases kp)
  have k: "k \<in> set default_keys" "config_alias k = k" using Cons.prems by (auto simp: kp config_alias_def)
  have "k \<noteq> []" "0 \<notin> set k" using k(1) default_keys_short by blast+
  then obtain v where "config_get tab (k @ [0]) = Some v" "cstr v (f k)"
    using config_holds_get [OF assms(1) cstr_append0, of k "[]"] k by auto
  then show ?case using Cons by (auto simp: kp)
qed simp

lemma pgsql_param_keys: "\<forall>(k, p) \<in> set pgsql_params. k \<in> set default_keys \<and> k \<noteq> str ''pgsq''"
  by (simp add: pgsql_params_def default_keys_def default_vars_def str_def)

lemma pgsql_param_values:
  "config_holds tab f \<Longrightarrow> \<exists>kv. pgsql_param_values tab pgsql_params = Some kv
    \<and> list_all2 (\<lambda>(k, p) (p', v). p' = p \<and> cstr v (f k)) pgsql_params kv"
  by (rule param_values [OF _ pgsql_param_keys])

end
