(* ===== verification/Login_Database.thy ===== *)
theory Login_Database
  imports Pgsql Login_Properties
begin

text \<open>
  \<^verbatim>\<open>database_resolve_login\<close> of \<^verbatim>\<open>src/src/protocol_login.c\<close> on the results of \<^verbatim>\<open>src/src/db/pgsql.c\<close>: every
  call of the result interface, in order, on results that are allocated and cleared.  It refines the version of
  the login protocol, where a query just gives its rows.
\<close>

subsection \<open>The task, with its results\<close>

fun db_charlist_rows :: "login_env \<Rightarrow> pgsql \<Rightarrow> nat option \<Rightarrow> nat list \<Rightarrow> outbuf \<Rightarrow> outbuf option" where
  "db_charlist_rows env pg res [] buf = Some buf"
| "db_charlist_rows env pg res (i # is) buf = do {
     name \<leftarrow> db_result_get_value pg res i DBRES_ACC_CHARLIST_NAME;
     buf1 \<leftarrow> outbuf_write_str buf name;
     sv_name \<leftarrow> config_get (le_config env) (str ''sv_name'' @ [0]);
     buf2 \<leftarrow> outbuf_write_str buf1 sv_name;
     buf3 \<leftarrow> outbuf_write_u32 buf2 16777343;
     port \<leftarrow> config_geti (le_long_bits env) (le_config env) (str ''sv_game_port'' @ [0]);
     buf4 \<leftarrow> outbuf_write_u16 buf3 (ucast port);
     db_charlist_rows env pg res is buf4
   }"

definition db_charlist_text :: "login_env \<Rightarrow> pgsql \<Rightarrow> nat option \<Rightarrow> nat \<Rightarrow> outbuf \<Rightarrow> outbuf option" where
  "db_charlist_text env pg res nrows buf = do {
     buf1 \<leftarrow> outbuf_write_byte buf 0x14;
     motd \<leftarrow> config_get (le_config env) (str ''motd'' @ [0]);
     buf2 \<leftarrow> outbuf_write_str buf1 motd;
     buf3 \<leftarrow> outbuf_write_byte buf2 0x64;
     buf4 \<leftarrow> outbuf_write_byte buf3 (of_nat nrows);
     buf5 \<leftarrow> db_charlist_rows env pg res [0..<nrows] buf4;
     outbuf_write_u16 buf5 1
   }"

text \<open>The answer with the list of the characters of an account.\<close>

definition db_send_charlist ::
  "libpq \<Rightarrow> login_env \<Rightarrow> bool \<Rightarrow> nat \<Rightarrow> login_info \<Rightarrow> u32 \<Rightarrow> login_sys \<times> pgsql \<Rightarrow> (login_sys \<times> pgsql) option" where
  "db_send_charlist L env accepted p login accid = (\<lambda>(s, pg). do {
     (res, pg) \<leftarrow> db_load_account_charlist L accid pg;
     if res = None then do {
       s \<leftarrow> send_disconnect accepted p msg_internal s;
       Some (s, pg)
     }
     else do {
       nrows \<leftarrow> db_result_nrows pg res;
       let (b, s1) = acquire_output p login s;
       buf \<leftarrow> db_charlist_text env pg res nrows (outbuf_prepare (ls_bufs s1 b));
       buf' \<leftarrow> outbuf_wrap buf (li_xtea login);
       pg \<leftarrow> db_result_clear res pg;
       Some (game_add_server_task accepted p (put_buf b buf' s1), pg)
     }
   })"

definition db_resolve_login ::
  "libpq \<Rightarrow> login_env \<Rightarrow> bool \<Rightarrow> nat \<Rightarrow> login_sys \<times> pgsql \<Rightarrow> (login_sys \<times> pgsql) option" where
  "db_resolve_login L env accepted p = (\<lambda>(s, pg). do {
     login \<leftarrow> ls_logins s p;
     if li_accname login ! 0 = 0 then do {
       s \<leftarrow> send_disconnect accepted p msg_bad_name s;
       Some (s, pg)
     }
     else do {
       (res, pg) \<leftarrow> db_load_account_info L (li_accname login) pg;
       nrows \<leftarrow> db_result_nrows pg res;
       if res = None \<or> nrows = 0 then do {
         pg \<leftarrow> (if nrows = 0 then db_result_clear res pg else Some pg);
         s \<leftarrow> send_disconnect accepted p msg_not_correct s;
         Some (s, pg)
       }
       else do {
         accid \<leftarrow> db_result_get_int32 pg res 0 DBRES_ACC_INFO_ID;
         premend \<leftarrow> db_result_get_int64 pg res 0 DBRES_ACC_INFO_PREMEND;
         pwd \<leftarrow> db_result_get_value pg res 0 DBRES_ACC_INFO_PASSWORD;
         same \<leftarrow> strcmp_eq pwd (li_password login);
         pg \<leftarrow> db_result_clear res pg;
         if \<not> same then do {
           s \<leftarrow> send_disconnect accepted p msg_not_correct s;
           Some (s, pg)
         }
         else db_send_charlist L env accepted p login accid (s, pg)
       }
     }
   })"

subsection \<open>The answers of the database, as the login protocol sees them\<close>

text \<open>The columns of the queries, by the schema of the database: a 32-bit number, a 64-bit number and a string
  for an account, and a string for a character.\<close>

definition pq_schema :: "libpq \<Rightarrow> bool" where
  "pq_schema L \<longleftrightarrow>
     (\<forall>k param rows. pq_exec L k sql_account_info param = Some (True, rows) \<longrightarrow>
        (\<forall>row \<in> set rows. 3 \<le> length row \<and> 4 \<le> length (row ! 0) \<and> 8 \<le> length (row ! 1) \<and> 0 \<in> set (row ! 2)))
     \<and> (\<forall>k param rows. pq_exec L k sql_account_charlist param = Some (True, rows) \<longrightarrow>
        (\<forall>row \<in> set rows. 1 \<le> length row \<and> 0 \<in> set (row ! 0)))"

definition pg_env :: "libpq \<Rightarrow> pgsql \<Rightarrow> login_env \<Rightarrow> login_env" where
  "pg_env L pg env = env\<lparr>
     le_account_info := (\<lambda>name. map_option (map (\<lambda>row. (the (decode_u32_be (row ! 0)), row ! 2)))
       (pg_answer L sql_account_info (TextParam (take (the (cstrlen name)) name)) pg)),
     le_account_charlist := (\<lambda>accid. map_option (map (\<lambda>row. row ! 0))
       (pg_answer L sql_account_charlist (BinaryParam (encode_u32_be accid)) (pg\<lparr>pg_fresh := pg_fresh pg + 1\<rparr>)))\<rparr>"

lemma charlist_rows_db:
  assumes "pg_results pg r = Some rows" "\<forall>row \<in> set rows. 1 \<le> length row" "\<forall>i \<in> set is. i < length rows"
    "le_config env' = le_config env" "le_long_bits env' = le_long_bits env"
  shows "db_charlist_rows env pg (Some r) is buf = charlist_rows env' (map (\<lambda>i. rows ! i ! 0) is) buf"
  using assms(3)
proof (induction "is" arbitrary: buf)
  case (Cons i "is")
  then have "i < length rows" "0 < length (rows ! i)" using assms(2) by (auto simp: Suc_le_eq)
  then have "db_result_get_value pg (Some r) i DBRES_ACC_CHARLIST_NAME = Some (rows ! i ! 0)"
    using assms(1) by (simp add: db_result_get_value_def DBRES_ACC_CHARLIST_NAME_def)
  moreover have "db_charlist_rows env pg (Some r) is = charlist_rows env' (map (\<lambda>i. rows ! i ! 0) is)"
    using Cons by (intro ext) simp
  ultimately show ?case by (simp add: assms(4,5))
qed simp

lemma charlist_text_db:
  assumes "pg_results pg r = Some rows" "\<forall>row \<in> set rows. 1 \<le> length row"
    "le_config env' = le_config env" "le_long_bits env' = le_long_bits env"
  shows "db_charlist_text env pg (Some r) (length rows) buf = charlist_text env' (map (\<lambda>row. row ! 0) rows) buf"
proof -
  have "map (\<lambda>i. rows ! i ! 0) [0..<length rows] = map (\<lambda>row. row ! 0) (map (\<lambda>i. rows ! i) [0..<length rows])" by simp
  also have "\<dots> = map (\<lambda>row. row ! 0) rows" unfolding map_nth ..
  finally have m: "map (\<lambda>i. rows ! i ! 0) [0..<length rows] = map (\<lambda>row. row ! 0) rows" .
  have "\<forall>i \<in> set [0..<length rows]. i < length rows" by simp
  note rows = charlist_rows_db [OF assms(1,2) this assms(3,4), unfolded m]
  show ?thesis by (simp add: db_charlist_text_def charlist_text_def rows assms(3))
qed

text \<open>The answer with the list: an unanswered query, or one whose result is read, and cleared.\<close>

definition send_charlist :: "login_env \<Rightarrow> bool \<Rightarrow> nat \<Rightarrow> login_info \<Rightarrow> u32 \<Rightarrow> login_sys \<Rightarrow> login_sys option" where
  "send_charlist env accepted p login accid s =
     (case le_account_charlist env accid of
        None \<Rightarrow> send_disconnect accepted p msg_internal s
      | Some names \<Rightarrow> do {
          let (b, s1) = acquire_output p login s;
          buf \<leftarrow> charlist_text env names (outbuf_prepare (ls_bufs s1 b));
          buf' \<leftarrow> outbuf_wrap buf (li_xtea login);
          Some (game_add_server_task accepted p (put_buf b buf' s1))
        })"

lemma send_charlist_db:
  assumes "pq_schema L" "pg_results pg (pg_fresh pg) = None"
    "le_config env' = le_config env" "le_long_bits env' = le_long_bits env"
    "le_account_charlist env' accid = map_option (map (\<lambda>row. row ! 0))
      (pg_answer L sql_account_charlist (BinaryParam (encode_u32_be accid)) pg)"
  shows "\<exists>n \<ge> pg_fresh pg. db_send_charlist L env accepted p login accid (s, pg)
    = map_option (\<lambda>s'. (s', pg\<lparr>pg_fresh := n\<rparr>)) (send_charlist env' accepted p login accid s)"
proof (cases "pg_answer L sql_account_charlist (BinaryParam (encode_u32_be accid)) pg")
  case None
  obtain n where n: "pg_fresh pg \<le> n" "db_load_account_charlist L accid pg = Some (None, pg\<lparr>pg_fresh := n\<rparr>)"
    using query_failed [OF None assms(2)] unfolding db_load_account_charlist_def by blast
  have "db_send_charlist L env accepted p login accid (s, pg)
    = map_option (\<lambda>s'. (s', pg\<lparr>pg_fresh := n\<rparr>)) (send_charlist env' accepted p login accid s)"
    using None assms(5) n(2) by (cases "send_disconnect accepted p msg_internal s")
      (simp_all add: db_send_charlist_def send_charlist_def)
  then show ?thesis using n(1) by blast
next
  case (Some rows)
  let ?pg = "pg\<lparr>pg_results := (pg_results pg)(pg_fresh pg \<mapsto> rows), pg_fresh := pg_fresh pg + 1\<rparr>"
  have load: "db_load_account_charlist L accid pg = Some (Some (pg_fresh pg), ?pg)"
    using query_answered [OF Some] by (simp add: db_load_account_charlist_def)
  have "\<forall>row \<in> set rows. 1 \<le> length row"
    using Some assms(1) by (fastforce simp: pg_answer_def pq_schema_def split: if_splits option.splits bool.splits)
  moreover have "pg_results ?pg (pg_fresh pg) = Some rows" by simp
  ultimately have body: "db_charlist_text env ?pg (Some (pg_fresh pg)) (length rows) buf
      = charlist_text env' (map (\<lambda>row. row ! 0) rows) buf" for buf
    using charlist_text_db assms(3,4) by blast
  have nrows: "db_result_nrows ?pg (Some (pg_fresh pg)) = Some (length rows)" by (simp add: db_result_nrows_def)
  note clear = result_cleared [OF assms(2), of "pg_fresh pg + 1" rows]
  obtain b s1 where b: "acquire_output p login s = (b, s1)" by fastforce
  have "db_send_charlist L env accepted p login accid (s, pg)
    = map_option (\<lambda>s'. (s', pg\<lparr>pg_fresh := pg_fresh pg + 1\<rparr>)) (send_charlist env' accepted p login accid s)"
    using Some assms(5)
    by (simp add: db_send_charlist_def send_charlist_def load nrows b body clear map_option_bind comp_def del: One_nat_def)
  then show ?thesis by (intro exI [of _ "pg_fresh pg + 1"]) simp
qed

lemma cstrlen_total: "0 \<in> set s \<Longrightarrow> \<exists>n. cstrlen s = Some n"
  by (induction s) auto

lemma resolve_login_charlist:
  "database_resolve_login env accepted p s = do {
     login \<leftarrow> ls_logins s p;
     if li_accname login ! 0 = 0 then send_disconnect accepted p msg_bad_name s
     else (case le_account_info env (li_accname login) of
       None \<Rightarrow> send_disconnect accepted p msg_not_correct s
     | Some [] \<Rightarrow> send_disconnect accepted p msg_not_correct s
     | Some ((accid, pwd) # _) \<Rightarrow> do {
         same \<leftarrow> strcmp_eq pwd (li_password login);
         if \<not> same then send_disconnect accepted p msg_not_correct s
         else send_charlist env accepted p login accid s
       })
   }"
  by (simp only: database_resolve_login_def send_charlist_def)

subsection \<open>Properties\<close>

text \<open>C4: The task that answers a login does the same on the results of the database library as on their rows alone,
  and leaves no result of a query allocated, on any path.  It never uses one that is null or was cleared.\<close>

theorem db_resolve_login_refines:
  assumes "pq_schema L" "pg_ok pg" "\<forall>l. ls_logins s p = Some l \<longrightarrow> 0 \<in> set (li_accname l)"
  shows "\<exists>n \<ge> pg_fresh pg. db_resolve_login L env accepted p (s, pg)
    = map_option (\<lambda>s'. (s', pg\<lparr>pg_fresh := n\<rparr>)) (database_resolve_login (pg_env L pg env) accepted p s)"
proof (cases "ls_logins s p")
  case None
  then show ?thesis by (auto simp: db_resolve_login_def resolve_login_charlist)
next
  case login: (Some login)
  have fresh: "pg_results pg k = None" if "pg_fresh pg \<le> k" for k using assms(2) that by (simp add: pg_ok_def)
  have s: "pg = pg\<lparr>pg_fresh := pg_fresh pg\<rparr>" by simp
  have fail: "\<exists>n \<ge> pg_fresh pg. map_option (\<lambda>s. (s, pg\<lparr>pg_fresh := k\<rparr>)) x = map_option (\<lambda>s'. (s', pg\<lparr>pg_fresh := n\<rparr>)) x"
    if "pg_fresh pg \<le> k" for k and x :: "login_sys option" using that by blast
  let ?name = "li_accname login"
  obtain n where n: "cstrlen ?name = Some n" using assms(3) login cstrlen_total by blast
  let ?a = "pg_answer L sql_account_info (TextParam (take n ?name)) pg"
  have info: "le_account_info (pg_env L pg env) ?name = map_option (map (\<lambda>row. (the (decode_u32_be (row ! 0)), row ! 2))) ?a"
    by (simp add: pg_env_def n)
  show ?thesis
  proof (cases "?name ! 0 = 0")
    case True
    then show ?thesis using fail [of "pg_fresh pg" "send_disconnect accepted p msg_bad_name s"]
      by (simp add: db_resolve_login_def resolve_login_charlist login map_conv_bind_option comp_def)
  next
    case False
    show ?thesis
    proof (cases ?a)
      case None
      obtain k where k: "pg_fresh pg \<le> k" "db_load_account_info L ?name pg = Some (None, pg\<lparr>pg_fresh := k\<rparr>)"
        using query_failed [OF None fresh] n unfolding db_load_account_info_def by auto
      show ?thesis using fail [OF k(1), of "send_disconnect accepted p msg_not_correct s"] False None
        by (simp add: db_resolve_login_def resolve_login_charlist login info k(2) db_result_nrows_def db_result_clear_def
            map_conv_bind_option comp_def)
    next
      case (Some rows)
      define pgr where "pgr = pg\<lparr>pg_results := (pg_results pg)(pg_fresh pg \<mapsto> rows), pg_fresh := pg_fresh pg + 1\<rparr>"
      define pg1 where "pg1 = pg\<lparr>pg_fresh := pg_fresh pg + 1\<rparr>"
      have load: "db_load_account_info L ?name pg = Some (Some (pg_fresh pg), pgr)"
        using query_answered [OF Some] n by (simp add: db_load_account_info_def pgr_def)
      have nrows: "db_result_nrows pgr (Some (pg_fresh pg)) = Some (length rows)" by (simp add: db_result_nrows_def pgr_def)
      note clear = result_cleared [OF fresh [OF order_refl], of "pg_fresh pg + 1" rows, folded pgr_def pg1_def]
      show ?thesis
      proof (cases rows)
        case Nil
        show ?thesis using fail [of "pg_fresh pg + 1" "send_disconnect accepted p msg_not_correct s", folded pg1_def] False Some Nil clear
          by (simp add: db_resolve_login_def resolve_login_charlist login info load nrows map_conv_bind_option comp_def)
      next
        case (Cons row rows')
        have "3 \<le> length row \<and> 4 \<le> length (row ! 0) \<and> 8 \<le> length (row ! 1)"
          using Some assms(1) Cons by (fastforce simp: pg_answer_def pq_schema_def split: if_splits option.splits bool.splits)
        then obtain accid premend where v: "decode_u32_be (row ! 0) = Some accid" "decode_u64_be (row ! 1) = Some premend"
          "0 < length row" "1 < length row" "2 < length row" using u32_be.dec_total u64_be.dec_total by fastforce
        have get: "db_result_get_int32 pgr (Some (pg_fresh pg)) 0 DBRES_ACC_INFO_ID = Some accid"
          "db_result_get_int64 pgr (Some (pg_fresh pg)) 0 DBRES_ACC_INFO_PREMEND = Some premend"
          "db_result_get_value pgr (Some (pg_fresh pg)) 0 DBRES_ACC_INFO_PASSWORD = Some (row ! 2)"
          using v Cons by (simp_all add: db_result_get_int32_def db_result_get_int64_def db_result_get_value_def pgr_def
              DBRES_ACC_INFO_ID_def DBRES_ACC_INFO_PREMEND_def DBRES_ACC_INFO_PASSWORD_def)
        have i: "le_account_info (pg_env L pg env) ?name
            = Some ((accid, row ! 2) # map (\<lambda>row. (the (decode_u32_be (row ! 0)), row ! 2)) rows')"
          using info Some Cons v(1) by simp
        have n0: "length rows \<noteq> 0" using Cons by simp
        obtain m where m: "pg_fresh pg1 \<le> m" "db_send_charlist L env accepted p login accid (s, pg1)
            = map_option (\<lambda>s'. (s', pg1\<lparr>pg_fresh := m\<rparr>)) (send_charlist (pg_env L pg env) accepted p login accid s)"
          using send_charlist_db [OF assms(1), of pg1 "pg_env L pg env" env accid accepted p login s] fresh
          by (auto simp: pg_env_def pg1_def)
        show ?thesis
        proof (cases "strcmp_eq (row ! 2) (li_password login)")
          case None
          then show ?thesis using False n0
            by (auto simp: db_resolve_login_def resolve_login_charlist login i load nrows get)
        next
          case (Some same)
          show ?thesis
          proof (cases same)
            case True
            have "db_resolve_login L env accepted p (s, pg) = db_send_charlist L env accepted p login accid (s, pg1)"
              using False n0 Some True by (simp add: db_resolve_login_def login load nrows get clear)
            moreover have "database_resolve_login (pg_env L pg env) accepted p s
                = send_charlist (pg_env L pg env) accepted p login accid s"
              using False Some True by (simp add: resolve_login_charlist login i)
            ultimately show ?thesis using m by (intro exI [of _ m]) (simp add: pg1_def)
          next
            case neq: False
            show ?thesis using fail [of "pg_fresh pg + 1" "send_disconnect accepted p msg_not_correct s", folded pg1_def] False n0 Some neq
              by (simp add: db_resolve_login_def resolve_login_charlist login i load nrows get clear map_conv_bind_option comp_def)
          qed
        qed
      qed
    qed
  qed
qed

text \<open>A database with the account of the example and its character.\<close>

definition example_libpq :: libpq where
  "example_libpq = \<lparr>pq_connect = (\<lambda>_. Some True), pq_reset = (\<lambda>_. True),
     pq_exec = (\<lambda>_ sql _. if sql = sql_account_info
       then Some (True, [[encode_u32_be 1, encode_u64_be 0, str ''pw'' @ [0]]]) else Some (True, [[str ''Hero'' @ [0]]]))\<rparr>"

lemma example_libpq_schema: "pq_schema example_libpq"
proof -
  have "sql_account_charlist \<noteq> sql_account_info" by (simp add: sql_account_charlist_def sql_account_info_def)
  moreover have "length (encode_u32_be 1) = 4" "length (encode_u64_be 0) = 8" by simp_all
  ultimately show ?thesis by (simp add: pq_schema_def example_libpq_def)
qed

theorem db_resolve_login_refines_witness:
  "\<exists>n \<ge> 1. db_resolve_login example_libpq example_env True 0
      ((login_start example_mem)\<lparr>ls_logins := [0 \<mapsto> \<lparr>li_output = None, li_connection = 5, li_xtea = [1, 2, 3, 4],
          li_accname = str ''bob'' @ [0], li_password = str ''pw'' @ [0]\<rparr>]\<rparr>,
       \<lparr>pg_conn = Some 0, pg_handles = {0}, pg_results = (\<lambda>_. None), pg_fresh = 1\<rparr>)
    = map_option (\<lambda>s'. (s', \<lparr>pg_conn = Some 0, pg_handles = {0}, pg_results = (\<lambda>_. None), pg_fresh = n\<rparr>))
        (database_resolve_login (pg_env example_libpq
           \<lparr>pg_conn = Some 0, pg_handles = {0}, pg_results = (\<lambda>_. None), pg_fresh = 1\<rparr> example_env) True 0
         ((login_start example_mem)\<lparr>ls_logins := [0 \<mapsto> \<lparr>li_output = None, li_connection = 5, li_xtea = [1, 2, 3, 4],
            li_accname = str ''bob'' @ [0], li_password = str ''pw'' @ [0]\<rparr>]\<rparr>))"
proof -
  let ?pg = "\<lparr>pg_conn = Some 0, pg_handles = {0}, pg_results = (\<lambda>_. None), pg_fresh = 1\<rparr>"
  let ?l = "\<lparr>li_output = None, li_connection = 5, li_xtea = [1, 2, 3, 4],
      li_accname = str ''bob'' @ [0], li_password = str ''pw'' @ [0]\<rparr>"
  have "pg_ok ?pg" by (simp add: pg_ok_def)
  moreover have "\<forall>l. ls_logins ((login_start example_mem)\<lparr>ls_logins := [0 \<mapsto> ?l]\<rparr>) 0 = Some l \<longrightarrow> 0 \<in> set (li_accname l)"
    by auto
  ultimately show ?thesis
    using db_resolve_login_refines [OF example_libpq_schema, of ?pg
        "(login_start example_mem)\<lparr>ls_logins := [0 \<mapsto> ?l]\<rparr>" 0 example_env True] by simp
qed

end
