(* ===== verification/Database.thy ===== *)
theory Database
  imports Pgsql Task_Rbuffer
begin

text \<open>
  The database thread, \<^verbatim>\<open>src/src/db/database.c\<close>: its connection, its task queue, and the loop that runs the
  tasks.
\<close>

subsection \<open>Start and stop\<close>

definition MAX_DB_TASKS :: u32 where "MAX_DB_TASKS = 1024"

text \<open>\<open>db_rings\<close> counts the queues allocated and not destroyed, \<open>db_thr\<close> is whether the thread was started and
  not joined.  A pointer to a destroyed queue stays in \<^verbatim>\<open>dbtasks\<close>; it is \<^theory_text>\<open>None\<close> here.\<close>

record 't db_module =
  db_pg :: pgsql
  dbtasks :: "'t task_rbuffer option"
  db_rings :: nat
  db_thr :: bool

definition db_start :: "'t db_module" where
  "db_start = \<lparr>db_pg = pgsql_start, dbtasks = None, db_rings = 0, db_thr = False\<rparr>"

definition task_rbuffer_destroy :: "'t db_module \<Rightarrow> 't db_module" where
  "task_rbuffer_destroy s = s\<lparr>dbtasks := None, db_rings := db_rings s - 1\<rparr>"

definition db_init :: "libpq \<Rightarrow> config_table \<Rightarrow> (nat \<Rightarrow> 't) \<Rightarrow> bool \<Rightarrow> 't db_module \<Rightarrow> (bool \<times> 't db_module) option" where
  "db_init L tab junk thread_started s = do {
     (ok, pg) \<leftarrow> db_internal_connect L tab (db_pg s);
     let s = s\<lparr>db_pg := pg\<rparr>;
     if \<not> ok then Some (False, s)
     else do {
       rb \<leftarrow> task_rbuffer_create junk MAX_DB_TASKS;
       let s = s\<lparr>dbtasks := Some rb, db_rings := db_rings s + 1\<rparr>;
       if \<not> thread_started then do {
         let s = task_rbuffer_destroy s;
         Some (False, s\<lparr>db_pg := db_internal_connection_close (db_pg s)\<rparr>)
       }
       else Some (True, s\<lparr>db_thr := True\<rparr>)
     }
   }"

text \<open>\<^verbatim>\<open>thread_join\<close> returns once the loop of the thread has ended, which is shown below.\<close>

definition db_shutdown :: "'t db_module \<Rightarrow> 't db_module option" where
  "db_shutdown s = do {
     rb \<leftarrow> dbtasks s;
     let s = s\<lparr>dbtasks := Some (task_rbuffer_set_inactive rb)\<rparr>;
     let s = s\<lparr>db_thr := False\<rparr>;
     Some (s\<lparr>db_pg := db_internal_connection_close (db_pg s)\<rparr>)
   }"

subsection \<open>The thread\<close>

text \<open>\<^verbatim>\<open>db_thread\<close> is between two calls of \<^verbatim>\<open>task_rbuffer_run_one\<close>, waits in one or was woken up, executes a task,
  or has left the loop.  The other threads add tasks, without waiting, and shut down.\<close>

datatype 't db_thread = DbLoop | DbWaits | DbWoken | DbRuns 't | DbEnded

record 't db_world =
  dw_ring :: "'t task_rbuffer"
  dw_thread :: "'t db_thread"
  dw_added :: "'t list"
  dw_done :: "'t list"

fun db_section :: "'t option section_result \<times> 't task_rbuffer \<Rightarrow> 't db_world \<Rightarrow> 't db_world" where
  "db_section (Waits, rb) w = w\<lparr>dw_ring := rb, dw_thread := DbWaits\<rparr>"
| "db_section (Returns None sg, rb) w = w\<lparr>dw_ring := rb, dw_thread := DbEnded\<rparr>"
| "db_section (Returns (Some t) sg, rb) w = w\<lparr>dw_ring := rb, dw_thread := DbRuns t\<rparr>"

definition db_thread_step :: "'t db_world \<Rightarrow> 't db_world" where
  "db_thread_step w =
     (case dw_thread w of
        DbLoop \<Rightarrow> db_section (run_enter (dw_ring w)) w
      | DbWoken \<Rightarrow> db_section (run_resume (dw_ring w)) w
      | DbRuns t \<Rightarrow> w\<lparr>dw_thread := DbLoop, dw_done := dw_done w @ [t]\<rparr>
      | DbWaits \<Rightarrow> w
      | DbEnded \<Rightarrow> w)"

definition db_wake :: "bool \<Rightarrow> 't db_thread \<Rightarrow> 't db_thread" where
  "db_wake signal th = (if signal \<and> th = DbWaits then DbWoken else th)"

definition db_add_task :: "'t \<Rightarrow> 't db_world \<Rightarrow> (bool \<times> 't db_world) option" where
  "db_add_task t w =
     (case push_enter t (dw_ring w) of
        (Returns r sg, rb) \<Rightarrow> Some (r, w\<lparr>dw_ring := rb, dw_thread := db_wake sg (dw_thread w),
            dw_added := dw_added w @ (if r then [t] else [])\<rparr>)
      | (Waits, rb) \<Rightarrow> None)"

definition db_stop :: "'t db_world \<Rightarrow> 't db_world" where
  "db_stop w = w\<lparr>dw_ring := task_rbuffer_set_inactive (dw_ring w), dw_thread := db_wake True (dw_thread w)\<rparr>"

inductive dbt_reach :: "(nat \<Rightarrow> 't) \<Rightarrow> 't db_world \<Rightarrow> bool" for junk where
  db_begin: "task_rbuffer_create junk MAX_DB_TASKS = Some rb \<Longrightarrow>
    dbt_reach junk \<lparr>dw_ring = rb, dw_thread = DbLoop, dw_added = [], dw_done = []\<rparr>"
| db_adds: "dbt_reach junk w \<Longrightarrow> db_add_task t w = Some (r, w') \<Longrightarrow> dbt_reach junk w'"
| db_works: "dbt_reach junk w \<Longrightarrow> dbt_reach junk (db_thread_step w)"
| db_stops: "dbt_reach junk w \<Longrightarrow> dbt_reach junk (db_stop w)"

subsection \<open>What every reachable state satisfies\<close>

definition running :: "'t db_thread \<Rightarrow> 't list" where
  "running th = (case th of DbRuns t \<Rightarrow> [t] | _ \<Rightarrow> [])"

definition dbt_inv :: "'t db_world \<Rightarrow> bool" where
  "dbt_inv w \<longleftrightarrow> rb_ok (dw_ring w) \<and> dw_added w = dw_done w @ running (dw_thread w) @ rb_content (dw_ring w)
     \<and> (dw_thread w = DbEnded \<longrightarrow> \<not> rb_active (dw_ring w))
     \<and> (dw_thread w = DbWaits \<longrightarrow> rb_active (dw_ring w) \<and> rb_content (dw_ring w) = [])"

lemma running_simps [simp]:
  "running DbLoop = []" "running DbWaits = []" "running DbWoken = []" "running DbEnded = []" "running (DbRuns t) = [t]"
  by (simp_all add: running_def)

lemma dbt_inv_section:
  assumes "dbt_inv w" "running (dw_thread w) = []"
    "run_enter (dw_ring w) = (res, rb) \<or> run_resume (dw_ring w) = (res, rb)"
  shows "dbt_inv (db_section (res, rb) w)"
proof -
  note sec = run_section [OF _ assms(3)]
  have ok: "rb_ok (dw_ring w)" using assms(1) by (simp add: dbt_inv_def)
  show ?thesis using assms(1,2) sec [OF ok]
    by (cases "((res, rb), w)" rule: db_section.cases) (auto simp: dbt_inv_def)
qed

lemma dbt_inv_add:
  assumes "dbt_inv w" "db_add_task t w = Some (r, w')"
  shows "dbt_inv w' \<and> r = rb_active (dw_ring w) \<and> rb_active (dw_ring w') = rb_active (dw_ring w)
    \<and> dw_added w' = dw_added w @ (if r then [t] else [])"
proof -
  have ok: "rb_ok (dw_ring w)" using assms(1) by (simp add: dbt_inv_def)
  obtain sg rb where p: "push_enter t (dw_ring w) = (Returns r sg, rb)"
    "w' = w\<lparr>dw_ring := rb, dw_thread := db_wake sg (dw_thread w), dw_added := dw_added w @ (if r then [t] else [])\<rparr>"
    using assms(2) by (auto simp: db_add_task_def split: prod.splits section_result.splits)
  have sg: "rb_active (dw_ring w) \<Longrightarrow> rb_content (dw_ring w) = [] \<Longrightarrow> sg"
    using p(1) rb_empty_content [of "dw_ring w"] by (auto simp: push_enter_def split: if_splits)
  have "running (db_wake sg th) = running th" for th :: "'a db_thread"
    by (simp add: db_wake_def)
  then show ?thesis using assms(1) push_section [OF ok disjI1 [OF p(1)]] sg
    by (auto simp: p(2) dbt_inv_def db_wake_def)
qed

lemma db_section_keeps:
  assumes "dbt_inv w" "run_enter (dw_ring w) = (res, rb) \<or> run_resume (dw_ring w) = (res, rb)"
  shows "dw_added (db_section (res, rb) w) = dw_added w" "dw_done (db_section (res, rb) w) = dw_done w"
    "rb_active (dw_ring (db_section (res, rb) w)) = rb_active (dw_ring w)"
    "dw_thread (db_section (res, rb) w) = (if \<not> rb_active (dw_ring w) then DbEnded
       else case rb_content (dw_ring w) of [] \<Rightarrow> DbWaits | t # ts \<Rightarrow> DbRuns t)"
    "rb_active (dw_ring w) \<Longrightarrow> rb_content (dw_ring (db_section (res, rb) w)) = tl (rb_content (dw_ring w))"
proof -
  have "rb_ok (dw_ring w)" using assms(1) by (simp add: dbt_inv_def)
  note sec = run_section [OF this assms(2)]
  have "res = Waits \<longleftrightarrow> rb_active (dw_ring w) \<and> rb_content (dw_ring w) = []"
    using assms(2) rb_empty_content [of "dw_ring w"] by (auto simp: run_enter_def run_resume_def split: if_splits)
  with sec show "dw_added (db_section (res, rb) w) = dw_added w" "dw_done (db_section (res, rb) w) = dw_done w"
    "rb_active (dw_ring (db_section (res, rb) w)) = rb_active (dw_ring w)"
    "dw_thread (db_section (res, rb) w) = (if \<not> rb_active (dw_ring w) then DbEnded
       else case rb_content (dw_ring w) of [] \<Rightarrow> DbWaits | t # ts \<Rightarrow> DbRuns t)"
    "rb_active (dw_ring w) \<Longrightarrow> rb_content (dw_ring (db_section (res, rb) w)) = tl (rb_content (dw_ring w))"
    by (cases "((res, rb), w)" rule: db_section.cases; auto)+
qed

lemma db_step_cases:
  obtains (sect) res rb where "dw_thread w = DbLoop \<or> dw_thread w = DbWoken"
      "run_enter (dw_ring w) = (res, rb) \<or> run_resume (dw_ring w) = (res, rb)"
      "db_thread_step w = db_section (res, rb) w"
  | (runs) t where "dw_thread w = DbRuns t" "db_thread_step w = w\<lparr>dw_thread := DbLoop, dw_done := dw_done w @ [t]\<rparr>"
  | (still) "dw_thread w = DbWaits \<or> dw_thread w = DbEnded" "db_thread_step w = w"
proof (cases "dw_thread w")
  case DbLoop
  then show thesis by (cases "run_enter (dw_ring w)") (auto simp: db_thread_step_def intro: sect)
next
  case DbWoken
  then show thesis by (cases "run_resume (dw_ring w)") (auto simp: db_thread_step_def intro: sect)
qed (auto simp: db_thread_step_def intro: runs still)

lemma dbt_inv_step: "dbt_inv w \<Longrightarrow> dbt_inv (db_thread_step w)"
proof -
  assume inv: "dbt_inv w"
  show ?thesis
  proof (cases rule: db_step_cases [of w])
    case (sect res rb)
    then show ?thesis using dbt_inv_section [OF inv _ sect(2)] by auto
  next
    case (runs t)
    then show ?thesis using inv by (auto simp: dbt_inv_def)
  next
    case still
    then show ?thesis using inv by simp
  qed
qed

lemma set_inactive_keeps:
  "rb_ok (task_rbuffer_set_inactive rb) = rb_ok rb" "rb_content (task_rbuffer_set_inactive rb) = rb_content rb"
  "\<not> rb_active (task_rbuffer_set_inactive rb)"
  by (simp_all add: task_rbuffer_set_inactive_def rb_ok_def rb_content_def rb_count_def)

lemma dbt_inv_stop: "dbt_inv w \<Longrightarrow> dbt_inv (db_stop w)"
  by (cases "dw_thread w") (simp_all add: dbt_inv_def db_stop_def db_wake_def set_inactive_keeps)

lemma dbt_inv_reach: "dbt_reach junk w \<Longrightarrow> dbt_inv w"
proof (induction rule: dbt_reach.induct)
  case (db_begin rb)
  then show ?case using task_rbuffer_create_ok [OF db_begin] by (simp add: dbt_inv_def)
next
  case (db_adds w t r w')
  from dbt_inv_add [OF db_adds(3,2)] show ?case by simp
qed (simp_all add: dbt_inv_step dbt_inv_stop)

subsection \<open>Every task is served\<close>

text \<open>How many steps of its own the thread needs to have an empty queue and wait.\<close>

definition db_need :: "'t db_world \<Rightarrow> nat" where
  "db_need w = (case dw_thread w of DbWaits \<Rightarrow> 0 | DbRuns t \<Rightarrow> 2 | _ \<Rightarrow> 1) + 2 * length (rb_content (dw_ring w))"

lemma db_step_active:
  assumes "dbt_inv w" "rb_active (dw_ring w)"
  shows "rb_active (dw_ring (db_thread_step w)) \<and> dw_added (db_thread_step w) = dw_added w
    \<and> (dw_thread w = DbWaits \<or> db_need (db_thread_step w) < db_need w)"
proof (cases rule: db_step_cases [of w])
  case (sect res rb)
  note k = db_section_keeps [OF assms(1) sect(2)]
  have "db_need (db_section (res, rb) w) < db_need w"
    using k(4,5) assms(2) sect(1) unfolding db_need_def by (auto split: list.splits)
  then show ?thesis using k(1,3) sect(3) assms(2) by simp
next
  case (runs t)
  then show ?thesis using assms(2) by (simp add: db_need_def)
next
  case still
  then show ?thesis using assms by (auto simp: dbt_inv_def)
qed

lemma db_serves:
  assumes "dbt_inv w" "rb_active (dw_ring w)" "db_need w \<le> n"
  shows "dw_thread ((db_thread_step ^^ n) w) = DbWaits \<and> dw_done ((db_thread_step ^^ n) w) = dw_added w"
  using assms
proof (induction n arbitrary: w)
  case 0
  then have "dw_thread w = DbWaits" "rb_content (dw_ring w) = []"
    by (auto simp: db_need_def split: db_thread.splits)
  then show ?case using 0(1) by (simp add: dbt_inv_def)
next
  case (Suc n)
  note s = db_step_active [OF Suc.prems(1,2)]
  have "db_need (db_thread_step w) \<le> n"
  proof (cases "dw_thread w = DbWaits")
    case True
    then have "db_need (db_thread_step w) = 0" using Suc.prems(1) by (simp add: db_thread_step_def dbt_inv_def db_need_def)
    then show ?thesis by simp
  qed (use s Suc.prems(3) in auto)
  then show ?case using Suc.IH [OF dbt_inv_step [OF Suc.prems(1)]] s by (simp only: funpow_Suc_right comp_def)
qed

lemma db_ends:
  assumes "dbt_inv w" "\<not> rb_active (dw_ring w)"
  shows "dw_thread ((db_thread_step ^^ 2) w) = DbEnded
    \<and> dw_done ((db_thread_step ^^ 2) w) = dw_done w @ running (dw_thread w)"
proof -
  have one: "dw_thread (db_thread_step v) = DbEnded \<and> dw_done (db_thread_step v) = dw_done v"
    if "dbt_inv v" "\<not> rb_active (dw_ring v)" "running (dw_thread v) = []" for v :: "'a db_world"
  proof (cases rule: db_step_cases [of v])
    case (sect res rb)
    then show ?thesis using db_section_keeps [OF that(1) sect(2)] that(2) by simp
  qed (use that in \<open>auto simp: dbt_inv_def\<close>)
  have two: "(db_thread_step ^^ 2) w = db_thread_step (db_thread_step w)" by (simp add: numeral_2_eq_2)
  show ?thesis
  proof (cases "running (dw_thread w) = []")
    case True
    then have "dw_thread (db_thread_step w) = DbEnded \<and> dw_done (db_thread_step w) = dw_done w" using one assms by blast
    then show ?thesis unfolding two using True by (simp add: db_thread_step_def [of "db_thread_step w"])
  next
    case False
    then obtain t where t: "dw_thread w = DbRuns t" by (cases "dw_thread w") auto
    then have "db_thread_step w = w\<lparr>dw_thread := DbLoop, dw_done := dw_done w @ [t]\<rparr>" by (simp add: db_thread_step_def)
    then show ?thesis unfolding two using one [OF dbt_inv_step [OF assms(1)]] assms(2) t by simp
  qed
qed

subsection \<open>Properties\<close>

lemma create_db_tasks:
  "\<exists>rb. task_rbuffer_create junk MAX_DB_TASKS = Some rb \<and> rb_ok rb \<and> rb_content rb = [] \<and> rb_active rb \<and> rb_capacity rb = 1024"
proof -
  have "IS_POWER_OF_TWO MAX_DB_TASKS" by (simp add: IS_POWER_OF_TWO_def MAX_DB_TASKS_def)
  then obtain rb where rb: "task_rbuffer_create junk MAX_DB_TASKS = Some rb" by (simp add: task_rbuffer_create_def)
  from task_rbuffer_create_ok [OF this] rb show ?thesis by (simp add: MAX_DB_TASKS_def)
qed

text \<open>C14: \<^verbatim>\<open>db_init\<close> asks for a connection with the configured values.  It succeeds exactly if it is made and the thread
  starts, with an empty queue of 1024 tasks, and \<^verbatim>\<open>db_shutdown\<close> then gives everything back but the queue.  Else it
  keeps no thread, no queue and no connection, except that the handle of a refused connection is never
  finished.\<close>

theorem db_init_ledger:
  fixes junk :: "nat \<Rightarrow> 't"
  assumes "config_holds tab f"
  shows "\<exists>kv ok s. list_all2 (\<lambda>(k, p) (p', v). p' = p \<and> cstr v (f k)) pgsql_params kv
    \<and> db_init L tab junk thread_started db_start = Some (ok, s) \<and> (ok \<longleftrightarrow> pq_connect L kv = Some True \<and> thread_started)
    \<and> (ok \<longrightarrow> db_thr s \<and> pg_conn (db_pg s) = Some 0 \<and> pg_handles (db_pg s) = {0}
        \<and> (\<exists>rb. dbtasks s = Some rb \<and> rb_ok rb \<and> rb_content rb = [] \<and> rb_active rb \<and> rb_capacity rb = 1024)
        \<and> (\<exists>s'. db_shutdown s = Some s' \<and> \<not> db_thr s' \<and> pg_handles (db_pg s') = {} \<and> db_rings s' = 1))
    \<and> (\<not> ok \<longrightarrow> \<not> db_thr s \<and> dbtasks s = None \<and> db_rings s = 0 \<and> pg_conn (db_pg s) = None
        \<and> pg_handles (db_pg s) = (if pq_connect L kv = Some False then {0} else {}))"
proof -
  obtain kv where kv: "pgsql_param_values tab pgsql_params = Some kv"
    "list_all2 (\<lambda>(k, p) (p', v). p' = p \<and> cstr v (f k)) pgsql_params kv" using pgsql_param_values [OF assms] by blast
  obtain rb where rb: "task_rbuffer_create junk MAX_DB_TASKS = Some rb" "rb_ok rb" "rb_content rb = []" "rb_active rb"
    "rb_capacity rb = 1024" using create_db_tasks by blast
  have c: "db_internal_connect L tab pgsql_start = (case pq_connect L kv of
      None \<Rightarrow> Some (False, pgsql_start)
    | Some ok \<Rightarrow> Some (ok, pgsql_start\<lparr>pg_conn := if ok then Some 0 else None, pg_handles := {0}, pg_fresh := 1\<rparr>))"
    using connect_cases [OF kv(1), of pgsql_start L] by (simp add: pg_ok_def pgsql_start_def split: option.split)
  show ?thesis
  proof (cases "pq_connect L kv = Some True")
    case True
    then have "db_init L tab junk thread_started db_start = (if thread_started
        then Some (True, \<lparr>db_pg = pgsql_start\<lparr>pg_conn := Some 0, pg_handles := {0}, pg_fresh := 1\<rparr>,
          dbtasks = Some rb, db_rings = 1, db_thr = True\<rparr>)
        else Some (False, \<lparr>db_pg = pgsql_start\<lparr>pg_conn := None, pg_handles := {}, pg_fresh := 1\<rparr>,
          dbtasks = None, db_rings = 0, db_thr = False\<rparr>))"
      using c rb(1) by (simp add: db_init_def db_start_def task_rbuffer_destroy_def db_internal_connection_close_def Let_def)
    then show ?thesis using kv(2) True rb(2-5)
      by (intro exI [of _ kv]) (auto simp: db_shutdown_def db_internal_connection_close_def pgsql_start_def)
  next
    case False
    then have "db_init L tab junk thread_started db_start = Some (False, db_start\<lparr>db_pg := (if pq_connect L kv = Some False
        then pgsql_start\<lparr>pg_conn := None, pg_handles := {0}, pg_fresh := 1\<rparr> else pgsql_start)\<rparr>)"
      using c by (cases "pq_connect L kv") (auto simp: db_init_def db_start_def Let_def)
    then show ?thesis using kv(2) False
      by (intro exI [of _ kv]) (auto simp: db_start_def pgsql_start_def)
  qed
qed



theorem db_init_ledger_witness:
  "\<exists>tab s. config_init example_argv = Some tab \<and> db_init \<lparr>pq_connect = (\<lambda>kv. Some False), pq_reset = (\<lambda>_. True),
     pq_exec = (\<lambda>_ _ _. None)\<rparr> tab (\<lambda>_. 0 :: nat) True db_start = Some (False, s) \<and> pg_handles (db_pg s) = {0}"
proof -
  obtain tab where tab: "config_init example_argv = Some tab" "config_holds tab (fold arg_update (tl example_args) default_value)"
    using config_init_holds [OF example_argv_cstr] by blast
  show ?thesis
    using db_init_ledger [OF tab(2), of "\<lparr>pq_connect = (\<lambda>kv. Some False), pq_reset = (\<lambda>_. True), pq_exec = (\<lambda>_ _ _. None)\<rparr>"
        "\<lambda>_. 0" True] tab(1) by auto
qed

end
