(* ===== verification/Game.thy ===== *)
theory Game
  imports Task_Dbuffer Server "HOL-Library.Signed_Division"
begin

text \<open>
  The game thread, \<^verbatim>\<open>src/src/game.c\<close>: its two task queues, the frames of its loop, and the frame statistics
  of the debug build.  The readings of the clock are arguments.
\<close>

subsection \<open>Queues\<close>

definition MAX_GAME_TASKS :: u32 where "MAX_GAME_TASKS = 1024"
definition MAX_SERVER_TASKS :: u32 where "MAX_SERVER_TASKS = 1024"

text \<open>The pointers to the queues are \<^theory_text>\<open>None\<close> while they are \<^verbatim>\<open>NULL\<close>.\<close>

record ('g, 's) game =
  game_tasks :: "'g task_dbuffer option"
  server_tasks :: "'s task_dbuffer option"

definition game_start :: "('g, 's) game" where
  "game_start = \<lparr>game_tasks = None, server_tasks = None\<rparr>"

definition game_init :: "(nat \<Rightarrow> 'g) \<Rightarrow> (nat \<Rightarrow> 's) \<Rightarrow> ('g, 's) game \<Rightarrow> bool \<times> ('g, 's) game" where
  "game_init junk junk' s = (True, s\<lparr>game_tasks := Some (task_dbuffer_create junk MAX_GAME_TASKS),
     server_tasks := Some (task_dbuffer_create junk' MAX_SERVER_TASKS)\<rparr>)"

text \<open>\<^verbatim>\<open>game_shutdown\<close> leaves the pointers to the freed queues, which are not used again.\<close>

definition game_shutdown :: "('g, 's) game \<Rightarrow> ('g, 's) game" where
  "game_shutdown s = s\<lparr>game_tasks := None, server_tasks := None\<rparr>"

text \<open>A call with a null queue is undefined behaviour.\<close>

definition game_add_task :: "'g \<Rightarrow> ('g, 's) game \<Rightarrow> (add_result \<times> ('g, 's) game) option" where
  "game_add_task t s = map_option (\<lambda>b. (fst (task_dbuffer_add t b), s\<lparr>game_tasks := Some (snd (task_dbuffer_add t b))\<rparr>)) (game_tasks s)"

definition game_add_server_task_queue :: "'s \<Rightarrow> ('g, 's) game \<Rightarrow> (add_result \<times> ('g, 's) game) option" where
  "game_add_server_task_queue t s = map_option (\<lambda>b. (fst (task_dbuffer_add t b), s\<lparr>server_tasks := Some (snd (task_dbuffer_add t b))\<rparr>)) (server_tasks s)"

text \<open>\<^verbatim>\<open>task_dbuffer_swap_and_run\<close> by the only thread that calls it: the tasks it runs.\<close>

definition swap_and_run :: "'t task_dbuffer \<Rightarrow> 't list \<times> 't task_dbuffer" where
  "swap_and_run b = (let ((idx, count, broadcast), b') = swap_section b in (take (unat count) (db_buffer b' ! idx), b'))"

definition server_maintenance_routine :: "('g, 's) game \<Rightarrow> ('s list \<times> ('g, 's) game) option" where
  "server_maintenance_routine s = map_option (\<lambda>b. (fst (swap_and_run b), s\<lparr>server_tasks := Some (snd (swap_and_run b))\<rparr>)) (server_tasks s)"

subsection \<open>Statistics\<close>

type_synonym s64 = "64 word"

definition stats_step :: "s64 \<Rightarrow> s64 \<times> s64 \<times> s64 \<Rightarrow> s64 \<times> s64 \<times> s64" where
  "stats_step x = (\<lambda>(avg, mn, mx).
     (avg + x, if sint x < sint mn then x else mn, if \<not> sint x < sint mn \<and> sint x > sint mx then x else mx))"

text \<open>\<open>(avg, min, max)\<close> of a non-empty array; the division rounds towards zero.\<close>

definition calc_stats :: "s64 list \<Rightarrow> s64 \<times> s64 \<times> s64" where
  "calc_stats data =
     (let (avg, mn, mx) = fold stats_step (tl data) (hd data, hd data, hd data)
      in (word_of_int (sint avg sdiv int (length data)), mn, mx))"

definition GAME_FRAME_INTERVAL :: s64 where "GAME_FRAME_INTERVAL = 33"
definition GAME_MAX_FPS :: nat where "GAME_MAX_FPS = 1000 div 33 + 1"

record frame_stats =
  frame_user_time :: "s64 list"
  frame_idle_time :: "s64 list"
  num_frames :: nat

text \<open>The end of a frame: what is logged, of the user and of the idle times, and \<^theory_text>\<open>None\<close> for a store outside
  the arrays.\<close>

definition frame_statistics ::
  "s64 \<Rightarrow> s64 \<Rightarrow> s64 \<Rightarrow> frame_stats \<Rightarrow> (((s64 \<times> s64 \<times> s64) \<times> (s64 \<times> s64 \<times> s64)) option \<times> frame_stats) option" where
  "frame_statistics frame_start frame_end next_frame s =
     (let (out, s) =
        (if num_frames s \<ge> GAME_MAX_FPS
         then (Some (calc_stats (take (num_frames s) (frame_user_time s)), calc_stats (take (num_frames s) (frame_idle_time s))),
               s\<lparr>num_frames := 0\<rparr>)
         else (None, s))
      in if num_frames s < length (frame_user_time s) \<and> num_frames s < length (frame_idle_time s)
         then Some (out, s\<lparr>frame_user_time := (frame_user_time s)[num_frames s := frame_end - frame_start],
                frame_idle_time := (frame_idle_time s)[num_frames s := next_frame - frame_end],
                num_frames := num_frames s + 1\<rparr>)
         else None)"

definition frame_stats_start :: frame_stats where
  "frame_stats_start = \<lparr>frame_user_time = replicate GAME_MAX_FPS 0, frame_idle_time = replicate GAME_MAX_FPS 0, num_frames = 0\<rparr>"

subsection \<open>Frames\<close>

datatype server_task = Server_maintenance

record 'g game_loop =
  gl_tasks :: "'g task_dbuffer"
  gl_server :: "server_task server_ctl"
  gl_stats :: frame_stats

record 'g frame_result =
  fr_ran :: "'g list"
  fr_sleep :: "s64 option"
  fr_logged :: "((s64 \<times> s64 \<times> s64) \<times> (s64 \<times> s64 \<times> s64)) option"

definition game_frame :: "s64 \<Rightarrow> s64 \<Rightarrow> 'g game_loop \<Rightarrow> ('g frame_result \<times> 'g game_loop) option" where
  "game_frame frame_start frame_end s = do {
     let next_frame = frame_start + GAME_FRAME_INTERVAL;
     let s = s\<lparr>gl_server := server_exec Server_maintenance (gl_server s)\<rparr>;
     let (ran, b) = swap_and_run (gl_tasks s);
     let s = s\<lparr>gl_tasks := b\<rparr>;
     let sleep = (if sint frame_end < sint next_frame then Some (next_frame - frame_end) else None);
     (logged, stats) \<leftarrow> frame_statistics frame_start frame_end next_frame (gl_stats s);
     Some (\<lparr>fr_ran = ran, fr_sleep = sleep, fr_logged = logged\<rparr>, s\<lparr>gl_stats := stats\<rparr>)
   }"

text \<open>The loop, on the clock readings of its frames.\<close>

primrec game_run :: "(s64 \<times> s64) list \<Rightarrow> 'g game_loop \<Rightarrow> ('g frame_result list \<times> 'g game_loop) option" where
  "game_run [] s = Some ([], s)"
| "game_run (t # ts) s = do {
     (r, s) \<leftarrow> game_frame (fst t) (snd t) s;
     (rs, s) \<leftarrow> game_run ts s;
     Some (r # rs, s)
   }"

subsection \<open>The queue of a frame\<close>

lemma swap_and_run_queued:
  assumes "db_ok b"
  shows "fst (swap_and_run b) = queued b \<and> db_ok (snd (swap_and_run b)) \<and> queued (snd (swap_and_run b)) = []
    \<and> db_active (snd (swap_and_run b)) = db_active b \<and> db_max_tasks (snd (swap_and_run b)) = db_max_tasks b"
proof -
  obtain c0 c1 where c: "db_count b = [c0, c1]" using assms length_2_conv [of "db_count b"] by (auto simp: db_ok_def)
  obtain b0 b1 where q: "db_buffer b = [b0, b1]" using assms length_2_conv [of "db_buffer b"] by (auto simp: db_ok_def)
  have all2: "(\<forall>i < 2. P i) \<longleftrightarrow> P 0 \<and> P (1 :: nat)" for P by (auto simp: less_2_cases_iff)
  have "db_write_idx b = 0 \<or> db_write_idx b = 1" using assms by (auto simp: db_ok_def)
  then show ?thesis
  proof
    assume "db_write_idx b = 0"
    then show ?thesis using assms c q by (simp add: swap_and_run_def swap_section_def Let_def queued_def db_ok_def all2)
  next
    assume "db_write_idx b = 1"
    then show ?thesis using assms c q by (simp add: swap_and_run_def swap_section_def Let_def queued_def db_ok_def all2)
  qed
qed

lemma task_dbuffer_create_db_ok: "db_ok (task_dbuffer_create junk n) \<and> queued (task_dbuffer_create junk n) = []"
  by (auto simp: db_ok_def task_dbuffer_create_def queued_def less_2_cases_iff)

subsection \<open>Statistics of the last frames\<close>

definition user_time :: "s64 \<times> s64 \<Rightarrow> s64" where "user_time t = snd t - fst t"
definition idle_time :: "s64 \<times> s64 \<Rightarrow> s64" where "idle_time t = fst t + GAME_FRAME_INTERVAL - snd t"

text \<open>\<open>stats_of h s\<close>: the arrays hold the times of the last frames of the history \<open>h\<close>.\<close>

definition stats_of :: "(s64 \<times> s64) list \<Rightarrow> frame_stats \<Rightarrow> bool" where
  "stats_of h s \<longleftrightarrow> length (frame_user_time s) = 31 \<and> length (frame_idle_time s) = 31
     \<and> num_frames s = (if h = [] then 0 else (length h - 1) mod 31 + 1)
     \<and> take (num_frames s) (frame_user_time s) = map user_time (drop (length h - num_frames s) h)
     \<and> take (num_frames s) (frame_idle_time s) = map idle_time (drop (length h - num_frames s) h)"

definition logged_after :: "(s64 \<times> s64) list \<Rightarrow> ((s64 \<times> s64 \<times> s64) \<times> (s64 \<times> s64 \<times> s64)) option" where
  "logged_after h =
     (if h \<noteq> [] \<and> length h mod 31 = 0
      then Some (calc_stats (map user_time (drop (length h - 31) h)), calc_stats (map idle_time (drop (length h - 31) h)))
      else None)"

lemma frame_number:
  assumes "h \<noteq> []"
  shows "(length h - 1) mod 31 + 1 = (31 :: nat) \<longleftrightarrow> length h mod 31 = 0"
    "length h mod 31 \<noteq> 0 \<Longrightarrow> (length h - 1) mod 31 + 1 = length h mod 31" "(length h - 1) mod 31 + 1 \<le> length h"
proof -
  obtain k where k: "length h = Suc k" using assms by (cases h) auto
  have m: "Suc k mod 31 = (if Suc (k mod 31) = 31 then 0 else Suc (k mod 31))" by (rule mod_Suc)
  show "(length h - 1) mod 31 + 1 = (31 :: nat) \<longleftrightarrow> length h mod 31 = 0" unfolding k m by simp
  show "length h mod 31 \<noteq> 0 \<Longrightarrow> (length h - 1) mod 31 + 1 = length h mod 31"
    unfolding k m by (simp split: if_splits)
  show "(length h - 1) mod 31 + 1 \<le> length h" unfolding k by simp
qed

lemma take_update_snoc: "n < length xs \<Longrightarrow> take (Suc n) (xs[n := x]) = take n xs @ [x]"
  by (simp add: take_Suc_conv_app_nth)

lemma frame_statistics_step:
  assumes "stats_of h s"
  shows "\<exists>s'. frame_statistics a b (a + GAME_FRAME_INTERVAL) s = Some (logged_after h, s') \<and> stats_of (h @ [(a, b)]) s'"
proof (cases "h \<noteq> [] \<and> length h mod 31 = 0")
  case True
  then have n: "num_frames s = 31" "31 \<le> length h" using assms frame_number [of h] by (auto simp: stats_of_def)
  have len: "length (frame_user_time s) = 31" "length (frame_idle_time s) = 31" using assms by (simp_all add: stats_of_def)
  let ?s = "s\<lparr>frame_user_time := (frame_user_time s)[0 := b - a],
      frame_idle_time := (frame_idle_time s)[0 := a + GAME_FRAME_INTERVAL - b], num_frames := 1\<rparr>"
  have "frame_statistics a b (a + GAME_FRAME_INTERVAL) s = Some (logged_after h, ?s)"
    using assms True n len by (simp add: frame_statistics_def GAME_MAX_FPS_def logged_after_def stats_of_def)
  moreover have "take 1 ((frame_user_time s)[0 := x]) = [x]" "take 1 ((frame_idle_time s)[0 := x]) = [x]" for x
    using len by (cases "frame_user_time s"; cases "frame_idle_time s"; simp)+
  then have "stats_of (h @ [(a, b)]) ?s" using len True by (simp add: stats_of_def user_time_def idle_time_def)
  ultimately show ?thesis by blast
next
  case False
  let ?n = "num_frames s"
  have n: "?n = length h mod 31" "?n < 31" "?n \<le> length h"
  proof -
    show "?n = length h mod 31" using assms False frame_number(2) [of h] by (auto simp: stats_of_def)
    then show "?n < 31" "?n \<le> length h" by simp_all
  qed
  have len: "length (frame_user_time s) = 31" "length (frame_idle_time s) = 31" using assms by (simp_all add: stats_of_def)
  let ?s = "s\<lparr>frame_user_time := (frame_user_time s)[?n := b - a],
      frame_idle_time := (frame_idle_time s)[?n := a + GAME_FRAME_INTERVAL - b], num_frames := ?n + 1\<rparr>"
  have f: "logged_after h = None" using False by (auto simp: logged_after_def)
  have "frame_statistics a b (a + GAME_FRAME_INTERVAL) s = Some (None, ?s)"
    using n(2) len by (simp add: frame_statistics_def GAME_MAX_FPS_def)
  moreover have "take ?n (frame_user_time s) = map user_time (drop (length h - ?n) h)"
    "take ?n (frame_idle_time s) = map idle_time (drop (length h - ?n) h)" using assms unfolding stats_of_def by - (elim conjE, assumption)+
  then have "stats_of (h @ [(a, b)]) ?s"
    using n(2,3) n(1) [symmetric] len by (simp add: stats_of_def take_update_snoc user_time_def idle_time_def)
  ultimately show ?thesis unfolding f by blast
qed

subsection \<open>The statistics of an array\<close>

lemma sint_add_small:
  assumes "- (2 ^ 63) \<le> sint a + sint b" "sint a + sint b < 2 ^ 63"
  shows "sint (a + b :: s64) = sint a + sint b"
proof -
  have "sint (a + b) = signed_take_bit 63 (sint a + sint b)" by (simp add: sint_word_ariths)
  then show ?thesis using assms by (simp add: signed_take_bit_int_eq_self)
qed

lemma sint_bounds: "- (2 ^ 63) \<le> sint (x :: s64)" "sint (x :: s64) < 2 ^ 63"
  using sint_ge [of x] sint_lt [of x] by simp_all

text \<open>The fold computes the sum, the least and the greatest element.\<close>

lemma fold_stats:
  assumes "\<forall>x \<in> set data. \<bar>sint x\<bar> \<le> 2 ^ 56" "\<bar>sint avg\<bar> \<le> n * 2 ^ 56" "n + int (length data) \<le> 100"
  shows "case fold stats_step data (avg, mn, mx) of (avg', mn', mx') \<Rightarrow>
    sint avg' = sint avg + (\<Sum>x \<leftarrow> data. sint x)
    \<and> sint mn' = Min (insert (sint mn) (sint ` set data)) \<and> (sint mn \<le> sint mx \<longrightarrow> sint mx' = Max (insert (sint mx) (sint ` set data)))"
  using assms
proof (induction data arbitrary: avg mn mx n)
  case (Cons x data)
  let ?mn = "if sint x < sint mn then x else mn"
  let ?mx = "if \<not> sint x < sint mn \<and> sint x > sint mx then x else mx"
  have "0 \<le> n * 2 ^ 56" using Cons.prems(2) by linarith
  then have "0 \<le> n" by simp
  have "n + 1 \<le> 100" using Cons.prems(3) by simp
  then have "(n + 1) * 2 ^ 56 \<le> 100 * 2 ^ 56" by (rule mult_right_mono) simp
  moreover have "\<bar>sint avg + sint x\<bar> \<le> (n + 1) * 2 ^ 56"
    using Cons.prems(1,2) by (auto simp: algebra_simps)
  ultimately have s: "sint (avg + x) = sint avg + sint x" "\<bar>sint (avg + x)\<bar> \<le> (n + 1) * 2 ^ 56"
    by (subst sint_add_small; simp; linarith)+
  obtain avg' mn' mx' where f: "fold stats_step data (avg + x, ?mn, ?mx) = (avg', mn', mx')" by (metis prod.exhaust)
  have ih: "sint avg' = sint (avg + x) + (\<Sum>x \<leftarrow> data. sint x)" "sint mn' = Min (insert (sint ?mn) (sint ` set data))"
    "sint ?mn \<le> sint ?mx \<longrightarrow> sint mx' = Max (insert (sint ?mx) (sint ` set data))"
    using Cons.IH [of "avg + x" "n + 1" ?mn ?mx] Cons.prems s(2) f by simp_all
  have m: "Min (insert (min a b) S) = Min (insert a (insert b S))" "Max (insert (max a b) S) = Max (insert a (insert b S))"
    if "finite S" for a b :: int and S using that by (cases "S = {}"; simp add: min.assoc max.assoc)+
  have "fold stats_step (x # data) (avg, mn, mx) = (avg', mn', mx')" using f by (simp add: stats_step_def del: split_paired_All)
  moreover have "sint avg' = sint avg + (\<Sum>x \<leftarrow> x # data. sint x)" using ih(1) s(1) by simp
  moreover have "sint mn' = Min (insert (sint mn) (sint ` set (x # data)))"
  proof -
    have "sint ?mn = min (sint mn) (sint x)" by (simp add: min_def)
    then show ?thesis using ih(2) m(1) [of "sint ` set data" "sint mn" "sint x"] by simp
  qed
  moreover have "sint mx' = Max (insert (sint mx) (sint ` set (x # data)))" if le: "sint mn \<le> sint mx"
  proof -
    have e: "sint ?mx = max (sint mx) (sint x)" "sint ?mn \<le> sint ?mx" using le by (auto simp: max_def)
    then show ?thesis using ih(3) m(2) [of "sint ` set data" "sint mx" "sint x"] unfolding e(1) by simp
  qed
  ultimately show ?case by (simp only: prod.case) blast
qed simp

lemma sdiv_between:
  fixes s n a b :: int
  assumes "0 < n" "a * n \<le> s" "s \<le> b * n"
  shows "a \<le> s sdiv n \<and> s sdiv n \<le> b"
proof (cases "0 \<le> s")
  case True
  then have "s sdiv n = s div n" using assms(1) by (cases "s = 0") (simp_all add: signed_divide_int_def)
  moreover have "a * n div n \<le> s div n" using assms(1,2) by (intro zdiv_mono1) simp_all
  moreover have "s div n \<le> b * n div n" using assms(1,3) by (intro zdiv_mono1) simp_all
  ultimately show ?thesis using assms(1) by simp
next
  case False
  then have e: "s sdiv n = - ((- s) div n)" using assms(1) by (simp add: signed_divide_int_def)
  have "(- s) div n \<le> (- a) * n div n" using assms(1,2) by (intro zdiv_mono1) simp_all
  moreover have "(- b) * n div n \<le> (- s) div n" using assms(1,3) by (intro zdiv_mono1) simp_all
  moreover have "(- a) * n div n = - a" "(- b) * n div n = - b" using assms(1) by (simp_all only: nonzero_mult_div_cancel_right)
  ultimately show ?thesis unfolding e by linarith
qed

lemma sum_between:
  assumes "\<forall>x \<in> set xs. a \<le> x \<and> x \<le> (b :: int)"
  shows "a * int (length xs) \<le> sum_list xs \<and> sum_list xs \<le> b * int (length xs)"
  using assms by (induction xs) (auto simp: algebra_simps)

lemma game_frame_step:
  assumes "db_ok (gl_tasks s)" "stats_of h (gl_stats s)"
  shows "\<exists>r s'. game_frame a b s = Some (r, s') \<and> fr_ran r = queued (gl_tasks s) \<and> fr_logged r = logged_after h
    \<and> fr_sleep r = (if sint b < sint (a + GAME_FRAME_INTERVAL) then Some (a + GAME_FRAME_INTERVAL - b) else None)
    \<and> gl_server s' = server_exec Server_maintenance (gl_server s)
    \<and> db_ok (gl_tasks s') \<and> queued (gl_tasks s') = [] \<and> stats_of (h @ [(a, b)]) (gl_stats s')"
proof -
  obtain st where st: "frame_statistics a b (a + GAME_FRAME_INTERVAL) (gl_stats s) = Some (logged_after h, st)"
    "stats_of (h @ [(a, b)]) st" using frame_statistics_step [OF assms(2)] by blast
  obtain ran q where q: "swap_and_run (gl_tasks s) = (ran, q)" by fastforce
  show ?thesis using st swap_and_run_queued [OF assms(1)] q by (simp add: game_frame_def Let_def)
qed

lemma game_run_frames:
  assumes "db_ok (gl_tasks s)" "stats_of h (gl_stats s)"
  shows "\<exists>rs s'. game_run ts s = Some (rs, s') \<and> length rs = length ts \<and> (\<forall>i < length ts. fr_logged (rs ! i) = logged_after (h @ take i ts))"
  using assms
proof (induction ts arbitrary: s h)
  case (Cons t ts)
  obtain a b where t: "t = (a, b)" by (cases t)
  obtain r s' where r: "game_frame a b s = Some (r, s')" "fr_logged r = logged_after h" "db_ok (gl_tasks s')"
    "stats_of (h @ [(a, b)]) (gl_stats s')" using game_frame_step [OF Cons.prems, of a b] by blast
  obtain rs s'' where rs: "game_run ts s' = Some (rs, s'')" "length rs = length ts"
    "\<forall>i < length ts. fr_logged (rs ! i) = logged_after ((h @ [(a, b)]) @ take i ts)" using Cons.IH [OF r(3,4)] by blast
  have "fr_logged ((r # rs) ! i) = logged_after (h @ take i (t # ts))" if "i < Suc (length ts)" for i
    using that r(2) rs(3) by (cases i) (simp_all add: t)
  then show ?case using r(1) rs(1,2) by (simp add: t)
qed simp

subsection \<open>Properties\<close>

text \<open>C36: A frame runs exactly the tasks that were queued before it, in order, leaves an empty queue, hands the
  maintenance task to the server, and stalls, if it is early, for the rest of its 33 milliseconds.\<close>

theorem game_frame_functional:
  assumes "db_ok (gl_tasks s)" "stats_of h (gl_stats s)" "\<bar>sint a\<bar> < 2 ^ 61" "\<bar>sint b\<bar> < 2 ^ 61"
  shows "\<exists>r s'. game_frame a b s = Some (r, s') \<and> fr_ran r = queued (gl_tasks s)
    \<and> db_ok (gl_tasks s') \<and> queued (gl_tasks s') = [] \<and> gl_server s' = server_exec Server_maintenance (gl_server s)
    \<and> (case fr_sleep r of None \<Rightarrow> sint a + 33 \<le> sint b
        | Some d \<Rightarrow> 0 < sint d \<and> sint b + sint d = sint a + 33)"
proof -
  have b: "- (2 ^ 61) < sint a" "sint a < 2 ^ 61" "- (2 ^ 61) < sint b" "sint b < 2 ^ 61" using assms(3,4) by (simp_all add: abs_less_iff)
  have a: "sint (a + 33) = sint a + 33" using b by (subst sint_add_small) simp_all
  have d: "sint (a + 33 - b) = sint a + 33 - sint b"
  proof -
    have "sint (c - b) = signed_take_bit 63 (sint c - sint b)" for c :: s64 by (simp add: sint_word_ariths)
    from this [of "a + 33", unfolded a] show ?thesis using b by (simp add: signed_take_bit_int_eq_self)
  qed
  show ?thesis using game_frame_step [OF assms(1,2), of a b] a d unfolding GAME_FRAME_INTERVAL_def by fastforce
qed

text \<open>C37: Any number of frames stores their times inside the two arrays.  Statistics are logged at every 31st frame, of
  the times of exactly the 31 frames before, and of no other.\<close>

theorem game_run_statistics:
  assumes "gl_stats s = frame_stats_start" "db_ok (gl_tasks s)"
  shows "\<exists>rs s'. game_run ts s = Some (rs, s') \<and> length rs = length ts
    \<and> (\<forall>i < length ts. fr_logged (rs ! i) = (if 0 < i \<and> i mod 31 = 0
        then Some (calc_stats (map user_time (drop (i - 31) (take i ts))), calc_stats (map idle_time (drop (i - 31) (take i ts))))
        else None))"
proof -
  have "stats_of [] (gl_stats s)" by (simp add: assms(1) stats_of_def frame_stats_start_def GAME_MAX_FPS_def)
  from game_run_frames [OF assms(2) this, of ts] obtain rs s' where rs: "game_run ts s = Some (rs, s')" "length rs = length ts"
    "\<forall>i < length ts. fr_logged (rs ! i) = logged_after (take i ts)" by auto
  have "logged_after (take i ts) = (if 0 < i \<and> i mod 31 = 0
        then Some (calc_stats (map user_time (drop (i - 31) (take i ts))), calc_stats (map idle_time (drop (i - 31) (take i ts))))
        else None)" if "i < length ts" for i
    using that by (auto simp: logged_after_def)
  then show ?thesis using rs by auto
qed

text \<open>For up to 99 times below \<open>2\<^sup>5\<^sup>6\<close> no sum wraps around: \<^verbatim>\<open>calc_stats\<close> gives the least and the greatest one
  and the mean rounded towards zero, which lies between them.\<close>

theorem calc_stats_bounds:
  assumes "data \<noteq> []" "\<forall>x \<in> set data. \<bar>sint x\<bar> \<le> 2 ^ 56" "length data \<le> 99"
  shows "case calc_stats data of (avg, mn, mx) \<Rightarrow> sint mn = Min (sint ` set data) \<and> sint mx = Max (sint ` set data)
    \<and> sint avg = (\<Sum>x \<leftarrow> data. sint x) sdiv int (length data) \<and> sint mn \<le> sint avg \<and> sint avg \<le> sint mx"
proof -
  obtain x xs where data: "data = x # xs" using assms(1) by (cases data) auto
  obtain s mn mx where f: "fold stats_step xs (x, x, x) = (s, mn, mx)" by (metis prod.exhaust)
  have r: "sint s = (\<Sum>x \<leftarrow> data. sint x)" "sint mn = Min (sint ` set data)" "sint mx = Max (sint ` set data)"
    using fold_stats [of xs x 1 x x] assms(2,3) f unfolding data by simp_all
  let ?n = "int (length data)"
  have n: "0 < ?n" using assms(1) by simp
  have "\<forall>v \<in> set (map sint data). sint mn \<le> v \<and> v \<le> sint mx" unfolding r by simp
  from sum_between [OF this] have avg: "sint mn \<le> sint s sdiv ?n" "sint s sdiv ?n \<le> sint mx"
    using sdiv_between [OF n, of "sint mn" "sint s" "sint mx"] r(1) by simp_all
  have "- (2 ^ 63) \<le> sint s sdiv ?n" "sint s sdiv ?n < 2 ^ 63" using avg sint_bounds [of mn] sint_bounds [of mx] by linarith+
  then have "sint (word_of_int (sint s sdiv ?n) :: s64) = sint s sdiv ?n"
    by (simp add: sint_sbintrunc' signed_take_bit_int_eq_self)
  then show ?thesis using f r avg by (simp add: calc_stats_def data)
qed

text \<open>A queue with one task.\<close>

definition example_loop :: "nat game_loop" where
  "example_loop = \<lparr>gl_tasks = \<lparr>db_active = True, db_write_idx = 0, db_max_tasks = 2, db_count = [1, 0], db_buffer = [[7, 0], [0, 0]]\<rparr>,
     gl_server = server_init, gl_stats = frame_stats_start\<rparr>"

lemma example_loop_ok: "db_ok (gl_tasks example_loop)" "queued (gl_tasks example_loop) = [7]" "stats_of [] (gl_stats example_loop)"
  by (auto simp: example_loop_def db_ok_def queued_def less_2_cases_iff stats_of_def frame_stats_start_def GAME_MAX_FPS_def)

theorem game_frame_functional_witness:
  "\<exists>r s' d. game_frame 100 110 example_loop = Some (r, s') \<and> fr_ran r = [7] \<and> fr_sleep r = Some d \<and> sint d = 23"
  using game_frame_functional [OF example_loop_ok(1,3), of 100 110] example_loop_ok(2)
  by (auto split: option.splits)

theorem game_run_statistics_witness:
  "\<exists>rs s'. game_run (replicate 32 (0, 10)) example_loop = Some (rs, s') \<and> fr_logged (rs ! 31) \<noteq> None \<and> fr_logged (rs ! 30) = None"
proof -
  have "gl_stats example_loop = frame_stats_start" by (simp add: example_loop_def)
  let ?L = "\<lambda>i. Some (calc_stats (map user_time (drop (i - 31) (take i (replicate 32 (0, 10))))),
      calc_stats (map idle_time (drop (i - 31) (take i (replicate 32 (0, 10))))))"
  obtain rs s' where rs: "game_run (replicate 32 (0, 10)) example_loop = Some (rs, s')"
    "\<forall>i < length (replicate 32 (0 :: s64, 10 :: s64)). fr_logged (rs ! i) = (if 0 < i \<and> i mod 31 = 0 then ?L i else None)"
    using game_run_statistics [OF \<open>gl_stats example_loop = frame_stats_start\<close> example_loop_ok(1), of "replicate 32 (0, 10)"] by blast
  have "30 < length (replicate 32 (0 :: s64, 10 :: s64))" "31 < length (replicate 32 (0 :: s64, 10 :: s64))" by simp_all
  then have "fr_logged (rs ! 30) = (if 0 < (30 :: nat) \<and> (30 :: nat) mod 31 = 0 then ?L 30 else None)"
    "fr_logged (rs ! 31) = (if 0 < (31 :: nat) \<and> (31 :: nat) mod 31 = 0 then ?L 31 else None)" using rs(2) by blast+
  moreover have "0 < (31 :: nat) \<and> (31 :: nat) mod 31 = 0" "\<not> (0 < (30 :: nat) \<and> (30 :: nat) mod 31 = 0)" by simp_all
  ultimately have "fr_logged (rs ! 31) = ?L 31" "fr_logged (rs ! 30) = None" by (simp_all only: if_True if_False simp_thms)
  then show ?thesis using rs(1) by (metis option.distinct(1))
qed

theorem calc_stats_bounds_witness: "case calc_stats [3, - 1, 6] of (avg, mn, mx) \<Rightarrow> sint mn \<le> sint avg \<and> sint mx = 6"
proof -
  have "\<forall>x \<in> set [3, - 1, 6 :: s64]. \<bar>sint x\<bar> \<le> 2 ^ 56" by simp
  from calc_stats_bounds [OF _ this] show ?thesis by (auto split: prod.splits)
qed

end
