(* ===== verification/Startup.thy ===== *)
theory Startup
  imports Game
begin

text \<open>
  \<^verbatim>\<open>main\<close> and \<^verbatim>\<open>init_system\<close> of \<^verbatim>\<open>src/src/main.c\<close>: the order in which the parts start, and stop when one of
  them fails.  Whether the initialisation of a part succeeds is an argument; that of the game thread is
  \<^verbatim>\<open>game_init\<close>, and changes the queues the other threads add to.
\<close>

subsection \<open>The code\<close>

datatype startup_event = Inited string | Failed string | Shut string

record ('g, 's) kpl =
  kpl_events :: "startup_event list"
  kpl_game :: "('g, 's) game"

definition system_init :: "(nat \<Rightarrow> 'g) \<Rightarrow> (nat \<Rightarrow> 's) \<Rightarrow> string \<times> bool \<Rightarrow> ('g, 's) kpl \<Rightarrow> bool \<times> ('g, 's) kpl" where
  "system_init junk junk' sys s =
     (if fst sys = ''game'' then (let (ok, g) = game_init junk junk' (kpl_game s) in (ok, s\<lparr>kpl_game := g\<rparr>))
      else (snd sys, s))"

text \<open>\<^verbatim>\<open>exit\<close> calls the functions given to \<^verbatim>\<open>atexit\<close>, the last one first; \<open>handlers\<close> has them in this order.\<close>

definition kpl_exit :: "string list \<Rightarrow> ('g, 's) kpl \<Rightarrow> ('g, 's) kpl" where
  "kpl_exit handlers s = s\<lparr>kpl_events := kpl_events s @ map Shut handlers\<rparr>"

definition init_system ::
  "(nat \<Rightarrow> 'g) \<Rightarrow> (nat \<Rightarrow> 's) \<Rightarrow> string \<times> bool \<Rightarrow> string list \<Rightarrow> ('g, 's) kpl \<Rightarrow> bool \<times> string list \<times> ('g, 's) kpl" where
  "init_system junk junk' sys handlers s =
     (let (ok, s) = system_init junk junk' sys s
      in if \<not> ok then (False, handlers, kpl_exit handlers (s\<lparr>kpl_events := kpl_events s @ [Failed (fst sys)]\<rparr>))
         else (True, fst sys # handlers, s\<lparr>kpl_events := kpl_events s @ [Inited (fst sys)]\<rparr>))"

primrec init_systems ::
  "(nat \<Rightarrow> 'g) \<Rightarrow> (nat \<Rightarrow> 's) \<Rightarrow> (string \<times> bool) list \<Rightarrow> string list \<Rightarrow> ('g, 's) kpl \<Rightarrow> bool \<times> string list \<times> ('g, 's) kpl" where
  "init_systems junk junk' [] handlers s = (True, handlers, s)"
| "init_systems junk junk' (sys # systems) handlers s =
     (let (ok, handlers, s) = init_system junk junk' sys handlers s
      in if \<not> ok then (False, handlers, s) else init_systems junk junk' systems handlers s)"

definition kpl_systems :: "(string \<Rightarrow> bool) \<Rightarrow> (string \<times> bool) list" where
  "kpl_systems ok = map (\<lambda>n. (n, ok n)) [''outbuf'', ''tibia_rsa'', ''database'', ''server'', ''game'']"

definition kpl_main :: "(nat \<Rightarrow> 'g) \<Rightarrow> (nat \<Rightarrow> 's) \<Rightarrow> (string \<Rightarrow> bool) \<Rightarrow> bool \<times> string list \<times> ('g, 's) kpl" where
  "kpl_main junk junk' ok = init_systems junk junk' (kpl_systems ok) [] \<lparr>kpl_events = [], kpl_game = game_start\<rparr>"

subsection \<open>Order\<close>

lemma init_systems_order:
  assumes "\<forall>sys \<in> set systems. fst sys = ''game'' \<longrightarrow> snd sys"
  shows "\<exists>s'. init_systems junk junk' systems handlers s =
      (list_all snd systems, rev (map fst (takeWhile snd systems)) @ handlers, s')
    \<and> kpl_events s' = kpl_events s @ map (Inited \<circ> fst) (takeWhile snd systems)
      @ (case dropWhile snd systems of [] \<Rightarrow> []
         | sys # _ \<Rightarrow> Failed (fst sys) # map Shut (rev (map fst (takeWhile snd systems)) @ handlers))"
  using assms
proof (induction systems arbitrary: handlers s)
  case (Cons sys systems)
  obtain ok s1 where i: "system_init junk junk' sys s = (ok, s1)" by fastforce
  have ok: "ok = snd sys" "kpl_events s1 = kpl_events s" using i Cons.prems
    by (auto simp: system_init_def game_init_def split: if_splits)
  show ?case
  proof (cases ok)
    case True
    let ?s = "s1\<lparr>kpl_events := kpl_events s1 @ [Inited (fst sys)]\<rparr>"
    have "init_systems junk junk' (sys # systems) handlers s = init_systems junk junk' systems (fst sys # handlers) ?s"
      using True by (simp add: init_system_def i)
    then show ?thesis using Cons.IH [of "fst sys # handlers" ?s] Cons.prems True ok by (cases "dropWhile snd systems") (auto simp del: dropWhile_eq_Nil_conv)
  next
    case False
    then show ?thesis using ok by (simp add: init_system_def i kpl_exit_def)
  qed
qed simp

subsection \<open>Properties\<close>

text \<open>The parts start in the order of \<^verbatim>\<open>main\<close> up to the first that fails; those that had started are then shut
  down, each once, in the reverse order.  The queues of the game thread are created last: from the start of the
  server on until then, a task for the server thread dereferences a null queue.\<close>

theorem kpl_main_order:
  assumes "ok ''game''"
  shows "\<exists>s. kpl_main junk junk' ok = (list_all snd (kpl_systems ok), rev (map fst (takeWhile snd (kpl_systems ok))), s)
    \<and> kpl_events s = map (Inited \<circ> fst) (takeWhile snd (kpl_systems ok))
      @ (case dropWhile snd (kpl_systems ok) of [] \<Rightarrow> []
         | sys # _ \<Rightarrow> Failed (fst sys) # map Shut (rev (map fst (takeWhile snd (kpl_systems ok)))))
    \<and> (\<forall>k < 5. \<forall>t. game_add_server_task_queue t (kpl_game (snd (snd
        (init_systems junk junk' (take k (kpl_systems ok)) [] \<lparr>kpl_events = [], kpl_game = game_start\<rparr>)))) = None)"
proof -
  have sys: "\<forall>sys \<in> set (kpl_systems ok). fst sys = ''game'' \<longrightarrow> snd sys" using assms by (simp add: kpl_systems_def)
  have keep: "kpl_game (snd (snd (init_systems junk junk' systems handlers s))) = kpl_game s"
    if "\<forall>sys \<in> set systems. fst sys \<noteq> ''game''" for systems handlers and s :: "('a, 'b) kpl"
    using that by (induction systems arbitrary: handlers s)
      (auto simp: init_system_def system_init_def kpl_exit_def Let_def split: prod.splits)
  have "\<forall>sys \<in> set (take k (kpl_systems ok)). fst sys \<noteq> ''game''" if "k < 5" for k
  proof -
    have "k = 0 \<or> k = 1 \<or> k = 2 \<or> k = 3 \<or> k = 4" using that by auto
    then show ?thesis by (auto simp: kpl_systems_def)
  qed
  from keep [OF this] have "game_add_server_task_queue t (kpl_game (snd (snd
        (init_systems junk junk' (take k (kpl_systems ok)) [] \<lparr>kpl_events = [], kpl_game = game_start\<rparr>)))) = None"
    if "k < 5" for k t using that by (simp add: game_add_server_task_queue_def game_start_def)
  then show ?thesis
    using init_systems_order [OF sys, of junk junk' "[]" "\<lparr>kpl_events = [], kpl_game = game_start\<rparr>"]
    by (cases "dropWhile snd (kpl_systems ok)") (auto simp: kpl_main_def simp del: dropWhile_eq_Nil_conv)
qed

text \<open>A run in which the server does not start.\<close>

theorem kpl_main_order_witness:
  "\<exists>s. kpl_main (\<lambda>_. 0 :: nat) (\<lambda>_. 0 :: nat) (\<lambda>n. n \<noteq> ''server'') = (False, [''database'', ''tibia_rsa'', ''outbuf''], s)
    \<and> kpl_events s = [Inited ''outbuf'', Inited ''tibia_rsa'', Inited ''database'', Failed ''server'',
        Shut ''database'', Shut ''tibia_rsa'', Shut ''outbuf'']"
  using kpl_main_order [of "\<lambda>n. n \<noteq> ''server''" "\<lambda>_. 0" "\<lambda>_. 0"] by (auto simp: kpl_systems_def)

end
