(* ===== verification/Spec2Isabelle.thy ===== *)
theory Spec2Isabelle
  imports Byte_Codec Checksums Xtea Base64 Blowfish C_String Outbuf Task_Rbuffer Task_Dbuffer
    Mem_Arena Protocol_Echo Echo_Server Config Login_Properties Protocol_Game Rbtree_Properties
    Bcrypt Login_Rsa Login_Database Database Startup
begin

text \<open>
  A verification library for Kaplar, a game server in C (\<^verbatim>\<open>src/src\<close>).

  \<^bold>\<open>The program.\<close>  \<^verbatim>\<open>main.c\<close> reads the configuration, sets up its parts and runs the game thread.
  Three threads share the work.  The \<^emph>\<open>server thread\<close> (\<^verbatim>\<open>server/server.c\<close>) waits for completions of
  asynchronous socket operations, accepts connections on the ports of the services
  (\<^verbatim>\<open>iocp_svcmgr.c\<close>), reads their messages into the slots of the connection manager
  (\<^verbatim>\<open>iocp_connmgr.c\<close>) and calls the protocol of each connection.  The \<^emph>\<open>database thread\<close>
  (\<^verbatim>\<open>db/database.c\<close>) runs tasks that query libpq (\<^verbatim>\<open>db/pgsql.c\<close>).  The \<^emph>\<open>game thread\<close> (\<^verbatim>\<open>game.c\<close>)
  runs frames of 33 milliseconds.  They talk through task queues: a ring with backpressure
  (\<^verbatim>\<open>task_rbuffer.c\<close>) to the database, double buffers (\<^verbatim>\<open>task_dbuffer.c\<close>) to the game and back to the
  server, and a mailbox for one task of the server thread.  A login travels through all of them: the
  server thread decrypts and parses it, the database thread resolves it into an output buffer from the
  shared pool, the server thread sends that.

  \<^bold>\<open>Conventions.\<close>  C integers are words of their width, structures are records, enumerations
  datatypes.  A pointer into a buffer is the memory from that pointer to the end of its object, or the
  object and an offset; a pointer to a node or slot is its address or index, \<^verbatim>\<open>NULL\<close> the value
  \<^theory_text>\<open>None\<close>.  Undefined behaviour and aborts are \<^theory_text>\<open>None\<close>, so a theorem that an operation gives
  \<^theory_text>\<open>Some\<close> is a theorem of memory safety; errors the code returns are ordinary values.  Loops are
  structural recursion over what they consume (for bcrypt, the \<open>2 ^ logr\<close> rounds).  The pointer loops
  of the tree may run for ever on a damaged tree and are \<^theory_text>\<open>partial_function (option)\<close>; that they return
  on a tree is part of what is proved.  No definition takes fuel.  Threads are step relations whose
  steps are the critical sections of the code and the waits between them, and invariants are proved
  by induction over all interleavings.

  \<^bold>\<open>What the repository does not hold\<close> is a parameter.  Winsock and the kernel are the records of calls
  \<open>conn_os\<close>, \<open>svc_os\<close> and \<open>iocp_os\<close>: any answer to a call is allowed, a
  completion may come at any time for an operation that was started and only once.  \<^verbatim>\<open>Echo_Server\<close>
  instantiates all of them by a small concrete winsock.  GMP is the record \<open>gmp\<close> under the locale
  \<open>gmp_laws\<close>, interpreted by the integers of HOL.  libpq is the record \<open>libpq\<close>; that rows have the
  columns the queries ask for is the hypothesis \<open>pq_schema\<close>.  The Lua interpreter gives the result of
  the run and of the lookups.  The places where \<^verbatim>\<open>malloc\<close> puts a region, the content of fresh memory,
  readings of the clock and random bytes are arguments.

  \<^bold>\<open>The theories\<close>, from the bottom up.

  \<^item> \<^verbatim>\<open>Prelude\<close>: the word types of \<^verbatim>\<open>common.h\<close>, bounded loads and stores, shared lemmas, and the
    collections \<open>kpl_mem\<close>, \<open>kpl_inv\<close> and \<open>kpl_codec\<close>.
  \<^item> \<^verbatim>\<open>Byte_Codec\<close>: \<^verbatim>\<open>endian.h\<close> and \<^verbatim>\<open>buffer_util.h\<close>.  Locale \<open>word_codec\<close>, interpreted on the six
    codecs; \<open>swapped_codecs\<close> relates the byte orders.  A round trip in each width, and the fast paths
    that reinterpret memory agree with the portable ones.
  \<^item> \<^verbatim>\<open>Checksums\<close>: \<^verbatim>\<open>adler32.c\<close>, \<^verbatim>\<open>murmur2.c\<close>.  The unrolled Adler-32 with deferred reductions equals
    the sums of its definition, without overflow.
  \<^item> \<^verbatim>\<open>Xtea\<close>, \<^verbatim>\<open>Blowfish\<close>, \<^verbatim>\<open>Blowfish_Tables\<close>, \<^verbatim>\<open>Base64\<close>, \<^verbatim>\<open>Bcrypt\<close>, \<^verbatim>\<open>Rsa\<close>, \<^verbatim>\<open>Rsa_Correct\<close>,
    \<^verbatim>\<open>Rsa_Properties\<close>: the files of \<^verbatim>\<open>crypto/\<close> and \<^verbatim>\<open>tibia_rsa.c\<close>.  Locales \<open>block_cipher\<close> and
    \<open>ecb_loop\<close> carry the round trips of both ciphers.  Decoding with the Chinese remainder theorem
    inverts encoding but for leading zeros.  A new password hash checks, and the check is
    characterised on every string.
  \<^item> \<^verbatim>\<open>C_String\<close>, \<^verbatim>\<open>Config\<close>: the string routines of \<^verbatim>\<open>common.c\<close>; the variable table of
    \<^verbatim>\<open>config.c\<close>, filled from defaults, the command line and a Lua file, never accessed out of bounds.
  \<^item> \<^verbatim>\<open>Outbuf\<close>, \<^verbatim>\<open>Mem_Arena\<close>: the pool of output buffers with its writers, and the arena allocator, both
    over an explicit heap.  Locale \<open>buffer_pool\<close>: no buffer is handed out twice or lost; \<open>outbuf_writer\<close>:
    what each writer appends.
  \<^item> \<^verbatim>\<open>Task_Rbuffer\<close>, \<^verbatim>\<open>Task_Dbuffer\<close>: the queues.  Locale \<open>bounded_queue\<close>: the ring refines a list.
    Over all interleavings tasks are kept in order; two ways in which a thread sleeps for ever are
    theorems as well.
  \<^item> \<^verbatim>\<open>Rbtree\<close>, \<^verbatim>\<open>Rbtree_Shape\<close>, \<^verbatim>\<open>Rbtree_Search\<close>, \<^verbatim>\<open>Rbtree_Insert\<close>, \<^verbatim>\<open>Rbtree_Remove\<close>,
    \<^verbatim>\<open>Rbtree_Properties\<close>: \<^verbatim>\<open>rbtree.c\<close> pointer by pointer, and its refinement of trees as values and of
    sorted lists.  Locale \<open>node_order\<close>: what the tree needs of \<^verbatim>\<open>compare\<close>.
  \<^item> \<^verbatim>\<open>Service\<close>, \<^verbatim>\<open>Connmgr\<close>, \<^verbatim>\<open>Connmgr_Inv\<close>: services, and the connection slots with their
    asynchronous reads, writes and closing.  Locale \<open>conn_protocols\<close>: the contract of the protocol
    callbacks, interpreted on the echo and game protocols.  Under it every operation keeps the
    invariant and no event is undefined behaviour, but for a full table.
  \<^item> \<^verbatim>\<open>Svcmgr\<close>, \<^verbatim>\<open>Server\<close>, \<^verbatim>\<open>Echo_Server\<close>: accepting, starting, stopping, the completion loop and the
    server thread (\<^verbatim>\<open>iocp_svcmgr.c\<close>, \<^verbatim>\<open>iocp_server.c\<close>, \<^verbatim>\<open>server.c\<close>).  A ledger of sockets through every
    error path; the loop refines the steps of the connection manager.
  \<^item> \<^verbatim>\<open>Protocol_Echo\<close>, \<^verbatim>\<open>Protocol_Game\<close>, \<^verbatim>\<open>Tibia_Message\<close>, \<^verbatim>\<open>Protocol_Login\<close>, \<^verbatim>\<open>Login_Ownership\<close>,
    \<^verbatim>\<open>Login_Properties\<close>, \<^verbatim>\<open>Login_Rsa\<close>, \<^verbatim>\<open>Login_Database\<close>: the protocols.  The login protocol is
    modelled over the buffers and login infos of all three threads; its properties are who owns them,
    what each request is answered, and where the answer outgrows its buffer.  RSA and the database
    are parameters of the protocol, which the last two theories replace by their models.
  \<^item> \<^verbatim>\<open>Pgsql\<close>, \<^verbatim>\<open>Database\<close>: connection, results and queries; the database thread and its queue, which
    runs every task and ends after a shutdown.
  \<^item> \<^verbatim>\<open>Game\<close>, \<^verbatim>\<open>Startup\<close>: the frames of \<^verbatim>\<open>game.c\<close> with the statistics of the debug build, and the order
    in which \<^verbatim>\<open>main.c\<close> starts the parts and stops them when one fails.

  \<^bold>\<open>Bounds.\<close>  The constants are those of the code: 4096 connections, four services of four protocols,
  output buffers of 16368 bytes, 2048 idle buffers, 256 variables of 128 bytes, 31 frames of statistics.
  Pointers have 64 bits.  The task rings have any power of two as their size, and their counters wrap.

  \<^bold>\<open>Not modelled.\<close>  \<^verbatim>\<open>thread.c\<close> wraps the threads, mutexes and condition variables of the system; what they
  do is in the step relations.  \<^verbatim>\<open>log.c\<close> formats text that nothing reads.  \<^verbatim>\<open>crypto/random.c\<close> and the
  clock, sleep and allocator wrappers of \<^verbatim>\<open>common.c\<close> are single calls to the system.  The codecs of
  floats copy their bits and are those of the integers; the readers of float columns in \<^verbatim>\<open>pgsql.c\<close> are
  not called.  The assertions that only the debug build has are left out.
  \<^verbatim>\<open>server/epoll_server.c\<close> and \<^verbatim>\<open>game1.c\<close> are excluded from every build by \<^verbatim>\<open>#if 0\<close>, \<^verbatim>\<open>otdata.c\<close> is one
  comment and \<^verbatim>\<open>player.c\<close> is empty.  The files of \<^verbatim>\<open>test/\<close> are drivers of the routines above.
\<close>

end
